(* ===== verification/Prelude.thy ===== *)
theory Prelude
  imports Complex_Main "HOL-Library.Word" "HOL-Library.AList" "HOL-Library.Multiset"
    "HOL-Library.List_Lexorder" "HOL-Library.Char_ord"
begin

text \<open>
  What the components share: the Go types the program uses (64-bit counters, instants and
  durations, maps, buffered channels), with the lemmas the component proofs rest on.

  \<^item> An unsigned counter (\<open>atomic.Uint64\<close>, \<open>uint64\<close>) is a \<open>64 word\<close>: \<open>+\<close> wraps.
  \<^item> A \<open>time.Time\<close> is an \<open>int\<close>, the nanoseconds since Go's zero time (January 1, year 1,
    UTC), so that \<open>IsZero\<close> is equality with 0. A \<open>time.Duration\<close> is an \<open>int\<close> in the
    64-bit signed range; operations that can leave the range wrap (\<open>wrap64\<close>) or saturate
    (\<open>time_sub\<close>) as Go's do.
  \<^item> A Go map is an association list with distinct keys. Go leaves the iteration order
    open; the order of the list is one such order, and the theorems hold for all of them.
  \<^item> A buffered channel is its queue and its capacity. A non-blocking send
    (\<open>select\<close> with \<open>default\<close>) succeeds exactly when the buffer has room.
\<close>

section \<open>Collections of facts\<close>

named_theorems go_map_simps "lookup, membership and size of Go maps"
named_theorems chan_simps "non-blocking sends and receives"
named_theorems frame_simps "fields an operation leaves alone"

section \<open>Integers and time\<close>

type_synonym u64 = "64 word"
type_synonym u32 = "32 word"
type_synonym time = int
type_synonym duration = int

abbreviation (input) millisecond :: duration where "millisecond \<equiv> 1000000"
abbreviation (input) second :: duration where "second \<equiv> 1000000000"
abbreviation (input) minute :: duration where "minute \<equiv> 60000000000"

definition max_int64 :: int where "max_int64 = 2 ^ 63 - 1"

definition min_int64 :: int where "min_int64 = - (2 ^ 63)"

definition wrap64 :: "int \<Rightarrow> int" where
  "wrap64 x = (x + 2 ^ 63) mod 2 ^ 64 - 2 ^ 63"

definition time_sub :: "time \<Rightarrow> time \<Rightarrow> duration" where
  \<comment> \<open>\<open>t.Sub(u)\<close>: the difference, saturated to the range of a duration.\<close>
  "time_sub t u = max min_int64 (min max_int64 (t - u))"

definition is_zero :: "time \<Rightarrow> bool" where
  "is_zero t \<longleftrightarrow> t = 0"

definition time_truncate :: "time \<Rightarrow> duration \<Rightarrow> time" where
  \<comment> \<open>\<open>t.Truncate(d)\<close>: down to a multiple of \<open>d\<close> since the zero time.\<close>
  "time_truncate t d = (if d \<le> 0 then t else t - t mod d)"

lemma wrap64_id: "min_int64 \<le> x \<Longrightarrow> x \<le> max_int64 \<Longrightarrow> wrap64 x = x"
  by (simp add: wrap64_def min_int64_def max_int64_def)

lemma wrap64_range: "min_int64 \<le> wrap64 x" "wrap64 x \<le> max_int64"
  using pos_mod_bound [of "2 ^ 64" "x + 2 ^ 63"] pos_mod_sign [of "2 ^ 64" "x + 2 ^ 63"]
  by (simp_all add: wrap64_def min_int64_def max_int64_def)

lemma time_sub_pos: "0 < time_sub t u \<longleftrightarrow> u < t"
  by (auto simp: time_sub_def min_int64_def max_int64_def)

lemma time_sub_nonneg: "0 \<le> time_sub t u \<longleftrightarrow> u \<le> t"
  by (auto simp: time_sub_def min_int64_def max_int64_def)

lemma time_sub_self [simp]: "time_sub t t = 0"
  by (simp add: time_sub_def min_int64_def max_int64_def)

lemma time_truncate_bounds:
  assumes "0 < d"
  shows "time_truncate t d \<le> t" "t < time_truncate t d + d"
  using pos_mod_sign [OF assms, of t] pos_mod_bound [OF assms, of t] assms
  by (simp_all add: time_truncate_def)

lemma time_truncate_dvd: "0 < d \<Longrightarrow> d dvd time_truncate t d"
  by (simp add: time_truncate_def dvd_minus_mod)

section \<open>Go maps\<close>

type_synonym ('k, 'v) gomap = "('k \<times> 'v) list"

definition gm_get :: "'v \<Rightarrow> ('k, 'v) gomap \<Rightarrow> 'k \<Rightarrow> 'v" where
  \<comment> \<open>\<open>m[k]\<close> of a missing key is the zero value of the element type.\<close>
  "gm_get z m k = (case map_of m k of None \<Rightarrow> z | Some v \<Rightarrow> v)"

definition gm_has :: "('k, 'v) gomap \<Rightarrow> 'k \<Rightarrow> bool" where
  "gm_has m k \<longleftrightarrow> map_of m k \<noteq> None"

definition gm_wf :: "('k, 'v) gomap \<Rightarrow> bool" where
  "gm_wf m \<longleftrightarrow> distinct (map fst m)"

lemma gm_get_update [go_map_simps]:
  "gm_get z (AList.update k v m) k' = (if k' = k then v else gm_get z m k')"
  by (simp add: gm_get_def update_conv')

lemma gm_get_delete [go_map_simps]:
  "gm_get z (AList.delete k m) k' = (if k' = k then z else gm_get z m k')"
  by (simp add: gm_get_def delete_conv')

lemma gm_has_update [go_map_simps]:
  "gm_has (AList.update k v m) k' \<longleftrightarrow> k' = k \<or> gm_has m k'"
  by (simp add: gm_has_def update_conv')

lemma gm_has_delete [go_map_simps]:
  "gm_has (AList.delete k m) k' \<longleftrightarrow> k' \<noteq> k \<and> gm_has m k'"
  by (simp add: gm_has_def delete_conv')

lemma gm_get_Nil [simp]: "gm_get z [] k = z"
  by (simp add: gm_get_def)

lemma gm_has_Nil [simp]: "\<not> gm_has [] k"
  by (simp add: gm_has_def)

lemma gm_get_no_key: "\<not> gm_has m k \<Longrightarrow> gm_get z m k = z"
  by (simp add: gm_has_def gm_get_def)

lemma gm_wf_Nil [simp]: "gm_wf []"
  by (simp add: gm_wf_def)

lemma gm_wf_update [simp, intro]: "gm_wf m \<Longrightarrow> gm_wf (AList.update k v m)"
  by (simp add: gm_wf_def distinct_update)

lemma gm_wf_delete [simp, intro]: "gm_wf m \<Longrightarrow> gm_wf (AList.delete k m)"
  by (simp add: gm_wf_def distinct_delete)

lemma gm_wf_filter [simp, intro]: "gm_wf m \<Longrightarrow> gm_wf (filter P m)"
  by (simp add: gm_wf_def distinct_map_filter)

lemma gm_has_iff: "gm_has m k \<longleftrightarrow> k \<in> fst ` set m"
  by (simp add: gm_has_def map_of_eq_None_iff)

lemma map_of_filter_value:
  "gm_wf m \<Longrightarrow> map_of (filter (\<lambda>(k, v). P v) m) k =
     (case map_of m k of None \<Rightarrow> None | Some v \<Rightarrow> if P v then Some v else None)"
proof (induction m)
  case Nil
  then show ?case by simp
next
  case (Cons kv m)
  obtain k' v where kv: "kv = (k', v)" by fastforce
  have "k' \<notin> fst ` set m" and wf: "gm_wf m" using Cons.prems by (auto simp: gm_wf_def kv)
  then have "map_of (filter (\<lambda>(k, v). P v) m) k' = None" "map_of m k' = None"
    by (auto simp: map_of_eq_None_iff)
  then show ?case using Cons.IH [OF wf] by (auto simp: kv)
qed

section \<open>Buffered channels\<close>

record 'a chan =
  chan_buf :: "'a list"
  chan_cap :: nat

definition make_chan :: "nat \<Rightarrow> 'a chan" where
  "make_chan n = \<lparr>chan_buf = [], chan_cap = n\<rparr>"

definition try_send :: "'a chan \<Rightarrow> 'a \<Rightarrow> 'a chan option" where
  "try_send ch x =
     (if length (chan_buf ch) < chan_cap ch
      then Some (ch\<lparr>chan_buf := chan_buf ch @ [x]\<rparr>) else None)"

fun chan_recv :: "'a chan \<Rightarrow> ('a \<times> 'a chan) option" where
  "chan_recv ch =
     (case chan_buf ch of [] \<Rightarrow> None | x # xs \<Rightarrow> Some (x, ch\<lparr>chan_buf := xs\<rparr>))"

definition chan_wf :: "'a chan \<Rightarrow> bool" where
  "chan_wf ch \<longleftrightarrow> length (chan_buf ch) \<le> chan_cap ch"

lemma try_send_Some [chan_simps]:
  "try_send ch x = Some ch' \<longleftrightarrow>
     length (chan_buf ch) < chan_cap ch \<and> ch' = ch\<lparr>chan_buf := chan_buf ch @ [x]\<rparr>"
  by (auto simp: try_send_def)

lemma try_send_None [chan_simps]:
  "try_send ch x = None \<longleftrightarrow> chan_cap ch \<le> length (chan_buf ch)"
  by (auto simp: try_send_def)

lemma chan_wf_make [simp]: "chan_wf (make_chan n)"
  by (simp add: chan_wf_def make_chan_def)

lemma chan_wf_send: "chan_wf ch \<Longrightarrow> try_send ch x = Some ch' \<Longrightarrow> chan_wf ch'"
  by (auto simp: chan_wf_def try_send_Some)

section \<open>Runs and simulations\<close>

text \<open>
  A component is driven by a list of calls. \<open>outputs\<close> is what the calls return, one after
  another, and \<open>final\<close> the state after them. A \<open>simulation\<close> is the contract between an
  implementation and its specification: related states stay related and answer alike, as
  long as every call is \<open>enabled\<close> (a clock that does not go back, say). The consequence,
  that whole runs answer alike, is proved once.
\<close>

fun outputs :: "('x \<Rightarrow> 's \<Rightarrow> 's \<times> 'r) \<Rightarrow> 'x list \<Rightarrow> 's \<Rightarrow> 'r list" where
  "outputs f [] s = []"
| "outputs f (x # xs) s = snd (f x s) # outputs f xs (fst (f x s))"

fun final :: "('x \<Rightarrow> 's \<Rightarrow> 's \<times> 'r) \<Rightarrow> 'x list \<Rightarrow> 's \<Rightarrow> 's" where
  "final f [] s = s"
| "final f (x # xs) s = final f xs (fst (f x s))"

fun enabled_run :: "('x \<Rightarrow> 's \<Rightarrow> 's \<times> 'r) \<Rightarrow> ('x \<Rightarrow> 's \<Rightarrow> bool) \<Rightarrow> 'x list \<Rightarrow> 's \<Rightarrow> bool" where
  "enabled_run f ok [] s = True"
| "enabled_run f ok (x # xs) s = (ok x s \<and> enabled_run f ok xs (fst (f x s)))"

lemma length_outputs [simp]: "length (outputs f xs s) = length xs"
  by (induction xs arbitrary: s) auto

lemma final_append: "final f (xs @ ys) s = final f ys (final f xs s)"
  by (induction xs arbitrary: s) auto

lemma outputs_append: "outputs f (xs @ ys) s = outputs f xs s @ outputs f ys (final f xs s)"
  by (induction xs arbitrary: s) auto

locale simulation =
  fixes cstep :: "'x \<Rightarrow> 'c \<Rightarrow> 'c \<times> 'r"
    and astep :: "'x \<Rightarrow> 'a \<Rightarrow> 'a \<times> 'r"
    and rel :: "'c \<Rightarrow> 'a \<Rightarrow> bool"
    and enabled :: "'x \<Rightarrow> 'c \<Rightarrow> bool"
  assumes sim_answer: "rel c a \<Longrightarrow> enabled x c \<Longrightarrow> snd (cstep x c) = snd (astep x a)"
    and sim_state: "rel c a \<Longrightarrow> enabled x c \<Longrightarrow> rel (fst (cstep x c)) (fst (astep x a))"
begin

lemma run_answers: "rel c a \<Longrightarrow> enabled_run cstep enabled xs c \<Longrightarrow> outputs cstep xs c = outputs astep xs a"
  by (induction xs arbitrary: c a) (auto simp: sim_answer sim_state)

lemma run_related: "rel c a \<Longrightarrow> enabled_run cstep enabled xs c \<Longrightarrow> rel (final cstep xs c) (final astep xs a)"
  by (induction xs arbitrary: c a) (auto simp: sim_answer sim_state)

end

end
