(* ===== verification/Breaker.thy ===== *)
theory Breaker
  imports Prelude
begin

text \<open>
  The circuit breaker of \<open>v10/internal/resilience/breaker.go\<close>. Every method runs under
  \<open>b.mu\<close>, so each is one atomic step of the breaker's state; an \<open>Execute\<close> is two such
  steps (\<open>allow\<close>, \<open>complete\<close>) with the operation in between, and the calls of other
  goroutines interleave there. \<open>breaker_step\<close> is that system: a breaker and the permits
  of the operations in flight. \<open>b.now()\<close> is an argument.
\<close>

section \<open>State\<close>

datatype cb_state = StateClosed | StateOpen | StateHalfOpen

record cb_config =
  failure_threshold :: int
  open_timeout :: duration

definition default_cb_config :: cb_config where
  "default_cb_config = \<lparr>failure_threshold = 3, open_timeout = 5 * second\<rparr>"

record breaker =
  cb_config :: cb_config
  cb_state :: cb_state
  consecutive_failures :: int
  open_until :: time
  probe_in_flight :: bool
  cb_opened :: u64
  cb_rejected :: u64
  cb_recoveries :: u64
  cb_generation :: u64

record permit =
  permit_state :: cb_state
  permit_generation :: u64

record cb_snapshot =
  snap_state :: cb_state
  snap_consecutive_failures :: int
  snap_opened :: u64
  snap_rejected :: u64
  snap_recoveries :: u64

section \<open>Operations\<close>

definition new_circuit_breaker :: "cb_config \<Rightarrow> breaker" where
  "new_circuit_breaker config =
     (let config = (if failure_threshold config \<le> 0
                    then config\<lparr>failure_threshold := failure_threshold default_cb_config\<rparr> else config);
          config = (if open_timeout config \<le> 0
                    then config\<lparr>open_timeout := open_timeout default_cb_config\<rparr> else config)
      in \<lparr>cb_config = config, cb_state = StateClosed, consecutive_failures = 0, open_until = 0,
          probe_in_flight = False, cb_opened = 0, cb_rejected = 0, cb_recoveries = 0,
          cb_generation = 0\<rparr>)"

definition cb_snapshot_of :: "breaker \<Rightarrow> cb_snapshot" where
  "cb_snapshot_of b =
     \<lparr>snap_state = cb_state b, snap_consecutive_failures = consecutive_failures b,
      snap_opened = cb_opened b, snap_rejected = cb_rejected b,
      snap_recoveries = cb_recoveries b\<rparr>"

definition cb_allow :: "time \<Rightarrow> breaker \<Rightarrow> breaker \<times> permit option" where
  "cb_allow now b =
     (case cb_state b of
        StateClosed \<Rightarrow>
          (b, Some \<lparr>permit_state = StateClosed, permit_generation = cb_generation b\<rparr>)
      | StateOpen \<Rightarrow>
          if now < open_until b then (b\<lparr>cb_rejected := cb_rejected b + 1\<rparr>, None)
          else (b\<lparr>cb_state := StateHalfOpen, probe_in_flight := True\<rparr>,
                Some \<lparr>permit_state = StateHalfOpen, permit_generation = cb_generation b\<rparr>)
      | StateHalfOpen \<Rightarrow>
          if probe_in_flight b then (b\<lparr>cb_rejected := cb_rejected b + 1\<rparr>, None)
          else (b\<lparr>probe_in_flight := True\<rparr>,
                Some \<lparr>permit_state = StateHalfOpen, permit_generation = cb_generation b\<rparr>))"

definition cb_open :: "time \<Rightarrow> breaker \<Rightarrow> breaker" where
  "cb_open now b =
     b\<lparr>cb_state := StateOpen, probe_in_flight := False,
       open_until := now + open_timeout (cb_config b),
       cb_opened := cb_opened b + 1, cb_generation := cb_generation b + 1\<rparr>"

definition cb_complete :: "time \<Rightarrow> permit \<Rightarrow> bool \<Rightarrow> breaker \<Rightarrow> breaker" where
  "cb_complete now p success b =
     (if permit_generation p \<noteq> cb_generation b \<or> permit_state p \<noteq> cb_state b then b
      else if permit_state p = StateHalfOpen then
        (let b = b\<lparr>probe_in_flight := False\<rparr>
         in if success
            then b\<lparr>cb_state := StateClosed, consecutive_failures := 0,
                   cb_recoveries := cb_recoveries b + 1\<rparr>
            else cb_open now b)
      else if success then b\<lparr>consecutive_failures := 0\<rparr>
      else (let b = b\<lparr>consecutive_failures := consecutive_failures b + 1\<rparr>
            in if consecutive_failures b \<ge> failure_threshold (cb_config b)
               then cb_open now b else b))"

text \<open>
  What the protected operation does: return nil, return an error, or panic. \<open>Execute\<close>
  completes the permit as a failure before it lets a panic go on.
\<close>

datatype 'e op_outcome = Op_ok | Op_err 'e | Op_panic

datatype 'e exec_result = Exec_ok | Exec_circuit_open | Exec_err 'e | Exec_panic

definition cb_execute :: "time \<Rightarrow> time \<Rightarrow> 'e op_outcome \<Rightarrow> breaker \<Rightarrow> breaker \<times> 'e exec_result" where
  \<comment> \<open>\<open>Execute\<close> with no other call in between: \<open>t0\<close> is the clock at \<open>allow\<close>, \<open>t1\<close> at
     \<open>complete\<close>.\<close>
  "cb_execute t0 t1 op b =
     (case cb_allow t0 b of
        (b, None) \<Rightarrow> (b, Exec_circuit_open)
      | (b, Some p) \<Rightarrow>
          (case op of
             Op_panic \<Rightarrow> (cb_complete t1 p False b, Exec_panic)
           | Op_ok \<Rightarrow> (cb_complete t1 p True b, Exec_ok)
           | Op_err e \<Rightarrow> (cb_complete t1 p False b, Exec_err e)))"

fun cb_failures :: "nat \<Rightarrow> time \<Rightarrow> breaker \<Rightarrow> breaker" where
  \<comment> \<open>\<open>n\<close> failing calls one after another, at instant \<open>t\<close>.\<close>
  "cb_failures 0 t b = b"
| "cb_failures (Suc n) t b = cb_failures n t (fst (cb_execute t t (Op_err ()) b))"

section \<open>Concurrent calls\<close>

record cb_sys =
  sys_breaker :: breaker
  sys_flight :: "permit multiset"

inductive breaker_step :: "cb_sys \<Rightarrow> cb_sys \<Rightarrow> bool" where
  call_admitted:
    "cb_allow t (sys_breaker s) = (b, Some p) \<Longrightarrow>
     breaker_step s (s\<lparr>sys_breaker := b, sys_flight := add_mset p (sys_flight s)\<rparr>)"
| call_rejected:
    "cb_allow t (sys_breaker s) = (b, None) \<Longrightarrow> breaker_step s (s\<lparr>sys_breaker := b\<rparr>)"
| call_completed:
    "p \<in># sys_flight s \<Longrightarrow>
     breaker_step s (s\<lparr>sys_breaker := cb_complete t p ok (sys_breaker s),
                       sys_flight := sys_flight s - {#p#}\<rparr>)"

inductive breaker_reachable :: "cb_config \<Rightarrow> cb_sys \<Rightarrow> bool" for config where
  start: "breaker_reachable config
            \<lparr>sys_breaker = new_circuit_breaker config, sys_flight = {#}\<rparr>"
| step: "breaker_reachable config s \<Longrightarrow> breaker_step s s' \<Longrightarrow> breaker_reachable config s'"

inductive_cases breaker_stepE: "breaker_step s s'"

definition probes :: "cb_sys \<Rightarrow> permit multiset" where
  "probes s = {# p \<in># sys_flight s. permit_state p = StateHalfOpen #}"

definition breaker_wf :: "breaker \<Rightarrow> bool" where
  "breaker_wf b \<longleftrightarrow>
     0 < failure_threshold (cb_config b) \<and> 0 < open_timeout (cb_config b) \<and>
     0 \<le> consecutive_failures b \<and>
     consecutive_failures b \<le> failure_threshold (cb_config b) \<and>
     (cb_state b = StateClosed \<longrightarrow>
        consecutive_failures b < failure_threshold (cb_config b)) \<and>
     (probe_in_flight b \<longleftrightarrow> cb_state b = StateHalfOpen)"

definition probe_inv :: "cb_sys \<Rightarrow> bool" where
  \<comment> \<open>The breaker is half-open exactly while one probe is in flight, and that probe carries
     the current generation.\<close>
  "probe_inv s \<longleftrightarrow>
     probes s = (if cb_state (sys_breaker s) = StateHalfOpen
                 then {#\<lparr>permit_state = StateHalfOpen,
                         permit_generation = cb_generation (sys_breaker s)\<rparr>#}
                 else {#})"

section \<open>Lemmas\<close>

lemmas cb_defs = cb_allow_def cb_complete_def cb_open_def

lemma new_breaker_wf: "breaker_wf (new_circuit_breaker config)"
  by (simp add: breaker_wf_def new_circuit_breaker_def default_cb_config_def Let_def)

lemma cb_config_allow [frame_simps]: "cb_config (fst (cb_allow t b)) = cb_config b"
  by (simp add: cb_allow_def split: cb_state.split)

lemma cb_config_complete [frame_simps]: "cb_config (cb_complete t p ok b) = cb_config b"
  by (simp add: cb_complete_def cb_open_def Let_def)

lemma cb_allow_wf: "breaker_wf b \<Longrightarrow> breaker_wf (fst (cb_allow t b))"
  by (auto simp: breaker_wf_def cb_allow_def split: cb_state.split)

lemma cb_complete_wf:
  "breaker_wf b \<Longrightarrow> permit_state p \<noteq> StateOpen \<Longrightarrow> breaker_wf (cb_complete t p ok b)"
  by (cases "permit_state p") (auto simp: breaker_wf_def cb_complete_def cb_open_def Let_def)

lemma cb_allow_permit:
  "cb_allow t b = (b', Some p) \<Longrightarrow>
     permit_state p = cb_state b' \<and> permit_generation p = cb_generation b' \<and>
     cb_state b' \<noteq> StateOpen \<and> cb_generation b' = cb_generation b"
  by (auto simp: cb_allow_def split: cb_state.splits if_splits)

lemma cb_allow_rejected:
  "cb_allow t b = (b', None) \<Longrightarrow> b' = b\<lparr>cb_rejected := cb_rejected b + 1\<rparr>"
  by (auto simp: cb_allow_def split: cb_state.splits if_splits)

definition sys_wf :: "cb_sys \<Rightarrow> bool" where
  "sys_wf s \<longleftrightarrow> breaker_wf (sys_breaker s) \<and> probe_inv s \<and>
     (\<forall>p \<in># sys_flight s. permit_state p \<noteq> StateOpen)"

lemma admitted_sys_wf:
  assumes "sys_wf s" "cb_allow t (sys_breaker s) = (b, Some p)"
  shows "sys_wf (s\<lparr>sys_breaker := b, sys_flight := add_mset p (sys_flight s)\<rparr>)"
proof -
  have "breaker_wf b" using cb_allow_wf [of "sys_breaker s" t] assms by (simp add: sys_wf_def)
  moreover have "permit_state p \<noteq> StateOpen" using cb_allow_permit [OF assms(2)] by simp
  moreover have "probe_inv (s\<lparr>sys_breaker := b, sys_flight := add_mset p (sys_flight s)\<rparr>)"
    using assms
    by (auto simp: sys_wf_def probe_inv_def probes_def cb_allow_def breaker_wf_def
        split: cb_state.splits if_splits)
  ultimately show ?thesis using assms(1) by (simp add: sys_wf_def)
qed

lemma completed_probes:
  "p \<in># sys_flight s \<Longrightarrow>
   probes (s\<lparr>sys_breaker := b, sys_flight := sys_flight s - {#p#}\<rparr>) =
     (if permit_state p = StateHalfOpen then probes s - {#p#} else probes s)"
  by (auto simp: probes_def)

lemma completed_sys_wf:
  assumes wf: "sys_wf s" and p: "p \<in># sys_flight s"
  shows "sys_wf (s\<lparr>sys_breaker := cb_complete t p ok (sys_breaker s),
                   sys_flight := sys_flight s - {#p#}\<rparr>)"
proof -
  let ?b = "sys_breaker s"
  have popen: "permit_state p \<noteq> StateOpen" using wf p by (simp add: sys_wf_def)
  have probe: "permit_state p = StateHalfOpen \<Longrightarrow>
      cb_state ?b = StateHalfOpen \<and> permit_generation p = cb_generation ?b \<and> probes s = {#p#}"
  proof -
    assume h: "permit_state p = StateHalfOpen"
    then have "p \<in># probes s" using p by (simp add: probes_def)
    then show ?thesis using wf by (auto simp: sys_wf_def probe_inv_def split: if_splits)
  qed
  have "probe_inv (s\<lparr>sys_breaker := cb_complete t p ok ?b, sys_flight := sys_flight s - {#p#}\<rparr>)"
  proof (cases "permit_state p = StateHalfOpen")
    case True
    then show ?thesis using probe [OF True]
      by (simp add: probe_inv_def completed_probes [OF p] cb_complete_def cb_open_def Let_def)
  next
    case False
    then show ?thesis using wf popen
      by (cases "permit_state p")
        (auto simp: sys_wf_def probe_inv_def completed_probes [OF p] cb_complete_def cb_open_def Let_def)
  qed
  then show ?thesis using wf popen cb_complete_wf [of ?b p t ok]
    by (auto simp: sys_wf_def dest: in_diffD)
qed

lemma breaker_step_wf: "breaker_step s s' \<Longrightarrow> sys_wf s \<Longrightarrow> sys_wf s'"
proof (induction rule: breaker_step.induct)
  case (call_admitted t s b p)
  then show ?case by (blast intro: admitted_sys_wf)
next
  case (call_rejected t s b)
  then show ?case
    using cb_allow_rejected [OF call_rejected(1)]
    by (simp add: sys_wf_def breaker_wf_def probe_inv_def probes_def)
next
  case (call_completed p s t ok)
  then show ?case by (blast intro: completed_sys_wf)
qed

lemma reachable_sys_wf: "breaker_reachable config s \<Longrightarrow> sys_wf s"
proof (induction rule: breaker_reachable.induct)
  case start
  show ?case
    using new_breaker_wf [of config]
    by (simp add: sys_wf_def probe_inv_def probes_def new_circuit_breaker_def Let_def)
next
  case (step s s')
  then show ?case by (blast intro: breaker_step_wf)
qed


section \<open>Runs of sequential calls\<close>

lemma execute_failure_closed:
  assumes "cb_state b = StateClosed"
  shows "fst (cb_execute t t (Op_err e) b) =
     (let b = b\<lparr>consecutive_failures := consecutive_failures b + 1\<rparr>
      in if consecutive_failures b \<ge> failure_threshold (cb_config b) then cb_open t b else b)"
  using assms by (simp add: cb_execute_def cb_allow_def cb_complete_def Let_def)

lemma execute_open_rejected:
  "cb_state b = StateOpen \<Longrightarrow> t0 < open_until b \<Longrightarrow>
   cb_execute t0 t1 op b = (b\<lparr>cb_rejected := cb_rejected b + 1\<rparr>, Exec_circuit_open)"
  by (simp add: cb_execute_def cb_allow_def)

lemma failures_stay_open:
  "cb_state b = StateOpen \<Longrightarrow> t < open_until b \<Longrightarrow> cb_state (cb_failures n t b) = StateOpen"
  by (induction n arbitrary: b) (simp_all add: execute_open_rejected)

lemma failures_closed:
  assumes "breaker_wf b" "cb_state b = StateClosed"
  shows "cb_state (cb_failures n t b) =
     (if failure_threshold (cb_config b) \<le> consecutive_failures b + int n
      then StateOpen else StateClosed)"
  using assms
proof (induction n arbitrary: b)
  case 0
  then show ?case by (simp add: breaker_wf_def)
next
  case (Suc n)
  let ?b = "fst (cb_execute t t (Op_err ()) b)"
  have b: "?b = (if failure_threshold (cb_config b) \<le> consecutive_failures b + 1
      then cb_open t (b\<lparr>consecutive_failures := consecutive_failures b + 1\<rparr>)
      else b\<lparr>consecutive_failures := consecutive_failures b + 1\<rparr>)"
    using execute_failure_closed [OF Suc.prems(2), of t "()"] by (simp add: Let_def)
  show ?case
  proof (cases "failure_threshold (cb_config b) \<le> consecutive_failures b + 1")
    case True
    then have "cb_state ?b = StateOpen" "t < open_until ?b"
      using Suc.prems by (simp_all add: b cb_open_def breaker_wf_def)
    then show ?thesis using True by (simp add: failures_stay_open)
  next
    case False
    then have "breaker_wf ?b" "cb_state ?b = StateClosed"
      using Suc.prems by (simp_all add: b breaker_wf_def)
    from Suc.IH [OF this] False show ?thesis by (simp add: b algebra_simps)
  qed
qed

section \<open>Properties\<close>

text \<open>C5: In every state the concurrent calls can reach, at most one recovery probe is in
  flight; there is one exactly when the breaker is half-open, and then every other call is
  rejected at any time.\<close>

theorem single_recovery_probe:
  assumes "breaker_reachable config s"
  shows "size (probes s) = (if cb_state (sys_breaker s) = StateHalfOpen then 1 else 0) \<and>
    (cb_state (sys_breaker s) = StateHalfOpen \<longrightarrow>
       (\<forall>t. snd (cb_allow t (sys_breaker s)) = None))"
  using reachable_sys_wf [OF assms]
  by (auto simp: sys_wf_def probe_inv_def breaker_wf_def cb_allow_def)

definition tripped_sys :: cb_sys where
  \<comment> \<open>threshold 1: a first call has failed at instant 0, a second one is the probe.\<close>
  "tripped_sys =
     (let c = \<lparr>failure_threshold = 1, open_timeout = 5\<rparr>;
          b = cb_complete 0 \<lparr>permit_state = StateClosed, permit_generation = 0\<rparr> False
                (new_circuit_breaker c)
      in \<lparr>sys_breaker = fst (cb_allow 7 b),
          sys_flight = {#\<lparr>permit_state = StateHalfOpen, permit_generation = 1\<rparr>#}\<rparr>)"

lemmas cb_eval = cb_complete_def cb_open_def new_circuit_breaker_def cb_allow_def Let_def

lemma tripped_sys_reachable:
  "breaker_reachable \<lparr>failure_threshold = 1, open_timeout = 5\<rparr> tripped_sys"
proof -
  let ?c = "\<lparr>failure_threshold = 1, open_timeout = 5\<rparr>"
  let ?p = "\<lparr>permit_state = StateClosed, permit_generation = 0\<rparr>"
  let ?b0 = "new_circuit_breaker ?c"
  let ?s1 = "\<lparr>sys_breaker = ?b0, sys_flight = {#?p#}\<rparr>"
  let ?s2 = "\<lparr>sys_breaker = cb_complete 0 ?p False ?b0, sys_flight = {#}\<rparr>"
  have "breaker_reachable ?c \<lparr>sys_breaker = ?b0, sys_flight = {#}\<rparr>"
    by (rule breaker_reachable.start)
  moreover have "breaker_step \<lparr>sys_breaker = ?b0, sys_flight = {#}\<rparr> ?s1"
    using breaker_step.call_admitted [of 0 "\<lparr>sys_breaker = ?b0, sys_flight = {#}\<rparr>" ?b0 ?p]
    by (simp add: cb_eval)
  moreover have "breaker_step ?s1 ?s2"
    using breaker_step.call_completed [of ?p ?s1 0 False] by simp
  moreover have "breaker_step ?s2 tripped_sys"
    using breaker_step.call_admitted [of 7 ?s2 "sys_breaker tripped_sys"
        "\<lparr>permit_state = StateHalfOpen, permit_generation = 1\<rparr>"]
    by (simp add: tripped_sys_def cb_eval)
  ultimately show ?thesis by (blast intro: breaker_reachable.step)
qed

theorem single_recovery_probe_witness:
  "size (probes tripped_sys) = 1 \<and> snd (cb_allow 100 (sys_breaker tripped_sys)) = None"
  using single_recovery_probe [OF tripped_sys_reachable]
  by (simp add: tripped_sys_def cb_eval)

section \<open>Generations\<close>

definition start_sys :: "cb_config \<Rightarrow> cb_sys" where
  "start_sys config = \<lparr>sys_breaker = new_circuit_breaker config, sys_flight = {#}\<rparr>"

definition generations_inv :: "nat \<Rightarrow> cb_sys \<Rightarrow> bool" where
  \<comment> \<open>after \<open>k\<close> steps: no wrap-around yet, and an open breaker is ahead of all calls in flight\<close>
  "generations_inv k s \<longleftrightarrow>
     unat (cb_generation (sys_breaker s)) \<le> k \<and>
     (\<forall>p \<in># sys_flight s. permit_generation p \<le> cb_generation (sys_breaker s) \<and>
        (cb_state (sys_breaker s) = StateOpen \<longrightarrow> permit_generation p < cb_generation (sys_breaker s)))"

lemma next_generation:
  fixes g :: u64
  assumes "unat g \<le> k" "Suc k < 2 ^ 64"
  shows "g < g + 1" "unat (g + 1) = Suc (unat g)" "x \<le> g \<Longrightarrow> x < g + 1"
proof -
  have "unat g + 1 < 2 ^ 64" using assms by simp
  then show 1: "unat (g + 1) = Suc (unat g)" by (subst unat_word_ariths) simp
  show 2: "g < g + 1" by (simp add: word_less_nat_alt 1)
  show "x \<le> g \<Longrightarrow> x < g + 1" using 2 by simp
qed

lemma completed_generation:
  fixes b :: breaker
  defines "b' t p ok \<equiv> cb_complete t p ok b"
  shows "cb_generation (b' t p ok) = cb_generation b \<and> (cb_state (b' t p ok) = StateOpen \<longrightarrow> cb_state b = StateOpen) \<or>
    cb_generation (b' t p ok) = cb_generation b + 1"
  by (auto simp: b'_def cb_complete_def cb_open_def Let_def)

lemma generations_step:
  assumes "breaker_step s s'" "generations_inv k s" "Suc k < 2 ^ 64"
  shows "generations_inv (Suc k) s' \<and> cb_generation (sys_breaker s) \<le> cb_generation (sys_breaker s')"
  using assms(1)
proof cases
  case (call_admitted t b p)
  then show ?thesis using assms(2) cb_allow_permit [OF call_admitted(2)] by (auto simp: generations_inv_def)
next
  case (call_rejected t b)
  then show ?thesis using assms(2) cb_allow_rejected [OF call_rejected(2)] by (auto simp: generations_inv_def)
next
  case (call_completed p t ok)
  have "unat (cb_generation (sys_breaker s)) \<le> k" using assms(2) by (simp add: generations_inv_def)
  note up = next_generation [OF this assms(3)]
  show ?thesis
    using completed_generation [of t p ok "sys_breaker s"] assms(2) up call_completed
    by (auto simp: generations_inv_def dest!: in_diffD intro: less_imp_le)
qed

lemma generations_run:
  assumes "(breaker_step ^^ n) s s'" "generations_inv k s" "k + n < 2 ^ 64"
  shows "generations_inv (k + n) s' \<and> cb_generation (sys_breaker s) \<le> cb_generation (sys_breaker s')"
  using assms(1,3)
proof (induction n arbitrary: s')
  case (Suc n)
  then obtain s1 where s1: "(breaker_step ^^ n) s s1" "breaker_step s1 s'" by (auto elim: relpowp_Suc_E)
  then show ?case using Suc.IH [OF s1(1)] Suc.prems generations_step [OF s1(2), of "k + n"] by fastforce
qed (use assms(2) in simp)

text \<open>C7: Stale results are ignored: a call that was still running when the circuit was open changes
  nothing when it completes, at any later time and with any outcome, be the breaker open, half-open or
  closed again by then; it neither closes the circuit, nor extends the open period, nor counts as a
  failure. The bound on the number of steps is where the 64-bit generation would wrap around.\<close>

theorem stale_completion_ignored:
  assumes "(breaker_step ^^ m) (start_sys config) s" "cb_state (sys_breaker s) = StateOpen"
    "p \<in># sys_flight s" "(breaker_step ^^ n) s s'" "m + n < 2 ^ 64"
  shows "cb_complete t p ok (sys_breaker s') = sys_breaker s'"
proof -
  have "generations_inv 0 (start_sys config)"
    by (simp add: generations_inv_def start_sys_def new_circuit_breaker_def Let_def)
  then have inv: "generations_inv m s" using generations_run [OF assms(1)] assms(5) by fastforce
  then have "permit_generation p < cb_generation (sys_breaker s)" using assms(2,3) by (simp add: generations_inv_def)
  then have "permit_generation p \<noteq> cb_generation (sys_breaker s')"
    using generations_run [OF assms(4) inv assms(5)] by auto
  then show ?thesis by (simp add: cb_complete_def)
qed

definition late_sys :: cb_sys where
  \<comment> \<open>threshold 1: two calls admitted, one of them has failed and opened the circuit.\<close>
  "late_sys =
     (let p = \<lparr>permit_state = StateClosed, permit_generation = 0\<rparr>
      in \<lparr>sys_breaker = cb_complete 0 p False
            (new_circuit_breaker \<lparr>failure_threshold = 1, open_timeout = 5\<rparr>),
          sys_flight = {#p#}\<rparr>)"

lemma late_sys_run:
  "(breaker_step ^^ 3) (start_sys \<lparr>failure_threshold = 1, open_timeout = 5\<rparr>) late_sys"
proof -
  let ?p = "\<lparr>permit_state = StateClosed, permit_generation = 0\<rparr>"
  let ?b0 = "new_circuit_breaker \<lparr>failure_threshold = 1, open_timeout = 5\<rparr>"
  let ?s = "\<lambda>n. \<lparr>sys_breaker = ?b0, sys_flight = replicate_mset n ?p\<rparr>"
  have admit: "breaker_step (?s n) (?s (Suc n))" for n
    using breaker_step.call_admitted [of 0 "?s n" ?b0 ?p]
    by (simp add: cb_allow_def new_circuit_breaker_def Let_def)
  have last: "breaker_step (?s 2) late_sys"
    using breaker_step.call_completed [of ?p "?s 2" 0 False]
    by (simp add: late_sys_def Let_def numeral_2_eq_2)
  have start: "start_sys \<lparr>failure_threshold = 1, open_timeout = 5\<rparr> = ?s 0" by (simp add: start_sys_def)
  have "(breaker_step ^^ Suc (Suc (Suc 0))) (?s 0) late_sys"
    by (rule relpowp_Suc_I [OF relpowp_Suc_I [OF relpowp_Suc_I]])
      (rule relpowp_0_I admit [of 0] admit [of "Suc 0", folded numeral_2_eq_2] last)+
  then show ?thesis unfolding start numeral_3_eq_3 .
qed

theorem stale_completion_ignored_witness:
  "cb_complete 3 \<lparr>permit_state = StateClosed, permit_generation = 0\<rparr> True (sys_breaker late_sys) =
     sys_breaker late_sys \<and> cb_state (sys_breaker late_sys) = StateOpen"
  using stale_completion_ignored [OF late_sys_run, of "\<lparr>permit_state = StateClosed, permit_generation = 0\<rparr>" 0 late_sys 3 True]
  by (simp add: late_sys_def cb_eval)

text \<open>From a closed breaker with no recorded failure, \<open>n\<close> failing calls in a row open the
  circuit exactly when \<open>n\<close> reaches the configured threshold.\<close>

theorem opens_at_threshold:
  assumes "breaker_wf b" "cb_state b = StateClosed" "consecutive_failures b = 0"
  shows "cb_state (cb_failures n t b) = StateOpen \<longleftrightarrow> failure_threshold (cb_config b) \<le> int n"
  using failures_closed [OF assms(1,2), of n t] assms(3) by simp

theorem opens_at_threshold_witness:
  "cb_state (cb_failures 2 0 (new_circuit_breaker default_cb_config)) \<noteq> StateOpen \<and>
   cb_state (cb_failures 3 0 (new_circuit_breaker default_cb_config)) = StateOpen"
  using opens_at_threshold [OF new_breaker_wf, of default_cb_config 2 0]
    opens_at_threshold [OF new_breaker_wf, of default_cb_config 3 0]
  by (simp add: new_circuit_breaker_def default_cb_config_def Let_def)

text \<open>Once the open period is over, the next call is let through as the probe: if its
  operation succeeds the circuit is closed, with no failure recorded; if it fails or panics
  the circuit is open again for a whole period from its completion, in a new generation.\<close>

theorem recovery_probe_outcome:
  assumes "cb_state b = StateOpen" "open_until b \<le> started"
  shows "case cb_execute started ended op b of (b', r) \<Rightarrow>
    (op = Op_ok \<longrightarrow> r = Exec_ok \<and> cb_state b' = StateClosed \<and> consecutive_failures b' = 0 \<and>
       cb_recoveries b' = cb_recoveries b + 1 \<and> cb_generation b' = cb_generation b) \<and>
    (op \<noteq> Op_ok \<longrightarrow> r \<noteq> Exec_ok \<and> r \<noteq> Exec_circuit_open \<and> cb_state b' = StateOpen \<and>
       open_until b' = ended + open_timeout (cb_config b) \<and>
       cb_generation b' = cb_generation b + 1)"
  using assms by (cases op) (auto simp: cb_execute_def cb_eval)

theorem recovery_probe_outcome_witness:
  "case cb_execute 5000000000 5000000001 (Op_ok :: nat op_outcome)
          (cb_failures 3 0 (new_circuit_breaker default_cb_config)) of
     (b', r) \<Rightarrow> r = Exec_ok \<and> cb_state b' = StateClosed"
proof -
  let ?b = "cb_failures 3 0 (new_circuit_breaker default_cb_config)"
  have "cb_state ?b = StateOpen" "open_until ?b \<le> 5000000000"
    by (simp_all add: numeral_3_eq_3 cb_execute_def cb_eval default_cb_config_def)
  from recovery_probe_outcome [OF this, where ended = 5000000001 and op = "Op_ok :: nat op_outcome"]
  show ?thesis by (simp split: prod.splits)
qed

end
