(* ===== verification/Float64.thy ===== *)
theory Float64
  imports Prelude "HOL-Library.Log_Nat"
begin

text \<open>
  Go's \<open>float64\<close> on the values the program computes with: a number is a \<open>real\<close> and every
  arithmetic operation rounds its exact result to the nearest double, ties to even
  (\<open>rnd64\<close>, with 53 significant bits and gradual underflow at \<open>2 ^ -1074\<close>). Infinities and
  NaN are not represented; a sum beyond the largest double stays a large real, which compares
  the same way with every limit the program uses.

  The lemmas are the facts of rounding the proofs need: it is monotone, it is exact on the
  integers below \<open>2 ^ 53\<close>, and it keeps signs.
\<close>

section \<open>Rounding\<close>

definition round_even :: "real \<Rightarrow> int" where
  "round_even x =
     (let f = \<lfloor>x\<rfloor>; d = x - of_int f
      in if d < 1 / 2 then f else if 1 / 2 < d then f + 1 else if even f then f else f + 1)"

definition ilog2 :: "real \<Rightarrow> int" where
  \<comment> \<open>the exponent of the leading bit of a positive number\<close>
  "ilog2 x = (if 1 \<le> x then int (floorlog 2 (nat \<lfloor>x\<rfloor>)) - 1
              else - int (floorlog 2 (nat (\<lceil>1 / x\<rceil> - 1))))"

definition ulp_exp :: "real \<Rightarrow> int" where
  "ulp_exp x = max (- 1074) (ilog2 x - 52)"

definition rnd64 :: "real \<Rightarrow> real" where
  "rnd64 x =
     (if x = 0 then 0
      else sgn x * of_int (round_even (\<bar>x\<bar> / 2 powi ulp_exp \<bar>x\<bar>)) * 2 powi ulp_exp \<bar>x\<bar>)"

definition fadd :: "real \<Rightarrow> real \<Rightarrow> real" where "fadd x y = rnd64 (x + y)"

definition fsub :: "real \<Rightarrow> real \<Rightarrow> real" where "fsub x y = rnd64 (x - y)"

definition fmul :: "real \<Rightarrow> real \<Rightarrow> real" where "fmul x y = rnd64 (x * y)"

definition fdiv :: "real \<Rightarrow> real \<Rightarrow> real" where "fdiv x y = rnd64 (x / y)"

definition float64_of_int :: "int \<Rightarrow> real" where "float64_of_int n = rnd64 (of_int n)"

definition whole_and_nanos :: "duration \<Rightarrow> real" where
  "whole_and_nanos d =
     fadd (float64_of_int (d div second)) (fdiv (float64_of_int (d mod second)) (10 ^ 9))"

definition duration_seconds :: "duration \<Rightarrow> real" where
  \<comment> \<open>\<open>d.Seconds()\<close>; \<open>/\<close> and \<open>%\<close> truncate, so a negative duration is the mirror image\<close>
  "duration_seconds d = (if d < 0 then - whole_and_nanos (- d) else whole_and_nanos d)"

section \<open>Facts of rounding\<close>

lemma round_even_near: "\<lfloor>x\<rfloor> \<le> round_even x" "round_even x \<le> \<lfloor>x\<rfloor> + 1"
  by (simp_all add: round_even_def Let_def)

lemma round_even_of_int [simp]: "round_even (of_int n) = n"
  by (simp add: round_even_def)

lemma round_even_mono: "x \<le> y \<Longrightarrow> round_even x \<le> round_even y"
proof -
  assume xy: "x \<le> y"
  then have "\<lfloor>x\<rfloor> \<le> \<lfloor>y\<rfloor>" by (rule floor_mono)
  then consider "\<lfloor>x\<rfloor> + 1 \<le> \<lfloor>y\<rfloor>" | "\<lfloor>x\<rfloor> = \<lfloor>y\<rfloor>" by linarith
  then show ?thesis
  proof cases
    case 1
    then show ?thesis using round_even_near(2) [of x] round_even_near(1) [of y] by linarith
  next
    case 2
    then show ?thesis using xy by (simp add: round_even_def Let_def)
  qed
qed

lemma ilog2_bounds:
  assumes "0 < x"
  shows "2 powi ilog2 x \<le> x" "x < 2 powi (ilog2 x + 1)"
proof -
  have "2 powi ilog2 x \<le> x \<and> x < 2 powi (ilog2 x + 1)"
  proof (cases "1 \<le> x")
    case True
    define n where "n = nat \<lfloor>x\<rfloor>"
    have n: "0 < n" "real n \<le> x" "x < real n + 1"
      using True by (simp_all add: n_def)
    have fl: "2 ^ (floorlog 2 n - 1) \<le> n" "n < 2 ^ floorlog 2 n" "0 < floorlog 2 n"
      using floorlog_bounds [of n 2] n(1) by (auto simp: floorlog_def)
    have p1: "2 powi (int (floorlog 2 n) - 1) = (2 ^ (floorlog 2 n - 1) :: real)"
      using fl(3) by (simp flip: power_int_of_nat add: of_nat_diff)
    have p2: "(2 ^ (floorlog 2 n - 1) :: real) \<le> real n"
      using fl(1) of_nat_mono by fastforce
    have p3: "real n + 1 \<le> (2 ^ floorlog 2 n :: real)"
      using fl(2) by (metis Suc_leI of_nat_Suc of_nat_le_iff of_nat_numeral of_nat_power add.commute)
    have e: "ilog2 x = int (floorlog 2 n) - 1" using True by (simp add: ilog2_def n_def)
    have "2 powi ilog2 x \<le> x" unfolding e p1 using p2 n(2) by (rule order_trans)
    moreover have "x < 2 powi (ilog2 x + 1)" unfolding e using p3 n(3) by simp
    ultimately show ?thesis by blast
  next
    case False
    define m where "m = nat (\<lceil>1 / x\<rceil> - 1)"
    have inv: "1 < 1 / x" using False assms by simp
    then have m: "0 < m" "real m < 1 / x" "1 / x \<le> real m + 1"
      by (simp_all add: m_def) linarith+
    define k where "k = floorlog 2 m"
    have fl: "2 ^ (k - 1) \<le> m" "m < 2 ^ k" "0 < k"
      using floorlog_bounds [of m 2] m(1) by (auto simp: k_def floorlog_def)
    have low: "(2 ^ (k - 1) :: real) < 1 / x"
      using fl(1) m(2) by (metis of_nat_le_iff of_nat_numeral of_nat_power order_le_less_trans)
    have high: "1 / x \<le> (2 ^ k :: real)"
      using fl(2) m(3) by (metis Suc_leI of_nat_Suc of_nat_le_iff of_nat_numeral of_nat_power
          add.commute order_trans)
    have p1: "2 powi (- int k) = (1 / 2 ^ k :: real)"
      by (simp add: power_int_minus divide_inverse)
    have p2: "2 powi (- int k + 1) = (1 / 2 ^ (k - 1) :: real)"
      using fl(3) by (cases k) (simp_all add: power_int_minus divide_inverse)
    have e: "ilog2 x = - int k" using False by (simp add: ilog2_def m_def k_def)
    have "2 powi ilog2 x \<le> x"
      unfolding e p1 using high assms by (simp add: field_simps)
    moreover have "x < 2 powi (ilog2 x + 1)"
      unfolding e p2 using low assms by (simp add: field_simps)
    ultimately show ?thesis by blast
  qed
  then show "2 powi ilog2 x \<le> x" "x < 2 powi (ilog2 x + 1)" by simp_all
qed

lemma powi_less_imp_less: "(2::real) powi a < 2 powi b \<Longrightarrow> a < b"
  by (metis linorder_not_less one_le_numeral power_int_increasing)

lemma ilog2_mono: "0 < x \<Longrightarrow> x \<le> y \<Longrightarrow> ilog2 x \<le> ilog2 y"
  using ilog2_bounds [of x] ilog2_bounds [of y] powi_less_imp_less [of "ilog2 x" "ilog2 y + 1"]
  by linarith

lemma ilog2_unique: "0 < x \<Longrightarrow> 2 powi k \<le> x \<Longrightarrow> x < 2 powi (k + 1) \<Longrightarrow> ilog2 x = k"
  using ilog2_bounds [of x] powi_less_imp_less [of "ilog2 x" "k + 1"]
    powi_less_imp_less [of k "ilog2 x + 1"]
  by linarith

lemma ulp_exp_mono: "0 < x \<Longrightarrow> x \<le> y \<Longrightarrow> ulp_exp x \<le> ulp_exp y"
  using ilog2_mono [of x y] by (simp add: ulp_exp_def)

lemma powi_nat: "0 \<le> k \<Longrightarrow> \<exists>n::int. (2::real) powi k = of_int n"
  by (rule exI [of _ "2 ^ nat k"]) (simp add: power_int_def)

lemma rnd64_pos:
  "0 < x \<Longrightarrow> rnd64 x = of_int (round_even (x / 2 powi ulp_exp x)) * 2 powi ulp_exp x"
  by (simp add: rnd64_def)

lemma rnd64_zero [simp]: "rnd64 0 = 0"
  by (simp add: rnd64_def)

lemma rnd64_le_power:
  \<comment> \<open>a power of two that is a multiple of the last place bounds the rounded value\<close>
  assumes "0 < x" "x \<le> 2 powi k" "ulp_exp x \<le> k"
  shows "rnd64 x \<le> 2 powi k"
proof -
  obtain n where n: "(2::real) powi (k - ulp_exp x) = of_int n" using powi_nat assms(3) by fastforce
  have split: "(2::real) powi k = of_int n * 2 powi ulp_exp x"
    by (simp flip: n power_int_add)
  then have "x / 2 powi ulp_exp x \<le> of_int n" using assms(2) by (simp add: field_simps)
  then have "round_even (x / 2 powi ulp_exp x) \<le> n"
    using round_even_mono [of _ "of_int n"] by simp
  then show ?thesis using assms(1) by (simp add: rnd64_pos split)
qed

lemma rnd64_ge_power:
  assumes "0 < x" "2 powi k \<le> x" "ulp_exp x \<le> k"
  shows "2 powi k \<le> rnd64 x"
proof -
  obtain n where n: "(2::real) powi (k - ulp_exp x) = of_int n" using powi_nat assms(3) by fastforce
  have split: "(2::real) powi k = of_int n * 2 powi ulp_exp x"
    by (simp flip: n power_int_add)
  then have "of_int n \<le> x / 2 powi ulp_exp x" using assms(2) by (simp add: field_simps)
  then have "n \<le> round_even (x / 2 powi ulp_exp x)"
    using round_even_mono [of "of_int n"] by simp
  then show ?thesis using assms(1) by (simp add: rnd64_pos split)
qed

lemma rnd64_mono_pos:
  assumes "0 < x" "x \<le> y"
  shows "rnd64 x \<le> rnd64 y"
proof (cases "ulp_exp x = ulp_exp y")
  case True
  have "x / 2 powi ulp_exp x \<le> y / 2 powi ulp_exp x" using assms by (simp add: divide_right_mono)
  then have "round_even (x / 2 powi ulp_exp x) \<le> round_even (y / 2 powi ulp_exp x)"
    by (rule round_even_mono)
  then show ?thesis using assms True by (simp add: rnd64_pos)
next
  case False
  then have less: "ulp_exp x < ulp_exp y" using ulp_exp_mono [OF assms] by simp
  then have y: "ulp_exp y = ilog2 y - 52" and logs: "ilog2 x + 1 \<le> ilog2 y"
    by (simp_all add: ulp_exp_def max_def split: if_splits)
  have "x \<le> 2 powi ilog2 y"
    using ilog2_bounds(2) [OF assms(1)] power_int_increasing [OF logs, of "2::real"] by simp
  then have "rnd64 x \<le> 2 powi ilog2 y" using assms(1) less y by (intro rnd64_le_power) auto
  also have "\<dots> \<le> rnd64 y"
    using assms ilog2_bounds(1) [of y] y by (intro rnd64_ge_power) auto
  finally show ?thesis .
qed

lemma rnd64_nonneg [simp]: "0 \<le> x \<Longrightarrow> 0 \<le> rnd64 x"
proof (cases "x = 0")
  case False
  assume "0 \<le> x"
  then have "0 \<le> x / 2 powi ulp_exp x" by simp
  then have "round_even 0 \<le> round_even (x / 2 powi ulp_exp x)" by (rule round_even_mono)
  then show ?thesis using False \<open>0 \<le> x\<close> round_even_of_int [of 0] by (simp add: rnd64_pos)
qed simp

lemma rnd64_mono: "0 \<le> x \<Longrightarrow> x \<le> y \<Longrightarrow> rnd64 x \<le> rnd64 y"
  by (cases "x = 0") (auto intro: rnd64_mono_pos)

lemma rnd64_nat:
  assumes "n < 2 ^ 53"
  shows "rnd64 (real n) = real n"
proof (cases "n = 0")
  case False
  then have pos: "0 < real n" by simp
  have "real n < 2 powi 53" using assms
    by (metis of_nat_less_iff of_nat_numeral of_nat_power power_int_numeral)
  then have "ilog2 (real n) < 53"
    using ilog2_bounds(1) [OF pos] powi_less_imp_less [of "ilog2 (real n)" 53] by linarith
  then have "ulp_exp (real n) \<le> 0" by (simp add: ulp_exp_def)
  then obtain m where m: "(2::real) powi (- ulp_exp (real n)) = of_int m" using powi_nat by fastforce
  have eq: "real n / 2 powi ulp_exp (real n) = of_int (int n * m)"
    by (simp flip: m add: power_int_minus field_simps)
  have "of_int m * (2::real) powi ulp_exp (real n) = 1"
    by (simp flip: m power_int_add)
  then show ?thesis using pos by (simp add: rnd64_pos eq del: of_int_mult) (simp add: mult.assoc)
qed simp

lemma float64_of_int_nat: "n < 2 ^ 53 \<Longrightarrow> float64_of_int (int n) = real n"
  by (simp add: float64_of_int_def rnd64_nat)

lemma fadd_nonneg: "0 \<le> x \<Longrightarrow> 0 \<le> y \<Longrightarrow> 0 \<le> fadd x y"
  by (simp add: fadd_def)

lemma fmul_nonneg: "0 \<le> x \<Longrightarrow> 0 \<le> y \<Longrightarrow> 0 \<le> fmul x y"
  by (simp add: fmul_def)

lemma fadd_ge_nat:
  assumes "0 \<le> x" "real n \<le> y" "n < 2 ^ 53"
  shows "real n \<le> fadd x y"
  using rnd64_mono [of "real n" "x + y"] assms by (simp add: fadd_def rnd64_nat)

lemma duration_seconds_nonneg: "0 \<le> d \<Longrightarrow> 0 \<le> duration_seconds d"
  by (simp add: duration_seconds_def whole_and_nanos_def fadd_def fdiv_def float64_of_int_def
      pos_imp_zdiv_nonneg_iff)

lemma duration_seconds_zero [simp]: "duration_seconds 0 = 0"
  by (simp add: duration_seconds_def whole_and_nanos_def fadd_def fdiv_def float64_of_int_def)

lemma duration_seconds_whole:
  "n < 2 ^ 53 \<Longrightarrow> duration_seconds (int n * second) = real n"
  by (simp add: duration_seconds_def whole_and_nanos_def float64_of_int_nat fadd_def fdiv_def
      float64_of_int_def rnd64_nat)

lemma float64_of_int_small: "0 \<le> q \<Longrightarrow> q < 2 ^ 53 \<Longrightarrow> float64_of_int q = of_int q"
  using float64_of_int_nat [of "nat q"] by simp

lemma nanos_fraction: "0 \<le> r \<Longrightarrow> r < second \<Longrightarrow> 0 \<le> fdiv (float64_of_int r) (10 ^ 9) \<and>
    fdiv (float64_of_int r) (10 ^ 9) \<le> 1"
  using rnd64_mono [of "of_int r / 10 ^ 9" 1] rnd64_nat [of 1]
  by (simp add: fdiv_def float64_of_int_small)

lemma whole_and_nanos_mono:
  assumes "0 \<le> d" "d \<le> e" "e \<le> max_int64"
  shows "whole_and_nanos d \<le> whole_and_nanos e"
proof -
  let ?q = "\<lambda>d. d div second" and ?r = "\<lambda>d. d mod second"
  let ?f = "\<lambda>d. fdiv (float64_of_int (?r d)) (10 ^ 9)"
  have q: "0 \<le> ?q d" "?q d \<le> ?q e" "?q e < 2 ^ 53"
    using assms by (simp_all add: zdiv_mono1 pos_imp_zdiv_nonneg_iff max_int64_def div_less_iff_less_mult)
  have w: "whole_and_nanos d = rnd64 (of_int (?q d) + ?f d)"
    "whole_and_nanos e = rnd64 (of_int (?q e) + ?f e)"
    using q by (simp_all add: whole_and_nanos_def fadd_def float64_of_int_small)
  have f: "0 \<le> ?f d" "?f d \<le> 1" "0 \<le> ?f e" using nanos_fraction by simp_all
  have "of_int (?q d) + ?f d \<le> of_int (?q e) + ?f e"
  proof (cases "?q d = ?q e")
    case True
    then have r: "?r d \<le> ?r e"
      using assms(2) div_mult_mod_eq [of d second] div_mult_mod_eq [of e second] by linarith
    have "0 \<le> ?r d" "?r e < 2 ^ 53"
      using pos_mod_bound [of second e] by simp_all
    then have "?f d \<le> ?f e" using r
      by (auto simp: fdiv_def float64_of_int_small intro!: rnd64_mono divide_right_mono)
    then show ?thesis using True by simp
  next
    case False
    then have "real_of_int (?q d) + 1 \<le> of_int (?q e)" using q(2) by linarith
    then show ?thesis using f by linarith
  qed
  then show ?thesis using q f by (auto simp: w intro!: rnd64_mono)
qed

lemma duration_seconds_mono:
  "0 \<le> d \<Longrightarrow> d \<le> e \<Longrightarrow> e \<le> max_int64 \<Longrightarrow> duration_seconds d \<le> duration_seconds e"
  by (simp add: duration_seconds_def whole_and_nanos_mono)

lemma round_even_error: "x - 1 / 2 \<le> of_int (round_even x)"
proof -
  define f where "f = \<lfloor>x\<rfloor>"
  have "of_int f \<le> x" "x < of_int f + 1" by (simp_all add: f_def)
  then show ?thesis by (auto simp: round_even_def Let_def f_def [symmetric] split: if_splits)
qed

lemma rnd64_error:
  assumes "0 < x" "- 1022 \<le> ilog2 x"
  shows "x - x * 2 powi (- 53) \<le> rnd64 x"
proof -
  define u where "u = (2 :: real) powi ulp_exp x"
  have "ulp_exp x = ilog2 x + - 52" using assms(2) by (simp add: ulp_exp_def)
  moreover have "(2 :: real) powi (ilog2 x + - 52) = 2 powi ilog2 x * 2 powi (- 52)" by (rule power_int_add) simp
  ultimately have u: "0 < u" "u = 2 powi ilog2 x * 2 powi (- 52)" by (simp_all only: u_def) simp_all
  have "(2 :: real) powi (- 52) = 2 * 2 powi (- 53)" by (simp add: power_int_minus)
  then have "u / 2 = 2 powi ilog2 x * 2 powi (- 53)" using u(2) by simp
  then have "u / 2 \<le> x * 2 powi (- 53)"
    using mult_right_mono [OF ilog2_bounds(1) [OF assms(1)], of "2 powi (- 53)"] by simp
  moreover have "(x / u - 1 / 2) * u \<le> of_int (round_even (x / u)) * u"
    using round_even_error [of "x / u"] u(1) by (intro mult_right_mono) simp_all
  moreover have "(x / u - 1 / 2) * u = x - u / 2" using u(1) by (simp add: left_diff_distrib)
  moreover have "rnd64 x = of_int (round_even (x / u)) * u" using rnd64_pos [OF assms(1)] by (simp only: u_def)
  ultimately show ?thesis by linarith
qed

end
