(* ===== verification/RateLimit.thy ===== *)
theory RateLimit
  imports Float64
begin

unbundle bit_operations_syntax

text \<open>
  Admission control, \<open>v10/internal/ratelimit/controller.go\<close>: the token buckets, kept per key
  in 64 shards that forget idle buckets; the controller with its connection limits and its
  per-user and per-room limiters. A method runs under the mutex of the state it changes, so
  it is one step; \<open>l.now()\<close> is an argument. Token counts are \<open>float64\<close> values: the
  arithmetic is that of \<open>Float64\<close>.
\<close>

section \<open>Configuration and state\<close>

datatype reason = ReasonNone | ReasonUser | ReasonRoom

record rate =
  per_second :: real
  burst :: int

record rl_config =
  max_connections :: int
  max_connections_per_ip :: int
  danmaku_per_user :: rate
  danmaku_per_room :: rate
  like_per_user :: rate
  like_per_room :: rate
  bucket_idle_ttl :: duration

definition shard_count :: nat where "shard_count = 64"

definition default_bucket_idle_ttl :: duration where "default_bucket_idle_ttl = 10 * minute"

definition default_rl_config :: rl_config where
  "default_rl_config =
     \<lparr>max_connections = 5000, max_connections_per_ip = 1000,
      danmaku_per_user = \<lparr>per_second = 5, burst = 10\<rparr>,
      danmaku_per_room = \<lparr>per_second = 500, burst = 1000\<rparr>,
      like_per_user = \<lparr>per_second = 20, burst = 40\<rparr>,
      like_per_room = \<lparr>per_second = 5000, burst = 10000\<rparr>,
      bucket_idle_ttl = default_bucket_idle_ttl\<rparr>"

record token_bucket =
  tokens :: real
  last_refill :: time
  last_seen :: time

record bucket_shard =
  buckets :: "(string, token_bucket) gomap"
  last_cleanup :: time

record keyed_limiter =
  limiter_rate :: rate
  idle_ttl :: duration
  shards :: "bucket_shard list"

record rl_metrics =
  current_connections :: int
  m_accepted_connections :: u64
  m_rejected_connections_global :: u64
  m_rejected_connections_per_ip :: u64
  m_danmaku_accepted :: u64
  m_danmaku_rejected_user :: u64
  m_danmaku_rejected_room :: u64
  m_like_accepted :: u64
  m_like_rejected_user :: u64
  m_like_rejected_room :: u64

record controller =
  rl_config :: rl_config
  connections :: int
  connections_ip :: "(string, int) gomap"
  danmaku_users :: keyed_limiter
  danmaku_rooms :: keyed_limiter
  like_users :: keyed_limiter
  like_rooms :: keyed_limiter
  accepted_connections :: u64
  rejected_connections_global :: u64
  rejected_connections_per_ip :: u64
  danmaku_accepted :: u64
  danmaku_rejected_user :: u64
  danmaku_rejected_room :: u64
  like_accepted :: u64
  like_rejected_user :: u64
  like_rejected_room :: u64

section \<open>The keyed limiter\<close>

definition new_keyed_limiter :: "rate \<Rightarrow> duration \<Rightarrow> keyed_limiter" where
  "new_keyed_limiter r ttl =
     \<lparr>limiter_rate = r, idle_ttl = ttl,
      shards = replicate shard_count \<lparr>buckets = [], last_cleanup = 0\<rparr>\<rparr>"

definition hash_key :: "string \<Rightarrow> nat" where
  \<comment> \<open>32-bit FNV-1a, masked to a shard number\<close>
  "hash_key key =
     unat (fold (\<lambda>c h. (h XOR of_nat (of_char c)) * 16777619) key (2166136261 :: u32) AND 63)"

definition shard_cleanup :: "time \<Rightarrow> duration \<Rightarrow> bucket_shard \<Rightarrow> bucket_shard" where
  "shard_cleanup now ttl shard =
     (if is_zero (last_cleanup shard) \<or> time_sub now (last_cleanup shard) \<ge> ttl
      then \<lparr>buckets = filter (\<lambda>(k, b). \<not> time_sub now (last_seen b) \<ge> ttl) (buckets shard),
            last_cleanup = now\<rparr>
      else shard)"

definition fresh_bucket :: "rate \<Rightarrow> time \<Rightarrow> token_bucket" where
  "fresh_bucket r now =
     \<lparr>tokens = float64_of_int (burst r), last_refill = now, last_seen = now\<rparr>"

definition refill :: "rate \<Rightarrow> time \<Rightarrow> token_bucket \<Rightarrow> token_bucket" where
  "refill r now b =
     (let elapsed = duration_seconds (time_sub now (last_refill b))
      in if 0 < elapsed
         then (let t = fadd (tokens b) (fmul elapsed (per_second r))
               in b\<lparr>tokens := (if t > float64_of_int (burst r)
                              then float64_of_int (burst r) else t),
                    last_refill := now\<rparr>)
         else b)"

definition take_token :: "rate \<Rightarrow> time \<Rightarrow> token_bucket \<Rightarrow> token_bucket \<times> bool" where
  "take_token r now b =
     (let b = (refill r now b)\<lparr>last_seen := now\<rparr>
      in if tokens b < 1 then (b, False) else (b\<lparr>tokens := fsub (tokens b) 1\<rparr>, True))"

definition limiter_allow :: "time \<Rightarrow> string \<Rightarrow> keyed_limiter \<Rightarrow> keyed_limiter \<times> bool" where
  "limiter_allow now key l =
     (let r = limiter_rate l
      in if per_second r \<le> 0 \<or> burst r \<le> 0 then (l, True)
         else
           (let i = hash_key key mod shard_count;
                shard = shard_cleanup now (idle_ttl l) (shards l ! i);
                b = (case map_of (buckets shard) key of
                       Some b \<Rightarrow> b | None \<Rightarrow> fresh_bucket r now);
                (b, ok) = take_token r now b;
                shard = shard\<lparr>buckets := AList.update key b (buckets shard)\<rparr>
            in (l\<lparr>shards := (shards l)[i := shard]\<rparr>, ok)))"

section \<open>The controller\<close>

definition new_controller :: "rl_config \<Rightarrow> controller" where
  "new_controller config =
     (let config = (if bucket_idle_ttl config \<le> 0
                    then config\<lparr>bucket_idle_ttl := default_bucket_idle_ttl\<rparr> else config);
          limiter = (\<lambda>r. new_keyed_limiter r (bucket_idle_ttl config))
      in \<lparr>rl_config = config, connections = 0, connections_ip = [],
          danmaku_users = limiter (danmaku_per_user config),
          danmaku_rooms = limiter (danmaku_per_room config),
          like_users = limiter (like_per_user config),
          like_rooms = limiter (like_per_room config),
          accepted_connections = 0, rejected_connections_global = 0,
          rejected_connections_per_ip = 0, danmaku_accepted = 0, danmaku_rejected_user = 0,
          danmaku_rejected_room = 0, like_accepted = 0, like_rejected_user = 0,
          like_rejected_room = 0\<rparr>)"

text \<open>
  The \<open>release\<close> function an accepted caller gets: the closure's \<open>ip\<close> and its \<open>sync.Once\<close>.
  A rejected caller gets a function that does nothing (\<open>None\<close>).
\<close>

record release_fn =
  release_ip :: string
  release_done :: bool

definition acquire_connection :: "string \<Rightarrow> controller \<Rightarrow> controller \<times> release_fn option" where
  "acquire_connection ip c =
     (if max_connections (rl_config c) > 0 \<and> connections c \<ge> max_connections (rl_config c)
      then (c\<lparr>rejected_connections_global := rejected_connections_global c + 1\<rparr>, None)
      else if max_connections_per_ip (rl_config c) > 0 \<and>
              gm_get 0 (connections_ip c) ip \<ge> max_connections_per_ip (rl_config c)
      then (c\<lparr>rejected_connections_per_ip := rejected_connections_per_ip c + 1\<rparr>, None)
      else (c\<lparr>connections := connections c + 1,
              connections_ip := AList.update ip (gm_get 0 (connections_ip c) ip + 1)
                                  (connections_ip c),
              accepted_connections := accepted_connections c + 1\<rparr>,
            Some \<lparr>release_ip = ip, release_done = False\<rparr>))"

definition release_connection :: "release_fn \<Rightarrow> controller \<Rightarrow> controller \<times> release_fn" where
  "release_connection h c =
     (if release_done h then (c, h)
      else
        (let ip = release_ip h;
             ips = AList.update ip (gm_get 0 (connections_ip c) ip - 1) (connections_ip c);
             ips = (if gm_get 0 ips ip = 0 then AList.delete ip ips else ips)
         in (c\<lparr>connections := connections c - 1, connections_ip := ips\<rparr>,
             h\<lparr>release_done := True\<rparr>)))"

definition user_key :: "string \<Rightarrow> string \<Rightarrow> string" where
  "user_key room user = room @ [char_of (0 :: nat)] @ user"

definition allow_danmaku :: "time \<Rightarrow> string \<Rightarrow> string \<Rightarrow> controller \<Rightarrow> controller \<times> bool \<times> reason" where
  "allow_danmaku now room user c =
     (case limiter_allow now (user_key room user) (danmaku_users c) of
        (l, False) \<Rightarrow>
          (c\<lparr>danmaku_users := l, danmaku_rejected_user := danmaku_rejected_user c + 1\<rparr>,
           False, ReasonUser)
      | (l, True) \<Rightarrow>
          (let c = c\<lparr>danmaku_users := l\<rparr>
           in case limiter_allow now room (danmaku_rooms c) of
                (l, False) \<Rightarrow>
                  (c\<lparr>danmaku_rooms := l, danmaku_rejected_room := danmaku_rejected_room c + 1\<rparr>,
                   False, ReasonRoom)
              | (l, True) \<Rightarrow>
                  (c\<lparr>danmaku_rooms := l, danmaku_accepted := danmaku_accepted c + 1\<rparr>,
                   True, ReasonNone)))"

definition allow_like :: "time \<Rightarrow> string \<Rightarrow> string \<Rightarrow> controller \<Rightarrow> controller \<times> bool \<times> reason" where
  "allow_like now room user c =
     (case limiter_allow now (user_key room user) (like_users c) of
        (l, False) \<Rightarrow>
          (c\<lparr>like_users := l, like_rejected_user := like_rejected_user c + 1\<rparr>,
           False, ReasonUser)
      | (l, True) \<Rightarrow>
          (let c = c\<lparr>like_users := l\<rparr>
           in case limiter_allow now room (like_rooms c) of
                (l, False) \<Rightarrow>
                  (c\<lparr>like_rooms := l, like_rejected_room := like_rejected_room c + 1\<rparr>,
                   False, ReasonRoom)
              | (l, True) \<Rightarrow>
                  (c\<lparr>like_rooms := l, like_accepted := like_accepted c + 1\<rparr>,
                   True, ReasonNone)))"

definition controller_metrics :: "controller \<Rightarrow> rl_metrics" where
  "controller_metrics c =
     \<lparr>current_connections = connections c,
      m_accepted_connections = accepted_connections c,
      m_rejected_connections_global = rejected_connections_global c,
      m_rejected_connections_per_ip = rejected_connections_per_ip c,
      m_danmaku_accepted = danmaku_accepted c,
      m_danmaku_rejected_user = danmaku_rejected_user c,
      m_danmaku_rejected_room = danmaku_rejected_room c,
      m_like_accepted = like_accepted c,
      m_like_rejected_user = like_rejected_user c,
      m_like_rejected_room = like_rejected_room c\<rparr>"

section \<open>One bucket\<close>

text \<open>
  \<open>rate_ok\<close> is what the proofs need of a configuration: the limiter is on, the burst is an
  integer a \<open>float64\<close> holds exactly, and a bucket that has been idle for the whole TTL has
  refilled.
\<close>

definition rate_ok :: "rate \<Rightarrow> duration \<Rightarrow> bool" where
  "rate_ok r ttl \<longleftrightarrow>
     0 < per_second r \<and> 0 < burst r \<and> burst r < 2 ^ 53 \<and> 0 < ttl \<and> ttl \<le> max_int64 \<and>
     of_int (burst r) \<le> fmul (duration_seconds ttl) (per_second r)"

definition bucket_ok :: "rate \<Rightarrow> time \<Rightarrow> token_bucket \<Rightarrow> bool" where
  "bucket_ok r now b \<longleftrightarrow>
     0 \<le> tokens b \<and> tokens b \<le> of_int (burst r) \<and> last_refill b \<le> last_seen b \<and>
     last_seen b \<le> now"

lemma rate_ok_burst: "rate_ok r ttl \<Longrightarrow> float64_of_int (burst r) = of_int (burst r)"
  by (simp add: rate_ok_def float64_of_int_small)

lemma time_sub_le_max: "time_sub t u \<le> max_int64"
  by (simp add: time_sub_def min_int64_def max_int64_def)

lemma time_sub_mono: "t \<le> t' \<Longrightarrow> u' \<le> u \<Longrightarrow> time_sub t u \<le> time_sub t' u'"
  by (simp add: time_sub_def max_def min_def)

lemma fresh_bucket_ok: "rate_ok r ttl \<Longrightarrow> bucket_ok r now (fresh_bucket r now)"
  by (simp add: bucket_ok_def fresh_bucket_def rate_ok_burst) (simp add: rate_ok_def)

lemma refill_ok:
  assumes "rate_ok r ttl" "bucket_ok r t b" "t \<le> now"
  shows "bucket_ok r now ((refill r now b)\<lparr>last_seen := now\<rparr>)"
  using assms rate_ok_burst [OF assms(1)]
  by (auto simp: bucket_ok_def refill_def Let_def rate_ok_def intro!: fadd_nonneg fmul_nonneg)

lemma fsub_one_bounds:
  assumes "1 \<le> x" "x \<le> of_int n" "n < 2 ^ 53"
  shows "0 \<le> fsub x 1" "fsub x 1 \<le> of_int n"
proof -
  show "0 \<le> fsub x 1" using assms by (simp add: fsub_def)
  have "1 \<le> real_of_int n" using assms by linarith
  then have "0 \<le> n" by simp
  then have "rnd64 (of_int n) = of_int n" using rnd64_nat [of "nat n"] assms(3) by simp
  then show "fsub x 1 \<le> of_int n"
    using rnd64_mono [of "x - 1" "of_int n"] assms by (simp add: fsub_def)
qed

lemma take_token_ok:
  assumes "rate_ok r ttl" "bucket_ok r t b" "t \<le> now"
  shows "bucket_ok r now (fst (take_token r now b))"
  using refill_ok [OF assms] fsub_one_bounds [of "tokens (refill r now b)" "burst r"] assms(1)
  by (auto simp: take_token_def Let_def bucket_ok_def rate_ok_def)

lemma refill_same_instant:
  "refill r now b = b" if "last_refill b = now"
  using that by (simp add: refill_def)

lemma idle_bucket_full:
  \<comment> \<open>A bucket unused for the TTL takes tokens as a new one does.\<close>
  assumes ok: "rate_ok r ttl" "bucket_ok r t b" and idle: "ttl \<le> time_sub now (last_seen b)"
  shows "take_token r now b = take_token r now (fresh_bucket r now)"
proof -
  let ?e = "duration_seconds (time_sub now (last_refill b))"
  have sub: "ttl \<le> time_sub now (last_refill b)"
    using idle ok(2) time_sub_mono [of now now "last_refill b" "last_seen b"]
    by (simp add: bucket_ok_def)
  have dur: "duration_seconds ttl \<le> ?e" "0 \<le> duration_seconds ttl"
    using ok(1) sub duration_seconds_mono [OF _ sub time_sub_le_max] duration_seconds_nonneg [of ttl]
    by (simp_all add: rate_ok_def)
  have burst: "real (nat (burst r)) \<le> fmul ?e (per_second r)"
  proof -
    have "fmul (duration_seconds ttl) (per_second r) \<le> fmul ?e (per_second r)"
      unfolding fmul_def using ok(1) dur
      by (intro rnd64_mono mult_right_mono) (simp_all add: rate_ok_def)
    then show ?thesis using ok(1) by (simp add: rate_ok_def)
  qed
  have "0 < ?e"
  proof (rule ccontr)
    assume "\<not> 0 < ?e"
    then have "?e = 0" using dur by linarith
    then show False using burst ok(1) by (simp add: fmul_def rate_ok_def)
  qed
  moreover have "of_int (burst r) \<le> fadd (tokens b) (fmul ?e (per_second r))"
    using fadd_ge_nat [OF _ burst, of "tokens b"] ok
    by (simp add: bucket_ok_def rate_ok_def nat_less_iff)
  ultimately have "(refill r now b)\<lparr>last_seen := now\<rparr> = fresh_bucket r now"
    using rate_ok_burst [OF ok(1)] by (simp add: refill_def Let_def fresh_bucket_def)
  moreover have "(refill r now (fresh_bucket r now))\<lparr>last_seen := now\<rparr> = fresh_bucket r now"
    by (simp add: refill_same_instant fresh_bucket_def)
  ultimately show ?thesis by (simp only: take_token_def)
qed

section \<open>The limiter against its specification\<close>

text \<open>
  The specification of a keyed limiter: one bucket per key, created full at the first
  call, never forgotten, no shards.
\<close>

definition spec_allow ::
  "rate \<Rightarrow> time \<times> string \<Rightarrow> (string \<rightharpoonup> token_bucket) \<Rightarrow> (string \<rightharpoonup> token_bucket) \<times> bool" where
  "spec_allow r call m =
     (case call of (now, key) \<Rightarrow>
        let b = (case m key of Some b \<Rightarrow> b | None \<Rightarrow> fresh_bucket r now)
        in (m(key \<mapsto> fst (take_token r now b)), snd (take_token r now b)))"

definition timed_allow ::
  "time \<times> string \<Rightarrow> time \<times> keyed_limiter \<Rightarrow> (time \<times> keyed_limiter) \<times> bool" where
  \<comment> \<open>a call of the limiter, remembering its instant\<close>
  "timed_allow call st =
     (case call of (now, key) \<Rightarrow>
        ((now, fst (limiter_allow now key (snd st))), snd (limiter_allow now key (snd st))))"

definition clock_ok :: "time \<times> string \<Rightarrow> time \<times> keyed_limiter \<Rightarrow> bool" where
  "clock_ok call st \<longleftrightarrow> fst st \<le> fst call"

definition bucket_of :: "keyed_limiter \<Rightarrow> string \<Rightarrow> token_bucket option" where
  "bucket_of l key = map_of (buckets (shards l ! (hash_key key mod shard_count))) key"

definition limiter_wf :: "rate \<Rightarrow> duration \<Rightarrow> keyed_limiter \<Rightarrow> bool" where
  "limiter_wf r ttl l \<longleftrightarrow>
     limiter_rate l = r \<and> idle_ttl l = ttl \<and> length (shards l) = shard_count \<and>
     (\<forall>i < shard_count. gm_wf (buckets (shards l ! i)))"

definition forgotten :: "duration \<Rightarrow> time \<Rightarrow> token_bucket option \<Rightarrow> token_bucket option \<Rightarrow> bool" where
  \<comment> \<open>The limiter has no bucket where the specification has one that is idle.\<close>
  "forgotten ttl now c a \<longleftrightarrow>
     c = None \<and> (\<exists>b. a = Some b \<and> ttl \<le> time_sub now (last_seen b))"

definition limiter_rel ::
  "rate \<Rightarrow> duration \<Rightarrow> time \<times> keyed_limiter \<Rightarrow> (string \<rightharpoonup> token_bucket) \<Rightarrow> bool" where
  "limiter_rel r ttl st m \<longleftrightarrow>
     rate_ok r ttl \<and> limiter_wf r ttl (snd st) \<and>
     (\<forall>key b. m key = Some b \<longrightarrow> bucket_ok r (fst st) b) \<and>
     (\<forall>key. bucket_of (snd st) key = m key \<or>
            forgotten ttl (fst st) (bucket_of (snd st) key) (m key))"

lemma cleanup_lookup:
  assumes "gm_wf (buckets sh)"
  shows "map_of (buckets (shard_cleanup now ttl sh)) k = map_of (buckets sh) k \<or>
    forgotten ttl now (map_of (buckets (shard_cleanup now ttl sh)) k) (map_of (buckets sh) k)"
  using map_of_filter_value [OF assms, of "\<lambda>b. \<not> ttl \<le> time_sub now (last_seen b)" k]
  by (auto simp: shard_cleanup_def forgotten_def split: option.splits)

lemma cleanup_wf: "gm_wf (buckets sh) \<Longrightarrow> gm_wf (buckets (shard_cleanup now ttl sh))"
  by (simp add: shard_cleanup_def)

definition current_bucket :: "time \<Rightarrow> string \<Rightarrow> keyed_limiter \<Rightarrow> token_bucket" where
  "current_bucket now key l =
     (case map_of (buckets (shard_cleanup now (idle_ttl l)
                              (shards l ! (hash_key key mod shard_count)))) key of
        Some b \<Rightarrow> b | None \<Rightarrow> fresh_bucket (limiter_rate l) now)"

lemma limiter_allow_on:
  assumes "rate_ok r ttl" "limiter_wf r ttl l"
  shows "snd (limiter_allow now key l) = snd (take_token r now (current_bucket now key l))"
    "limiter_wf r ttl (fst (limiter_allow now key l))"
    "bucket_of (fst (limiter_allow now key l)) key =
       Some (fst (take_token r now (current_bucket now key l)))"
    "k \<noteq> key \<Longrightarrow> bucket_of (fst (limiter_allow now key l)) k = bucket_of l k \<or>
       forgotten ttl now (bucket_of (fst (limiter_allow now key l)) k) (bucket_of l k)"
proof -
  let ?i = "hash_key key mod shard_count"
  let ?sh = "shard_cleanup now ttl (shards l ! ?i)"
  have i: "?i < shard_count" by (simp add: shard_count_def)
  have on: "\<not> (per_second r \<le> 0 \<or> burst r \<le> 0)" using assms(1) by (auto simp: rate_ok_def)
  have eq: "limiter_allow now key l =
     (l\<lparr>shards := (shards l)[?i := ?sh\<lparr>buckets := AList.update key
          (fst (take_token r now (current_bucket now key l))) (buckets ?sh)\<rparr>]\<rparr>,
      snd (take_token r now (current_bucket now key l)))"
    using on assms(2)
    by (simp add: limiter_allow_def current_bucket_def limiter_wf_def Let_def case_prod_beta
        cong del: option.case_cong_weak)
  have wf: "gm_wf (buckets (shards l ! ?i))" "length (shards l) = shard_count"
    using assms(2) i by (simp_all add: limiter_wf_def)
  show "snd (limiter_allow now key l) = snd (take_token r now (current_bucket now key l))"
    by (simp add: eq)
  show "limiter_wf r ttl (fst (limiter_allow now key l))"
    using assms(2) cleanup_wf [OF wf(1)] by (auto simp: eq limiter_wf_def nth_list_update)
  show "bucket_of (fst (limiter_allow now key l)) key =
       Some (fst (take_token r now (current_bucket now key l)))"
    using wf i by (simp add: eq bucket_of_def update_conv')
  show "k \<noteq> key \<Longrightarrow> bucket_of (fst (limiter_allow now key l)) k = bucket_of l k \<or>
       forgotten ttl now (bucket_of (fst (limiter_allow now key l)) k) (bucket_of l k)"
    using wf i cleanup_lookup [OF wf(1), of now ttl k]
    by (auto simp: eq bucket_of_def update_conv' nth_list_update)
qed

lemma forgotten_later: "forgotten ttl t c a \<Longrightarrow> t \<le> now \<Longrightarrow> forgotten ttl now c a"
  by (auto simp: forgotten_def intro: order_trans [OF _ time_sub_mono])

lemma current_bucket_matches:
  assumes rel: "limiter_rel r ttl (t, l) m" and later: "t \<le> now"
  shows "take_token r now (current_bucket now key l) =
    take_token r now (case m key of Some b \<Rightarrow> b | None \<Rightarrow> fresh_bucket r now)"
proof -
  let ?c = "map_of (buckets (shard_cleanup now ttl (shards l ! (hash_key key mod shard_count)))) key"
  have wf: "limiter_wf r ttl l" "rate_ok r ttl" using rel by (simp_all add: limiter_rel_def)
  have "gm_wf (buckets (shards l ! (hash_key key mod shard_count)))"
    using wf(1) by (simp add: limiter_wf_def shard_count_def)
  from cleanup_lookup [OF this, of now ttl key]
  have "?c = bucket_of l key \<or> forgotten ttl now ?c (bucket_of l key)"
    by (simp add: bucket_of_def)
  moreover have "bucket_of l key = m key \<or> forgotten ttl now (bucket_of l key) (m key)"
    using rel later by (auto simp: limiter_rel_def intro: forgotten_later)
  ultimately have "?c = m key \<or> forgotten ttl now ?c (m key)"
    by (auto simp: forgotten_def)
  then show ?thesis
  proof
    assume "?c = m key"
    then show ?thesis using wf(1)
      by (simp add: current_bucket_def limiter_wf_def cong del: option.case_cong_weak)
  next
    assume "forgotten ttl now ?c (m key)"
    then obtain b where b: "?c = None" "m key = Some b" "ttl \<le> time_sub now (last_seen b)"
      by (auto simp: forgotten_def)
    have "bucket_ok r t b" using rel b(2) by (simp add: limiter_rel_def)
    from idle_bucket_full [OF wf(2) this b(3)] show ?thesis
      using wf(1) b by (simp add: current_bucket_def limiter_wf_def)
  qed
qed

lemma bucket_ok_later: "bucket_ok r t b \<Longrightarrow> t \<le> now \<Longrightarrow> bucket_ok r now b"
  by (auto simp: bucket_ok_def)

lemma limiter_rel_step:
  assumes rel: "limiter_rel r ttl (t, l) m" and later: "t \<le> now"
  shows "limiter_rel r ttl (now, fst (limiter_allow now key l)) (fst (spec_allow r (now, key) m))"
proof -
  have wf: "rate_ok r ttl" "limiter_wf r ttl l" using rel by (simp_all add: limiter_rel_def)
  note on = limiter_allow_on [OF wf, where now = now and key = key]
  let ?m = "fst (spec_allow r (now, key) m)"
  have m: "?m k = (if k = key then Some (fst (take_token r now (current_bucket now key l))) else m k)" for k
    using current_bucket_matches [OF rel later, of key] by (simp add: spec_allow_def Let_def)
  have start: "bucket_ok r now (case m key of Some b \<Rightarrow> b | None \<Rightarrow> fresh_bucket r now)"
    using rel later fresh_bucket_ok [OF wf(1)]
    by (auto simp: limiter_rel_def intro: bucket_ok_later split: option.split)
  have "bucket_ok r now b" if "?m k = Some b" for k b
    using that take_token_ok [OF wf(1) start order_refl] rel later
    by (auto simp: spec_allow_def Let_def limiter_rel_def intro: bucket_ok_later split: if_splits)
  moreover have "bucket_of (fst (limiter_allow now key l)) k = ?m k \<or>
      forgotten ttl now (bucket_of (fst (limiter_allow now key l)) k) (?m k)" for k
  proof (cases "k = key")
    case True
    then show ?thesis using on(3) m by simp
  next
    case False
    have "bucket_of l k = m k \<or> forgotten ttl now (bucket_of l k) (m k)"
      using rel later by (auto simp: limiter_rel_def intro: forgotten_later)
    then show ?thesis using on(4) [OF False] False by (simp add: m) (metis forgotten_def)
  qed
  ultimately show ?thesis using wf on(2) by (simp add: limiter_rel_def)
qed

interpretation limiter: simulation timed_allow "spec_allow r" "limiter_rel r ttl" clock_ok for r ttl
proof unfold_locales
  fix c a x
  assume h: "limiter_rel r ttl c a" "clock_ok x c"
  obtain t l now key where c: "c = (t, l)" "x = (now, key)" by fastforce
  have later: "t \<le> now" using h(2) by (simp add: clock_ok_def c)
  have rel: "limiter_rel r ttl (t, l) a" using h(1) by (simp add: c)
  then have wf: "rate_ok r ttl" "limiter_wf r ttl l" by (simp_all add: limiter_rel_def)
  show "snd (timed_allow x c) = snd (spec_allow r x a)"
    using limiter_allow_on(1) [OF wf] current_bucket_matches [OF rel later]
    by (simp add: c timed_allow_def spec_allow_def Let_def)
  show "limiter_rel r ttl (fst (timed_allow x c)) (fst (spec_allow r x a))"
    using limiter_rel_step [OF rel later] by (simp add: c timed_allow_def)
qed

lemma new_limiter_rel:
  "rate_ok r ttl \<Longrightarrow> limiter_rel r ttl (t, new_keyed_limiter r ttl) Map.empty"
  by (auto simp: limiter_rel_def limiter_wf_def new_keyed_limiter_def bucket_of_def)
    (simp add: shard_count_def)

section \<open>Runs of a limiter\<close>

definition limiter_run :: "(time \<times> string) list \<Rightarrow> keyed_limiter \<Rightarrow> bool list" where
  "limiter_run calls l = outputs (\<lambda>(now, key). limiter_allow now key) calls l"

definition spec_run :: "rate \<Rightarrow> (time \<times> string) list \<Rightarrow> (string \<rightharpoonup> token_bucket) \<Rightarrow> bool list" where
  "spec_run r calls m = outputs (spec_allow r) calls m"

lemma limiter_run_timed: "limiter_run calls l = outputs timed_allow calls (t, l)"
  unfolding limiter_run_def
  by (induction calls arbitrary: t l) (auto simp: timed_allow_def)

lemma sorted_enabled_run:
  "sorted (map fst calls) \<Longrightarrow> (\<forall>c \<in> set calls. t \<le> fst c) \<Longrightarrow>
   enabled_run timed_allow clock_ok calls (t, l)"
proof (induction calls arbitrary: t l)
  case (Cons c calls)
  have "fst (fst (timed_allow c (t, l))) = fst c" by (simp add: timed_allow_def case_prod_beta)
  then have "fst (timed_allow c (t, l)) = (fst c, snd (fst (timed_allow c (t, l))))"
    by (metis prod.collapse)
  then have "enabled_run timed_allow clock_ok calls (fst (timed_allow c (t, l)))"
    using Cons.IH [of "fst c" "snd (fst (timed_allow c (t, l)))"] Cons.prems by auto
  then show ?case using Cons.prems by (simp add: clock_ok_def [of c])
qed simp

lemma limiter_run_spec:
  assumes "rate_ok r ttl" "sorted (map fst calls)"
  shows "limiter_run calls (new_keyed_limiter r ttl) = spec_run r calls Map.empty"
proof (cases calls)
  case (Cons c cs)
  then have "\<forall>x \<in> set calls. fst c \<le> fst x" using assms(2) by auto
  then show ?thesis
    using limiter.run_answers [OF new_limiter_rel [OF assms(1)] sorted_enabled_run [OF assms(2)]]
    by (simp add: spec_run_def limiter_run_timed [of _ _ "fst c"])
qed (simp add: limiter_run_def spec_run_def)

lemma spec_run_other_keys:
  assumes "m key = m' key"
  shows "map snd (filter (\<lambda>(c, _). snd c = key) (zip calls (spec_run r calls m))) =
    spec_run r (filter (\<lambda>c. snd c = key) calls) m'"
  using assms unfolding spec_run_def
proof (induction calls arbitrary: m m')
  case (Cons c calls)
  obtain now k where c: "c = (now, k)" by fastforce
  let ?n = "fst (spec_allow r c m)"
  show ?case
  proof (cases "k = key")
    case True
    then have "?n key = fst (spec_allow r c m') key" "snd (spec_allow r c m) = snd (spec_allow r c m')"
      using Cons.prems by (simp_all add: c spec_allow_def Let_def)
    then show ?thesis using Cons.IH [of ?n "fst (spec_allow r c m')"] True by (simp add: c)
  next
    case False
    then have "?n key = m' key" using Cons.prems by (simp add: c spec_allow_def Let_def)
    then show ?thesis using Cons.IH [of ?n m'] False by (simp add: c)
  qed
qed simp

lemma take_token_integer:
  assumes "tokens b = real k" "k < 2 ^ 53" "last_refill b = now"
  shows "snd (take_token r now b) = (0 < k) \<and> tokens (fst (take_token r now b)) = real (k - 1) \<and>
    last_refill (fst (take_token r now b)) = now"
proof (cases k)
  case 0
  then show ?thesis using assms by (simp add: take_token_def Let_def refill_same_instant)
next
  case (Suc j)
  then have "rnd64 (real j) = real j" using assms(2) by (intro rnd64_nat) simp
  then show ?thesis using Suc assms
    by (simp add: take_token_def Let_def refill_same_instant fsub_def)
qed

lemma spec_burst_run:
  assumes "m key = Some b" "tokens b = real k" "k < 2 ^ 53" "last_refill b = now"
  shows "spec_run r (replicate n (now, key)) m = map (\<lambda>i. i < k) [0..<n]"
  using assms unfolding spec_run_def
proof (induction n arbitrary: m b k)
  case (Suc n)
  let ?b = "fst (take_token r now b)"
  note t = take_token_integer [OF Suc.prems(2-4), of r]
  have "outputs (spec_allow r) (replicate n (now, key)) (m(key \<mapsto> ?b)) = map (\<lambda>i. i < k - 1) [0..<n]"
    using Suc.prems(3) t by (intro Suc.IH [of _ ?b "k - 1"]) auto
  moreover have "map (\<lambda>i. i < k) [0..<Suc n] = (0 < k) # map (\<lambda>i. i < k - 1) [0..<n]"
    by (simp add: upt_conv_Cons less_diff_conv del: upt_Suc flip: map_Suc_upt)
  moreover have "spec_allow r (now, key) m = (m(key \<mapsto> ?b), snd (take_token r now b))"
    using Suc.prems(1) by (simp add: spec_allow_def Let_def)
  ultimately show ?case using t by (simp del: upt_Suc)
qed simp

section \<open>Connections\<close>

text \<open>
  Any number of handshakes and releases in any order, with the \<open>release\<close> functions handed
  out so far; one may be called again.
\<close>

record conn_sys =
  conn_ctl :: controller
  conn_handles :: "release_fn list"

inductive conn_step :: "conn_sys \<Rightarrow> conn_sys \<Rightarrow> bool" where
  conn_accepted:
    "acquire_connection ip (conn_ctl s) = (c, Some h) \<Longrightarrow>
     conn_step s (s\<lparr>conn_ctl := c, conn_handles := conn_handles s @ [h]\<rparr>)"
| conn_refused:
    "acquire_connection ip (conn_ctl s) = (c, None) \<Longrightarrow> conn_step s (s\<lparr>conn_ctl := c\<rparr>)"
| conn_released:
    "i < length (conn_handles s) \<Longrightarrow>
     release_connection (conn_handles s ! i) (conn_ctl s) = (c, h) \<Longrightarrow>
     conn_step s (s\<lparr>conn_ctl := c, conn_handles := (conn_handles s)[i := h]\<rparr>)"

inductive conn_reachable :: "rl_config \<Rightarrow> conn_sys \<Rightarrow> bool" for config where
  conn_start: "conn_reachable config \<lparr>conn_ctl = new_controller config, conn_handles = []\<rparr>"
| conn_next: "conn_reachable config s \<Longrightarrow> conn_step s s' \<Longrightarrow> conn_reachable config s'"

definition live_count :: "(release_fn \<Rightarrow> bool) \<Rightarrow> release_fn list \<Rightarrow> int" where
  "live_count P hs = int (length (filter (\<lambda>h. \<not> release_done h \<and> P h) hs))"

definition conn_inv :: "rl_config \<Rightarrow> conn_sys \<Rightarrow> bool" where
  "conn_inv config s \<longleftrightarrow>
     max_connections (rl_config (conn_ctl s)) = max_connections config \<and>
     max_connections_per_ip (rl_config (conn_ctl s)) = max_connections_per_ip config \<and>
     connections (conn_ctl s) = live_count (\<lambda>_. True) (conn_handles s) \<and>
     (\<forall>ip. gm_get 0 (connections_ip (conn_ctl s)) ip =
             live_count (\<lambda>h. release_ip h = ip) (conn_handles s)) \<and>
     (\<forall>ip. gm_has (connections_ip (conn_ctl s)) ip \<longleftrightarrow>
             0 < live_count (\<lambda>h. release_ip h = ip) (conn_handles s)) \<and>
     (0 < max_connections config \<longrightarrow> connections (conn_ctl s) \<le> max_connections config) \<and>
     (0 < max_connections_per_ip config \<longrightarrow>
        (\<forall>ip. gm_get 0 (connections_ip (conn_ctl s)) ip \<le> max_connections_per_ip config))"

lemma live_count_Nil [simp]: "live_count P [] = 0"
  by (simp add: live_count_def)

lemma live_count_snoc:
  "live_count P (hs @ [h]) = live_count P hs + (if \<not> release_done h \<and> P h then 1 else 0)"
  by (simp add: live_count_def)

lemma live_count_nonneg [simp]: "0 \<le> live_count P hs"
  by (simp add: live_count_def)

lemma live_count_release:
  assumes "i < length hs" "\<not> release_done (hs ! i)"
  shows "live_count P (hs[i := (hs ! i)\<lparr>release_done := True\<rparr>]) =
    live_count P hs - (if P (hs ! i) then 1 else 0)"
  using assms unfolding live_count_def
proof (induction hs arbitrary: i)
  case (Cons h hs)
  show ?case
  proof (cases i)
    case 0
    then show ?thesis using Cons.prems by simp
  next
    case (Suc j)
    then show ?thesis using Cons.IH [of j] Cons.prems by (auto split: if_splits)
  qed
qed simp

lemma release_connection_once:
  "\<not> release_done h \<Longrightarrow>
   release_connection h c = (fst (release_connection h c), h\<lparr>release_done := True\<rparr>)"
  by (simp add: release_connection_def Let_def)

lemma conn_inv_start: "conn_inv config \<lparr>conn_ctl = new_controller config, conn_handles = []\<rparr>"
  by (simp add: conn_inv_def new_controller_def Let_def)

lemma conn_inv_accepted:
  assumes inv: "conn_inv config s" and acq: "acquire_connection ip (conn_ctl s) = (c, Some h)"
  shows "conn_inv config (s\<lparr>conn_ctl := c, conn_handles := conn_handles s @ [h]\<rparr>)"
  using inv acq
  by (auto simp: conn_inv_def acquire_connection_def live_count_snoc go_map_simps split: if_splits)

lemma conn_inv_released:
  assumes inv: "conn_inv config s" and i: "i < length (conn_handles s)"
    and rel: "release_connection (conn_handles s ! i) (conn_ctl s) = (c, h)"
  shows "conn_inv config (s\<lparr>conn_ctl := c, conn_handles := (conn_handles s)[i := h]\<rparr>)"
proof (cases "release_done (conn_handles s ! i)")
  case True
  then have "c = conn_ctl s" "h = conn_handles s ! i" using rel by (simp_all add: release_connection_def)
  then show ?thesis using inv by simp
next
  case False
  let ?ip = "release_ip (conn_handles s ! i)"
  have h: "h = (conn_handles s ! i)\<lparr>release_done := True\<rparr>"
    using rel False by (auto simp: release_connection_def Let_def)
  note live = live_count_release [OF i False]
  have c: "rl_config c = rl_config (conn_ctl s)" "connections c = connections (conn_ctl s) - 1"
    "gm_get 0 (connections_ip c) k =
       gm_get 0 (connections_ip (conn_ctl s)) k - (if k = ?ip then 1 else 0)"
    "gm_has (connections_ip c) k \<longleftrightarrow>
       (if k = ?ip then gm_get 0 (connections_ip (conn_ctl s)) ?ip \<noteq> 1
        else gm_has (connections_ip (conn_ctl s)) k)" for k
    using rel False by (auto simp: release_connection_def Let_def go_map_simps split: if_splits)
  have one: "1 \<le> live_count (\<lambda>h. release_ip h = ?ip) (conn_handles s)"
    using live [of "\<lambda>h. release_ip h = ?ip"] live_count_nonneg
      [of "\<lambda>h. release_ip h = ?ip" "(conn_handles s)[i := h]"] by (simp add: h)
  show ?thesis
    using inv one unfolding conn_inv_def by (auto simp: c h live dest: spec [of _ ?ip])
qed

lemma conn_step_inv: "conn_step s s' \<Longrightarrow> conn_inv config s \<Longrightarrow> conn_inv config s'"
proof (induction rule: conn_step.induct)
  case (conn_accepted ip s c h)
  then show ?case by (blast intro: conn_inv_accepted)
next
  case (conn_refused ip s c)
  then show ?case
    by (auto simp: conn_inv_def acquire_connection_def split: if_splits)
next
  case (conn_released i s c h)
  then show ?case by (blast intro: conn_inv_released)
qed

lemma conn_reachable_inv: "conn_reachable config s \<Longrightarrow> conn_inv config s"
  by (induction rule: conn_reachable.induct) (auto intro: conn_inv_start conn_step_inv)

section \<open>Properties\<close>

lemma rate_ok_default: "rate_ok (danmaku_per_user default_rl_config) default_bucket_idle_ttl"
proof -
  have "duration_seconds (int 600 * second) = real 600" by (rule duration_seconds_whole) simp
  then have "fmul (duration_seconds default_bucket_idle_ttl) 5 = rnd64 (real 3000)"
    by (simp add: default_bucket_idle_ttl_def fmul_def)
  also have "\<dots> = 3000" by (subst rnd64_nat) simp_all
  finally show ?thesis
    by (simp add: rate_ok_def default_rl_config_def default_bucket_idle_ttl_def max_int64_def)
qed

text \<open>C6: Sharding and the eviction of idle buckets cannot be observed: on every sequence of
  calls with a clock that does not go back, the limiter answers as one that keeps a bucket
  per key for ever, with \<open>float64\<close> rounding at every step. It needs that a bucket refills
  within the idle TTL, which the default configuration gives.\<close>

theorem eviction_unobservable:
  assumes "rate_ok r ttl" "sorted (map fst calls)"
  shows "limiter_run calls (new_keyed_limiter r ttl) = spec_run r calls Map.empty"
  using assms by (rule limiter_run_spec)

theorem eviction_unobservable_witness:
  "limiter_run [(5, ''a''), (5, ''b''), (700 * second, ''a'')]
     (new_keyed_limiter (danmaku_per_user default_rl_config) default_bucket_idle_ttl) =
   spec_run (danmaku_per_user default_rl_config)
     [(5, ''a''), (5, ''b''), (700 * second, ''a'')] Map.empty"
  by (rule eviction_unobservable [OF rate_ok_default]) simp

text \<open>A burst: of \<open>n\<close> calls for one key at one instant on a new limiter, exactly the
  first \<open>Burst\<close> are admitted and all the others refused.\<close>

theorem burst_admits_exactly:
  assumes "rate_ok r ttl"
  shows "limiter_run (replicate n (now, key)) (new_keyed_limiter r ttl) =
    map (\<lambda>i. int i < burst r) [0..<n]"
proof (cases n)
  case (Suc k)
  have sorted: "sorted (map fst (replicate n (now, key)))" by (simp add: sorted_replicate)
  let ?b = "fst (take_token r now (fresh_bucket r now))"
  let ?m = "Map.empty(key \<mapsto> ?b)"
  have fresh: "tokens (fresh_bucket r now) = real (nat (burst r))" "0 < burst r"
      "nat (burst r) < 2 ^ 53" "last_refill (fresh_bucket r now) = now"
    using assms rate_ok_burst [OF assms] by (simp_all add: fresh_bucket_def rate_ok_def nat_less_iff)
  note t = take_token_integer [OF fresh(1,3,4), of r]
  have "spec_run r (replicate k (now, key)) ?m = map (\<lambda>i. i < nat (burst r) - 1) [0..<k]"
    using fresh(3) t by (intro spec_burst_run [of _ _ ?b]) auto
  moreover have "map (\<lambda>i. int i < burst r) [0..<Suc k] = True # map (\<lambda>i. i < nat (burst r) - 1) [0..<k]"
    using fresh(2) by (auto simp: upt_conv_Cons simp del: upt_Suc simp flip: map_Suc_upt)
  ultimately show ?thesis
    using limiter_run_spec [OF assms sorted] t fresh(2) Suc
    by (simp add: spec_run_def spec_allow_def Let_def del: upt_Suc)
qed (simp add: limiter_run_def)

theorem burst_admits_exactly_witness:
  "limiter_run (replicate 12 (7, ''u'')) (new_keyed_limiter (danmaku_per_user default_rl_config)
       default_bucket_idle_ttl) = replicate 10 True @ [False, False]"
  using burst_admits_exactly [OF rate_ok_default, of 12 7 "''u''"]
  by (simp add: default_rl_config_def eval_nat_numeral)

text \<open>Keys are isolated: what a key's calls are answered does not depend on the calls made
  for other keys in between, also when they share its shard.\<close>

theorem keys_isolated:
  assumes "rate_ok r ttl" "sorted (map fst calls)"
  shows "map snd (filter (\<lambda>(c, _). snd c = key)
           (zip calls (limiter_run calls (new_keyed_limiter r ttl)))) =
    limiter_run (filter (\<lambda>c. snd c = key) calls) (new_keyed_limiter r ttl)"
proof -
  have "sorted (map fst (filter (\<lambda>c. snd c = key) calls))"
    using assms(2) by (simp add: sorted_filter)
  then show ?thesis
    using limiter_run_spec [OF assms] limiter_run_spec [OF assms(1)]
      spec_run_other_keys [of Map.empty key Map.empty calls r] by simp
qed

theorem keys_isolated_witness:
  "map snd (filter (\<lambda>(c, _). snd c = ''a'')
     (zip [(1 :: int, ''a''), (1, ''b''), (2, ''a'')]
       (limiter_run [(1, ''a''), (1, ''b''), (2, ''a'')]
         (new_keyed_limiter (danmaku_per_user default_rl_config) default_bucket_idle_ttl)))) =
   limiter_run [(1, ''a''), (2, ''a'')]
     (new_keyed_limiter (danmaku_per_user default_rl_config) default_bucket_idle_ttl)"
  using keys_isolated [OF rate_ok_default, of "[(1 :: int, ''a''), (1, ''b''), (2, ''a'')]" "''a''"] by simp


fun do_acquire :: "string \<Rightarrow> conn_sys \<Rightarrow> conn_sys" where
  "do_acquire ip s =
     (case acquire_connection ip (conn_ctl s) of
        (c, None) \<Rightarrow> s\<lparr>conn_ctl := c\<rparr>
      | (c, Some h) \<Rightarrow> s\<lparr>conn_ctl := c, conn_handles := conn_handles s @ [h]\<rparr>)"

fun do_release :: "nat \<Rightarrow> conn_sys \<Rightarrow> conn_sys" where
  "do_release i s =
     (case release_connection (conn_handles s ! i) (conn_ctl s) of
        (c, h) \<Rightarrow> s\<lparr>conn_ctl := c, conn_handles := (conn_handles s)[i := h]\<rparr>)"

lemma do_acquire_reachable: "conn_reachable config s \<Longrightarrow> conn_reachable config (do_acquire ip s)"
  by (auto intro: conn_next conn_step.intros split: prod.split option.split)

lemma do_release_reachable:
  "conn_reachable config s \<Longrightarrow> i < length (conn_handles s) \<Longrightarrow>
   conn_reachable config (do_release i s)"
  by (auto intro: conn_next conn_step.intros split: prod.split)

definition ip_limit_run :: conn_sys where
  \<comment> \<open>a limit of one per IP: a connection of IP a, a second one refused, one of IP b\<close>
  "ip_limit_run =
     do_acquire ''b'' (do_acquire ''a'' (do_acquire ''a''
       \<lparr>conn_ctl = new_controller (default_rl_config\<lparr>max_connections_per_ip := 1\<rparr>),
        conn_handles = []\<rparr>))"

lemma ip_limit_run_live:
  "length (conn_handles ip_limit_run) = 2 \<and>
   live_count (\<lambda>_. True) (conn_handles (do_release 1 ip_limit_run)) = 1 \<and>
   live_count (\<lambda>h. release_ip h = ''b'') (conn_handles (do_release 1 ip_limit_run)) = 0"
  by code_simp

lemma ip_limit_run_reachable:
  "conn_reachable (default_rl_config\<lparr>max_connections_per_ip := 1\<rparr>) (do_release 1 ip_limit_run)"
proof (rule do_release_reachable)
  show "conn_reachable (default_rl_config\<lparr>max_connections_per_ip := 1\<rparr>) ip_limit_run"
    unfolding ip_limit_run_def by (intro do_acquire_reachable conn_start)
  show "1 < length (conn_handles ip_limit_run)"
    using ip_limit_run_live by simp
qed


text \<open>Every danmaku is answered in exactly one way, with one counter raised by one: a user
  over the limit is refused before the room's bucket is touched; otherwise the room's
  bucket decides.\<close>

theorem danmaku_admission:
  "let u = limiter_allow now (user_key room user) (danmaku_users c);
       rm = limiter_allow now room (danmaku_rooms c)
   in allow_danmaku now room user c =
     (if \<not> snd u
      then (c\<lparr>danmaku_users := fst u, danmaku_rejected_user := danmaku_rejected_user c + 1\<rparr>,
            False, ReasonUser)
      else if \<not> snd rm
      then (c\<lparr>danmaku_users := fst u, danmaku_rooms := fst rm,
              danmaku_rejected_room := danmaku_rejected_room c + 1\<rparr>, False, ReasonRoom)
      else (c\<lparr>danmaku_users := fst u, danmaku_rooms := fst rm,
              danmaku_accepted := danmaku_accepted c + 1\<rparr>, True, ReasonNone))"
  by (auto simp: allow_danmaku_def Let_def split: prod.split bool.split)

end
