(* ===== verification/Go_Strings.thy ===== *)
theory Go_Strings
  imports Prelude
begin

text \<open>
  The part of Go's \<open>strings\<close> and \<open>unicode/utf8\<close> the program uses. A Go string is a sequence
  of bytes, here a \<open>string\<close> whose characters are the bytes. \<open>runes\<close> cuts it into runes as
  Go's decoder does: a byte that starts no valid encoding is a rune of its own, U+FFFD of
  width 1. Since a lead byte never occurs inside an encoding, cutting from the left gives
  the pieces that the decoder for the last rune (used to trim on the right) finds too.
\<close>

section \<open>Decoding\<close>

type_synonym rune = nat

definition byte :: "char \<Rightarrow> nat" where "byte c = of_char c"

abbreviation (input) rune_error :: rune where "rune_error \<equiv> 65533"

definition continuation :: "nat \<Rightarrow> nat \<Rightarrow> nat \<Rightarrow> bool" where
  "continuation lo hi b \<longleftrightarrow> lo \<le> b \<and> b \<le> hi"

definition second_range :: "nat \<Rightarrow> nat \<times> nat" where
  \<comment> \<open>the bytes that may follow a lead byte\<close>
  "second_range b =
     (if b = 224 then (160, 191) else if b = 237 then (128, 159)
      else if b = 240 then (144, 191) else if b = 244 then (128, 143) else (128, 191))"

fun decode_rune :: "nat list \<Rightarrow> rune \<times> nat" where
  "decode_rune [] = (rune_error, 0)"
| "decode_rune (b0 # bs) =
     (if b0 < 128 then (b0, 1)
      else if b0 < 194 \<or> 244 < b0 then (rune_error, 1)
      else
        (case bs of
           [] \<Rightarrow> (rune_error, 1)
         | b1 # bs1 \<Rightarrow>
             if \<not> continuation (fst (second_range b0)) (snd (second_range b0)) b1
             then (rune_error, 1)
             else if b0 < 224 then ((b0 mod 32) * 64 + b1 mod 64, 2)
             else
               (case bs1 of
                  [] \<Rightarrow> (rune_error, 1)
                | b2 # bs2 \<Rightarrow>
                    if \<not> continuation 128 191 b2 then (rune_error, 1)
                    else if b0 < 240
                    then ((b0 mod 16) * 4096 + (b1 mod 64) * 64 + b2 mod 64, 3)
                    else
                      (case bs2 of
                         [] \<Rightarrow> (rune_error, 1)
                       | b3 # _ \<Rightarrow>
                           if \<not> continuation 128 191 b3 then (rune_error, 1)
                           else ((b0 mod 8) * 262144 + (b1 mod 64) * 4096 +
                                 (b2 mod 64) * 64 + b3 mod 64, 4)))))"

lemma decode_rune_width: "bs \<noteq> [] \<Longrightarrow> 1 \<le> snd (decode_rune bs) \<and> snd (decode_rune bs) \<le> length bs"
  by (cases bs) (auto split: list.splits)

function runes :: "string \<Rightarrow> (rune \<times> string) list" where
  "runes s =
     (if s = [] then []
      else (let (r, w) = decode_rune (map byte s) in (r, take w s) # runes (drop w s)))"
  by pat_completeness auto
termination
proof (relation "measure length")
  fix s :: string and x r w
  assume "s \<noteq> []" "x = decode_rune (map byte s)" "(r, w) = x"
  then have "1 \<le> w" using decode_rune_width [of "map byte s"] by (metis length_map list.size(3)
    length_0_conv snd_conv)
  then show "(drop w s, s) \<in> measure length" using \<open>s \<noteq> []\<close> by simp
qed simp

declare runes.simps [simp del]

lemma runes_Nil [simp]: "runes [] = []"
  by (simp add: runes.simps)

lemma runes_ascii:
  "byte c < 128 \<Longrightarrow> runes (c # s) = (byte c, [c]) # runes s"
  by (subst runes.simps) simp

text \<open>Nothing is lost: the pieces are the string.\<close>

lemma concat_runes: "concat (map snd (runes s)) = s"
proof (induction s rule: runes.induct)
  case (1 s)
  then show ?case by (subst runes.simps) (auto split: prod.split)
qed

lemma length_runes: "length (runes s) \<le> length s"
proof (induction s rule: runes.induct)
  case (1 s)
  show ?case
  proof (cases "s = []")
    case False
    obtain r w where d: "decode_rune (map byte s) = (r, w)" by fastforce
    then have w: "1 \<le> w" "w \<le> length s" using decode_rune_width [of "map byte s"] False by auto
    have "length (runes (drop w s)) \<le> length s - w" using "1.IH" [OF False d [symmetric]] d by simp
    then show ?thesis using False d w by (subst runes.simps) simp
  qed simp
qed

section \<open>Operations\<close>

definition rune_count :: "string \<Rightarrow> nat" where
  "rune_count s = length (runes s)"

definition valid_string :: "string \<Rightarrow> bool" where
  "valid_string s \<longleftrightarrow> (\<forall>(r, bs) \<in> set (runes s). \<not> (r = rune_error \<and> length bs = 1))"

definition is_space :: "rune \<Rightarrow> bool" where
  "is_space r \<longleftrightarrow>
     r \<in> {9, 10, 11, 12, 13, 32, 133, 160, 5760, 8232, 8233, 8239, 8287, 12288} \<or>
     8192 \<le> r \<and> r \<le> 8202"

definition trim_space :: "string \<Rightarrow> string" where
  "trim_space s =
     concat (map snd (rev (dropWhile (is_space \<circ> fst)
       (rev (dropWhile (is_space \<circ> fst) (runes s))))))"

fun split_spaces :: "(rune \<times> string) list \<Rightarrow> string \<Rightarrow> string list" where
  \<comment> \<open>the fields of the runes, after the bytes of the current field\<close>
  "split_spaces [] cur = (if cur = [] then [] else [cur])"
| "split_spaces ((r, bs) # rs) cur =
     (if is_space r then (if cur = [] then [] else [cur]) @ split_spaces rs []
      else split_spaces rs (cur @ bs))"

definition fields :: "string \<Rightarrow> string list" where
  "fields s = split_spaces (runes s) []"

fun join :: "string \<Rightarrow> string list \<Rightarrow> string" where
  "join sep [] = []"
| "join sep [x] = x"
| "join sep (x # y # xs) = x @ sep @ join sep (y # xs)"

fun split_char :: "char \<Rightarrow> string \<Rightarrow> string list" where
  \<comment> \<open>\<open>strings.Split\<close> with a one-byte separator\<close>
  "split_char sep [] = [[]]"
| "split_char sep (c # s) =
     (if c = sep then [] # split_char sep s
      else (case split_char sep s of [] \<Rightarrow> [[c]] | x # xs \<Rightarrow> (c # x) # xs))"

definition has_prefix :: "string \<Rightarrow> string \<Rightarrow> bool" where
  "has_prefix s p \<longleftrightarrow> take (length p) s = p"

fun contains :: "string \<Rightarrow> string \<Rightarrow> bool" where
  "contains [] p = (p = [])"
| "contains (c # s) p = (has_prefix (c # s) p \<or> contains s p)"

definition ascii_lower :: "char \<Rightarrow> char" where
  "ascii_lower c = (if 65 \<le> byte c \<and> byte c \<le> 90 then char_of (byte c + 32) else c)"

section \<open>Lemmas\<close>

lemma trim_space_Nil [simp]: "trim_space [] = []"
  by (simp add: trim_space_def)

lemma rune_count_Nil [simp]: "rune_count [] = 0"
  by (simp add: rune_count_def)

lemma rune_count_le_length: "rune_count s \<le> length s"
  by (simp add: rune_count_def length_runes)

definition ascii :: "string \<Rightarrow> bool" where
  "ascii s \<longleftrightarrow> (\<forall>c \<in> set s. byte c < 128)"

lemma runes_ascii_map: "ascii s \<Longrightarrow> runes s = map (\<lambda>c. (byte c, [c])) s"
  by (induction s) (auto simp: runes_ascii ascii_def)

lemma rune_count_ascii: "ascii s \<Longrightarrow> rune_count s = length s"
  by (simp add: rune_count_def runes_ascii_map)

lemma split_char_nonempty: "split_char sep s \<noteq> []"
  by (induction s) (auto split: list.split)

lemma split_char_none: "c \<notin> set s \<Longrightarrow> split_char c s = [s]"
  by (induction s) auto

lemma split_char_append: "c \<notin> set s \<Longrightarrow> split_char c (s @ c # t) = s # split_char c t"
  by (induction s) auto

lemma split_join:
  assumes "\<forall>x \<in> set xs. c \<notin> set x" "xs \<noteq> []"
  shows "split_char c (join [c] xs) = xs"
  using assms
proof (induction xs rule: induct_list012)
  case (2 x)
  then show ?case by (simp add: split_char_none)
next
  case (3 x y zs)
  then show ?case using split_char_append [of c x "join [c] (y # zs)"] by simp
qed simp

lemma concat_map_singleton: "concat (map (\<lambda>x. [x]) xs) = xs"
  by (induction xs) auto

lemma trim_space_ascii:
  assumes "ascii s"
  shows "trim_space s = rev (dropWhile (is_space \<circ> byte) (rev (dropWhile (is_space \<circ> byte) s)))"
proof -
  let ?f = "\<lambda>c. (byte c, [c])"
  have comp: "(is_space \<circ> fst) \<circ> ?f = is_space \<circ> byte" by (simp add: fun_eq_iff)
  have "trim_space s = concat (map snd (map ?f
      (rev (dropWhile (is_space \<circ> byte) (rev (dropWhile (is_space \<circ> byte) s))))))"
    unfolding trim_space_def runes_ascii_map [OF assms]
    by (simp add: dropWhile_map comp rev_map)
  then show ?thesis by (simp add: o_def concat_map_singleton)
qed

section \<open>Pieces of a trimmed string\<close>

text \<open>Decoding looks no further than the rune it finds, so a string cut between two runes decodes
  to the runes before the cut, and trimming works on the runes.\<close>

lemma decode_rune_take: "snd (decode_rune bs) \<le> n \<Longrightarrow> 0 < n \<Longrightarrow> decode_rune (take n bs) = decode_rune bs"
  by (cases bs; cases n; cases "n - 1"; cases "n - 2"; cases "n - 3")
    (auto split: list.splits if_splits simp: take_Cons' numeral_2_eq_2 numeral_3_eq_3)

lemma runes_take_prefix:
  "runes s = xs @ ys \<Longrightarrow> runes (concat (map snd xs)) = xs"
proof (induction xs arbitrary: s)
  case Nil
  then show ?case by simp
next
  case (Cons x xs)
  then have ne: "s \<noteq> []" by auto
  obtain r w where d: "decode_rune (map byte s) = (r, w)" by fastforce
  have w: "1 \<le> w" "w \<le> length s" using decode_rune_width [of "map byte s"] ne d by auto
  have x: "x = (r, take w s)" and rest: "runes (drop w s) = xs @ ys"
    using Cons.prems ne d by (subst (asm) runes.simps; simp)+
  let ?t = "take w s @ concat (map snd xs)"
  have "concat (map snd (xs @ ys)) = drop w s" using concat_runes [of "drop w s"] rest by simp
  then have s: "s = ?t @ concat (map snd ys)" using append_take_drop_id [of w s] by simp
  have "map byte ?t = take (length ?t) (map byte s)" using s by (metis append_eq_conv_conj take_map)
  moreover have "w \<le> length ?t" using w by simp
  ultimately have "decode_rune (map byte ?t) = (r, w)"
    using decode_rune_take [of "map byte s" "length ?t"] d w by simp
  moreover have "?t \<noteq> []" "take w ?t = take w s" "drop w ?t = concat (map snd xs)" using w ne by auto
  ultimately show ?case using Cons.IH [OF rest] x by (subst runes.simps) simp
qed

lemma runes_dropWhile: "\<exists>n. drop n s = concat (map snd (dropWhile P (runes s))) \<and> runes (drop n s) = dropWhile P (runes s)"
proof (induction s rule: runes.induct)
  case (1 s)
  show ?case
  proof (cases "s = []")
    case False
    obtain r w where d: "decode_rune (map byte s) = (r, w)" by fastforce
    have rs: "runes s = (r, take w s) # runes (drop w s)" using False d by (subst runes.simps) simp
    show ?thesis
    proof (cases "P (r, take w s)")
      case True
      obtain n where "drop n (drop w s) = concat (map snd (dropWhile P (runes (drop w s))))"
        "runes (drop n (drop w s)) = dropWhile P (runes (drop w s))"
        using "1.IH" [OF False d [symmetric]] d by auto
      then show ?thesis using True rs by (intro exI [of _ "n + w"]) simp
    next
      case P: False
      have "dropWhile P (runes s) = runes s" using P rs by simp
      then show ?thesis using concat_runes [of s] by (intro exI [of _ 0]) simp
    qed
  qed simp
qed

lemma runes_trim_space:
  "runes (trim_space s) =
     rev (dropWhile (is_space \<circ> fst) (rev (dropWhile (is_space \<circ> fst) (runes s))))"
proof -
  let ?P = "is_space \<circ> fst"
  obtain n where n: "runes (drop n s) = dropWhile ?P (runes s)" using runes_dropWhile by blast
  let ?xs = "rev (dropWhile ?P (rev (dropWhile ?P (runes s))))"
  have "dropWhile ?P (runes s) = ?xs @ rev (takeWhile ?P (rev (dropWhile ?P (runes s))))"
    using takeWhile_dropWhile_id [of ?P "rev (dropWhile ?P (runes s))"]
    by (metis rev_append rev_rev_ident)
  then have "runes (drop n s) = ?xs @ rev (takeWhile ?P (rev (dropWhile ?P (runes s))))"
    using n by simp
  then have "runes (concat (map snd ?xs)) = ?xs" by (rule runes_take_prefix)
  then show ?thesis by (simp only: trim_space_def)
qed

lemma dropWhile_trimmed:
  "dropWhile P (rev (dropWhile P (rev (dropWhile P xs)))) = rev (dropWhile P (rev (dropWhile P xs)))"
proof (cases "dropWhile P xs")
  case Nil
  then show ?thesis by (simp only: dropWhile.simps rev.simps)
next
  case (Cons y ys)
  then have "\<not> P y" using hd_dropWhile [of P xs] by simp
  moreover have "rev (dropWhile P (rev (y # ys))) = y # rev (dropWhile P (rev ys))"
    using \<open>\<not> P y\<close> by (simp add: dropWhile_append)
  ultimately show ?thesis using Cons by simp
qed

lemma dropWhile_twice: "dropWhile P (dropWhile P xs) = dropWhile P xs"
  by (induction xs) auto

lemma trim_space_idem [simp]: "trim_space (trim_space s) = trim_space s"
proof -
  have "dropWhile (is_space \<circ> fst) (runes (trim_space s)) = runes (trim_space s)"
    by (simp only: runes_trim_space dropWhile_trimmed)
  then have "trim_space (trim_space s) =
      concat (map snd (rev (dropWhile (is_space \<circ> fst) (rev (runes (trim_space s))))))"
    by (simp only: trim_space_def)
  also have "dropWhile (is_space \<circ> fst) (rev (runes (trim_space s))) = rev (runes (trim_space s))"
    by (simp only: runes_trim_space rev_rev_ident dropWhile_twice)
  finally show ?thesis by (simp add: concat_runes)
qed

lemma split_char_parts: "\<forall>p \<in> set (split_char sep s). sep \<notin> set p \<and> set p \<subseteq> set s"
  by (induction s) (fastforce split: list.splits if_splits)+

lemma set_trim_space: "set (trim_space s) \<subseteq> set s"
proof -
  have "set (trim_space s) \<subseteq> set (concat (map snd (runes s)))"
    by (auto simp: trim_space_def dest!: set_dropWhileD)
  then show ?thesis by (simp add: concat_runes)
qed

lemma valid_string_trim: "valid_string s \<Longrightarrow> valid_string (trim_space s)"
  by (auto simp: valid_string_def runes_trim_space dest!: set_dropWhileD)

section \<open>Numbers in decimal and hexadecimal\<close>

definition digit_char :: "nat \<Rightarrow> char" where
  "digit_char d = (if d < 10 then char_of (48 + d) else char_of (87 + d))"

definition char_digit :: "char \<Rightarrow> nat" where
  "char_digit c = (if byte c < 58 then byte c - 48 else byte c - 87)"

fun digits :: "nat \<Rightarrow> nat \<Rightarrow> string" where
  \<comment> \<open>base, number\<close>
  "digits b n = (if n < b \<or> b \<le> 1 then [digit_char n] else digits b (n div b) @ [digit_char (n mod b)])"

declare digits.simps [simp del]

definition zero_padded :: "nat \<Rightarrow> string \<Rightarrow> string" where
  \<comment> \<open>the width of a verb such as \<open>%016x\<close>: at least that many characters\<close>
  "zero_padded w s = replicate (w - length s) (digit_char 0) @ s"

definition show_int :: "int \<Rightarrow> string" where
  "show_int i = (if i < 0 then ''-'' @ digits 10 (nat (- i)) else digits 10 (nat i))"

definition digits_value :: "nat \<Rightarrow> string \<Rightarrow> nat" where
  "digits_value b s = foldl (\<lambda>v c. v * b + char_digit c) 0 s"

lemma char_digit_inverse: "d < 16 \<Longrightarrow> char_digit (digit_char d) = d"
  by (simp add: char_digit_def digit_char_def byte_def)

lemma digit_char_not_dash: "d < 16 \<Longrightarrow> digit_char d \<noteq> CHR ''-''"
proof -
  assume "d < 16"
  then have "byte (digit_char d) \<noteq> 45" by (simp add: digit_char_def byte_def)
  then show ?thesis by (auto simp: byte_def)
qed

lemma digits_value_append:
  "digits_value b (s @ [c]) = digits_value b s * b + char_digit c"
  by (simp add: digits_value_def)

lemma digits_value_digits: "1 < b \<Longrightarrow> b \<le> 16 \<Longrightarrow> digits_value b (digits b n) = n"
proof (induction b n rule: digits.induct)
  case (1 b n)
  show ?case
  proof (cases "n < b")
    case True
    then show ?thesis using "1.prems"
      by (subst digits.simps) (simp add: digits_value_def char_digit_inverse)
  next
    case False
    have "n mod b < 16" using "1.prems" mod_less_divisor [of b n] by linarith
    then show ?thesis using False "1.prems" "1.IH"
      by (subst digits.simps) (simp add: digits_value_append char_digit_inverse)
  qed
qed

lemma digits_value_padded: "digits_value b (zero_padded w s) = digits_value b s"
proof -
  have "foldl (\<lambda>v c. v * b + char_digit c) 0 (replicate n (digit_char 0)) = 0" for n
    by (induction n) (simp_all add: char_digit_inverse)
  then show ?thesis by (simp add: digits_value_def zero_padded_def)
qed

lemma digits_no_dash: "1 < b \<Longrightarrow> b \<le> 16 \<Longrightarrow> CHR ''-'' \<notin> set (digits b n)"
proof (induction b n rule: digits.induct)
  case (1 b n)
  show ?case
  proof (cases "n < b")
    case True
    then have "digit_char n \<noteq> CHR ''-''" using "1.prems" by (intro digit_char_not_dash) simp
    then show ?thesis using True by (subst digits.simps) auto
  next
    case False
    have "n mod b < 16" using "1.prems" mod_less_divisor [of b n] by linarith
    then have "digit_char (n mod b) \<noteq> CHR ''-''" by (rule digit_char_not_dash)
    then show ?thesis using False "1.prems" "1.IH" by (subst digits.simps) auto
  qed
qed

lemma padded_no_dash: "1 < b \<Longrightarrow> b \<le> 16 \<Longrightarrow> CHR ''-'' \<notin> set (zero_padded w (digits b n))"
  using digits_no_dash [of b n] digit_char_not_dash [of 0] by (auto simp: zero_padded_def)

lemma ascii_append [simp]: "ascii (s @ t) \<longleftrightarrow> ascii s \<and> ascii t"
  by (auto simp: ascii_def)

lemma ascii_Cons [simp]: "ascii (c # s) \<longleftrightarrow> byte c < 128 \<and> ascii s"
  by (auto simp: ascii_def)

lemma ascii_digit_char: "d < 16 \<Longrightarrow> byte (digit_char d) < 128"
  by (simp add: digit_char_def byte_def)

lemma ascii_digits: "1 < b \<Longrightarrow> b \<le> 16 \<Longrightarrow> ascii (digits b n)"
proof (induction b n rule: digits.induct)
  case (1 b n)
  show ?case
  proof (cases "n < b")
    case True
    then show ?thesis using "1.prems" by (subst digits.simps) (simp add: ascii_def ascii_digit_char)
  next
    case False
    have "n mod b < 16" using "1.prems" mod_less_divisor [of b n] by linarith
    then show ?thesis using False "1.prems" "1.IH"
      by (subst digits.simps) (simp add: ascii_def ascii_digit_char)
  qed
qed

lemma ascii_padded: "ascii s \<Longrightarrow> ascii (zero_padded w s)"
  by (auto simp: zero_padded_def ascii_def ascii_digit_char)

lemma length_digits: "1 < b \<Longrightarrow> n < b ^ Suc k \<Longrightarrow> length (digits b n) \<le> Suc k"
proof (induction k arbitrary: n)
  case 0
  then show ?case by (subst digits.simps) simp
next
  case (Suc k)
  show ?case
  proof (cases "n < b")
    case False
    have "n div b < b ^ Suc k" using Suc.prems by (simp add: less_mult_imp_div_less mult.commute)
    then show ?thesis using Suc.IH [of "n div b"] Suc.prems(1) False by (subst digits.simps) simp
  qed (subst digits.simps, simp)
qed

lemma length_padded: "length s \<le> w \<Longrightarrow> length (zero_padded w s) = w"
  by (simp add: zero_padded_def)

lemma trim_space_ascii_nonempty:
  assumes "ascii s" "c \<in> set s" "\<not> is_space (byte c)"
  shows "trim_space s \<noteq> []"
proof -
  have "\<not> (\<forall>x \<in> set (dropWhile (is_space \<circ> byte) s). is_space (byte x))"
    using assms(2,3) by (induction s) auto
  then show ?thesis by (auto simp: trim_space_ascii [OF assms(1)] dropWhile_eq_Nil_conv)
qed

lemma valid_string_ascii: "ascii s \<Longrightarrow> valid_string s"
  by (auto simp: valid_string_def runes_ascii_map ascii_def)

section \<open>Runes of joined strings\<close>


lemma decode_rune_bytes:
  assumes "decode_rune bs = (r, w)" "1 < w"
  shows "\<forall>b \<in> set (take w bs). 128 \<le> b" "\<forall>b \<in> set (drop 1 (take w bs)). 128 \<le> b \<and> b \<le> 191"
  using assms
  by (cases bs; auto simp: continuation_def second_range_def take_Cons' split: if_splits list.splits)+

lemma decode_continuation: "128 \<le> b \<Longrightarrow> b \<le> 191 \<Longrightarrow> decode_rune (b # bs) = (rune_error, 1)"
  by simp

lemma runes_Cons_piece:
  "s \<noteq> [] \<Longrightarrow> decode_rune (map byte s) = (r, w) \<Longrightarrow> runes s = (r, take w s) # runes (drop w s)"
  by (subst runes.simps) simp

lemma rune_count_piece:
  "s \<noteq> [] \<Longrightarrow> decode_rune (map byte s) = (r, w) \<Longrightarrow> rune_count s = Suc (rune_count (drop w s))"
  by (simp add: rune_count_def runes_Cons_piece)

lemma rune_count_continuation:
  "\<forall>c \<in> set cs. 128 \<le> byte c \<and> byte c \<le> 191 \<Longrightarrow> rune_count (cs @ s) = length cs + rune_count s"
proof (induction cs)
  case (Cons c cs)
  have "decode_rune (map byte ((c # cs) @ s)) = (rune_error, 1)"
    using Cons.prems decode_continuation [of "byte c" "map byte (cs @ s)"] by simp
  then show ?case using Cons by (subst rune_count_piece) auto
qed simp

lemma rune_count_append: "rune_count (a @ b) \<le> rune_count a + rune_count b"
proof (induction a rule: runes.induct)
  case (1 a)
  show ?case
  proof (cases "a = []")
    case False
    obtain r w where d: "decode_rune (map byte a) = (r, w)" by fastforce
    obtain r' w' where d': "decode_rune (map byte (a @ b)) = (r', w')" by fastforce
    have w': "1 \<le> w'" "w' \<le> length (a @ b)"
      using decode_rune_width [of "map byte (a @ b)"] False d' by auto
    show ?thesis
    proof (cases "w' \<le> length a")
      case True
      then have "decode_rune (take (length a) (map byte (a @ b))) = decode_rune (map byte (a @ b))"
        using d' w' by (intro decode_rune_take) auto
      then have "r = r'" "w = w'" using d d' by simp_all
      moreover have "drop w' (a @ b) = drop w' a @ b" using True by simp
      ultimately show ?thesis
        using "1.IH" [OF False d [symmetric]] rune_count_piece [OF False d] d d' False
          rune_count_piece [of "a @ b" r' w'] by simp
    next
      case long: False
      define k where "k = w' - length a"
      have "length a \<ge> 1" using False by (cases a) auto
      then have w: "1 < w'" using long by simp
      have k: "k \<le> length b" using w' by (simp add: k_def)
      have "take w' (map byte (a @ b)) = map byte a @ take k (map byte b)" using long by (simp add: k_def)
      then have "set (take k (map byte b)) \<subseteq> set (drop 1 (take w' (map byte (a @ b))))"
        using False by (cases a) auto
      then have "\<forall>c \<in> set (take k b). 128 \<le> byte c \<and> byte c \<le> 191"
        using decode_rune_bytes(2) [OF d' w] by (auto simp: take_map)
      then have "rune_count b = k + rune_count (drop k b)"
        using rune_count_continuation [of "take k b" "drop k b"] k by simp
      moreover have "rune_count (a @ b) = Suc (rune_count (drop k b))"
        using rune_count_piece [OF _ d'] False long by (simp add: k_def)
      moreover have "1 \<le> rune_count a" using rune_count_piece [OF False d] by simp
      moreover have "1 \<le> k" using long by (simp add: k_def)
      ultimately show ?thesis by simp
    qed
  qed simp
qed

lemma runes_piece:
  "(r, bs) \<in> set (runes s) \<Longrightarrow> runes bs = [(r, bs)] \<and> bs \<noteq> [] \<and>
     (\<forall>c \<in> set bs. byte c < 128 \<longrightarrow> r = byte c \<and> bs = [c])"
proof (induction s rule: runes.induct)
  case (1 s)
  have ne: "s \<noteq> []" using "1.prems" by auto
  obtain q w where d: "decode_rune (map byte s) = (q, w)" by fastforce
  have w: "1 \<le> w" "w \<le> length s" using decode_rune_width [of "map byte s"] ne d by auto
  have "(r, bs) = (q, take w s) \<or> (r, bs) \<in> set (runes (drop w s))"
    using "1.prems" runes_Cons_piece [OF ne d] by auto
  then show ?case
  proof
    assume eq: "(r, bs) = (q, take w s)"
    have one: "runes (take w s) = [(q, take w s)]"
      using runes_take_prefix [of s "[(q, take w s)]" "runes (drop w s)"] runes_Cons_piece [OF ne d] by simp
    have "byte c < 128 \<longrightarrow> q = byte c \<and> take w s = [c]" if "c \<in> set (take w s)" for c
    proof (cases "1 < w")
      case True
      then show ?thesis using decode_rune_bytes(1) [OF d True] that by (force simp: take_map)
    next
      case False
      then have "w = 1" using w by simp
      then show ?thesis using that d ne by (cases s) auto
    qed
    then show ?thesis using eq one w ne by auto
  next
    assume "(r, bs) \<in> set (runes (drop w s))"
    then show ?thesis using "1.IH" [OF ne d [symmetric]] by simp
  qed
qed

end
