(* ===== verification/IdGen.thy ===== *)
theory IdGen
  imports Go_Strings
begin

text \<open>
  Message identities, \<open>v10/internal/idgen/generator.go\<close>: a random prefix per process, the
  clock and an atomic sequence number. The random bytes are an argument of \<open>new_generator\<close>,
  the clock (\<open>time.Now().UnixMilli()\<close>, not negative) one of \<open>next_id\<close>.
\<close>

record generator =
  gen_prefix :: string
  gen_sequence :: u64

definition hex_byte :: "char \<Rightarrow> string" where
  "hex_byte c = [digit_char (byte c div 16), digit_char (byte c mod 16)]"

definition new_generator :: "string option \<Rightarrow> generator option" where
  \<comment> \<open>\<open>None\<close>: \<open>rand.Read\<close> failed\<close>
  "new_generator random =
     map_option (\<lambda>bs. \<lparr>gen_prefix = concat (map hex_byte bs), gen_sequence = 0\<rparr>) random"

definition next_id :: "nat \<Rightarrow> generator \<Rightarrow> generator \<times> string" where
  "next_id millis g =
     (let seq = gen_sequence g + 1
      in (g\<lparr>gen_sequence := seq\<rparr>,
          zero_padded 13 (digits 16 millis) @ ''-'' @ gen_prefix g @ ''-'' @
          zero_padded 16 (digits 16 (unat seq))))"

section \<open>Lemmas\<close>

definition id_sequence :: "string \<Rightarrow> nat" where
  \<comment> \<open>the number after the last dash\<close>
  "id_sequence s = digits_value 16 (rev (takeWhile (\<lambda>c. c \<noteq> CHR ''-'') (rev s)))"

lemma takeWhile_no_dash:
  "CHR ''-'' \<notin> set s \<Longrightarrow> takeWhile (\<lambda>c. c \<noteq> CHR ''-'') (rev s @ ''-'' @ t) = rev s"
  by (subst takeWhile_append2) auto

lemma id_sequence_next: "id_sequence (snd (next_id millis g)) = unat (gen_sequence g + 1)"
proof -
  let ?s = "zero_padded 16 (digits 16 (unat (gen_sequence g + 1)))"
  have "takeWhile (\<lambda>c. c \<noteq> CHR ''-'') (rev (snd (next_id millis g))) = rev ?s"
    using takeWhile_no_dash [OF padded_no_dash, of 16 16 "unat (gen_sequence g + 1)"]
    by (simp add: next_id_def Let_def)
  then show ?thesis by (simp add: id_sequence_def digits_value_padded digits_value_digits)
qed

lemma run_sequence:
  "gen_sequence (final next_id ms g) = gen_sequence g + of_nat (length ms)"
  by (induction ms arbitrary: g) (simp_all add: next_id_def Let_def)

lemma run_ids:
  "map id_sequence (outputs next_id ms g) =
     map (\<lambda>i. unat (gen_sequence g + 1 + of_nat i)) [0..<length ms]"
proof (induction ms arbitrary: g)
  case (Cons m ms)
  have "gen_sequence (fst (next_id m g)) = gen_sequence g + 1" by (simp add: next_id_def Let_def)
  then show ?case using Cons.IH [of "fst (next_id m g)"]
    by (simp add: id_sequence_next upt_conv_Cons add.commute add.left_commute
        del: upt_Suc flip: map_Suc_upt)
qed simp

definition generator_ok :: "generator \<Rightarrow> bool" where
  "generator_ok g \<longleftrightarrow> ascii (gen_prefix g) \<and> length (gen_prefix g) \<le> 32"

lemma new_generator_ok:
  assumes "new_generator (Some bs) = Some g" "length bs \<le> 16"
  shows "generator_ok g"
proof -
  have "ascii (hex_byte c)" for c
    using nat_of_char_less_256 [of c]
    by (simp add: ascii_def hex_byte_def ascii_digit_char less_mult_imp_div_less byte_def [of c])
  then have "ascii (concat (map hex_byte xs))" for xs by (induction xs) (auto simp: ascii_def)
  moreover have "length (concat (map hex_byte xs)) = 2 * length xs" for xs
    by (induction xs) (auto simp: hex_byte_def)
  ultimately show ?thesis using assms by (auto simp: generator_ok_def new_generator_def)
qed

lemma next_id_fits:
  assumes "generator_ok g" "n < 16 ^ 13"
  shows "ascii (snd (next_id n g))" "rune_count (snd (next_id n g)) \<le> 64"
    "trim_space (snd (next_id n g)) \<noteq> []"
proof -
  show a: "ascii (snd (next_id n g))"
    using assms ascii_padded [OF ascii_digits, of 16]
    by (simp add: next_id_def Let_def generator_ok_def byte_def)
  have "unat (gen_sequence g + 1) < 16 ^ Suc 15"
    by (rule order.strict_trans2 [OF unsigned_less]) simp
  then have "length (zero_padded 16 (digits 16 (unat (gen_sequence g + 1)))) = 16"
    using length_digits [of 16 _ 15] by (intro length_padded) simp
  moreover have "length (zero_padded 13 (digits 16 n)) = 13"
    using assms length_digits [of 16 n 12] by (intro length_padded) simp
  ultimately show "rune_count (snd (next_id n g)) \<le> 64"
    using assms by (simp add: rune_count_ascii [OF a]) (simp add: next_id_def Let_def generator_ok_def)
  have "CHR ''-'' \<in> set (snd (next_id n g))" by (simp add: next_id_def Let_def)
  then show "trim_space (snd (next_id n g)) \<noteq> []"
    by (rule trim_space_ascii_nonempty [OF a]) (simp add: is_space_def byte_def)
qed

section \<open>Properties\<close>

text \<open>A generator never gives the same message id twice: the ids of any run of at most
  2^64 calls are all different, whatever the clock shows, also when it stands still or goes
  back.\<close>

theorem ids_unique:
  assumes "length millis \<le> 2 ^ 64"
  shows "distinct (outputs next_id millis g)"
proof -
  have inj: "inj_on (\<lambda>i. unat (gen_sequence g + 1 + of_nat i)) {0..<length millis}"
  proof (rule inj_onI)
    fix i j
    assume "i \<in> {0..<length millis}" "j \<in> {0..<length millis}"
      "unat (gen_sequence g + 1 + of_nat i) = unat (gen_sequence g + 1 + of_nat j)"
    then have "gen_sequence g + 1 + of_nat i = gen_sequence g + 1 + of_nat j"
      "i < 2 ^ 64" "j < 2 ^ 64" using assms by (auto simp: word_unat_eq_iff)
    then have "unat (of_nat i :: u64) = unat (of_nat j :: u64)" "i < 2 ^ 64" "j < 2 ^ 64" by simp_all
    then show "i = j" by (simp add: unat_of_nat)
  qed
  then have "distinct (map id_sequence (outputs next_id millis g))"
    unfolding run_ids by (simp add: distinct_map)
  then show ?thesis by (simp add: distinct_map)
qed

theorem ids_unique_witness:
  "distinct (outputs next_id [1700000000000, 1700000000000, 5]
     \<lparr>gen_prefix = ''0a1b'', gen_sequence = 2 ^ 64 - 2\<rparr>)"
  by (rule ids_unique) simp

end
