(* ===== verification/Model.thy ===== *)
theory Model
  imports Go_Strings
begin

text \<open>
  The messages of the realtime system, \<open>v10/internal/model\<close>: the envelope that WebSocket,
  Redis and Kafka carry, the danmaku and its storage limits, likes, room statistics, control
  messages and dead letters. The JSON text of a message is produced and read by the standard
  library's \<open>encoding/json\<close>; the definitions that need it take a \<open>codec\<close>.
\<close>

section \<open>Messages\<close>

definition type_danmaku :: int where "type_danmaku = 101"
definition type_stats :: int where "type_stats = 102"
definition action_like :: int where "action_like = 103"
definition type_control :: int where "type_control = 104"

definition max_message_id_runes :: nat where "max_message_id_runes = 64"
definition max_room_id_runes :: nat where "max_room_id_runes = 64"
definition max_user_id_runes :: nat where "max_user_id_runes = 64"
definition max_username_runes :: nat where "max_username_runes = 64"
definition max_content_runes :: nat where "max_content_runes = 500"

record packet =
  packet_type :: int
  packet_room_id :: string
  packet_data :: string

text \<open>A \<open>time.Time\<close> that is read in its own zone: the instant and the zone's offset.\<close>

record zoned_time =
  instant :: time
  utc_offset :: duration

record danmaku =
  db_id :: u64
  message_id :: string
  room_id :: string
  user_id :: string
  username :: string
  content :: string
  send_time :: zoned_time
  client_sent_at_unix_nano :: int

record dead_letter =
  source_topic :: string
  source_partition :: int
  source_offset :: int
  original_key :: string
  original_value :: string
  dl_reason :: string
  failed_at :: time

record stats_data =
  stats_online :: u64
  stats_likes :: u64

record like =
  like_count :: u64

record control_data =
  ctl_code :: string
  ctl_action :: string
  ctl_scope :: string
  retry_after_millis :: int

record codec =
  dec_packet :: "string \<Rightarrow> packet option"
  dec_danmaku :: "string \<Rightarrow> danmaku option"
  dec_like :: "string \<Rightarrow> like option"
  enc_packet :: "packet \<Rightarrow> string option"
  enc_danmaku :: "danmaku \<Rightarrow> string option"
  enc_stats :: "stats_data \<Rightarrow> string option"
  enc_control :: "control_data \<Rightarrow> string option"
  enc_dead_letter :: "dead_letter \<Rightarrow> string option"

section \<open>The year of an instant\<close>

definition year_of_day :: "int \<Rightarrow> int" where
  \<comment> \<open>the year of a day counted from January 1 of year 1\<close>
  "year_of_day d =
     (let d400 = d mod 146097;
          n100 = min 3 (d400 div 36524);
          d100 = d400 - 36524 * n100;
          d4 = d100 mod 1461
      in 400 * (d div 146097) + 100 * n100 + 4 * (d100 div 1461) + min 3 (d4 div 365) + 1)"

definition year_of :: "zoned_time \<Rightarrow> int" where
  "year_of t = year_of_day ((instant t + utc_offset t) div (86400 * second))"

section \<open>Storage limits\<close>

datatype storage_error =
    Nil_danmaku
  | Field_too_long string nat
  | Year_out_of_range int

definition storage_fields :: "danmaku \<Rightarrow> (string \<times> string \<times> nat) list" where
  "storage_fields d =
     [(''message_id'', message_id d, max_message_id_runes),
      (''room_id'', room_id d, max_room_id_runes),
      (''user_id'', user_id d, max_user_id_runes),
      (''username'', username d, max_username_runes),
      (''content'', content d, max_content_runes)]"

definition validate_danmaku_storage :: "danmaku option \<Rightarrow> storage_error option" where
  "validate_danmaku_storage dp =
     (case dp of
        None \<Rightarrow> Some Nil_danmaku
      | Some d \<Rightarrow>
          (case find (\<lambda>(name, value, limit). rune_count value > limit) (storage_fields d) of
             Some (name, value, limit) \<Rightarrow> Some (Field_too_long name limit)
           | None \<Rightarrow>
               (let year = year_of (send_time d)
                in if year < 1000 \<or> year > 9999 then Some (Year_out_of_range year) else None)))"

section \<open>Lemmas\<close>

definition storable :: "danmaku \<Rightarrow> bool" where
  \<comment> \<open>what the columns of the table \<open>v10_danmaku_messages\<close> hold\<close>
  "storable d \<longleftrightarrow>
     rune_count (message_id d) \<le> 64 \<and> rune_count (room_id d) \<le> 64 \<and>
     rune_count (user_id d) \<le> 64 \<and> rune_count (username d) \<le> 64 \<and>
     rune_count (content d) \<le> 500 \<and>
     1000 \<le> year_of (send_time d) \<and> year_of (send_time d) \<le> 9999"

lemmas rune_limits = max_message_id_runes_def max_room_id_runes_def max_user_id_runes_def
  max_username_runes_def max_content_runes_def

lemma validate_storage_None:
  "validate_danmaku_storage (Some d) = None \<longleftrightarrow> storable d"
proof -
  have fields: "find (\<lambda>(name, value, limit). rune_count value > limit) (storage_fields d) = None \<longleftrightarrow>
      rune_count (message_id d) \<le> 64 \<and> rune_count (room_id d) \<le> 64 \<and>
      rune_count (user_id d) \<le> 64 \<and> rune_count (username d) \<le> 64 \<and> rune_count (content d) \<le> 500"
    by (auto simp: find_None_iff storage_fields_def rune_limits not_less)
  show ?thesis
  proof (cases "find (\<lambda>(name, value, limit). rune_count value > limit) (storage_fields d)")
    case None
    then show ?thesis using fields
      by (simp add: validate_danmaku_storage_def storable_def Let_def not_less)
  next
    case (Some f)
    then have "\<not> storable d" using fields by (auto simp: storable_def)
    then show ?thesis using Some by (simp add: validate_danmaku_storage_def split: prod.split)
  qed
qed

lemma year_of_day_400: "year_of_day (d + 146097) = year_of_day d + 400"
  by (simp add: year_of_day_def Let_def)

lemma min_div_bound: "0 \<le> x \<Longrightarrow> x < 1461 \<Longrightarrow> 0 \<le> min 3 (x div 365) \<and> min 3 (x div 365) \<le> (3::int)"
  by (simp add: pos_imp_zdiv_nonneg_iff)

lemma year_of_day_range:
  "400 * (d div 146097) + 1 \<le> year_of_day d \<and> year_of_day d \<le> 400 * (d div 146097) + 400"
proof -
  define e where "e = d mod 146097"
  have e: "0 \<le> e" "e < 146097" by (simp_all add: e_def)
  define n where "n = min 3 (e div 36524)"
  define f where "f = e - 36524 * n"
  have n: "0 \<le> n" "n \<le> 3" using e by (simp_all add: n_def pos_imp_zdiv_nonneg_iff)
  have f: "0 \<le> f" "f \<le> 36524"
  proof -
    have "36524 * (e div 36524) \<le> e" "e < 36524 * (e div 36524) + 36524"
      using mult_div_mod_eq [of 36524 e] pos_mod_bound [of 36524 e] pos_mod_sign [of 36524 e]
      by linarith+
    then show "0 \<le> f" "f \<le> 36524" using e by (auto simp: f_def n_def min_def)
  qed
  have g: "0 \<le> f div 1461" "f div 1461 \<le> 24"
    using f by (simp_all add: pos_imp_zdiv_nonneg_iff)
  have m: "0 \<le> min 3 (f mod 1461 div 365)" "min 3 (f mod 1461 div 365) \<le> 3"
    using min_div_bound [of "f mod 1461"] by simp_all
  have y: "year_of_day d = 400 * (d div 146097) + 100 * n + 4 * (f div 1461) + min 3 (f mod 1461 div 365) + 1"
    by (simp add: year_of_day_def Let_def e_def n_def f_def)
  show ?thesis unfolding y using n g m by linarith
qed

end
