(* ===== verification/Redis.thy ===== *)
theory Redis
  imports Model
begin

text \<open>
  The Redis side of the realtime server, \<open>v10/internal/infra/redis.go\<close>: the keys, the publication
  to a room's channel, the like counter of a room and the number of viewers, which every
  server reports under a key of its own that expires. Redis is outside the repository: its
  commands are functions on the state \<open>'r\<close> of the Redis server (and of the network between).
\<close>

section \<open>Commands and keys\<close>

datatype mget_value = Mget_nil | Mget_string string | Mget_other

datatype redis_command = Cmd_set string string duration | Cmd_sadd string string

record ('r, 'x) redis_ops =
  rd_publish :: "string \<Rightarrow> string \<Rightarrow> 'r \<Rightarrow> 'r \<times> 'x option"
  rd_incr_by :: "string \<Rightarrow> int \<Rightarrow> 'r \<Rightarrow> 'r \<times> 'x option"
  rd_get :: "string \<Rightarrow> 'r \<Rightarrow> 'r \<times> ('x + string option)"
    \<comment> \<open>\<open>None\<close> is \<open>redis.Nil\<close>\<close>
  rd_pipeline :: "redis_command list \<Rightarrow> 'r \<Rightarrow> 'r \<times> 'x option"
  rd_smembers :: "string \<Rightarrow> 'r \<Rightarrow> 'r \<times> ('x + string list)"
  rd_mget :: "string list \<Rightarrow> 'r \<Rightarrow> 'r \<times> ('x + mget_value list)"
  rd_srem :: "string \<Rightarrow> string \<Rightarrow> 'r \<Rightarrow> 'r \<times> 'x option"
  rd_parse_error :: "string \<Rightarrow> 'x"
    \<comment> \<open>the error of \<open>strconv.ParseUint\<close> on a text\<close>

definition room_channel :: "string \<Rightarrow> string" where
  "room_channel room = ''v10:room:'' @ room @ '':pubsub''"

definition room_likes_key :: "string \<Rightarrow> string" where
  "room_likes_key room = ''v10:room:'' @ room @ '':likes''"

definition room_server_count_key :: "string \<Rightarrow> string \<Rightarrow> string" where
  "room_server_count_key room server = ''v10:room:'' @ room @ '':online:'' @ server"

definition room_servers_key :: "string \<Rightarrow> string" where
  "room_servers_key room = ''v10:room:'' @ room @ '':servers''"

definition parse_uint :: "string \<Rightarrow> u64 option" where
  \<comment> \<open>\<open>strconv.ParseUint(s, 10, 64)\<close>\<close>
  "parse_uint s =
     (if s = [] \<or> \<not> list_all (\<lambda>c. c \<in> set ''0123456789'') s then None
      else if digits_value 10 s < 2 ^ 64 then Some (of_nat (digits_value 10 s)) else None)"

section \<open>Operations\<close>

definition publish_to_room ::
  "('r, 'x) redis_ops \<Rightarrow> string \<Rightarrow> string \<Rightarrow> 'r \<Rightarrow> 'r \<times> 'x option" where
  "publish_to_room ops room payload r = rd_publish ops (room_channel room) payload r"

definition incr_room_likes :: "('r, 'x) redis_ops \<Rightarrow> string \<Rightarrow> u64 \<Rightarrow> 'r \<Rightarrow> 'r \<times> 'x option" where
  "incr_room_likes ops room n r = rd_incr_by ops (room_likes_key room) (sint n) r"

definition get_room_likes :: "('r, 'x) redis_ops \<Rightarrow> string \<Rightarrow> 'r \<Rightarrow> 'r \<times> ('x + u64)" where
  "get_room_likes ops room r =
     (case rd_get ops (room_likes_key room) r of
        (r, Inr None) \<Rightarrow> (r, Inr 0)
      | (r, Inl x) \<Rightarrow> (r, Inl x)
      | (r, Inr (Some value)) \<Rightarrow>
          (case parse_uint value of
             None \<Rightarrow> (r, Inl (rd_parse_error ops value))
           | Some n \<Rightarrow> (r, Inr n)))"

definition update_server_online ::
  "('r, 'x) redis_ops \<Rightarrow> string \<Rightarrow> string \<Rightarrow> int \<Rightarrow> duration \<Rightarrow> 'r \<Rightarrow> 'r \<times> 'x option" where
  "update_server_online ops room server n ttl r =
     rd_pipeline ops
       [Cmd_set (room_server_count_key room server) (show_int n) ttl,
        Cmd_sadd (room_servers_key room) server] r"

fun sum_online ::
  "('r, 'x) redis_ops \<Rightarrow> string \<Rightarrow> (string \<times> mget_value) list \<Rightarrow> u64 \<Rightarrow> 'r \<Rightarrow> 'r \<times> u64" where
  \<comment> \<open>the loop of \<open>GetTotalOnline\<close> over the values of the servers\<close>
  "sum_online ops servers_key [] acc r = (r, acc)"
| "sum_online ops servers_key ((server, value) # rest) acc r =
     (case value of
        Mget_nil \<Rightarrow> sum_online ops servers_key rest acc (fst (rd_srem ops servers_key server r))
      | Mget_other \<Rightarrow> sum_online ops servers_key rest acc r
      | Mget_string s \<Rightarrow>
          (case parse_uint s of
             Some n \<Rightarrow> sum_online ops servers_key rest (acc + n) r
           | None \<Rightarrow> sum_online ops servers_key rest acc r))"

definition get_total_online :: "('r, 'x) redis_ops \<Rightarrow> string \<Rightarrow> 'r \<Rightarrow> 'r \<times> ('x + u64)" where
  "get_total_online ops room r =
     (case rd_smembers ops (room_servers_key room) r of
        (r, Inl x) \<Rightarrow> (r, Inl x)
      | (r, Inr []) \<Rightarrow> (r, Inr 0)
      | (r, Inr servers) \<Rightarrow>
          (case rd_mget ops (map (room_server_count_key room) servers) r of
             (r, Inl x) \<Rightarrow> (r, Inl x)
           | (r, Inr values) \<Rightarrow>
               (case sum_online ops (room_servers_key room) (zip servers values) 0 r of
                  (r, acc) \<Rightarrow> (r, Inr acc))))"

end
