(* ===== verification/Manager.thy ===== *)
theory Manager
  imports Breaker RateLimit IdGen Redis
begin

text \<open>
  The hub of the realtime server, \<open>v10/internal/ws/manager.go\<close>: the rooms and their clients,
  the ingress and fan-out queues, the publication through Redis with its circuit breaker and
  local fallback, the likes and the periodic statistics. A client is an address in
  \<open>client_at\<close>; a room's set of clients is a list without repetition, in one of the orders Go's
  map may have. What happens under \<open>m.mu\<close> or on one channel operation is one step; the body
  of an \<open>Execute\<close> is one step here and its interleavings are those of \<open>Breaker\<close>. What the
  manager calls outside (its persister \<open>'p\<close>, Redis \<open>'r\<close>) comes in the record \<open>ports\<close>.
\<close>

section \<open>Clients, jobs and state\<close>

record client =
  cl_user :: string
  cl_name :: string
  cl_room :: string
  cl_send :: "string chan"
  cl_closed :: bool
  cl_slow :: u32

definition send_buffer_size :: nat where "send_buffer_size = 128"
definition slow_threshold :: u32 where "slow_threshold = 64"

definition new_client :: "string \<Rightarrow> string \<Rightarrow> string \<Rightarrow> client" where
  "new_client u n r =
     \<lparr>cl_user = u, cl_name = n, cl_room = r, cl_send = make_chan send_buffer_size,
      cl_closed = False, cl_slow = 0\<rparr>"

definition client_close :: "client \<Rightarrow> client" where
  \<comment> \<open>\<open>once.Do\<close>: a second close does nothing\<close>
  "client_close c = c\<lparr>cl_closed := True\<rparr>"

text \<open>A slice of clients taken from the snapshot pool, with its capacity.\<close>

record snapshot =
  sn_clients :: "nat list"
  sn_cap :: nat

record broadcast_job =
  bj_room :: string
  bj_clients :: snapshot
  bj_payload :: string

record redis_publish_job =
  rj_room :: string
  rj_payload :: string

record counters =
  local_fanout_packets :: u64
  ingress_accepted :: u64
  ingress_dropped :: u64
  enqueued_jobs :: u64
  dropped_jobs :: u64
  delivered_messages :: u64
  dropped_messages :: u64
  slow_client_disconnects :: u64
  snapshot_pool_gets :: u64
  snapshot_pool_puts :: u64
  snapshot_pool_news :: u64
  snapshot_pool_drops :: u64
  persist_enqueued :: u64
  persist_dropped :: u64
  redis_published :: u64
  redis_publish_errors :: u64
  redis_publish_queued :: u64
  redis_queue_fallbacks :: u64
  redis_circuit_fallbacks :: u64
  redis_degraded_broadcasts :: u64
  redis_stats_errors :: u64
  redis_stats_fallbacks :: u64
  redis_received :: u64
  redis_subscriptions :: u64
  redis_unsubscribes :: u64
  stats_broadcasts :: u64
  stats_ticks_skipped :: u64
  like_events :: u64
  like_deltas_flushed :: u64
  online_reports :: u64

definition no_counters :: counters where
  "no_counters =
     \<lparr>local_fanout_packets = 0, ingress_accepted = 0, ingress_dropped = 0, enqueued_jobs = 0,
      dropped_jobs = 0, delivered_messages = 0, dropped_messages = 0,
      slow_client_disconnects = 0, snapshot_pool_gets = 0, snapshot_pool_puts = 0,
      snapshot_pool_news = 0, snapshot_pool_drops = 0, persist_enqueued = 0,
      persist_dropped = 0, redis_published = 0, redis_publish_errors = 0,
      redis_publish_queued = 0, redis_queue_fallbacks = 0, redis_circuit_fallbacks = 0,
      redis_degraded_broadcasts = 0, redis_stats_errors = 0, redis_stats_fallbacks = 0,
      redis_received = 0, redis_subscriptions = 0, redis_unsubscribes = 0,
      stats_broadcasts = 0, stats_ticks_skipped = 0, like_events = 0,
      like_deltas_flushed = 0, online_reports = 0\<rparr>"

text \<open>The contexts of the room subscriptions are numbered; \<open>cancelled\<close> lists those whose
  \<open>CancelFunc\<close> was called, \<open>subscribers\<close> the goroutines of \<open>subscribeToRoom\<close> that run.\<close>

record ('p, 'r) manager =
  server_id :: string
  client_at :: "nat \<Rightarrow> client"
  broadcast_q :: "packet chan"
  broadcast_jobs :: "broadcast_job chan"
  worker_count :: int
  persister :: "'p option"
  redis_client :: bool
  redis_publisher :: bool
  redis :: 'r
  redis_breaker :: "breaker option"
  redis_publish_jobs :: "redis_publish_job chan"
  redis_worker_count :: int
  traffic :: "controller option"
  message_ids :: generator
  rooms :: "(string, nat list) gomap"
  cancel_sub :: "(string, nat) gomap"
  next_context :: nat
  cancelled :: "nat list"
  subscribers :: "(nat \<times> string) list"
  local_likes :: "(string, u64) gomap"
  local_like_totals :: "(string, u64) gomap"
  snapshot_pool :: "nat list"
  stats_running :: bool
  counters :: counters

record ('p, 'r, 'x) ports =
  pt_enqueue :: "danmaku \<Rightarrow> 'p \<Rightarrow> 'p \<times> bool"
    \<comment> \<open>\<open>DanmakuPersister.Enqueue\<close>\<close>
  pt_publisher :: "(string \<Rightarrow> string \<Rightarrow> 'r \<Rightarrow> 'r \<times> 'x option) option"
    \<comment> \<open>\<open>ManagerConfig.RedisPublisher\<close>\<close>
  pt_redis :: "('r, 'x) redis_ops"
  pt_codec :: codec
  pt_append_cap :: "nat \<Rightarrow> nat \<Rightarrow> nat"
    \<comment> \<open>the capacity after appending to a slice: old capacity, new length\<close>

record ('p, 'r) manager_config =
  mc_worker_count :: int
  mc_redis_worker_count :: int
  mc_persister :: "'p option"
  mc_redis_client :: bool
  mc_redis :: 'r
  mc_redis_breaker :: "breaker option"
  mc_traffic :: "controller option"

definition broadcast_buffer_size :: nat where "broadcast_buffer_size = 512"
definition job_buffer_size :: nat where "job_buffer_size = 1024"
definition default_worker_count :: int where "default_worker_count = 16"
definition default_redis_worker_count :: int where "default_redis_worker_count = 4"
definition redis_publish_buffer_size :: nat where "redis_publish_buffer_size = 512"
definition snapshot_initial_capacity :: nat where "snapshot_initial_capacity = 256"
definition max_snapshot_retain_cap :: nat where "max_snapshot_retain_cap = 8192"
definition default_stats_interval :: duration where "default_stats_interval = 3 * second"

definition new_manager_with_config ::
  "('p, 'r, 'x) ports \<Rightarrow> string \<Rightarrow> int \<Rightarrow> string option \<Rightarrow> ('p, 'r) manager_config \<Rightarrow> ('p, 'r) manager option" where
  \<comment> \<open>host name, clock and random bytes; \<open>None\<close> is the panic when there are no random bytes\<close>
  "new_manager_with_config pt hostname nanos random config =
     (let workers = (if mc_worker_count config \<le> 0 then default_worker_count else mc_worker_count config);
          redis_workers = (if mc_redis_worker_count config \<le> 0 then default_redis_worker_count
                           else mc_redis_worker_count config);
          publisher = (pt_publisher pt \<noteq> None \<or> mc_redis_client config);
          cb = (if publisher \<and> mc_redis_breaker config = None
                then Some (new_circuit_breaker default_cb_config) else mc_redis_breaker config)
      in map_option (\<lambda>ids.
           \<lparr>server_id = hostname @ ''-'' @ show_int nanos,
            client_at = (\<lambda>_. new_client [] [] []),
            broadcast_q = make_chan broadcast_buffer_size,
            broadcast_jobs = make_chan job_buffer_size,
            worker_count = workers, persister = mc_persister config,
            redis_client = mc_redis_client config, redis_publisher = publisher,
            redis = mc_redis config, redis_breaker = cb,
            redis_publish_jobs = make_chan redis_publish_buffer_size,
            redis_worker_count = redis_workers, traffic = mc_traffic config,
            message_ids = ids, rooms = [], cancel_sub = [], next_context = 0, cancelled = [],
            subscribers = [], local_likes = [], local_like_totals = [], snapshot_pool = [],
            stats_running = False, counters = no_counters\<rparr>)
         (new_generator random))"

definition new_manager ::
  "('p, 'r, 'x) ports \<Rightarrow> string \<Rightarrow> int \<Rightarrow> string option \<Rightarrow> int \<Rightarrow> 'p option \<Rightarrow> bool \<Rightarrow> 'r \<Rightarrow> ('p, 'r) manager option" where
  "new_manager pt hostname nanos random workers persist client r =
     new_manager_with_config (pt\<lparr>pt_publisher := None\<rparr>) hostname nanos random
       \<lparr>mc_worker_count = workers, mc_redis_worker_count = 0, mc_persister = persist,
        mc_redis_client = client, mc_redis = r, mc_redis_breaker = None, mc_traffic = None\<rparr>"

section \<open>Small steps\<close>

definition bump :: "(counters \<Rightarrow> counters) \<Rightarrow> ('p, 'r) manager \<Rightarrow> ('p, 'r) manager" where
  "bump f m = m\<lparr>counters := f (counters m)\<rparr>"

definition set_client :: "nat \<Rightarrow> client \<Rightarrow> ('p, 'r) manager \<Rightarrow> ('p, 'r) manager" where
  "set_client a c m = m\<lparr>client_at := (client_at m)(a := c)\<rparr>"

definition next_message_id :: "nat \<Rightarrow> ('p, 'r) manager \<Rightarrow> ('p, 'r) manager \<times> string" where
  "next_message_id millis m =
     (case next_id millis (message_ids m) of (g, i) \<Rightarrow> (m\<lparr>message_ids := g\<rparr>, i))"

datatype release = No_release | Release release_fn

definition manager_acquire :: "string \<Rightarrow> ('p, 'r) manager \<Rightarrow> ('p, 'r) manager \<times> release option" where
  "manager_acquire ip m =
     (case traffic m of
        None \<Rightarrow> (m, Some No_release)
      | Some c \<Rightarrow>
          (case acquire_connection ip c of
             (c, h) \<Rightarrow> (m\<lparr>traffic := Some c\<rparr>, map_option Release h)))"

definition manager_release :: "release \<Rightarrow> ('p, 'r) manager \<Rightarrow> ('p, 'r) manager" where
  \<comment> \<open>calling the function that \<open>AcquireConnection\<close> returned\<close>
  "manager_release r m =
     (case (r, traffic m) of
        (Release h, Some c) \<Rightarrow> m\<lparr>traffic := Some (fst (release_connection h c))\<rparr>
      | _ \<Rightarrow> m)"

definition manager_allow_danmaku ::
  "time \<Rightarrow> string \<Rightarrow> string \<Rightarrow> ('p, 'r) manager \<Rightarrow> ('p, 'r) manager \<times> bool \<times> reason" where
  "manager_allow_danmaku now room user m =
     (case traffic m of
        None \<Rightarrow> (m, True, ReasonNone)
      | Some c \<Rightarrow>
          (case allow_danmaku now room user c of (c, ok, why) \<Rightarrow> (m\<lparr>traffic := Some c\<rparr>, ok, why)))"

definition manager_allow_like ::
  "time \<Rightarrow> string \<Rightarrow> string \<Rightarrow> ('p, 'r) manager \<Rightarrow> ('p, 'r) manager \<times> bool \<times> reason" where
  "manager_allow_like now room user m =
     (case traffic m of
        None \<Rightarrow> (m, True, ReasonNone)
      | Some c \<Rightarrow>
          (case allow_like now room user c of (c, ok, why) \<Rightarrow> (m\<lparr>traffic := Some c\<rparr>, ok, why)))"

definition enqueue_persistence ::
  "('p, 'r, 'x) ports \<Rightarrow> danmaku \<Rightarrow> ('p, 'r) manager \<Rightarrow> ('p, 'r) manager" where
  "enqueue_persistence pt message m =
     (case persister m of
        None \<Rightarrow> m
      | Some p \<Rightarrow>
          (case pt_enqueue pt message p of
             (p, True) \<Rightarrow>
               bump (\<lambda>k. k\<lparr>persist_enqueued := persist_enqueued k + 1\<rparr>) (m\<lparr>persister := Some p\<rparr>)
           | (p, False) \<Rightarrow>
               bump (\<lambda>k. k\<lparr>persist_dropped := persist_dropped k + 1\<rparr>) (m\<lparr>persister := Some p\<rparr>)))"

definition submit_danmaku ::
  "('p, 'r, 'x) ports \<Rightarrow> danmaku \<Rightarrow> string \<Rightarrow> ('p, 'r) manager \<Rightarrow> ('p, 'r) manager \<times> bool" where
  "submit_danmaku pt message payload m =
     (case try_send (broadcast_q m)
             \<lparr>packet_type = type_danmaku, packet_room_id = room_id message, packet_data = payload\<rparr> of
        Some q \<Rightarrow>
          (enqueue_persistence pt message
             (bump (\<lambda>k. k\<lparr>ingress_accepted := ingress_accepted k + 1\<rparr>) (m\<lparr>broadcast_q := q\<rparr>)), True)
      | None \<Rightarrow> (bump (\<lambda>k. k\<lparr>ingress_dropped := ingress_dropped k + 1\<rparr>) m, False))"

definition add_like :: "string \<Rightarrow> u64 \<Rightarrow> ('p, 'r) manager \<Rightarrow> ('p, 'r) manager" where
  "add_like room n m =
     (let n = (if n = 0 then 1 else n)
      in bump (\<lambda>k. k\<lparr>like_events := like_events k + n\<rparr>)
           (m\<lparr>local_likes := AList.update room (gm_get 0 (local_likes m) room + n) (local_likes m),
              local_like_totals :=
                AList.update room (gm_get 0 (local_like_totals m) room + n) (local_like_totals m)\<rparr>))"

section \<open>Fan-out\<close>

definition snapshot_room_clients ::
  "('p, 'r, 'x) ports \<Rightarrow> string \<Rightarrow> ('p, 'r) manager \<Rightarrow> ('p, 'r) manager \<times> snapshot option" where
  "snapshot_room_clients pt room m =
     (let cs = gm_get [] (rooms m) room
      in if cs = [] then (m, None)
         else
           (let (m, cap) = (case snapshot_pool m of
                  [] \<Rightarrow> (bump (\<lambda>k. k\<lparr>snapshot_pool_news := snapshot_pool_news k + 1\<rparr>) m,
                         snapshot_initial_capacity)
                | cap # caps \<Rightarrow> (m\<lparr>snapshot_pool := caps\<rparr>, cap))
            in (bump (\<lambda>k. k\<lparr>snapshot_pool_gets := snapshot_pool_gets k + 1\<rparr>) m,
                Some \<lparr>sn_clients = cs,
                      sn_cap = (if length cs \<le> cap then cap else pt_append_cap pt cap (length cs))\<rparr>)))"

definition release_snapshot :: "snapshot option \<Rightarrow> ('p, 'r) manager \<Rightarrow> ('p, 'r) manager" where
  "release_snapshot s m =
     (case s of
        None \<Rightarrow> m
      | Some s \<Rightarrow>
          if sn_cap s > max_snapshot_retain_cap
          then bump (\<lambda>k. k\<lparr>snapshot_pool_drops := snapshot_pool_drops k + 1\<rparr>) m
          else bump (\<lambda>k. k\<lparr>snapshot_pool_puts := snapshot_pool_puts k + 1\<rparr>)
                 (m\<lparr>snapshot_pool := sn_cap s # snapshot_pool m\<rparr>))"

definition enqueue_local_broadcast ::
  "('p, 'r, 'x) ports \<Rightarrow> string \<Rightarrow> string \<Rightarrow> ('p, 'r) manager \<Rightarrow> ('p, 'r) manager" where
  "enqueue_local_broadcast pt room payload m =
     (case snapshot_room_clients pt room m of
        (m, None) \<Rightarrow> m
      | (m, Some s) \<Rightarrow>
          (let m = bump (\<lambda>k. k\<lparr>local_fanout_packets := local_fanout_packets k + 1\<rparr>) m
           in (case try_send (broadcast_jobs m)
                     \<lparr>bj_room = room, bj_clients = s, bj_payload = payload\<rparr> of
                 Some q \<Rightarrow>
                   bump (\<lambda>k. k\<lparr>enqueued_jobs := enqueued_jobs k + 1\<rparr>) (m\<lparr>broadcast_jobs := q\<rparr>)
               | None \<Rightarrow>
                   release_snapshot (Some s)
                     (bump (\<lambda>k. k\<lparr>dropped_jobs := dropped_jobs k + 1\<rparr>) m))))"

definition safe_send :: "string \<Rightarrow> nat \<Rightarrow> ('p, 'r) manager \<Rightarrow> ('p, 'r) manager" where
  "safe_send payload a m =
     (let c = client_at m a
      in (case try_send (cl_send c) payload of
            Some ch \<Rightarrow>
              bump (\<lambda>k. k\<lparr>delivered_messages := delivered_messages k + 1\<rparr>)
                (set_client a (c\<lparr>cl_send := ch, cl_slow := 0\<rparr>) m)
          | None \<Rightarrow>
              (let m = bump (\<lambda>k. k\<lparr>dropped_messages := dropped_messages k + 1\<rparr>) m;
                   c = c\<lparr>cl_slow := cl_slow c + 1\<rparr>
               in if cl_slow c = slow_threshold
                  then bump (\<lambda>k. k\<lparr>slow_client_disconnects := slow_client_disconnects k + 1\<rparr>)
                         (set_client a (client_close c) m)
                  else set_client a c m)))"

definition deliver_job :: "broadcast_job \<Rightarrow> ('p, 'r) manager \<Rightarrow> ('p, 'r) manager" where
  \<comment> \<open>one round of a \<open>broadcastWorker\<close>\<close>
  "deliver_job job m =
     release_snapshot (Some (bj_clients job))
       (fold (safe_send (bj_payload job)) (sn_clients (bj_clients job)) m)"

section \<open>Redis publication\<close>

definition guarded ::
  "time \<Rightarrow> time \<Rightarrow> ('s \<Rightarrow> 's \<times> 'x op_outcome) \<Rightarrow> breaker \<times> 's \<Rightarrow> (breaker \<times> 's) \<times> 'x exec_result" where
  \<comment> \<open>\<open>Execute\<close> of an operation that changes a state: it runs only when it is admitted\<close>
  "guarded t0 t1 f bs =
     (let (s, op) = f (snd bs);
          (b, res) = cb_execute t0 t1 op (fst bs)
      in ((b, if snd (cb_allow t0 (fst bs)) = None then snd bs else s), res))"

definition publish ::
  "('p, 'r, 'x) ports \<Rightarrow> string \<Rightarrow> string \<Rightarrow> 'r \<Rightarrow> 'r \<times> 'x option" where
  "publish pt room payload r =
     (case pt_publisher pt of
        Some f \<Rightarrow> f room payload r
      | None \<Rightarrow> publish_to_room (pt_redis pt) room payload r)"

definition outcome_of :: "'x option \<Rightarrow> 'x op_outcome" where
  "outcome_of e = (case e of None \<Rightarrow> Op_ok | Some x \<Rightarrow> Op_err x)"

definition process_redis_publish ::
  "('p, 'r, 'x) ports \<Rightarrow> time \<Rightarrow> time \<Rightarrow> redis_publish_job \<Rightarrow> ('p, 'r) manager \<Rightarrow> ('p, 'r) manager" where
  \<comment> \<open>without a breaker Go dereferences nil; the constructor and \<open>hub_inv\<close> exclude it\<close>
  "process_redis_publish pt t0 t1 job m =
     (case redis_breaker m of
        None \<Rightarrow> m
      | Some b \<Rightarrow>
          (let ((b, r), res) = guarded t0 t1
                 (\<lambda>r. case publish pt (rj_room job) (rj_payload job) r of (r, e) \<Rightarrow> (r, outcome_of e))
                 (b, redis m);
               m = m\<lparr>redis_breaker := Some b, redis := r\<rparr>
           in if res = Exec_ok
              then bump (\<lambda>k. k\<lparr>redis_published := redis_published k + 1\<rparr>) m
              else
                (let m = (if res = Exec_circuit_open
                          then bump (\<lambda>k. k\<lparr>redis_circuit_fallbacks := redis_circuit_fallbacks k + 1\<rparr>) m
                          else bump (\<lambda>k. k\<lparr>redis_publish_errors := redis_publish_errors k + 1\<rparr>) m)
                 in enqueue_local_broadcast pt (rj_room job) (rj_payload job)
                      (bump (\<lambda>k. k\<lparr>redis_degraded_broadcasts := redis_degraded_broadcasts k + 1\<rparr>) m))))"

definition handle_broadcast ::
  "('p, 'r, 'x) ports \<Rightarrow> packet \<Rightarrow> ('p, 'r) manager \<Rightarrow> ('p, 'r) manager" where
  "handle_broadcast pt p m =
     (case enc_packet (pt_codec pt) p of
        None \<Rightarrow> m
      | Some payload \<Rightarrow>
          if redis_publisher m
          then
            (case try_send (redis_publish_jobs m) \<lparr>rj_room = packet_room_id p, rj_payload = payload\<rparr> of
               Some q \<Rightarrow>
                 bump (\<lambda>k. k\<lparr>redis_publish_queued := redis_publish_queued k + 1\<rparr>) (m\<lparr>redis_publish_jobs := q\<rparr>)
             | None \<Rightarrow>
                 enqueue_local_broadcast pt (packet_room_id p) payload
                   (bump (\<lambda>k. k\<lparr>redis_queue_fallbacks := redis_queue_fallbacks k + 1,
                               redis_degraded_broadcasts := redis_degraded_broadcasts k + 1\<rparr>) m))
          else enqueue_local_broadcast pt (packet_room_id p) payload m)"

section \<open>Rooms and subscriptions\<close>

definition handle_register :: "nat \<Rightarrow> ('p, 'r) manager \<Rightarrow> ('p, 'r) manager" where
  "handle_register a m =
     (let room = cl_room (client_at m a);
          m = (if gm_has (rooms m) room then m
               else
                 (let m = m\<lparr>rooms := AList.update room [] (rooms m)\<rparr>
                  in if redis_client m
                     then m\<lparr>cancel_sub := AList.update room (next_context m) (cancel_sub m),
                            subscribers := (if room = [] then subscribers m
                                            else (next_context m, room) # subscribers m),
                            next_context := next_context m + 1\<rparr>
                     else m))
      in m\<lparr>rooms := AList.update room (List.insert a (gm_get [] (rooms m) room)) (rooms m)\<rparr>)"

definition handle_unregister :: "nat \<Rightarrow> ('p, 'r) manager \<Rightarrow> ('p, 'r) manager" where
  "handle_unregister a m =
     (let room = cl_room (client_at m a)
      in if \<not> gm_has (rooms m) room then m
         else if a \<notin> set (gm_get [] (rooms m) room) then m
         else
           (let cs = remove1 a (gm_get [] (rooms m) room);
                cancel = (if cs = [] then map_of (cancel_sub m) room else None);
                m = (if cs = []
                     then m\<lparr>rooms := AList.delete room (rooms m),
                            cancel_sub := AList.delete room (cancel_sub m)\<rparr>
                     else m\<lparr>rooms := AList.update room cs (rooms m)\<rparr>);
                m = set_client a (client_close (client_at m a)) m
            in (case cancel of
                  None \<Rightarrow> m
                | Some ctx \<Rightarrow>
                    bump (\<lambda>k. k\<lparr>redis_unsubscribes := redis_unsubscribes k + 1\<rparr>)
                      (m\<lparr>cancelled := ctx # cancelled m\<rparr>))))"

definition subscribe_start :: "('p, 'r) manager \<Rightarrow> ('p, 'r) manager" where
  \<comment> \<open>a goroutine of \<open>subscribeToRoom\<close> has opened its subscription\<close>
  "subscribe_start m = bump (\<lambda>k. k\<lparr>redis_subscriptions := redis_subscriptions k + 1\<rparr>) m"

definition subscribe_receive ::
  "('p, 'r, 'x) ports \<Rightarrow> string \<Rightarrow> string \<Rightarrow> ('p, 'r) manager \<Rightarrow> ('p, 'r) manager" where
  "subscribe_receive pt room payload m =
     enqueue_local_broadcast pt room payload
       (bump (\<lambda>k. k\<lparr>redis_received := redis_received k + 1\<rparr>) m)"

definition subscribe_end :: "nat \<times> string \<Rightarrow> ('p, 'r) manager \<Rightarrow> ('p, 'r) manager" where
  "subscribe_end sub m = m\<lparr>subscribers := removeAll sub (subscribers m)\<rparr>"

section \<open>Statistics\<close>

definition start_stats_broadcast :: "('p, 'r) manager \<Rightarrow> ('p, 'r) manager \<times> bool" where
  \<comment> \<open>true when the goroutine that runs \<open>broadcast_stats\<close> was started\<close>
  "start_stats_broadcast m =
     (if stats_running m
      then (bump (\<lambda>k. k\<lparr>stats_ticks_skipped := stats_ticks_skipped k + 1\<rparr>) m, False)
      else (m\<lparr>stats_running := True\<rparr>, True))"

definition snapshot_room_counts :: "('p, 'r) manager \<Rightarrow> (string, int) gomap" where
  "snapshot_room_counts m = map (\<lambda>(room, cs). (room, int (length cs))) (rooms m)"

definition drain_local_like_deltas :: "('p, 'r) manager \<Rightarrow> ('p, 'r) manager \<times> (string, u64) gomap" where
  "drain_local_like_deltas m = (m\<lparr>local_likes := []\<rparr>, local_likes m)"

definition restore_like_delta :: "string \<Rightarrow> u64 \<Rightarrow> ('p, 'r) manager \<Rightarrow> ('p, 'r) manager" where
  "restore_like_delta room delta m =
     m\<lparr>local_likes := AList.update room (gm_get 0 (local_likes m) room + delta) (local_likes m)\<rparr>"

definition local_like_total :: "string \<Rightarrow> ('p, 'r) manager \<Rightarrow> u64" where
  "local_like_total room m = gm_get 0 (local_like_totals m) room"

text \<open>The variables that the closure of \<open>loadDistributedStats\<close> assigns, beside the manager's
  counters and Redis.\<close>

record 'r stats_load =
  ld_redis :: 'r
  ld_counters :: counters
  ld_online :: u64
  ld_likes :: u64
  ld_flushed :: bool

definition stats_operation ::
  "('p, 'r, 'x) ports \<Rightarrow> string \<Rightarrow> string \<Rightarrow> int \<Rightarrow> u64 \<Rightarrow> duration \<Rightarrow> 'r stats_load \<Rightarrow> 'r stats_load \<times> 'x op_outcome" where
  "stats_operation pt server room online delta ttl l =
     (case update_server_online (pt_redis pt) room server online ttl (ld_redis l) of
        (r, Some x) \<Rightarrow> (l\<lparr>ld_redis := r\<rparr>, Op_err x)
      | (r, None) \<Rightarrow>
          (let l = l\<lparr>ld_redis := r,
                     ld_counters := (ld_counters l)\<lparr>online_reports := online_reports (ld_counters l) + 1\<rparr>\<rparr>;
               (l, failed) =
                 (if delta > 0
                  then
                    (case incr_room_likes (pt_redis pt) room delta (ld_redis l) of
                       (r, Some x) \<Rightarrow> (l\<lparr>ld_redis := r\<rparr>, Some x)
                     | (r, None) \<Rightarrow>
                         (l\<lparr>ld_redis := r, ld_flushed := True,
                            ld_counters := (ld_counters l)\<lparr>like_deltas_flushed :=
                              like_deltas_flushed (ld_counters l) + delta\<rparr>\<rparr>, None))
                  else (l, None))
           in (case failed of
                 Some x \<Rightarrow> (l, Op_err x)
               | None \<Rightarrow>
                   (case get_total_online (pt_redis pt) room (ld_redis l) of
                      (r, Inl x) \<Rightarrow> (l\<lparr>ld_redis := r, ld_online := 0\<rparr>, Op_err x)
                    | (r, Inr n) \<Rightarrow>
                        (case get_room_likes (pt_redis pt) room r of
                           (r, Inl x) \<Rightarrow> (l\<lparr>ld_redis := r, ld_online := n, ld_likes := 0\<rparr>, Op_err x)
                         | (r, Inr k) \<Rightarrow> (l\<lparr>ld_redis := r, ld_online := n, ld_likes := k\<rparr>, Op_ok))))))"

definition load_distributed_stats ::
  "('p, 'r, 'x) ports \<Rightarrow> time \<Rightarrow> time \<Rightarrow> string \<Rightarrow> int \<Rightarrow> u64 \<Rightarrow> duration \<Rightarrow> breaker \<Rightarrow> ('p, 'r) manager \<Rightarrow>
   ('p, 'r) manager \<times> u64 \<times> u64 \<times> bool \<times> 'x exec_result" where
  "load_distributed_stats pt t0 t1 room online delta ttl b m =
     (let ((b, l), res) = guarded t0 t1
            (stats_operation pt (server_id m) room online delta ttl)
            (b, \<lparr>ld_redis = redis m, ld_counters = counters m, ld_online = 0, ld_likes = 0,
                 ld_flushed = False\<rparr>)
      in (m\<lparr>redis_breaker := Some b, redis := ld_redis l, counters := ld_counters l\<rparr>,
          ld_online l, ld_likes l, ld_flushed l, res))"

definition room_stats ::
  "('p, 'r, 'x) ports \<Rightarrow> time \<Rightarrow> time \<Rightarrow> string \<Rightarrow> int \<Rightarrow> u64 \<Rightarrow> ('p, 'r) manager \<Rightarrow>
   ('p, 'r) manager \<times> stats_data" where
  \<comment> \<open>the numbers of one room in \<open>broadcastStats\<close>\<close>
  "room_stats pt t0 t1 room online delta m =
     (case (redis_client m, redis_breaker m) of
        (True, Some b) \<Rightarrow>
          (case load_distributed_stats pt t0 t1 room online delta (2 * default_stats_interval + second) b m of
             (m, n, likes, flushed, res) \<Rightarrow>
               if res = Exec_ok then (m, \<lparr>stats_online = n, stats_likes = likes\<rparr>)
               else
                 (let m = bump (\<lambda>k. k\<lparr>redis_stats_fallbacks := redis_stats_fallbacks k + 1\<rparr>) m;
                      m = (if res = Exec_circuit_open then m
                           else bump (\<lambda>k. k\<lparr>redis_stats_errors := redis_stats_errors k + 1\<rparr>) m);
                      m = (if delta > 0 \<and> \<not> flushed then restore_like_delta room delta m else m)
                  in (m, \<lparr>stats_online = of_int online, stats_likes = local_like_total room m\<rparr>)))
      | _ \<Rightarrow>
          (if delta > 0
           then bump (\<lambda>k. k\<lparr>like_deltas_flushed := like_deltas_flushed k + delta\<rparr>) m else m,
           \<lparr>stats_online = of_int online, stats_likes = local_like_total room m\<rparr>))"

definition broadcast_room_stats ::
  "('p, 'r, 'x) ports \<Rightarrow> time \<Rightarrow> time \<Rightarrow> (string, u64) gomap \<Rightarrow> string \<times> int \<Rightarrow> ('p, 'r) manager \<Rightarrow> ('p, 'r) manager" where
  \<comment> \<open>one round of the loop of \<open>broadcastStats\<close>\<close>
  "broadcast_room_stats pt t0 t1 deltas ro m =
     (let room = fst ro;
          (m, stats) = room_stats pt t0 t1 room (snd ro) (gm_get 0 deltas room) m
      in (case enc_stats (pt_codec pt) stats of
            None \<Rightarrow> m
          | Some data \<Rightarrow>
              (case enc_packet (pt_codec pt)
                      \<lparr>packet_type = type_stats, packet_room_id = room, packet_data = data\<rparr> of
                 None \<Rightarrow> m
               | Some payload \<Rightarrow>
                   bump (\<lambda>k. k\<lparr>stats_broadcasts := stats_broadcasts k + 1\<rparr>)
                     (enqueue_local_broadcast pt room payload m))))"

definition broadcast_stats ::
  "('p, 'r, 'x) ports \<Rightarrow> time \<Rightarrow> time \<Rightarrow> ('p, 'r) manager \<Rightarrow> ('p, 'r) manager" where
  "broadcast_stats pt t0 t1 m =
     (let local_rooms = snapshot_room_counts m
      in if local_rooms = [] then m
         else
           (let (m, deltas) = drain_local_like_deltas m
            in fold (broadcast_room_stats pt t0 t1 deltas) local_rooms m))"

definition finish_stats :: "('p, 'r) manager \<Rightarrow> ('p, 'r) manager" where
  \<comment> \<open>the deferred \<open>statsRunning.Store(false)\<close>\<close>
  "finish_stats m = m\<lparr>stats_running := False\<rparr>"

section \<open>Metrics\<close>

record manager_metrics =
  mm_rooms :: int
  mm_clients :: int
  mm_worker_count :: int
  mm_broadcast_queue_len :: int
  mm_broadcast_queue_cap :: int
  mm_ingress_accepted :: u64
  mm_ingress_dropped :: u64
  mm_job_queue_len :: int
  mm_job_queue_cap :: int
  mm_local_fanout_packets :: u64
  mm_enqueued_jobs :: u64
  mm_dropped_jobs :: u64
  mm_delivered_messages :: u64
  mm_dropped_messages :: u64
  mm_slow_client_disconnects :: u64
  mm_snapshot_pool_gets :: u64
  mm_snapshot_pool_puts :: u64
  mm_snapshot_pool_news :: u64
  mm_snapshot_pool_drops :: u64
  mm_persist_enqueued :: u64
  mm_persist_dropped :: u64
  mm_redis_enabled :: bool
  mm_redis_published :: u64
  mm_redis_publish_errors :: u64
  mm_redis_publish_queued :: u64
  mm_redis_publish_queue_len :: int
  mm_redis_publish_queue_cap :: int
  mm_redis_worker_count :: int
  mm_redis_queue_fallbacks :: u64
  mm_redis_circuit_fallbacks :: u64
  mm_redis_degraded_broadcasts :: u64
  mm_redis_stats_errors :: u64
  mm_redis_stats_fallbacks :: u64
  mm_redis_received :: u64
  mm_redis_subscriptions :: u64
  mm_redis_unsubscriptions :: u64
  mm_stats_broadcasts :: u64
  mm_stats_ticks_skipped :: u64
  mm_like_events :: u64
  mm_like_deltas_flushed :: u64
  mm_online_reports :: u64
  mm_goroutines :: int
  mm_alloc_bytes :: u64
  mm_total_alloc_bytes :: u64
  mm_num_gc :: u32
  mm_traffic :: rl_metrics
  mm_redis_circuit :: "cb_snapshot option"

text \<open>What \<open>runtime.ReadMemStats\<close> and \<open>runtime.NumGoroutine\<close> report.\<close>

record runtime_stats =
  rt_goroutines :: int
  rt_alloc :: u64
  rt_total_alloc :: u64
  rt_num_gc :: u32

definition no_traffic_metrics :: rl_metrics where
  "no_traffic_metrics =
     \<lparr>current_connections = 0, m_accepted_connections = 0, m_rejected_connections_global = 0, m_rejected_connections_per_ip = 0, m_danmaku_accepted = 0, m_danmaku_rejected_user = 0, m_danmaku_rejected_room = 0, m_like_accepted = 0, m_like_rejected_user = 0, m_like_rejected_room = 0\<rparr>"

definition manager_redis_enabled :: "('p, 'r) manager \<Rightarrow> bool" where
  "manager_redis_enabled m \<longleftrightarrow> redis_publisher m \<or> redis_client m"

definition metrics_of :: "runtime_stats \<Rightarrow> ('p, 'r) manager \<Rightarrow> manager_metrics" where
  "metrics_of rt m =
     (let k = counters m
      in \<lparr>mm_rooms = int (length (rooms m)),
          mm_clients = int (sum_list (map (length \<circ> snd) (rooms m))),
          mm_worker_count = worker_count m,
          mm_broadcast_queue_len = int (length (chan_buf (broadcast_q m))),
          mm_broadcast_queue_cap = int (chan_cap (broadcast_q m)),
          mm_ingress_accepted = ingress_accepted k,
          mm_ingress_dropped = ingress_dropped k,
          mm_job_queue_len = int (length (chan_buf (broadcast_jobs m))),
          mm_job_queue_cap = int (chan_cap (broadcast_jobs m)),
          mm_local_fanout_packets = local_fanout_packets k,
          mm_enqueued_jobs = enqueued_jobs k,
          mm_dropped_jobs = dropped_jobs k,
          mm_delivered_messages = delivered_messages k,
          mm_dropped_messages = dropped_messages k,
          mm_slow_client_disconnects = slow_client_disconnects k,
          mm_snapshot_pool_gets = snapshot_pool_gets k,
          mm_snapshot_pool_puts = snapshot_pool_puts k,
          mm_snapshot_pool_news = snapshot_pool_news k,
          mm_snapshot_pool_drops = snapshot_pool_drops k,
          mm_persist_enqueued = persist_enqueued k,
          mm_persist_dropped = persist_dropped k,
          mm_redis_enabled = manager_redis_enabled m,
          mm_redis_published = redis_published k,
          mm_redis_publish_errors = redis_publish_errors k,
          mm_redis_publish_queued = redis_publish_queued k,
          mm_redis_publish_queue_len = int (length (chan_buf (redis_publish_jobs m))),
          mm_redis_publish_queue_cap = int (chan_cap (redis_publish_jobs m)),
          mm_redis_worker_count = redis_worker_count m,
          mm_redis_queue_fallbacks = redis_queue_fallbacks k,
          mm_redis_circuit_fallbacks = redis_circuit_fallbacks k,
          mm_redis_degraded_broadcasts = redis_degraded_broadcasts k,
          mm_redis_stats_errors = redis_stats_errors k,
          mm_redis_stats_fallbacks = redis_stats_fallbacks k,
          mm_redis_received = redis_received k,
          mm_redis_subscriptions = redis_subscriptions k,
          mm_redis_unsubscriptions = redis_unsubscribes k,
          mm_stats_broadcasts = stats_broadcasts k,
          mm_stats_ticks_skipped = stats_ticks_skipped k,
          mm_like_events = like_events k,
          mm_like_deltas_flushed = like_deltas_flushed k,
          mm_online_reports = online_reports k,
          mm_goroutines = rt_goroutines rt,
          mm_alloc_bytes = rt_alloc rt,
          mm_total_alloc_bytes = rt_total_alloc rt,
          mm_num_gc = rt_num_gc rt,
          mm_traffic = (case traffic m of None \<Rightarrow> no_traffic_metrics | Some c \<Rightarrow> controller_metrics c),
          mm_redis_circuit = map_option cb_snapshot_of (redis_breaker m)\<rparr>)"

end
