(* ===== verification/Hub.thy ===== *)
theory Hub
  imports Manager
begin

text \<open>
  The goroutines of \<open>v10/internal/ws/manager.go\<close> as one system: the loop of \<open>Run\<close>, the
  broadcast and Redis workers, the subscriptions, the read and write pumps of the clients and
  the statistics goroutine interleave as steps of \<open>hub_step\<close>. The invariants of rooms,
  subscriptions, queues and slow clients hold in every state that such an interleaving
  reaches.
\<close>

section \<open>The system\<close>

record ('p, 'r) hub =
  mgr :: "('p, 'r) manager"
  working :: "(broadcast_job \<times> nat list) list"
    \<comment> \<open>the jobs the broadcast workers hold, with the clients still to send to\<close>
  reporting :: "((string, u64) gomap \<times> (string \<times> int) list) option"
    \<comment> \<open>the drained like deltas and the rooms still to report, of a running \<open>broadcastStats\<close>\<close>

definition client_live :: "nat \<Rightarrow> ('p, 'r) hub \<Rightarrow> bool" where
  \<comment> \<open>the client is reachable from the manager or from a worker\<close>
  "client_live a s \<longleftrightarrow>
     (\<exists>(room, cs) \<in> set (rooms (mgr s)). a \<in> set cs) \<or>
     (\<exists>job \<in> set (chan_buf (broadcast_jobs (mgr s))). a \<in> set (sn_clients (bj_clients job))) \<or>
     (\<exists>(job, cs) \<in> set (working s). a \<in> set cs)"

definition begin_stats :: "('p, 'r) hub \<Rightarrow> ('p, 'r) hub" where
  "begin_stats s =
     (let counts = snapshot_room_counts (mgr s)
      in if counts = [] then s\<lparr>reporting := Some ([], [])\<rparr>
         else (case drain_local_like_deltas (mgr s) of
                 (m, deltas) \<Rightarrow> s\<lparr>mgr := m, reporting := Some (deltas, counts)\<rparr>))"

definition push_control :: "nat \<Rightarrow> string \<Rightarrow> ('p, 'r) manager \<Rightarrow> ('p, 'r) manager" where
  \<comment> \<open>the non-blocking send at the end of \<open>sendControl\<close>\<close>
  "push_control a payload m =
     (case try_send (cl_send (client_at m a)) payload of
        Some ch \<Rightarrow> set_client a ((client_at m a)\<lparr>cl_send := ch\<rparr>) m
      | None \<Rightarrow> m)"

definition write_next :: "nat \<Rightarrow> bool \<Rightarrow> ('p, 'r) manager \<Rightarrow> ('p, 'r) manager" where
  \<comment> \<open>one round of \<open>WritePump\<close>: it takes a message and writes it, or closes on an error\<close>
  "write_next a ok m =
     (case chan_recv (cl_send (client_at m a)) of
        None \<Rightarrow> m
      | Some (msg, ch) \<Rightarrow>
          (let c = (client_at m a)\<lparr>cl_send := ch\<rparr>
           in set_client a (if ok then c else client_close c) m))"

inductive hub_step :: "('p, 'r, 'x) ports \<Rightarrow> ('p, 'r) hub \<Rightarrow> ('p, 'r) hub \<Rightarrow> bool" for pt where
  connects:
    "\<not> client_live a s \<Longrightarrow>
     hub_step pt s (s\<lparr>mgr := handle_register a (set_client a (new_client u n room) (mgr s))\<rparr>)"
| leaves: "hub_step pt s (s\<lparr>mgr := handle_unregister a (mgr s)\<rparr>)"
| broadcasts:
    "chan_recv (broadcast_q (mgr s)) = Some (p, q) \<Longrightarrow>
     hub_step pt s (s\<lparr>mgr := handle_broadcast pt p ((mgr s)\<lparr>broadcast_q := q\<rparr>)\<rparr>)"
| takes_job:
    "chan_recv (broadcast_jobs (mgr s)) = Some (job, q) \<Longrightarrow>
     hub_step pt s (s\<lparr>mgr := (mgr s)\<lparr>broadcast_jobs := q\<rparr>,
                      working := (job, sn_clients (bj_clients job)) # working s\<rparr>)"
| sends:
    "working s = before @ (job, a # cs) # after \<Longrightarrow>
     hub_step pt s (s\<lparr>mgr := safe_send (bj_payload job) a (mgr s),
                      working := before @ (job, cs) # after\<rparr>)"
| finishes_job:
    "working s = before @ (job, []) # after \<Longrightarrow>
     hub_step pt s (s\<lparr>mgr := release_snapshot (Some (bj_clients job)) (mgr s),
                      working := before @ after\<rparr>)"
| publishes:
    "chan_recv (redis_publish_jobs (mgr s)) = Some (rjob, rq) \<Longrightarrow>
     hub_step pt s (s\<lparr>mgr := process_redis_publish pt t u' rjob ((mgr s)\<lparr>redis_publish_jobs := rq\<rparr>)\<rparr>)"
| subscribes: "sub \<in> set (subscribers (mgr s)) \<Longrightarrow> hub_step pt s (s\<lparr>mgr := subscribe_start (mgr s)\<rparr>)"
| receives:
    "(ctx, room) \<in> set (subscribers (mgr s)) \<Longrightarrow>
     hub_step pt s (s\<lparr>mgr := subscribe_receive pt room payload (mgr s)\<rparr>)"
| unsubscribes: "hub_step pt s (s\<lparr>mgr := subscribe_end sub (mgr s)\<rparr>)"
| submits: "hub_step pt s (s\<lparr>mgr := fst (submit_danmaku pt d payload (mgr s))\<rparr>)"
| likes: "hub_step pt s (s\<lparr>mgr := add_like room k (mgr s)\<rparr>)"
| ticks: "start_stats_broadcast (mgr s) = (m, True) \<Longrightarrow> hub_step pt s (begin_stats (s\<lparr>mgr := m\<rparr>))"
| skips: "start_stats_broadcast (mgr s) = (m, False) \<Longrightarrow> hub_step pt s (s\<lparr>mgr := m\<rparr>)"
| reports:
    "reporting s = Some (deltas, ro # rest) \<Longrightarrow>
     hub_step pt s (s\<lparr>mgr := broadcast_room_stats pt t u' deltas ro (mgr s),
                      reporting := Some (deltas, rest)\<rparr>)"
| reported:
    "reporting s = Some (deltas, []) \<Longrightarrow>
     hub_step pt s (s\<lparr>mgr := finish_stats (mgr s), reporting := None\<rparr>)"
| admits: "hub_step pt s (s\<lparr>mgr := fst (manager_acquire ip (mgr s))\<rparr>)"
| releases: "hub_step pt s (s\<lparr>mgr := manager_release rel (mgr s)\<rparr>)"
| limits_danmaku: "hub_step pt s (s\<lparr>mgr := fst (manager_allow_danmaku t room u (mgr s))\<rparr>)"
| limits_like: "hub_step pt s (s\<lparr>mgr := fst (manager_allow_like t room u (mgr s))\<rparr>)"
| names: "hub_step pt s (s\<lparr>mgr := fst (next_message_id k' (mgr s))\<rparr>)"
| controls: "hub_step pt s (s\<lparr>mgr := push_control a payload (mgr s)\<rparr>)"
| writes: "hub_step pt s (s\<lparr>mgr := write_next a ok (mgr s)\<rparr>)"
| closes: "hub_step pt s (s\<lparr>mgr := set_client a (client_close (client_at (mgr s) a)) (mgr s)\<rparr>)"

inductive hub_reachable :: "('p, 'r, 'x) ports \<Rightarrow> ('p, 'r) manager \<Rightarrow> ('p, 'r) hub \<Rightarrow> bool" for pt m where
  hub_start: "hub_reachable pt m \<lparr>mgr = m, working = [], reporting = None\<rparr>"
| hub_next: "hub_reachable pt m s \<Longrightarrow> hub_step pt s s' \<Longrightarrow> hub_reachable pt m s'"

inductive_cases hub_stepE: "hub_step pt s s'"

section \<open>What the operations leave alone\<close>

text \<open>The rooms and subscriptions of a manager, and what a client's room is.\<close>

definition topology ::
  "('p, 'r) manager \<Rightarrow> (string, nat list) gomap \<times> (string, nat) gomap \<times> nat \<times> nat list \<times>
     (nat \<times> string) list \<times> bool \<times> (nat \<Rightarrow> string)" where
  "topology m =
     (rooms m, cancel_sub m, next_context m, cancelled m, subscribers m, redis_client m,
      \<lambda>a. cl_room (client_at m a))"

lemma topology_updates [frame_simps]:
  "topology (bump f m) = topology m"
  "topology (m\<lparr>broadcast_q := bq\<rparr>) = topology m"
  "topology (m\<lparr>broadcast_jobs := bj\<rparr>) = topology m"
  "topology (m\<lparr>redis_publish_jobs := rq\<rparr>) = topology m"
  "topology (m\<lparr>persister := pp\<rparr>) = topology m"
  "topology (m\<lparr>redis_breaker := rb\<rparr>) = topology m"
  "topology (m\<lparr>redis := r\<rparr>) = topology m"
  "topology (m\<lparr>counters := k\<rparr>) = topology m"
  "topology (m\<lparr>traffic := tr\<rparr>) = topology m"
  "topology (m\<lparr>message_ids := g\<rparr>) = topology m"
  "topology (m\<lparr>local_likes := ll\<rparr>) = topology m"
  "topology (m\<lparr>local_like_totals := lt\<rparr>) = topology m"
  "topology (m\<lparr>snapshot_pool := sp\<rparr>) = topology m"
  "topology (m\<lparr>stats_running := sr\<rparr>) = topology m"
  by (simp_all add: topology_def bump_def)

lemma topology_set_client: "cl_room c = cl_room (client_at m a) \<Longrightarrow> topology (set_client a c m) = topology m"
  by (auto simp: topology_def set_client_def)

lemma topology_fanout [frame_simps]:
  "topology (fst (snapshot_room_clients pt room m)) = topology m"
  "topology (release_snapshot sn m) = topology m"
  by (auto simp: snapshot_room_clients_def release_snapshot_def Let_def frame_simps
      split: list.split option.split)

lemma topology_snapshot: "snapshot_room_clients pt room m = (m', sn) \<Longrightarrow> topology m' = topology m"
  using topology_fanout(1) [of pt room m] by simp

lemma topology_local [frame_simps]: "topology (enqueue_local_broadcast pt room payload m) = topology m"
  by (auto simp: enqueue_local_broadcast_def Let_def frame_simps
      dest: topology_snapshot split: prod.split option.split)

lemma topology_safe_send [frame_simps]: "topology (safe_send payload a m) = topology m"
  by (auto simp: safe_send_def Let_def frame_simps topology_set_client client_close_def
      bump_def set_client_def topology_def split: option.split)

lemma topology_broadcast [frame_simps]:
  "topology (process_redis_publish pt t u job m) = topology m"
  "topology (handle_broadcast pt p m) = topology m"
  by (auto simp: process_redis_publish_def handle_broadcast_def Let_def frame_simps
      split: option.split prod.split)

lemma topology_ingress [frame_simps]:
  "topology (enqueue_persistence pt d m) = topology m"
  "topology (fst (submit_danmaku pt d payload m)) = topology m"
  "topology (add_like room k m) = topology m"
  by (auto simp: submit_danmaku_def enqueue_persistence_def add_like_def Let_def frame_simps
      split: option.split prod.split bool.split)

lemma topology_traffic [frame_simps]:
  "topology (fst (manager_acquire ip m)) = topology m"
  "topology (manager_release rel m) = topology m"
  "topology (fst (manager_allow_danmaku t room u m)) = topology m"
  "topology (fst (manager_allow_like t room u m)) = topology m"
  "topology (fst (next_message_id n m)) = topology m"
  by (auto simp: manager_acquire_def manager_release_def manager_allow_danmaku_def
      manager_allow_like_def next_message_id_def frame_simps
      split: option.split prod.split release.split)

lemma topology_stats [frame_simps]:
  "topology (fst (start_stats_broadcast m)) = topology m"
  "topology (finish_stats m) = topology m"
  "topology (fst (drain_local_like_deltas m)) = topology m"
  "topology (restore_like_delta room delta m) = topology m"
  "topology (subscribe_start m) = topology m"
  "topology (subscribe_receive pt room payload m) = topology m"
  by (auto simp: start_stats_broadcast_def finish_stats_def drain_local_like_deltas_def
      restore_like_delta_def subscribe_start_def subscribe_receive_def frame_simps)

lemma topology_load:
  "load_distributed_stats pt t u room n delta ttl b m = (m', rest) \<Longrightarrow> topology m' = topology m"
  by (auto simp: load_distributed_stats_def Let_def frame_simps split: prod.splits)

lemma topology_room_stats [frame_simps]:
  "topology (fst (room_stats pt t u room n delta m)) = topology m"
  by (auto simp: room_stats_def Let_def frame_simps dest: topology_load
      split: bool.split option.split prod.split)

lemma topology_room_report [frame_simps]:
  "topology (broadcast_room_stats pt t u deltas ro m) = topology m"
  by (auto simp: broadcast_room_stats_def Let_def split_beta frame_simps split: option.split)

lemma topology_pumps [frame_simps]:
  "topology (push_control a payload m) = topology m"
  "topology (write_next a ok m) = topology m"
  "topology (set_client a (client_close (client_at m a)) m) = topology m"
  by (auto simp: push_control_def write_next_def topology_set_client client_close_def Let_def
      split: option.split)

lemma start_stats_topology: "start_stats_broadcast m = (m', b) \<Longrightarrow> topology m' = topology m"
  using topology_stats(1) [of m] by simp

lemma begin_stats_topology: "topology (mgr (begin_stats s)) = topology (mgr s)"
  by (simp add: begin_stats_def drain_local_like_deltas_def Let_def frame_simps)

section \<open>Rooms and subscriptions\<close>

definition rooms_inv :: "('p, 'r) manager \<Rightarrow> bool" where
  "rooms_inv m \<longleftrightarrow>
     gm_wf (rooms m) \<and> gm_wf (cancel_sub m) \<and>
     (\<forall>room cs. map_of (rooms m) room = Some cs \<longrightarrow>
        cs \<noteq> [] \<and> distinct cs \<and> (\<forall>a\<in>set cs. cl_room (client_at m a) = room)) \<and>
     (\<forall>room. (map_of (cancel_sub m) room \<noteq> None) = (redis_client m \<and> map_of (rooms m) room \<noteq> None)) \<and>
     (\<forall>room ctx. map_of (cancel_sub m) room = Some ctx \<longrightarrow>
        ctx < next_context m \<and> ctx \<notin> set (cancelled m)) \<and>
     (\<forall>room room' ctx. map_of (cancel_sub m) room = Some ctx \<longrightarrow>
        map_of (cancel_sub m) room' = Some ctx \<longrightarrow> room = room') \<and>
     (\<forall>(ctx, room)\<in>set (subscribers m).
        ctx < next_context m \<and> (ctx \<notin> set (cancelled m) \<longrightarrow> map_of (cancel_sub m) room = Some ctx)) \<and>
     (\<forall>ctx\<in>set (cancelled m). ctx < next_context m)"

lemma rooms_inv_topology: "topology m' = topology m \<Longrightarrow> rooms_inv m \<Longrightarrow> rooms_inv m'"
  unfolding rooms_inv_def topology_def by (simp add: fun_eq_iff)

lemma map_of_update: "map_of (AList.update k v m) k' = (if k' = k then Some v else map_of m k')"
  by (simp add: update_conv')

lemma map_of_delete: "map_of (AList.delete k m) k' = (if k' = k then None else map_of m k')"
  by (simp add: delete_conv')

lemma rooms_inv_set_client:
  assumes "rooms_inv m" "\<And>room cs. map_of (rooms m) room = Some cs \<Longrightarrow> a \<notin> set cs"
  shows "rooms_inv (set_client a c m)"
proof -
  have "cs \<noteq> [] \<and> distinct cs \<and> (\<forall>b\<in>set cs. cl_room (client_at (set_client a c m) b) = room)"
    if "map_of (rooms m) room = Some cs" for room cs
    using assms(1) assms(2) [OF that] that by (auto simp: rooms_inv_def set_client_def)
  then show ?thesis using assms(1) by (simp add: rooms_inv_def set_client_def)
qed

lemma rooms_inv_register:
  assumes "rooms_inv m"
  shows "rooms_inv (handle_register a m)"
proof -
  define room where "room = cl_room (client_at m a)"
  have wf: "gm_wf (rooms m)" "gm_wf (cancel_sub m)" using assms by (simp_all add: rooms_inv_def)
  show ?thesis
  proof (cases "gm_has (rooms m) room")
    case True
    then obtain cs where cs: "map_of (rooms m) room = Some cs" by (auto simp: gm_has_def)
    have reg: "handle_register a m = m\<lparr>rooms := AList.update room (List.insert a cs) (rooms m)\<rparr>"
      using True cs by (simp add: handle_register_def Let_def room_def [symmetric] gm_get_def)
    have "List.insert a cs \<noteq> []" by (auto simp: List.insert_def)
    then show ?thesis unfolding reg
      using assms cs wf by (auto simp: rooms_inv_def map_of_update room_def)
  next
    case False
    then have none: "map_of (rooms m) room = None" by (simp add: gm_has_def)
    have "\<forall>room. (map_of (cancel_sub m) room \<noteq> None) = (redis_client m \<and> map_of (rooms m) room \<noteq> None)"
      using assms unfolding rooms_inv_def by (elim conjE)
    then have nosub: "map_of (cancel_sub m) room = None" using none by blast
    show ?thesis
    proof (cases "redis_client m")
      case False
      then have "handle_register a m = m\<lparr>rooms := AList.update room [a] (AList.update room [] (rooms m))\<rparr>"
        using \<open>\<not> gm_has (rooms m) room\<close>
        by (simp add: handle_register_def Let_def room_def [symmetric] gm_get_update)
      then show ?thesis using assms none False wf
        by (auto simp: rooms_inv_def map_of_update room_def)
    next
      case True
      then have reg: "handle_register a m =
          m\<lparr>rooms := AList.update room [a] (AList.update room [] (rooms m)),
            cancel_sub := AList.update room (next_context m) (cancel_sub m),
            subscribers := (if room = [] then subscribers m else (next_context m, room) # subscribers m),
            next_context := next_context m + 1\<rparr>"
        using \<open>\<not> gm_has (rooms m) room\<close>
        by (simp add: handle_register_def Let_def room_def [symmetric] gm_get_update)
      have subs: "ctx < next_context m \<and> (ctx \<notin> set (cancelled m) \<longrightarrow> map_of (cancel_sub m) r = Some ctx)"
        if "(ctx, r) \<in> set (subscribers m)" for ctx r
        using assms that by (auto simp: rooms_inv_def)
      have "r \<noteq> room \<or> ctx \<in> set (cancelled m)" if "(ctx, r) \<in> set (subscribers m)" for ctx r
        using subs [OF that] nosub by auto
      then show ?thesis unfolding reg rooms_inv_def
        using assms none nosub wf True
        by (auto simp: rooms_inv_def map_of_update room_def less_Suc_eq dest: subs)
    qed
  qed
qed

lemma rooms_inv_unregister:
  assumes "rooms_inv m"
  shows "rooms_inv (handle_unregister a m)"
proof -
  define room where "room = cl_room (client_at m a)"
  have wf: "gm_wf (rooms m)" "gm_wf (cancel_sub m)" using assms by (simp_all add: rooms_inv_def)
  show ?thesis
  proof (cases "gm_has (rooms m) room \<and> a \<in> set (gm_get [] (rooms m) room)")
    case False
    then have "handle_unregister a m = m"
      unfolding handle_unregister_def Let_def room_def [symmetric] by auto
    then show ?thesis using assms by simp
  next
    case True
    then obtain cs where cs: "map_of (rooms m) room = Some cs" "a \<in> set cs"
      by (auto simp: gm_has_def gm_get_def)
    have dcs: "distinct cs" using assms cs by (simp add: rooms_inv_def)
    have close: "topology (set_client a (client_close (client_at m' a)) m') = topology m'"
      for m' :: "('a, 'b) manager" by (rule topology_pumps(3))
    show ?thesis
    proof (cases "remove1 a cs = []")
      case False
      define m1 where "m1 = m\<lparr>rooms := AList.update room (remove1 a cs) (rooms m)\<rparr>"
      have "handle_unregister a m = set_client a (client_close (client_at m1 a)) m1"
        using True cs False
        by (simp add: handle_unregister_def Let_def room_def [symmetric] gm_get_def m1_def)
      moreover have "rooms_inv m1"
        using assms cs wf False dcs by (auto simp: m1_def rooms_inv_def map_of_update dest: in_set_remove1 [THEN iffD1])
      ultimately show ?thesis by (simp add: rooms_inv_topology [OF close])
    next
      case empty: True
      define m1 where "m1 = m\<lparr>rooms := AList.delete room (rooms m), cancel_sub := AList.delete room (cancel_sub m)\<rparr>"
      define m2 where "m2 = set_client a (client_close (client_at m1 a)) m1"
      have unreg: "handle_unregister a m = (case map_of (cancel_sub m) room of None \<Rightarrow> m2
          | Some ctx \<Rightarrow> bump (\<lambda>k. k\<lparr>redis_unsubscribes := redis_unsubscribes k + 1\<rparr>)
                          (m2\<lparr>cancelled := ctx # cancelled m2\<rparr>))"
        using True cs empty
        by (simp add: handle_unregister_def Let_def room_def [symmetric] gm_get_def m1_def m2_def
            split: option.split)
      have t2: "topology m2 = topology m1" unfolding m2_def by (rule close)
      show ?thesis
      proof (cases "map_of (cancel_sub m) room")
        case None
        then have "rooms_inv m1" using assms cs wf
          by (auto simp: m1_def rooms_inv_def map_of_delete)
        then show ?thesis using None unreg rooms_inv_topology [OF t2] by simp
      next
        case (Some ctx)
        have t3: "topology (bump f (m2\<lparr>cancelled := ctx # cancelled m2\<rparr>)) = topology (m1\<lparr>cancelled := ctx # cancelled m1\<rparr>)" for f
          using t2 by (simp add: topology_def bump_def)
        have "rooms_inv (m1\<lparr>cancelled := ctx # cancelled m1\<rparr>)"
          using assms cs wf Some unfolding m1_def rooms_inv_def
          by (auto simp: map_of_delete)
        then show ?thesis using Some unreg by (simp add: rooms_inv_topology [OF t3])
      qed
    qed
  qed
qed

lemma rooms_inv_step:
  assumes "hub_step pt s s'" "rooms_inv (mgr s)"
  shows "rooms_inv (mgr s')"
proof -
  have same: "topology (mgr s') = topology (mgr s) \<Longrightarrow> ?thesis" using rooms_inv_topology assms(2) by blast
  show ?thesis using assms(1)
  proof cases
    case (connects a u n room)
    have "rooms_inv (set_client a (new_client u n room) (mgr s))"
      using connects(2) by (intro rooms_inv_set_client [OF assms(2)])
        (auto simp: client_live_def dest!: map_of_SomeD)
    then show ?thesis unfolding connects(1) by (simp add: rooms_inv_register)
  next
    case (leaves a)
    then show ?thesis using rooms_inv_unregister [OF assms(2)] by simp
  next
    case (unsubscribes sub)
    then show ?thesis using assms(2) by (auto simp: rooms_inv_def subscribe_end_def)
  qed (rule same; simp add: frame_simps begin_stats_topology start_stats_topology)+
qed

lemma rooms_inv_new:
  "new_manager_with_config pt hostname nanos random config = Some m \<Longrightarrow> rooms_inv m"
  by (auto simp: new_manager_with_config_def rooms_inv_def Let_def)

lemma rooms_inv_reachable:
  "hub_reachable pt m s \<Longrightarrow> rooms_inv m \<Longrightarrow> rooms_inv (mgr s)"
  by (induction rule: hub_reachable.induct) (auto intro: rooms_inv_step)

section \<open>Queues and slow clients\<close>

definition client_ok :: "client \<Rightarrow> bool" where
  "client_ok c \<longleftrightarrow>
     chan_wf (cl_send c) \<and> chan_cap (cl_send c) = send_buffer_size \<and>
     (\<not> cl_closed c \<longrightarrow> cl_slow c < slow_threshold)"

definition wire_inv :: "('p, 'r) manager \<Rightarrow> bool" where
  "wire_inv m \<longleftrightarrow>
     chan_wf (broadcast_q m) \<and> chan_cap (broadcast_q m) = broadcast_buffer_size \<and>
     chan_wf (broadcast_jobs m) \<and> chan_cap (broadcast_jobs m) = job_buffer_size \<and>
     chan_wf (redis_publish_jobs m) \<and> chan_cap (redis_publish_jobs m) = redis_publish_buffer_size \<and>
     (\<forall>a. client_ok (client_at m a)) \<and>
     (redis_publisher m \<longrightarrow> redis_breaker m \<noteq> None) \<and> (redis_client m \<longrightarrow> redis_publisher m)"

lemma chan_cap_send: "try_send ch x = Some ch' \<Longrightarrow> chan_cap ch' = chan_cap ch"
  by (auto simp: try_send_Some)

lemma chan_recv_wf: "chan_recv ch = Some (x, ch') \<Longrightarrow> (chan_wf ch \<longrightarrow> chan_wf ch') \<and> chan_cap ch' = chan_cap ch"
  by (auto simp: chan_wf_def split: list.splits)

lemma wire_updates [frame_simps]:
  "wire_inv (bump f m) = wire_inv m"
  "wire_inv (m\<lparr>persister := pp\<rparr>) = wire_inv m"
  "wire_inv (m\<lparr>redis := r\<rparr>) = wire_inv m"
  "wire_inv (m\<lparr>counters := k\<rparr>) = wire_inv m"
  "wire_inv (m\<lparr>traffic := tr\<rparr>) = wire_inv m"
  "wire_inv (m\<lparr>message_ids := g\<rparr>) = wire_inv m"
  "wire_inv (m\<lparr>local_likes := ll\<rparr>) = wire_inv m"
  "wire_inv (m\<lparr>local_like_totals := lt\<rparr>) = wire_inv m"
  "wire_inv (m\<lparr>snapshot_pool := sp\<rparr>) = wire_inv m"
  "wire_inv (m\<lparr>stats_running := sr\<rparr>) = wire_inv m"
  "wire_inv (m\<lparr>rooms := rs\<rparr>) = wire_inv m"
  "wire_inv (m\<lparr>cancel_sub := cs\<rparr>) = wire_inv m"
  "wire_inv (m\<lparr>next_context := n\<rparr>) = wire_inv m"
  "wire_inv (m\<lparr>cancelled := ca\<rparr>) = wire_inv m"
  "wire_inv (m\<lparr>subscribers := su\<rparr>) = wire_inv m"
  by (simp_all add: wire_inv_def bump_def)

lemma wire_breaker: "wire_inv m \<Longrightarrow> wire_inv (m\<lparr>redis_breaker := Some b\<rparr>)"
  by (simp add: wire_inv_def)

lemma wire_recv:
  "wire_inv m \<Longrightarrow> chan_recv (broadcast_q m) = Some (p, bq) \<Longrightarrow> wire_inv (m\<lparr>broadcast_q := bq\<rparr>)"
  "wire_inv m \<Longrightarrow> chan_recv (broadcast_jobs m) = Some (job, jq) \<Longrightarrow> wire_inv (m\<lparr>broadcast_jobs := jq\<rparr>)"
  "wire_inv m \<Longrightarrow> chan_recv (redis_publish_jobs m) = Some (rjob, rq) \<Longrightarrow>
    wire_inv (m\<lparr>redis_publish_jobs := rq\<rparr>)"
  by (auto simp: wire_inv_def simp del: chan_recv.simps dest: chan_recv_wf)

lemma wire_send:
  "wire_inv m \<Longrightarrow> try_send (broadcast_q m) p = Some bq \<Longrightarrow> wire_inv (m\<lparr>broadcast_q := bq\<rparr>)"
  "wire_inv m \<Longrightarrow> try_send (broadcast_jobs m) job = Some jq \<Longrightarrow> wire_inv (m\<lparr>broadcast_jobs := jq\<rparr>)"
  "wire_inv m \<Longrightarrow> try_send (redis_publish_jobs m) rjob = Some rq \<Longrightarrow>
    wire_inv (m\<lparr>redis_publish_jobs := rq\<rparr>)"
  by (auto simp: wire_inv_def dest: chan_wf_send chan_cap_send)

lemma wire_set_client: "wire_inv m \<Longrightarrow> client_ok c \<Longrightarrow> wire_inv (set_client a c m)"
  by (simp add: wire_inv_def set_client_def)

lemma wire_client: "wire_inv m \<Longrightarrow> client_ok (client_at m a)"
  by (simp add: wire_inv_def)

lemma client_ok_close: "client_ok c \<Longrightarrow> client_ok (client_close c)"
  by (simp add: client_ok_def client_close_def)

lemma client_ok_disconnected: "client_ok c \<Longrightarrow> client_ok (client_close (c\<lparr>cl_slow := n\<rparr>))"
  by (simp add: client_ok_def client_close_def)

lemma client_ok_new: "client_ok (new_client u n r)"
  by (simp add: client_ok_def new_client_def slow_threshold_def) (simp add: make_chan_def)

lemma client_ok_send: "client_ok c \<Longrightarrow> try_send (cl_send c) x = Some ch \<Longrightarrow> client_ok (c\<lparr>cl_send := ch\<rparr>)"
  by (auto simp: client_ok_def dest: chan_wf_send chan_cap_send)

lemma client_ok_delivered:
  "client_ok c \<Longrightarrow> try_send (cl_send c) x = Some ch \<Longrightarrow> client_ok (c\<lparr>cl_send := ch, cl_slow := 0\<rparr>)"
  by (auto simp: client_ok_def slow_threshold_def dest: chan_wf_send chan_cap_send)

lemma client_ok_dropped:
  assumes "client_ok c" "cl_slow c + 1 \<noteq> slow_threshold"
  shows "client_ok (c\<lparr>cl_slow := cl_slow c + 1\<rparr>)"
proof -
  have "cl_slow c + 1 < 64" if "cl_slow c < 64" "cl_slow c + 1 \<noteq> (64 :: u32)"
    using that by (metis inc_le word_le_less_eq add.commute)
  then show ?thesis using assms by (auto simp: client_ok_def slow_threshold_def)
qed

lemma wire_fanout:
  "wire_inv m \<Longrightarrow> wire_inv (fst (snapshot_room_clients pt room m))"
  "wire_inv m \<Longrightarrow> wire_inv (release_snapshot sn m)"
  by (auto simp: snapshot_room_clients_def release_snapshot_def Let_def frame_simps
      split: list.split option.split)

lemma wire_local: "wire_inv m \<Longrightarrow> wire_inv (enqueue_local_broadcast pt room payload m)"
  using wire_fanout(1) [of m pt room]
  by (auto simp: enqueue_local_broadcast_def Let_def bump_def [symmetric] frame_simps
      intro!: wire_send wire_fanout(2) split: prod.split option.split)

lemma wire_safe_send: "wire_inv m \<Longrightarrow> wire_inv (safe_send payload a m)"
  using wire_client [of m a]
  by (auto simp: safe_send_def Let_def frame_simps wire_set_client client_ok_delivered client_ok_dropped
      client_ok_disconnected
      split: option.split intro!: wire_set_client)

lemma wire_publish: "wire_inv m \<Longrightarrow> wire_inv (process_redis_publish pt t u job m)"
  by (auto simp: process_redis_publish_def Let_def frame_simps intro!: wire_local wire_breaker
      split: option.split prod.split)

lemma wire_broadcast: "wire_inv m \<Longrightarrow> wire_inv (handle_broadcast pt p m)"
  by (auto simp: handle_broadcast_def frame_simps intro!: wire_local wire_send(3) split: option.split)

lemma wire_ingress:
  "wire_inv m \<Longrightarrow> wire_inv (enqueue_persistence pt d m)"
  "wire_inv m \<Longrightarrow> wire_inv (fst (submit_danmaku pt d payload m))"
  "wire_inv m \<Longrightarrow> wire_inv (add_like room k m)"
  by (auto simp: submit_danmaku_def enqueue_persistence_def add_like_def Let_def frame_simps
      intro!: wire_send(1) split: option.split prod.split bool.split)

lemma wire_traffic:
  "wire_inv m \<Longrightarrow> wire_inv (fst (manager_acquire ip m))"
  "wire_inv m \<Longrightarrow> wire_inv (manager_release rel m)"
  "wire_inv m \<Longrightarrow> wire_inv (fst (manager_allow_danmaku t room u m))"
  "wire_inv m \<Longrightarrow> wire_inv (fst (manager_allow_like t room u m))"
  "wire_inv m \<Longrightarrow> wire_inv (fst (next_message_id n m))"
  by (auto simp: manager_acquire_def manager_release_def manager_allow_danmaku_def
      manager_allow_like_def next_message_id_def frame_simps
      split: option.split prod.split release.split)

lemma wire_stats:
  "wire_inv m \<Longrightarrow> start_stats_broadcast m = (m', b) \<Longrightarrow> wire_inv m'"
  "wire_inv m \<Longrightarrow> wire_inv (finish_stats m)"
  "wire_inv m \<Longrightarrow> wire_inv (restore_like_delta room delta m)"
  "wire_inv m \<Longrightarrow> wire_inv (subscribe_start m)"
  "wire_inv m \<Longrightarrow> wire_inv (subscribe_receive pt room payload m)"
  "wire_inv m \<Longrightarrow> wire_inv (subscribe_end sub m)"
  by (auto simp: start_stats_broadcast_def finish_stats_def restore_like_delta_def
      subscribe_start_def subscribe_receive_def subscribe_end_def frame_simps wire_local
      split: if_splits)

lemma wire_load:
  "wire_inv m \<Longrightarrow> load_distributed_stats pt t u room n delta ttl b m = (m', rest) \<Longrightarrow> wire_inv m'"
  by (auto simp: load_distributed_stats_def Let_def frame_simps wire_breaker split: prod.splits)

lemma wire_room_stats: "wire_inv m \<Longrightarrow> wire_inv (fst (room_stats pt t u room n delta m))"
  by (auto simp: room_stats_def Let_def frame_simps wire_stats(3) dest: wire_load
      split: bool.split option.split prod.split)

lemma wire_room_report: "wire_inv m \<Longrightarrow> wire_inv (broadcast_room_stats pt t u deltas ro m)"
  by (auto simp: broadcast_room_stats_def Let_def split_beta frame_simps wire_room_stats
      intro!: wire_local split: option.split)

lemma wire_rooms:
  "wire_inv m \<Longrightarrow> wire_inv (handle_register a m)"
  "wire_inv m \<Longrightarrow> wire_inv (handle_unregister a m)"
  by (auto simp: handle_register_def handle_unregister_def Let_def frame_simps wire_set_client
      client_ok_close wire_client split: option.split)

lemma wire_pumps:
  "wire_inv m \<Longrightarrow> wire_inv (push_control a payload m)"
  "wire_inv m \<Longrightarrow> wire_inv (set_client a (client_close (client_at m a)) m)"
  using wire_client [of m a]
  by (auto simp: push_control_def wire_set_client client_ok_close client_ok_send split: option.split)

lemma wire_write:
  assumes "wire_inv m"
  shows "wire_inv (write_next a ok m)"
proof (cases "chan_recv (cl_send (client_at m a))")
  case (Some x)
  obtain msg ch where x: "x = (msg, ch)" by fastforce
  have "client_ok ((client_at m a)\<lparr>cl_send := ch\<rparr>)"
    using wire_client [OF assms, of a] chan_recv_wf [OF Some [unfolded x]] by (simp add: client_ok_def)
  then show ?thesis using Some x assms
    by (simp add: write_next_def Let_def wire_set_client client_ok_close del: chan_recv.simps)
qed (use assms in \<open>simp add: write_next_def del: chan_recv.simps\<close>)

lemma begin_stats_wire: "wire_inv (mgr s) \<Longrightarrow> wire_inv (mgr (begin_stats s))"
  by (simp add: begin_stats_def drain_local_like_deltas_def Let_def frame_simps)

lemma wire_inv_step:
  assumes "hub_step pt s s'" "wire_inv (mgr s)"
  shows "wire_inv (mgr s')"
  using assms(1)
proof cases
  case connects
  then show ?thesis using assms(2) by (simp add: wire_rooms wire_set_client client_ok_new)
qed (use assms(2) in \<open>auto simp: frame_simps wire_rooms wire_safe_send wire_fanout wire_traffic wire_pumps
    wire_write wire_room_report wire_ingress wire_stats(2,4,5,6) simp del: chan_recv.simps
    intro!: wire_broadcast wire_publish wire_recv begin_stats_wire intro: wire_stats(1)\<close>)

lemma wire_inv_new:
  "new_manager_with_config pt hostname nanos random config = Some m \<Longrightarrow> wire_inv m"
  by (auto simp: new_manager_with_config_def wire_inv_def Let_def client_ok_new)
    (simp_all add: make_chan_def)

lemma wire_inv_reachable:
  "hub_reachable pt m s \<Longrightarrow> wire_inv m \<Longrightarrow> wire_inv (mgr s)"
  by (induction rule: hub_reachable.induct) (auto intro: wire_inv_step)

end
