(* ===== verification/Publisher.thy ===== *)
theory Publisher
  imports Model
begin

text \<open>
  The Kafka side of the realtime server, \<open>v10/internal/queue\<close>: the asynchronous publisher
  with its non-blocking \<open>Enqueue\<close> and its health, and the synchronous dead-letter publisher.
  Sarama's producer is outside the repository: of the asynchronous one the model has the
  bounded input channel and the events on its error and success channels, of the synchronous
  one the function \<open>send\<close> that says what \<open>SendMessage\<close> does.
\<close>

section \<open>Health\<close>

definition default_degrade_after_errors :: int where "default_degrade_after_errors = 3"

datatype publisher_status = Publisher_healthy | Publisher_degraded

record health_snapshot =
  hs_status :: publisher_status
  hs_consecutive_errors :: u64
  hs_degraded_transitions :: u64
  hs_recoveries :: u64
  hs_last_ack_unix_millis :: int
  hs_last_error_unix_millis :: int

record publisher_health =
  degrade_after :: u64
  ph_status :: publisher_status
  ph_consecutive :: u64
  ph_transitions :: u64
  ph_recoveries :: u64
  last_ack_millis :: int
  last_error_milli :: int

definition new_publisher_health :: "int \<Rightarrow> publisher_health" where
  "new_publisher_health n =
     (let n = (if n \<le> 0 then default_degrade_after_errors else n)
      in \<lparr>degrade_after = of_int n, ph_status = Publisher_healthy, ph_consecutive = 0,
          ph_transitions = 0, ph_recoveries = 0, last_ack_millis = 0, last_error_milli = 0\<rparr>)"

definition record_error :: "int \<Rightarrow> publisher_health \<Rightarrow> publisher_health" where
  "record_error now_millis h =
     (let h = h\<lparr>ph_consecutive := ph_consecutive h + 1, last_error_milli := now_millis\<rparr>
      in if ph_consecutive h \<ge> degrade_after h \<and> ph_status h \<noteq> Publisher_degraded
         then h\<lparr>ph_status := Publisher_degraded, ph_transitions := ph_transitions h + 1\<rparr>
         else h)"

definition record_success :: "int \<Rightarrow> publisher_health \<Rightarrow> publisher_health" where
  "record_success now_millis h =
     (let h = h\<lparr>last_ack_millis := now_millis, ph_consecutive := 0\<rparr>
      in if ph_status h = Publisher_degraded
         then h\<lparr>ph_status := Publisher_healthy, ph_recoveries := ph_recoveries h + 1\<rparr>
         else h)"

definition health_snapshot_of :: "publisher_health \<Rightarrow> health_snapshot" where
  "health_snapshot_of h =
     \<lparr>hs_status = ph_status h, hs_consecutive_errors = ph_consecutive h,
      hs_degraded_transitions = ph_transitions h, hs_recoveries = ph_recoveries h,
      hs_last_ack_unix_millis = last_ack_millis h,
      hs_last_error_unix_millis = last_error_milli h\<rparr>"

section \<open>The asynchronous publisher\<close>

record producer_message =
  pm_topic :: string
  pm_key :: string
  pm_value :: string

record kafka_publisher =
  producer_input :: "producer_message chan"
  publisher_topic :: string
  health :: publisher_health
  kp_enqueued :: u64
  kp_acked :: u64
  kp_dropped :: u64
  kp_errors :: u64

record publisher_metrics =
  pm_enqueued :: u64
  pm_acked :: u64
  pm_dropped :: u64
  pm_errors :: u64
  pm_health :: health_snapshot

definition new_kafka_publisher :: "producer_message chan \<Rightarrow> string \<Rightarrow> kafka_publisher" where
  "new_kafka_publisher input topic =
     \<lparr>producer_input = input, publisher_topic = topic,
      health = new_publisher_health default_degrade_after_errors,
      kp_enqueued = 0, kp_acked = 0, kp_dropped = 0, kp_errors = 0\<rparr>"

definition kafka_enqueue :: "codec \<Rightarrow> danmaku \<Rightarrow> kafka_publisher \<Rightarrow> kafka_publisher \<times> bool" where
  "kafka_enqueue cd message p =
     (case enc_danmaku cd message of
        None \<Rightarrow> (p\<lparr>kp_errors := kp_errors p + 1\<rparr>, False)
      | Some data \<Rightarrow>
          (case enc_packet cd \<lparr>packet_type = type_danmaku, packet_room_id = room_id message,
                               packet_data = data\<rparr> of
             None \<Rightarrow> (p\<lparr>kp_errors := kp_errors p + 1\<rparr>, False)
           | Some payload \<Rightarrow>
               (case try_send (producer_input p)
                       \<lparr>pm_topic = publisher_topic p, pm_key = room_id message,
                        pm_value = payload\<rparr> of
                  Some ch \<Rightarrow> (p\<lparr>producer_input := ch, kp_enqueued := kp_enqueued p + 1\<rparr>, True)
                | None \<Rightarrow> (p\<lparr>kp_dropped := kp_dropped p + 1\<rparr>, False))))"

definition kafka_metrics :: "kafka_publisher \<Rightarrow> publisher_metrics" where
  "kafka_metrics p =
     \<lparr>pm_enqueued = kp_enqueued p, pm_acked = kp_acked p, pm_dropped = kp_dropped p,
      pm_errors = kp_errors p, pm_health = health_snapshot_of (health p)\<rparr>"

definition drain_error :: "int \<Rightarrow> kafka_publisher \<Rightarrow> kafka_publisher" where
  \<comment> \<open>one round of \<open>drainErrors\<close>\<close>
  "drain_error now_millis p =
     p\<lparr>kp_errors := kp_errors p + 1, health := record_error now_millis (health p)\<rparr>"

definition drain_success :: "int \<Rightarrow> kafka_publisher \<Rightarrow> kafka_publisher" where
  \<comment> \<open>one round of \<open>drainSuccesses\<close>\<close>
  "drain_success now_millis p =
     p\<lparr>kp_acked := kp_acked p + 1, health := record_success now_millis (health p)\<rparr>"

section \<open>The dead-letter publisher\<close>

datatype 'x dlq_error = Dlq_context | Dlq_marshal | Dlq_send 'x

definition dead_letter_key :: "dead_letter \<Rightarrow> string" where
  "dead_letter_key r =
     source_topic r @ '':'' @ show_int (source_partition r) @ '':'' @ show_int (source_offset r)"

definition dead_letter_publish ::
  "codec \<Rightarrow> ('e \<Rightarrow> producer_message \<Rightarrow> 'e \<times> 'x option) \<Rightarrow> string \<Rightarrow> bool \<Rightarrow> dead_letter \<Rightarrow>
   'e \<Rightarrow> 'e \<times> 'x dlq_error option" where
  \<comment> \<open>\<open>cancelled\<close>: the context is done; \<open>send\<close> returns the error, if any\<close>
  "dead_letter_publish cd send topic cancelled r e =
     (if cancelled then (e, Some Dlq_context)
      else
        (case enc_dead_letter cd r of
           None \<Rightarrow> (e, Some Dlq_marshal)
         | Some payload \<Rightarrow>
             (case send e \<lparr>pm_topic = topic, pm_key = dead_letter_key r, pm_value = payload\<rparr> of
                (e, None) \<Rightarrow> (e, None)
              | (e, Some x) \<Rightarrow> (e, Some (Dlq_send x)))))"

section \<open>Lemmas\<close>

datatype ack = Ack | Nack

fun record_ack :: "int \<Rightarrow> ack \<Rightarrow> publisher_health \<Rightarrow> publisher_health" where
  "record_ack t Ack h = record_success t h"
| "record_ack t Nack h = record_error t h"

fun record_acks :: "int \<Rightarrow> ack list \<Rightarrow> publisher_health \<Rightarrow> publisher_health" where
  "record_acks t [] h = h"
| "record_acks t (a # as) h = record_acks t as (record_ack t a h)"

definition trailing_errors :: "ack list \<Rightarrow> nat" where
  "trailing_errors as = length (takeWhile (\<lambda>a. a = Nack) (rev as))"

lemma trailing_errors_snoc:
  "trailing_errors (as @ [a]) = (if a = Nack then Suc (trailing_errors as) else 0)"
  by (simp add: trailing_errors_def)

lemma record_acks_snoc: "record_acks t (as @ [a]) h = record_ack t a (record_acks t as h)"
  by (induction as arbitrary: h) auto

lemma trailing_errors_le: "trailing_errors as \<le> length as"
  unfolding trailing_errors_def by (metis length_rev length_takeWhile_le)

definition health_tracks :: "nat \<Rightarrow> ack list \<Rightarrow> publisher_health \<Rightarrow> bool" where
  "health_tracks n as h \<longleftrightarrow>
     degrade_after h = of_nat n \<and> ph_consecutive h = of_nat (trailing_errors as) \<and>
     (ph_status h = Publisher_degraded \<longleftrightarrow> n \<le> trailing_errors as) \<and>
     ph_transitions h - ph_recoveries h = (if ph_status h = Publisher_degraded then 1 else 0)"

lemma of_nat_le_u64:
  "n < 2 ^ 64 \<Longrightarrow> m < 2 ^ 64 \<Longrightarrow> (of_nat n :: u64) \<le> of_nat m \<longleftrightarrow> n \<le> m"
  by (simp add: word_le_nat_alt unat_of_nat)

lemma health_tracks_step:
  assumes "0 < n" "n < 2 ^ 64" "Suc (length as) < 2 ^ 64" "health_tracks n as h"
  shows "health_tracks n (as @ [a]) (record_ack t a h)"
proof (cases a)
  case Ack
  then show ?thesis using assms(1,4)
    by (auto simp: health_tracks_def record_success_def Let_def trailing_errors_snoc algebra_simps
        split: if_splits)
next
  case Nack
  have small: "Suc (trailing_errors as) < 2 ^ 64"
    using trailing_errors_le [of as] assms(3) by linarith
  have consecutive: "ph_consecutive h + 1 = of_nat (Suc (trailing_errors as))"
    "degrade_after h = of_nat n"
    using assms(4) by (simp_all add: health_tracks_def add.commute)
  have "degrade_after h \<le> ph_consecutive h + 1 \<longleftrightarrow> n \<le> Suc (trailing_errors as)"
    unfolding consecutive by (rule of_nat_le_u64 [OF assms(2) small])
  then show ?thesis using Nack assms(4)
    by (cases "ph_status h")
      (auto simp: health_tracks_def record_error_def Let_def trailing_errors_snoc algebra_simps)
qed

lemma health_tracks_run:
  assumes "0 < n" "n < 2 ^ 64" "length as < 2 ^ 64"
  shows "health_tracks n as (record_acks t as (new_publisher_health (int n)))"
  using assms(3)
proof (induction as rule: rev_induct)
  case Nil
  then show ?case using assms(1)
    by (simp add: health_tracks_def new_publisher_health_def trailing_errors_def)
next
  case (snoc a as)
  then show ?case
    using health_tracks_step [OF assms(1,2), of as _ a t] by (simp add: record_acks_snoc)
qed

lemma enqueue_cases:
  "kafka_enqueue cd message p = (p', ok) \<Longrightarrow>
     kp_enqueued p' + kp_dropped p' + kp_errors p' = kp_enqueued p + kp_dropped p + kp_errors p + 1 \<and>
     kp_enqueued p' = kp_enqueued p + (if ok then 1 else 0) \<and>
     length (chan_buf (producer_input p')) = length (chan_buf (producer_input p)) + (if ok then 1 else 0) \<and>
     chan_cap (producer_input p') = chan_cap (producer_input p)"
  by (auto simp: kafka_enqueue_def try_send_Some split: option.splits)

section \<open>Properties\<close>

text \<open>After any sequence of acknowledgements and errors the publisher is degraded exactly
  when the last \<open>DegradeAfter\<close> of them, or more, are all errors; the health counters say how
  many errors that is, and transitions exceed recoveries by one while it is degraded.\<close>

theorem degraded_iff_trailing_errors:
  assumes "0 < n" "n < 2 ^ 64" "length as < 2 ^ 64"
  shows "let h = record_acks t as (new_publisher_health (int n))
    in (ph_status h = Publisher_degraded \<longleftrightarrow> n \<le> trailing_errors as) \<and>
       ph_consecutive h = of_nat (trailing_errors as) \<and>
       ph_transitions h = ph_recoveries h + (if n \<le> trailing_errors as then 1 else 0)"
  using health_tracks_run [OF assms, of t]
  by (auto simp: health_tracks_def Let_def algebra_simps)

theorem degraded_iff_trailing_errors_witness:
  "ph_status (record_acks 7 [Nack, Ack, Nack, Nack, Nack] (new_publisher_health 3)) = Publisher_degraded \<and>
   ph_status (record_acks 7 [Nack, Nack, Ack, Nack] (new_publisher_health 3)) = Publisher_healthy"
proof -
  have not_degraded: "s \<noteq> Publisher_degraded \<Longrightarrow> s = Publisher_healthy" for s by (cases s) simp_all
  show ?thesis
    using degraded_iff_trailing_errors [of 3 "[Nack, Ack, Nack, Nack, Nack]" 7]
      degraded_iff_trailing_errors [of 3 "[Nack, Nack, Ack, Nack]" 7]
    by (auto simp: trailing_errors_def Let_def intro: not_degraded)
qed

text \<open>\<open>Enqueue\<close> never blocks and loses track of nothing: every call is counted once, as
  enqueued, dropped or failed; it returns true exactly when the message, keyed by its room,
  went to the end of the producer's input; when the input is full the message is dropped and
  the input is left as it was.\<close>

theorem enqueue_accounts_for_every_message:
  assumes "enc_danmaku cd d = Some data"
    and "enc_packet cd \<lparr>packet_type = type_danmaku, packet_room_id = room_id d,
                        packet_data = data\<rparr> = Some payload"
  shows "kafka_enqueue cd d p =
     (if length (chan_buf (producer_input p)) < chan_cap (producer_input p)
      then (p\<lparr>producer_input := (producer_input p)\<lparr>chan_buf := chan_buf (producer_input p) @
                [\<lparr>pm_topic = publisher_topic p, pm_key = room_id d, pm_value = payload\<rparr>]\<rparr>,
              kp_enqueued := kp_enqueued p + 1\<rparr>, True)
      else (p\<lparr>kp_dropped := kp_dropped p + 1\<rparr>, False))"
  using assms by (simp add: kafka_enqueue_def try_send_def)

definition plain_codec :: codec where
  \<comment> \<open>a codec for the witnesses: it writes the fields one after another and reads nothing\<close>
  "plain_codec =
     \<lparr>dec_packet = (\<lambda>_. None), dec_danmaku = (\<lambda>_. None), dec_like = (\<lambda>_. None),
      enc_packet = (\<lambda>p. Some (packet_room_id p @ packet_data p)),
      enc_danmaku = (\<lambda>d. Some (message_id d @ content d)),
      enc_stats = (\<lambda>_. Some []), enc_control = (\<lambda>c. Some (ctl_code c)),
      enc_dead_letter = (\<lambda>r. Some (dl_reason r))\<rparr>"

definition sample_danmaku :: danmaku where
  "sample_danmaku =
     \<lparr>db_id = 0, message_id = ''m1'', room_id = ''r'', user_id = ''u'', username = ''u'',
      content = ''hi'', send_time = \<lparr>instant = 63900000000 * second, utc_offset = 0\<rparr>,
      client_sent_at_unix_nano = 0\<rparr>"

theorem enqueue_accounts_for_every_message_witness:
  "snd (kafka_enqueue plain_codec sample_danmaku (new_kafka_publisher (make_chan 1) ''t'')) \<and>
   \<not> snd (kafka_enqueue plain_codec sample_danmaku (new_kafka_publisher (make_chan 0) ''t''))"
  using enqueue_accounts_for_every_message [of plain_codec sample_danmaku "''m1hi''" "''rm1hi''"]
  by (simp add: plain_codec_def sample_danmaku_def new_kafka_publisher_def make_chan_def)

end
