(* ===== verification/Realtime.thy ===== *)
theory Realtime
  imports Hub Publisher "HOL-Library.Sublist"
begin

text \<open>
  What the hub of \<open>v10/internal/ws/manager.go\<close> promises: the rooms and subscriptions of every
  reachable state, bounded queues and the disconnection of slow clients, history only of
  messages that were accepted for broadcast, no like lost or counted twice by a report, and
  the fallback to local fan-out when Redis does not take a packet.
\<close>

section \<open>Persistence behind the ingress\<close>

text \<open>The contract of a \<open>DanmakuPersister\<close>: \<open>contents\<close> is what it has taken, \<open>entry\<close> the form
  in which it holds a danmaku. It takes a message exactly when it answers true.\<close>

locale danmaku_persister =
  fixes enqueue :: "danmaku \<Rightarrow> 'p \<Rightarrow> 'p \<times> bool"
    and contents :: "'p \<Rightarrow> 'm list"
    and entry :: "danmaku \<Rightarrow> 'p \<Rightarrow> 'm"
  assumes taken: "snd (enqueue d p) \<Longrightarrow> contents (fst (enqueue d p)) = contents p @ [entry d p]"
    and refused: "\<not> snd (enqueue d p) \<Longrightarrow> contents (fst (enqueue d p)) = contents p"
    and entry_stable: "entry d (fst (enqueue d' p)) = entry d p"

datatype ingress_event = Submit danmaku string | Take

fun ingress_step ::
  "('p, 'r, 'x) ports \<Rightarrow> ingress_event \<Rightarrow> ('p, 'r) manager \<Rightarrow> ('p, 'r) manager \<times> danmaku list" where
  \<comment> \<open>a submission, or the loop of \<open>Run\<close> taking a packet; with the danmaku accepted\<close>
  "ingress_step pt (Submit d payload) m =
     (case submit_danmaku pt d payload m of (m, ok) \<Rightarrow> (m, if ok then [d] else []))"
| "ingress_step pt Take m =
     (case chan_recv (broadcast_q m) of
        None \<Rightarrow> (m, [])
      | Some (p, q) \<Rightarrow> (m\<lparr>broadcast_q := q\<rparr>, []))"

fun ingress_run ::
  "('p, 'r, 'x) ports \<Rightarrow> ingress_event list \<Rightarrow> ('p, 'r) manager \<Rightarrow> ('p, 'r) manager \<times> danmaku list" where
  "ingress_run pt [] m = (m, [])"
| "ingress_run pt (ev # evs) m =
     (let (m, ds) = ingress_step pt ev m;
          (m, ds') = ingress_run pt evs m
      in (m, ds @ ds'))"

lemma submit_persister:
  "submit_danmaku pt d payload m = (m', ok) \<Longrightarrow>
     ok = (length (chan_buf (broadcast_q m)) < chan_cap (broadcast_q m)) \<and>
     (ok \<longrightarrow> persister m' = map_option (\<lambda>p. fst (pt_enqueue pt d p)) (persister m) \<and>
        chan_buf (broadcast_q m') = chan_buf (broadcast_q m) @
          [\<lparr>packet_type = type_danmaku, packet_room_id = room_id d, packet_data = payload\<rparr>]) \<and>
     (\<not> ok \<longrightarrow> persister m' = persister m \<and> broadcast_q m' = broadcast_q m)"
  by (auto simp: submit_danmaku_def enqueue_persistence_def bump_def try_send_def
      split: option.splits prod.splits bool.splits if_splits)

context danmaku_persister
begin

lemma ingress_step_persists:
  assumes "persister m = Some p" "ingress_step (pt\<lparr>pt_enqueue := enqueue\<rparr>) ev m = (m', ds)"
  shows "\<exists>p' es. persister m' = Some p' \<and> subseq es ds \<and>
    contents p' = contents p @ map (\<lambda>d. entry d p) es \<and> (\<forall>d. entry d p' = entry d p)"
proof (cases ev)
  case (Submit d payload)
  then obtain ok where s: "submit_danmaku (pt\<lparr>pt_enqueue := enqueue\<rparr>) d payload m = (m', ok)"
    and ds: "ds = (if ok then [d] else [])" using assms(2) by (auto split: prod.splits)
  show ?thesis
  proof (cases "ok \<and> snd (enqueue d p)")
    case True
    then show ?thesis
      using submit_persister [OF s] assms(1) taken [of d p] entry_stable ds
      by (intro exI [of _ "fst (enqueue d p)"] exI [of _ "[d]"]) simp
  next
    case False
    then show ?thesis
      using submit_persister [OF s] assms(1) refused [of d p] entry_stable
      by (intro exI [of _ "if ok then fst (enqueue d p) else p"] exI [of _ "[]"]) auto
  qed
next
  case Take
  then show ?thesis using assms
    by (intro exI [of _ p] exI [of _ "[]"]) (auto split: option.splits list.splits)
qed

lemma ingress_run_persists:
  "persister m = Some p \<Longrightarrow> ingress_run (pt\<lparr>pt_enqueue := enqueue\<rparr>) evs m = (m', ds) \<Longrightarrow>
    \<exists>p' es. persister m' = Some p' \<and> subseq es ds \<and> contents p' = contents p @ map (\<lambda>d. entry d p) es"
proof (induction evs arbitrary: m p ds)
  case Nil
  then show ?case by auto
next
  case (Cons ev evs)
  obtain n ds1 where s: "ingress_step (pt\<lparr>pt_enqueue := enqueue\<rparr>) ev m = (n, ds1)" by fastforce
  obtain ds2 where r: "ingress_run (pt\<lparr>pt_enqueue := enqueue\<rparr>) evs n = (m', ds2)" and ds: "ds = ds1 @ ds2"
    using Cons.prems(2) s by (auto split: prod.splits)
  obtain q es1 where q: "persister n = Some q" "subseq es1 ds1"
    "contents q = contents p @ map (\<lambda>d. entry d p) es1" "\<forall>d. entry d q = entry d p"
    using ingress_step_persists [OF Cons.prems(1) s] by blast
  obtain p' es2 where p': "persister m' = Some p'" "subseq es2 ds2"
    "contents p' = contents q @ map (\<lambda>d. entry d q) es2"
    using Cons.IH [OF q(1) r] by blast
  show ?case using q p' ds
    by (intro exI [of _ p'] exI [of _ "es1 @ es2"]) (simp add: list_emb_append_mono)
qed

end

definition kafka_entry :: "codec \<Rightarrow> danmaku \<Rightarrow> kafka_publisher \<Rightarrow> producer_message" where
  "kafka_entry cd d p =
     \<lparr>pm_topic = publisher_topic p, pm_key = room_id d,
      pm_value = the (enc_packet cd \<lparr>packet_type = type_danmaku, packet_room_id = room_id d,
        packet_data = the (enc_danmaku cd d)\<rparr>)\<rparr>"

interpretation kafka: danmaku_persister "kafka_enqueue cd" "\<lambda>p. chan_buf (producer_input p)" "kafka_entry cd" for cd
  by unfold_locales
    (auto simp: kafka_enqueue_def kafka_entry_def try_send_def split: option.splits if_splits)

section \<open>Slow clients and likes\<close>

lemma safe_send_full:
  assumes "chan_cap (cl_send (client_at m a)) \<le> length (chan_buf (cl_send (client_at m a)))"
  shows "safe_send x a m = bump (\<lambda>k. k\<lparr>dropped_messages := dropped_messages k + 1,
      slow_client_disconnects := slow_client_disconnects k +
        (if cl_slow (client_at m a) + 1 = 64 then 1 else 0)\<rparr>)
    (set_client a ((client_at m a)\<lparr>cl_slow := cl_slow (client_at m a) + 1,
       cl_closed := cl_closed (client_at m a) \<or> cl_slow (client_at m a) + 1 = 64\<rparr>) m)"
  using assms by (simp add: safe_send_def try_send_def Let_def bump_def set_client_def client_close_def
      slow_threshold_def)

lemma unat_of_nat_u32: "n < 2 ^ 32 \<Longrightarrow> unat (of_nat n :: u32) = n"
  by (simp add: unat_of_nat)

lemma slow_after_drops:
  assumes "chan_cap (cl_send (client_at m a)) \<le> length (chan_buf (cl_send (client_at m a)))"
    and "length xs < 2 ^ 32" "cl_slow (client_at m a) = 0"
  shows "let m' = fold (\<lambda>x. safe_send x a) xs m
    in client_at m' a = (client_at m a)\<lparr>cl_slow := of_nat (length xs),
         cl_closed := cl_closed (client_at m a) \<or> 64 \<le> length xs\<rparr> \<and>
       dropped_messages (counters m') = dropped_messages (counters m) + of_nat (length xs) \<and>
       slow_client_disconnects (counters m') = slow_client_disconnects (counters m) +
         (if 64 \<le> length xs then 1 else 0)"
  using assms(2)
proof (induction xs rule: rev_induct)
  case Nil
  then show ?case using assms(3) by (simp add: Let_def)
next
  case (snoc x xs)
  define n where "n = fold (\<lambda>x. safe_send x a) xs m"
  have ih: "client_at n a = (client_at m a)\<lparr>cl_slow := of_nat (length xs),
      cl_closed := cl_closed (client_at m a) \<or> 64 \<le> length xs\<rparr>"
    "dropped_messages (counters n) = dropped_messages (counters m) + of_nat (length xs)"
    "slow_client_disconnects (counters n) = slow_client_disconnects (counters m) +
       (if 64 \<le> length xs then 1 else 0)"
    using snoc by (simp_all add: Let_def n_def)
  have "of_nat (length xs) + 1 = (64 :: u32) \<longleftrightarrow> length xs + 1 = 64"
  proof -
    have "of_nat (length xs) + 1 = (of_nat (length xs + 1) :: u32)" by simp
    moreover have "unat (of_nat (length xs + 1) :: u32) = length xs + 1"
      using snoc.prems by (intro unat_of_nat_u32) simp
    moreover have "unat (64 :: u32) = 64" by simp
    ultimately show ?thesis by (metis word_unat_eq_iff)
  qed
  moreover have "fold (\<lambda>x. safe_send x a) (xs @ [x]) m = safe_send x a n" by (simp add: n_def)
  moreover have "chan_cap (cl_send (client_at n a)) \<le> length (chan_buf (cl_send (client_at n a)))"
    using assms(1) by (simp add: ih)
  ultimately show ?case
    by (auto simp: Let_def safe_send_full bump_def set_client_def ih)
qed

lemma guarded_rejected: "snd (cb_allow t b) = None \<Longrightarrow>
    guarded t u f (b, s) = ((fst (cb_allow t b), s), Exec_circuit_open)"
  by (cases "cb_allow t b") (simp add: guarded_def cb_execute_def split_beta)

lemma guarded_admitted:
  "snd (cb_allow t b) = Some p \<Longrightarrow> f s = (s', op) \<Longrightarrow>
    \<exists>b'. guarded t u f (b, s) = ((b', s'), case op of Op_ok \<Rightarrow> Exec_ok | Op_err x \<Rightarrow> Exec_err x | Op_panic \<Rightarrow> Exec_panic)"
  by (cases "cb_allow t b") (auto simp: guarded_def cb_execute_def split: op_outcome.split)

lemma stats_operation_flush:
  assumes "stats_operation pt server room n delta ttl l = (l', op)" "\<not> ld_flushed l"
  shows "like_deltas_flushed (ld_counters l') = like_deltas_flushed (ld_counters l) +
      (if ld_flushed l' then delta else 0) \<and> (op = Op_ok \<and> delta \<noteq> 0 \<longrightarrow> ld_flushed l') \<and>
    (ld_flushed l' \<longrightarrow> delta \<noteq> 0) \<and> op \<noteq> Op_panic"
  using assms by (auto simp: stats_operation_def Let_def word_neq_0_conv
      split: prod.splits option.splits if_splits sum.splits)

lemma guarded_stats:
  assumes "snd (cb_allow t b) = Some p" "stats_operation pt server room n delta ttl l = (l', op)"
  shows "\<exists>b'. guarded t u (stats_operation pt server room n delta ttl) (b, l) =
      ((b', l'), case op of Op_ok \<Rightarrow> Exec_ok | Op_err x \<Rightarrow> Exec_err x | Op_panic \<Rightarrow> Exec_panic)"
  by (rule guarded_admitted [where f = "stats_operation pt server room n delta ttl", OF assms])

lemma load_flush:
  assumes "load_distributed_stats pt t u room n delta ttl b m = (m', online, likes, flushed, res)"
  shows "like_deltas_flushed (counters m') = like_deltas_flushed (counters m) + (if flushed then delta else 0) \<and>
    (res = Exec_ok \<and> delta \<noteq> 0 \<longrightarrow> flushed) \<and> (flushed \<longrightarrow> delta \<noteq> 0) \<and> local_likes m' = local_likes m"
proof (cases "snd (cb_allow t b)")
  case None
  then show ?thesis using assms by (auto simp: load_distributed_stats_def guarded_rejected Let_def)
next
  case (Some p)
  define l where "l = \<lparr>ld_redis = redis m, ld_counters = counters m, ld_online = 0, ld_likes = 0, ld_flushed = False\<rparr>"
  obtain l' op where op: "stats_operation pt (server_id m) room n delta ttl l = (l', op)" by fastforce
  obtain b' where g: "guarded t u (stats_operation pt (server_id m) room n delta ttl) (b, l) =
      ((b', l'), case op of Op_ok \<Rightarrow> Exec_ok | Op_err x \<Rightarrow> Exec_err x | Op_panic \<Rightarrow> Exec_panic)"
    using guarded_stats [OF Some op] by blast
  have "\<not> ld_flushed l" by (simp add: l_def)
  then show ?thesis
    using assms stats_operation_flush [OF op] g
    by (auto simp: load_distributed_stats_def Let_def l_def [symmetric] split: op_outcome.splits)
      (simp_all add: l_def)
qed

lemma local_broadcast_likes [frame_simps]:
  "local_likes (enqueue_local_broadcast pt room payload m) = local_likes m"
  "like_deltas_flushed (counters (enqueue_local_broadcast pt room payload m)) = like_deltas_flushed (counters m)"
  by (simp_all add: enqueue_local_broadcast_def snapshot_room_clients_def release_snapshot_def bump_def
      Let_def split: list.split option.split)

lemma report_without_delta:
  assumes "gm_get 0 deltas (fst ro) = 0"
  shows "local_likes (broadcast_room_stats pt t u deltas ro m) = local_likes m \<and>
    like_deltas_flushed (counters (broadcast_room_stats pt t u deltas ro m)) = like_deltas_flushed (counters m)"
proof -
  obtain m' st where rs: "room_stats pt t u (fst ro) (snd ro) 0 m = (m', st)" by fastforce
  have "local_likes m' = local_likes m \<and> like_deltas_flushed (counters m') = like_deltas_flushed (counters m)"
    using rs by (auto simp: room_stats_def bump_def Let_def dest!: load_flush
        split: prod.splits option.splits bool.splits if_splits)
  then show ?thesis using rs assms
    by (simp add: broadcast_room_stats_def Let_def bump_def frame_simps split: option.split)
qed

lemma reports_without_deltas:
  assumes "\<forall>ro\<in>set ros. gm_get 0 deltas (fst ro) = 0"
  shows "local_likes (fold (broadcast_room_stats pt t u deltas) ros m) = local_likes m \<and>
    like_deltas_flushed (counters (fold (broadcast_room_stats pt t u deltas) ros m)) = like_deltas_flushed (counters m)"
  using assms by (induction ros arbitrary: m) (simp_all add: report_without_delta)

lemma rooms_inv_disjoint:
  assumes "rooms_inv m" "(r1, cs1) \<in> set (rooms m)" "(r2, cs2) \<in> set (rooms m)" "a \<in> set cs1" "a \<in> set cs2"
  shows "r1 = r2"
proof -
  have wf: "distinct (map fst (rooms m))" using assms(1) by (simp add: rooms_inv_def gm_wf_def)
  have "cl_room (client_at m a) = r1" "cl_room (client_at m a) = r2"
    using assms map_of_is_SomeI [OF wf] by (auto simp: rooms_inv_def)
  then show ?thesis by simp
qed

lemma card_of_rooms:
  assumes "distinct (map fst rs)" "\<And>r cs. (r, cs) \<in> set rs \<Longrightarrow> distinct cs"
    and "\<And>r1 cs1 r2 cs2 a. (r1, cs1) \<in> set rs \<Longrightarrow> (r2, cs2) \<in> set rs \<Longrightarrow> a \<in> set cs1 \<Longrightarrow> a \<in> set cs2 \<Longrightarrow> r1 = r2"
  shows "card (\<Union>(r, cs)\<in>set rs. set cs) = sum_list (map (length \<circ> snd) rs)"
  using assms
proof (induction rs)
  case (Cons x rs)
  obtain r cs where x: "x = (r, cs)" by fastforce
  have disjoint: "set cs \<inter> (\<Union>(r, cs)\<in>set rs. set cs) = {}"
  proof (rule ccontr)
    assume "set cs \<inter> (\<Union>(r, cs)\<in>set rs. set cs) \<noteq> {}"
    then obtain a r' cs' where "a \<in> set cs" "(r', cs') \<in> set rs" "a \<in> set cs'" by auto
    then have "r = r'" using Cons.prems(3) [of r cs r' cs' a] x by simp
    then show False using Cons.prems(1) x \<open>(r', cs') \<in> set rs\<close> by force
  qed
  have "card (\<Union>(r, cs)\<in>set rs. set cs) = sum_list (map (length \<circ> snd) rs)"
    using Cons.prems by (intro Cons.IH) (auto intro: Cons.prems(2), meson Cons.prems(3) list.set_intros(2))
  moreover have "card (set cs) = length cs" using Cons.prems(2) [of r cs] x by (simp add: distinct_card)
  moreover have "finite (\<Union>(r, cs)\<in>set rs. set cs)" by auto
  ultimately show ?case using card_Un_disjoint [OF finite_set _ disjoint] by (simp add: x comp_def)
qed simp

section \<open>A small hub\<close>

definition demo_redis :: "(nat, string) redis_ops" where
  \<comment> \<open>a Redis that refuses everything and counts the commands it was sent\<close>
  "demo_redis =
     \<lparr>rd_publish = (\<lambda>ch p n. (Suc n, Some ''down'')), rd_incr_by = (\<lambda>k d n. (Suc n, Some ''down'')),
      rd_get = (\<lambda>k n. (Suc n, Inl ''down'')), rd_pipeline = (\<lambda>cs n. (Suc n, Some ''down'')),
      rd_smembers = (\<lambda>k n. (Suc n, Inl ''down'')), rd_mget = (\<lambda>ks n. (Suc n, Inl ''down'')),
      rd_srem = (\<lambda>k v n. (Suc n, Some ''down'')), rd_parse_error = (\<lambda>s. s)\<rparr>"

definition demo_ports :: "(kafka_publisher, nat, string) ports" where
  "demo_ports =
     \<lparr>pt_enqueue = kafka_enqueue plain_codec, pt_publisher = None, pt_redis = demo_redis,
      pt_codec = plain_codec, pt_append_cap = (\<lambda>cap n. n)\<rparr>"

definition demo_config :: "(kafka_publisher, nat) manager_config" where
  "demo_config =
     \<lparr>mc_worker_count = 0, mc_redis_worker_count = 0,
      mc_persister = Some (new_kafka_publisher (make_chan 1) ''t''), mc_redis_client = True,
      mc_redis = 0, mc_redis_breaker = None, mc_traffic = None\<rparr>"

definition demo_manager :: "(kafka_publisher, nat) manager" where
  "demo_manager = the (new_manager_with_config demo_ports ''host'' 1 (Some ''x'') demo_config)"

lemma demo_new: "new_manager_with_config demo_ports ''host'' 1 (Some ''x'') demo_config = Some demo_manager"
  by (simp add: demo_manager_def new_manager_with_config_def new_generator_def Let_def)

definition demo_joined :: "(kafka_publisher, nat) hub" where
  "demo_joined = \<lparr>mgr = handle_register 7 (set_client 7 (new_client ''u'' ''u'' ''r'') demo_manager),
    working = [], reporting = None\<rparr>"

lemma demo_reachable: "hub_reachable demo_ports demo_manager demo_joined"
proof -
  have "\<not> client_live 7 \<lparr>mgr = demo_manager, working = [], reporting = None\<rparr>"
    by (simp add: client_live_def demo_manager_def new_manager_with_config_def new_generator_def Let_def
        make_chan_def)
  from hub_next [OF hub_start connects [OF this]] show ?thesis by (simp add: demo_joined_def)
qed

lemma demo_fields:
  "rooms demo_manager = []" "redis_client demo_manager" "redis_publisher demo_manager"
  "redis demo_manager = 0" "local_likes demo_manager = []"
  "counters demo_manager = no_counters"
  "redis_breaker demo_manager = Some (new_circuit_breaker default_cb_config)"
  "broadcast_q demo_manager = make_chan 512" "broadcast_jobs demo_manager = make_chan 1024"
  "persister demo_manager = Some (new_kafka_publisher (make_chan 1) ''t'')"
  "client_at demo_manager a = new_client [] [] []" "cancel_sub demo_manager = []"
  "subscribers demo_manager = []" "cancelled demo_manager = []" "next_context demo_manager = 0"
  "snapshot_pool demo_manager = []" "traffic demo_manager = None"
  by (simp_all add: demo_manager_def new_manager_with_config_def new_generator_def Let_def demo_config_def
      demo_ports_def broadcast_buffer_size_def job_buffer_size_def)

lemma demo_joined_rooms: "rooms (mgr demo_joined) = [(''r'', [7])]"
  by (simp add: demo_joined_def handle_register_def Let_def demo_fields set_client_def new_client_def
      gm_get_def)

section \<open>Properties\<close>

text \<open>With the Kafka publisher as persister, history holds only what was live: over any run
  of submissions and of packets taken by the hub, the messages added to the producer's input
  are, in order, some of the danmaku that the ingress queue accepted; a rejected one never
  reaches Kafka.\<close>

theorem history_only_of_accepted:
  assumes "persister m = Some p" "pt_enqueue pt = kafka_enqueue cd"
    and "ingress_run pt evs m = (m', accepted)"
  shows "\<exists>p' es. persister m' = Some p' \<and> subseq es accepted \<and>
    chan_buf (producer_input p') = chan_buf (producer_input p) @ map (\<lambda>d. kafka_entry cd d p) es"
proof -
  have "pt = pt\<lparr>pt_enqueue := kafka_enqueue cd\<rparr>" using assms(2) by (cases pt) simp
  then show ?thesis using kafka.ingress_run_persists [OF assms(1)] assms(3) by metis
qed

theorem history_only_of_accepted_witness:
  "\<exists>m p es. ingress_run demo_ports [Submit sample_danmaku ''x'', Take] demo_manager
      = (m, [sample_danmaku]) \<and> persister m = Some p \<and>
    subseq es [sample_danmaku] \<and> length (chan_buf (producer_input p)) = length es"
proof -
  obtain m ds where run: "ingress_run demo_ports [Submit sample_danmaku ''x'', Take]
      demo_manager = (m, ds)" by fastforce
  then have ds: "ds = [sample_danmaku]"
    by (simp add: submit_danmaku_def enqueue_persistence_def bump_def try_send_def demo_fields
        make_chan_def split: prod.splits bool.splits)
  have enq: "pt_enqueue demo_ports = kafka_enqueue plain_codec" by (simp add: demo_ports_def)
  show ?thesis
    using history_only_of_accepted [OF demo_fields(10) enq run] run
    by (auto simp: ds new_kafka_publisher_def make_chan_def)
qed

text \<open>\<open>SubmitDanmaku\<close> accepts exactly when the ingress queue has room; then the packet goes to
  its end and the persister is called once, and otherwise queue and persister are untouched.\<close>

theorem submit_accepts_when_room:
  assumes "submit_danmaku pt d payload m = (m', ok)"
  shows "ok = (length (chan_buf (broadcast_q m)) < chan_cap (broadcast_q m)) \<and>
    persister m' = (if ok then map_option (\<lambda>p. fst (pt_enqueue pt d p)) (persister m) else persister m) \<and>
    chan_buf (broadcast_q m') = (if ok then chan_buf (broadcast_q m) @
        [\<lparr>packet_type = type_danmaku, packet_room_id = room_id d, packet_data = payload\<rparr>]
      else chan_buf (broadcast_q m))"
  using submit_persister [OF assms] by (cases ok) simp_all

theorem submit_accepts_when_room_witness:
  "snd (submit_danmaku demo_ports sample_danmaku ''x'' demo_manager)"
proof -
  obtain m ok where s: "submit_danmaku demo_ports sample_danmaku ''x'' demo_manager = (m, ok)" by fastforce
  show ?thesis using submit_accepts_when_room [OF s] s by (simp add: demo_fields make_chan_def)
qed



text \<open>C27: In every reachable state the queues are within their buffers, a client that is not
  closed has dropped fewer than 64 messages in a row, and a manager that publishes to Redis
  has a circuit breaker, so \<open>processRedisPublish\<close> never dereferences nil.\<close>

theorem queues_bounded_slow_clients_cut:
  assumes "new_manager_with_config pt hostname nanos random config = Some m" "hub_reachable pt m s"
  shows "length (chan_buf (broadcast_q (mgr s))) \<le> 512 \<and>
    length (chan_buf (broadcast_jobs (mgr s))) \<le> 1024 \<and>
    length (chan_buf (redis_publish_jobs (mgr s))) \<le> 512 \<and>
    (\<forall>a. length (chan_buf (cl_send (client_at (mgr s) a))) \<le> 128 \<and>
         (\<not> cl_closed (client_at (mgr s) a) \<longrightarrow> cl_slow (client_at (mgr s) a) < 64)) \<and>
    (redis_publisher (mgr s) \<longrightarrow> redis_breaker (mgr s) \<noteq> None)"
  using wire_inv_reachable [OF assms(2) wire_inv_new [OF assms(1)]]
  by (simp add: wire_inv_def client_ok_def chan_wf_def broadcast_buffer_size_def job_buffer_size_def
      redis_publish_buffer_size_def send_buffer_size_def slow_threshold_def) metis

theorem queues_bounded_slow_clients_cut_witness:
  "redis_breaker (mgr demo_joined) \<noteq> None \<and> cl_slow (client_at (mgr demo_joined) 7) < 64"
proof -
  have "redis_publisher (mgr demo_joined)" "\<not> cl_closed (client_at (mgr demo_joined) 7)"
    by (simp_all add: demo_joined_def handle_register_def Let_def demo_fields set_client_def new_client_def)
  then show ?thesis using queues_bounded_slow_clients_cut [OF demo_new demo_reachable] by blast
qed

text \<open>A client whose buffer stays full is disconnected by exactly the 64th message dropped in
  a row, once, and every drop is counted.\<close>

theorem slow_client_disconnected_at_64:
  assumes "chan_cap (cl_send (client_at m a)) \<le> length (chan_buf (cl_send (client_at m a)))"
    and "length xs < 2 ^ 32" "cl_slow (client_at m a) = 0" "\<not> cl_closed (client_at m a)"
  shows "let m' = fold (\<lambda>x. safe_send x a) xs m
    in (cl_closed (client_at m' a) \<longleftrightarrow> 64 \<le> length xs) \<and>
       dropped_messages (counters m') = dropped_messages (counters m) + of_nat (length xs) \<and>
       slow_client_disconnects (counters m') = slow_client_disconnects (counters m) +
         (if 64 \<le> length xs then 1 else 0)"
  using slow_after_drops [OF assms(1-3)] assms(4) by (simp add: Let_def)

theorem slow_client_disconnected_at_64_witness:
  "let full = (new_client ''u'' ''u'' ''r'')\<lparr>cl_send := \<lparr>chan_buf = [''x''], chan_cap = 1\<rparr>\<rparr>;
       m = set_client 7 full demo_manager
   in cl_closed (client_at (fold (\<lambda>x. safe_send x 7) (replicate 64 ''m'') m) 7) \<and>
      \<not> cl_closed (client_at (fold (\<lambda>x. safe_send x 7) (replicate 63 ''m'') m) 7)"
proof -
  define full where "full = (new_client ''u'' ''u'' ''r'')\<lparr>cl_send := \<lparr>chan_buf = [''x''], chan_cap = 1\<rparr>\<rparr>"
  define m where "m = set_client 7 full demo_manager"
  have c: "client_at m 7 = full" by (simp add: m_def set_client_def)
  have h: "chan_cap (cl_send (client_at m 7)) \<le> length (chan_buf (cl_send (client_at m 7)))"
    "cl_slow (client_at m 7) = 0" "\<not> cl_closed (client_at m 7)"
    by (simp_all add: c full_def new_client_def)
  show ?thesis
    using slow_client_disconnected_at_64 [OF h(1) _ h(2,3), of "replicate 64 ''m''"]
      slow_client_disconnected_at_64 [OF h(1) _ h(2,3), of "replicate 63 ''m''"]
    unfolding full_def [symmetric] Let_def m_def [symmetric] by simp
qed

text \<open>A report neither loses nor doubles the likes of the room it is about: what it drained
  for the room is either counted as flushed or put back, whether Redis is off, the circuit is
  open, a command fails at any point, or all goes well.\<close>

theorem report_conserves_likes:
  "let (m', stats) = room_stats pt t u room online delta m
   in gm_get 0 (local_likes m') room + like_deltas_flushed (counters m') =
      gm_get 0 (local_likes m) room + like_deltas_flushed (counters m) + delta"
proof (cases "\<exists>b. redis_client m \<and> redis_breaker m = Some b")
  case True
  then obtain b where b: "redis_client m" "redis_breaker m = Some b" by blast
  obtain m1 n likes flushed res where load: "load_distributed_stats pt t u room online delta
      (2 * default_stats_interval + second) b m = (m1, n, likes, flushed, res)"
    by (metis prod_cases5)
  show ?thesis using load_flush [OF load] b load
    by (cases flushed; cases "delta = 0"; cases "res = Exec_ok"; cases "res = Exec_circuit_open")
      (auto simp: room_stats_def Let_def bump_def restore_like_delta_def gm_get_update algebra_simps
        word_gt_0)
next
  case False
  then show ?thesis
    by (auto simp: room_stats_def bump_def Let_def algebra_simps word_gt_0 split: option.split bool.split)
qed

text \<open>A tick of the statistics drops the pending likes of every room without clients: when the
  rooms that do have clients have nothing pending, nothing is flushed and nothing is left of
  what was pending for the others.\<close>

theorem likes_of_empty_room_are_dropped:
  assumes "rooms m \<noteq> []" "\<not> gm_has (rooms m) room"
    and "\<And>r. gm_has (rooms m) r \<Longrightarrow> gm_get 0 (local_likes m) r = 0"
  shows "gm_get 0 (local_likes (broadcast_stats pt t u m)) room = 0 \<and>
    like_deltas_flushed (counters (broadcast_stats pt t u m)) = like_deltas_flushed (counters m)"
proof -
  have local: "local_rooms = snapshot_room_counts m \<Longrightarrow> local_rooms \<noteq> []" for local_rooms
    using assms(1) by (simp add: snapshot_room_counts_def)
  have zero: "\<forall>ro\<in>set (snapshot_room_counts m). gm_get 0 (local_likes m) (fst ro) = 0"
    using assms(3) by (force simp: snapshot_room_counts_def gm_has_iff)
  show ?thesis
    using reports_without_deltas [OF zero, of pt t u "m\<lparr>local_likes := []\<rparr>"] local [OF refl]
    by (simp add: broadcast_stats_def drain_local_like_deltas_def Let_def)
qed

theorem likes_of_empty_room_are_dropped_witness:
  "let m = add_like ''gone'' 5 (mgr demo_joined)
   in gm_get 0 (local_likes m) ''gone'' = 5 \<and>
      gm_get 0 (local_likes (broadcast_stats demo_ports 0 0 m)) ''gone'' = 0 \<and>
      like_deltas_flushed (counters (broadcast_stats demo_ports 0 0 m)) = like_deltas_flushed (counters m)"
proof -
  define m where "m = add_like ''gone'' 5 (mgr demo_joined)"
  have rooms: "rooms m = [(''r'', [7])]"
    using demo_joined_rooms by (simp add: m_def add_like_def bump_def Let_def)
  have "local_likes (mgr demo_joined) = []"
    by (simp add: demo_joined_def handle_register_def Let_def demo_fields set_client_def)
  then have likes: "local_likes m = [(''gone'', 5)]"
    by (simp add: m_def add_like_def bump_def Let_def)
  have none: "gm_get 0 (local_likes m) r = 0" if "gm_has (rooms m) r" for r
    using that by (simp add: rooms likes gm_has_def gm_get_def split: if_splits)
  have "rooms m \<noteq> []" "\<not> gm_has (rooms m) ''gone''" by (simp_all add: rooms gm_has_def)
  note dropped = likes_of_empty_room_are_dropped [OF this none, of demo_ports 0 0]
  have "gm_get 0 (local_likes m) ''gone'' = 5" by (simp add: likes gm_get_def)
  then show ?thesis using dropped unfolding m_def [symmetric] Let_def by blast
qed

text \<open>The number of clients in the metrics of a reachable state is the number of registered
  clients: each is counted once.\<close>

theorem metrics_count_clients:
  assumes "new_manager_with_config pt hostname nanos random config = Some m" "hub_reachable pt m s"
  shows "mm_clients (metrics_of rt (mgr s)) = int (card (\<Union>(room, cs)\<in>set (rooms (mgr s)). set cs))"
proof -
  have inv: "rooms_inv (mgr s)" by (rule rooms_inv_reachable [OF assms(2) rooms_inv_new [OF assms(1)]])
  then have wf: "distinct (map fst (rooms (mgr s)))" by (simp add: rooms_inv_def gm_wf_def)
  have "distinct cs" if "(r, cs) \<in> set (rooms (mgr s))" for r cs
    using inv map_of_is_SomeI [OF wf that] by (simp add: rooms_inv_def)
  then have "card (\<Union>(r, cs)\<in>set (rooms (mgr s)). set cs) = sum_list (map (length \<circ> snd) (rooms (mgr s)))"
    using rooms_inv_disjoint [OF inv] by (intro card_of_rooms [OF wf]) auto
  then show ?thesis by (simp add: metrics_of_def Let_def)
qed

theorem metrics_count_clients_witness:
  "mm_clients (metrics_of \<lparr>rt_goroutines = 1, rt_alloc = 0, rt_total_alloc = 0, rt_num_gc = 0\<rparr>
     (mgr demo_joined)) = 1"
  using metrics_count_clients [OF demo_new demo_reachable] by (simp add: demo_joined_rooms)

text \<open>A packet that Redis does not take goes to the local clients: when the circuit is open or
  the publication fails, one job for exactly the room's clients is enqueued and the broadcast
  is counted as degraded; an open circuit leaves Redis untouched.\<close>

theorem redis_failure_falls_back:
  assumes "redis_breaker m = Some b" "gm_get [] (rooms m) (rj_room job) = cs" "cs \<noteq> []"
    and "length (chan_buf (broadcast_jobs m)) < chan_cap (broadcast_jobs m)"
    and "snd (cb_allow t b) = None \<or> snd (publish pt (rj_room job) (rj_payload job) (redis m)) \<noteq> None"
  shows "let m' = process_redis_publish pt t u job m
    in (\<exists>sn. chan_buf (broadcast_jobs m') = chan_buf (broadcast_jobs m) @
          [\<lparr>bj_room = rj_room job, bj_clients = sn, bj_payload = rj_payload job\<rparr>] \<and> sn_clients sn = cs) \<and>
       redis_degraded_broadcasts (counters m') = redis_degraded_broadcasts (counters m) + 1 \<and>
       redis_published (counters m') = redis_published (counters m) \<and>
       (snd (cb_allow t b) = None \<longrightarrow> redis m' = redis m)"
proof -
  define f where "f = (\<lambda>r. case publish pt (rj_room job) (rj_payload job) r of (r, e) \<Rightarrow> (r, outcome_of e))"
  obtain b' r res where g: "guarded t u f (b, redis m) = ((b', r), res)" "res \<noteq> Exec_ok"
    "snd (cb_allow t b) = None \<longrightarrow> r = redis m"
  proof (cases "snd (cb_allow t b)")
    case None
    show ?thesis
      by (rule that [of "fst (cb_allow t b)" "redis m" Exec_circuit_open])
        (simp_all add: guarded_rejected [OF None])
  next
    case (Some p)
    then obtain x where "snd (publish pt (rj_room job) (rj_payload job) (redis m)) = Some x"
      using assms(5) by auto
    then have "f (redis m) = (fst (publish pt (rj_room job) (rj_payload job) (redis m)), Op_err x)"
      by (simp add: f_def split_beta outcome_of_def)
    from guarded_admitted [where f = f, OF Some this] show ?thesis using that Some by fastforce
  qed
  show ?thesis
    using assms(1-4) g
    by (auto simp: process_redis_publish_def f_def [symmetric] Let_def enqueue_local_broadcast_def
        snapshot_room_clients_def bump_def try_send_def split: list.split)
qed

theorem redis_failure_falls_back_witness:
  "length (chan_buf (broadcast_jobs (process_redis_publish demo_ports 0 0
     \<lparr>rj_room = ''r'', rj_payload = ''x''\<rparr> (mgr demo_joined)))) = 1"
proof -
  have f: "redis_breaker (mgr demo_joined) = Some (new_circuit_breaker default_cb_config)"
    "broadcast_jobs (mgr demo_joined) = make_chan 1024" "redis (mgr demo_joined) = 0"
    by (simp_all add: demo_joined_def handle_register_def Let_def demo_fields set_client_def)
  have "gm_get [] (rooms (mgr demo_joined)) (rj_room \<lparr>rj_room = ''r'', rj_payload = ''x''\<rparr>) = [7]"
    by (simp add: demo_joined_rooms gm_get_def)
  from redis_failure_falls_back [OF f(1) this, of 0 demo_ports 0] show ?thesis
    by (auto simp: f make_chan_def publish_def publish_to_room_def demo_ports_def demo_redis_def Let_def)
qed

end
