(* ===== verification/Http.thy ===== *)
theory Http
  imports Go_Strings
begin

text \<open>
  What the program uses of Go's \<open>net/http\<close> and \<open>net\<close>: the parts of a request that the handlers
  read, the response they write, and \<open>net.SplitHostPort\<close>.
\<close>

section \<open>Requests and responses\<close>

record http_request =
  rq_method :: string
  rq_path :: string
  rq_remote_addr :: string
  rq_header :: "string \<Rightarrow> string"
    \<comment> \<open>\<open>Header.Get\<close>: empty when the header is missing\<close>
  rq_cookies :: "(string \<times> string) list"
  rq_query :: "string \<Rightarrow> string"
    \<comment> \<open>\<open>URL.Query().Get\<close>\<close>
  rq_body :: string

record cookie =
  ck_name :: string
  ck_value :: string
  ck_path :: string
  ck_max_age :: int
  ck_http_only :: bool
  ck_secure :: bool
  ck_same_site_lax :: bool

record http_response =
  rs_status :: int
  rs_headers :: "(string \<times> string) list"
  rs_cookies :: "cookie list"
  rs_body :: string

definition http_error :: "string \<Rightarrow> int \<Rightarrow> http_response" where
  "http_error message status =
     \<lparr>rs_status = status, rs_headers = [], rs_cookies = [], rs_body = message @ [CHR 0x0A]\<rparr>"

definition request_cookie :: "http_request \<Rightarrow> string \<Rightarrow> string option" where
  \<comment> \<open>\<open>r.Cookie(name)\<close>: the first cookie of that name\<close>
  "request_cookie r name = map_of (rq_cookies r) name"

section \<open>Host and port\<close>

fun index_of :: "char \<Rightarrow> string \<Rightarrow> nat option" where
  "index_of c [] = None"
| "index_of c (x # xs) = (if x = c then Some 0 else map_option Suc (index_of c xs))"

definition last_index_of :: "char \<Rightarrow> string \<Rightarrow> nat option" where
  "last_index_of c s = map_option (\<lambda>i. length s - Suc i) (index_of c (rev s))"

definition split_host_port :: "string \<Rightarrow> (string \<times> string) option" where
  \<comment> \<open>\<open>None\<close>: an error\<close>
  "split_host_port s =
     (case last_index_of CHR '':'' s of
        None \<Rightarrow> None
      | Some i \<Rightarrow>
          (if s \<noteq> [] \<and> hd s = CHR ''['' then
             (case index_of CHR '']'' s of
                None \<Rightarrow> None
              | Some e \<Rightarrow>
                  if e + 1 \<noteq> i then None
                  else if CHR ''['' \<in> set (drop 1 s) \<or> CHR '']'' \<in> set (drop (e + 1) s) then None
                  else Some (take (e - 1) (drop 1 s), drop (i + 1) s))
           else if CHR '':'' \<in> set (take i s) then None
           else if CHR ''['' \<in> set s \<or> CHR '']'' \<in> set s then None
           else Some (take i s, drop (i + 1) s)))"

lemma index_of_None: "index_of c s = None \<longleftrightarrow> c \<notin> set s"
  by (induction s) auto

lemma index_of_append: "c \<notin> set xs \<Longrightarrow> index_of c (xs @ c # ys) = Some (length xs)"
  by (induction xs) auto

lemma last_index_of_append: "c \<notin> set ys \<Longrightarrow> last_index_of c (xs @ c # ys) = Some (length xs)"
  using index_of_append [of c "rev ys" "rev xs"] by (simp add: last_index_of_def)

lemma split_host_port_plain:
  assumes "set host \<inter> set '':[]'' = {}" and "set port \<inter> set '':[]'' = {}"
  shows "split_host_port (host @ '':'' @ port) = Some (host, port)"
proof -
  have "last_index_of CHR '':'' (host @ CHR '':'' # port) = Some (length host)"
    using assms by (intro last_index_of_append) auto
  moreover have "hd (host @ CHR '':'' # port) \<noteq> CHR ''[''"
    using assms by (cases host) auto
  ultimately show ?thesis
    using assms by (auto simp: split_host_port_def)
qed

end
