(* ===== verification/Repo.thy ===== *)
theory Repo
  imports Model
begin

text \<open>
  The repositories, \<open>v10/internal/repo\<close>, and the user row of \<open>v10/internal/model/user.go\<close>.
  GORM and MySQL are outside the repository: a query is a function of the database \<open>'d\<close>, given
  as a parameter, and the model has what the code passes to it and does with its result.
\<close>

record user =
  uid :: string
  uname :: string
  password_hash :: string
  role :: string
  status :: string
  created_at :: time
  updated_at :: time

definition user_status_active :: string where "user_status_active = ''active''"
definition user_status_disabled :: string where "user_status_disabled = ''disabled''"

definition create_idempotent ::
  "(danmaku list \<Rightarrow> nat \<Rightarrow> 'd \<Rightarrow> 'd \<times> int \<times> 'x option) \<Rightarrow> danmaku list \<Rightarrow> 'd \<Rightarrow> 'd \<times> int \<times> 'x option" where
  \<comment> \<open>\<open>ins\<close>: \<open>CreateInBatches\<close> with ON CONFLICT (message_id) DO NOTHING; it returns the
    number of rows affected and the error, if any\<close>
  "create_idempotent ins messages db =
     (if messages = [] then (db, 0, None) else ins messages (length messages) db)"

definition list_recent_by_room ::
  "(string \<Rightarrow> int \<Rightarrow> 'd \<Rightarrow> danmaku list \<times> 'x option) \<Rightarrow> string \<Rightarrow> int \<Rightarrow> 'd \<Rightarrow> danmaku list \<times> 'x option" where
  \<comment> \<open>\<open>recent\<close>: the query for a room, newest first, with its LIMIT\<close>
  "list_recent_by_room recent room limit db =
     (let limit = (if limit \<le> 0 \<or> limit > 200 then 50 else limit) in recent room limit db)"

definition find_by_username ::
  "(string \<Rightarrow> string \<Rightarrow> 'd \<Rightarrow> user + 'x) \<Rightarrow> string \<Rightarrow> 'd \<Rightarrow> user + 'x" where
  \<comment> \<open>\<open>first column value\<close>: the first row whose column has the value\<close>
  "find_by_username first name db = first ''username'' name db"

definition find_by_id ::
  "(string \<Rightarrow> string \<Rightarrow> 'd \<Rightarrow> user + 'x) \<Rightarrow> string \<Rightarrow> 'd \<Rightarrow> user + 'x" where
  "find_by_id first i db = first ''id'' i db"

definition user_create :: "(user \<Rightarrow> 'd \<Rightarrow> 'd \<times> 'x option) \<Rightarrow> user \<Rightarrow> 'd \<Rightarrow> 'd \<times> 'x option" where
  "user_create ins u db = ins u db"

definition count_by_room :: "(string \<Rightarrow> 'd \<Rightarrow> int \<times> 'x option) \<Rightarrow> string \<Rightarrow> 'd \<Rightarrow> int \<times> 'x option" where
  \<comment> \<open>\<open>rows_of\<close>: COUNT of the rows whose \<open>room_id\<close> is the room\<close>
  "count_by_room rows_of room db = rows_of room db"

text \<open>
  What a batch repository promises its client: an insert that reports no error leaves every
  message of the batch stored under its id, and no insert removes a stored message.
\<close>

locale batch_repository =
  fixes create :: "danmaku list \<Rightarrow> 'd \<Rightarrow> 'd \<times> int \<times> 'x option"
    and stored :: "'d \<Rightarrow> string set"
  assumes create_keeps: "stored db \<subseteq> stored (fst (create ms db))"
    and create_stores: "snd (snd (create ms db)) = None \<Longrightarrow> message_id ` set ms \<subseteq> stored (fst (create ms db))"

text \<open>
  What the code relies on of GORM and MySQL: an INSERT that reports no error leaves a row for
  every message id of the batch, and it never deletes a row.
\<close>

locale insert_statement =
  fixes ins :: "danmaku list \<Rightarrow> nat \<Rightarrow> 'd \<Rightarrow> 'd \<times> int \<times> 'x option"
    and rows :: "'d \<Rightarrow> string set"
  assumes insert_keeps: "rows db \<subseteq> rows (fst (ins ms n db))"
    and insert_rows: "snd (snd (ins ms n db)) = None \<Longrightarrow> message_id ` set ms \<subseteq> rows (fst (ins ms n db))"

sublocale insert_statement \<subseteq> repository: batch_repository "create_idempotent ins" rows
  by unfold_locales (use insert_keeps insert_rows in \<open>auto simp: create_idempotent_def split: if_splits\<close>)

context insert_statement
begin

lemma create_idempotent_repository: "batch_repository (create_idempotent ins) rows"
  by (rule repository.batch_repository_axioms)

end

end
