(* ===== verification/Auth.thy ===== *)
theory Auth
  imports Http Repo
begin

text \<open>
  Authentication, \<open>v10/internal/auth/service.go\<close>: login against a user store, signed tokens, and
  the token a request carries. The packages for bcrypt and JWT are outside the repository;
  \<open>auth_ports\<close> has the functions of them that the service calls, with the JSON text of the
  login messages.
\<close>

section \<open>Configuration and state\<close>

record auth_config =
  ac_secret :: string
  ac_issuer :: string
  ac_access_ttl :: duration
  ac_cookie_name :: string
  ac_secure_cookie :: bool

record claims =
  cm_user_id :: string
  cm_username :: string
  cm_role :: string
  cm_issuer :: string
  cm_subject :: string
  cm_issued_at :: time
  cm_not_before :: time
  cm_expires_at :: time

record service =
  sv_secret :: string
  sv_issuer :: string
  sv_access_ttl :: duration
  sv_cookie_name :: string
  sv_secure_cookie :: bool

record login_request =
  lr_username :: string
  lr_password :: string

record user_info =
  ui_id :: string
  ui_username :: string
  ui_role :: string

record login_response =
  lo_access_token :: string
  lo_token_type :: string
  lo_expires_at :: time
  lo_user :: user_info

datatype 'x auth_error =
    Users_required
  | Secret_too_short
  | Invalid_credentials
  | Invalid_token
  | Missing_token
  | User_disabled
  | Sign_failed 'x

record 'x auth_ports =
  ap_users :: "string \<Rightarrow> 'x + user option"
    \<comment> \<open>\<open>UserStore.FindByUsername\<close>\<close>
  ap_compare :: "string \<Rightarrow> string \<Rightarrow> bool"
    \<comment> \<open>\<open>bcrypt.CompareHashAndPassword\<close> gives no error\<close>
  ap_numeric_date :: "time \<Rightarrow> time"
    \<comment> \<open>\<open>jwt.NewNumericDate\<close>\<close>
  ap_sign :: "string \<Rightarrow> claims \<Rightarrow> string \<Rightarrow> 'x + string"
    \<comment> \<open>signing method, claims and key\<close>
  ap_parse :: "string \<Rightarrow> (string \<Rightarrow> string option) \<Rightarrow> time \<Rightarrow> (claims \<times> bool) option"
    \<comment> \<open>\<open>jwt.ParseWithClaims\<close> with the function from method to key: claims and \<open>Valid\<close>\<close>
  ap_dec_login :: "nat \<Rightarrow> string \<Rightarrow> login_request option"
    \<comment> \<open>\<open>Decode\<close> of a body that is read up to a limit\<close>
  ap_enc_login :: "login_response \<Rightarrow> string"

definition new_service :: "bool \<Rightarrow> auth_config \<Rightarrow> 'x auth_error + service" where
  \<comment> \<open>\<open>users\<close>: there is a user store\<close>
  "new_service users config =
     (if \<not> users then Inl Users_required
      else if length (ac_secret config) < 32 then Inl Secret_too_short
      else Inr
        \<lparr>sv_secret = ac_secret config,
         sv_issuer = (if trim_space (ac_issuer config) = [] then ''v10'' else ac_issuer config),
         sv_access_ttl = (if ac_access_ttl config \<le> 0 then 15 * minute else ac_access_ttl config),
         sv_cookie_name =
           (if ac_cookie_name config = [] then ''v10_access_token'' else ac_cookie_name config),
         sv_secure_cookie = ac_secure_cookie config\<rparr>)"

section \<open>Login and tokens\<close>

definition login ::
  "'x auth_ports \<Rightarrow> service \<Rightarrow> time \<Rightarrow> string \<Rightarrow> string \<Rightarrow> 'x auth_error + string \<times> claims" where
  "login ap s now login_name password =
     (case ap_users ap (trim_space login_name) of
        Inr (Some u) \<Rightarrow>
          if status u \<noteq> [] \<and> status u \<noteq> user_status_active then Inl User_disabled
          else if \<not> ap_compare ap (password_hash u) password then Inl Invalid_credentials
          else
            (let c = \<lparr>cm_user_id = uid u, cm_username = uname u, cm_role = role u,
                      cm_issuer = sv_issuer s, cm_subject = uid u,
                      cm_issued_at = ap_numeric_date ap now, cm_not_before = ap_numeric_date ap now,
                      cm_expires_at = ap_numeric_date ap (now + sv_access_ttl s)\<rparr>
             in (case ap_sign ap ''HS256'' c (sv_secret s) of
                   Inl x \<Rightarrow> Inl (Sign_failed x)
                 | Inr token \<Rightarrow> Inr (token, c)))
      | _ \<Rightarrow> Inl Invalid_credentials)"

definition key_for :: "service \<Rightarrow> string \<Rightarrow> string option" where
  "key_for s signing_method = (if signing_method \<noteq> ''HS256'' then None else Some (sv_secret s))"

definition parse_token :: "'x auth_ports \<Rightarrow> service \<Rightarrow> time \<Rightarrow> string \<Rightarrow> 'x auth_error + claims" where
  "parse_token ap s now raw =
     (if trim_space raw = [] then Inl Missing_token
      else
        (case ap_parse ap raw (key_for s) now of
           None \<Rightarrow> Inl Invalid_token
         | Some (c, valid) \<Rightarrow>
             if \<not> valid \<or> cm_issuer c \<noteq> sv_issuer s \<or> cm_user_id c = [] then Inl Invalid_token
             else Inr c))"

definition equal_fold_ascii :: "string \<Rightarrow> string \<Rightarrow> bool" where
  \<comment> \<open>\<open>strings.EqualFold\<close> against a word whose letters fold only to ASCII letters\<close>
  "equal_fold_ascii s t \<longleftrightarrow> map ascii_lower s = map ascii_lower t"

definition bearer_token :: "string \<Rightarrow> string" where
  "bearer_token value =
     (case Go_Strings.fields value of
        [scheme, token] \<Rightarrow> if equal_fold_ascii scheme ''bearer'' then token else []
      | _ \<Rightarrow> [])"

definition claims_from_request ::
  "'x auth_ports \<Rightarrow> service \<Rightarrow> time \<Rightarrow> http_request \<Rightarrow> 'x auth_error + claims" where
  "claims_from_request ap s now r =
     (let header = bearer_token (rq_header r ''Authorization'')
      in if header \<noteq> [] then parse_token ap s now header
         else
           (case request_cookie r (sv_cookie_name s) of
              Some value \<Rightarrow>
                if value \<noteq> [] then parse_token ap s now value
                else (let token = trim_space (rq_query r ''token'')
                      in if token \<noteq> [] then parse_token ap s now token else Inl Missing_token)
            | None \<Rightarrow>
                (let token = trim_space (rq_query r ''token'')
                 in if token \<noteq> [] then parse_token ap s now token else Inl Missing_token)))"

section \<open>Handlers\<close>

definition duration_whole_seconds :: "duration \<Rightarrow> int" where
  \<comment> \<open>\<open>int(d.Seconds())\<close> for a duration that is not negative\<close>
  "duration_whole_seconds d = d div second"

definition access_cookie :: "service \<Rightarrow> string \<Rightarrow> int \<Rightarrow> cookie" where
  "access_cookie s value max_age =
     \<lparr>ck_name = sv_cookie_name s, ck_value = value, ck_path = ''/'', ck_max_age = max_age,
      ck_http_only = True, ck_secure = sv_secure_cookie s, ck_same_site_lax = True\<rparr>"

definition method_not_allowed :: "string \<Rightarrow> http_response" where
  "method_not_allowed allow =
     (http_error ''method not allowed'' 405)\<lparr>rs_headers := [(''Allow'', allow)]\<rparr>"

definition login_handler :: "'x auth_ports \<Rightarrow> service \<Rightarrow> time \<Rightarrow> http_request \<Rightarrow> http_response" where
  "login_handler ap s now r =
     (if rq_method r \<noteq> ''POST'' then method_not_allowed ''POST''
      else
        (case ap_dec_login ap (4 * 1024) (rq_body r) of
           None \<Rightarrow> http_error ''invalid login request'' 400
         | Some input \<Rightarrow>
             (case login ap s now (lr_username input) (lr_password input) of
                Inl e \<Rightarrow> http_error ''invalid username or password'' 401
              | Inr (token, c) \<Rightarrow>
                  \<lparr>rs_status = 200, rs_headers = [(''Content-Type'', ''application/json'')],
                   rs_cookies = [access_cookie s token (duration_whole_seconds (sv_access_ttl s))],
                   rs_body = ap_enc_login ap
                     \<lparr>lo_access_token = token, lo_token_type = ''Bearer'',
                      lo_expires_at = cm_expires_at c,
                      lo_user = \<lparr>ui_id = cm_user_id c, ui_username = cm_username c,
                                 ui_role = cm_role c\<rparr>\<rparr>\<rparr>)))"

definition logout_handler :: "service \<Rightarrow> http_request \<Rightarrow> http_response" where
  "logout_handler s r =
     (if rq_method r \<noteq> ''POST'' then method_not_allowed ''POST''
      else \<lparr>rs_status = 204, rs_headers = [], rs_cookies = [access_cookie s [] (- 1)], rs_body = []\<rparr>)"

definition require_claims ::
  "'x auth_ports \<Rightarrow> service \<Rightarrow> time \<Rightarrow> (claims \<Rightarrow> http_request \<Rightarrow> http_response) \<Rightarrow> http_request \<Rightarrow> http_response" where
  \<comment> \<open>\<open>Require\<close>: the next handler finds the claims in its context\<close>
  "require_claims ap s now handle r =
     (case claims_from_request ap s now r of
        Inl e \<Rightarrow> http_error ''unauthorized'' 401
      | Inr c \<Rightarrow> handle c r)"

section \<open>The token library\<close>

text \<open>What the service relies on of \<open>golang-jwt\<close>: dates are cut to whole seconds; a signed token is
  made of printable characters; a parser whose key function has no key for the token's method
  refuses it, and one with the signing key gives the claims back between \<open>nbf\<close> and \<open>exp\<close>.\<close>

definition token_text :: "string \<Rightarrow> bool" where
  "token_text t \<longleftrightarrow> t \<noteq> [] \<and> (\<forall>c \<in> set t. 33 \<le> byte c \<and> byte c < 127)"

definition claims_plain :: "claims \<Rightarrow> bool" where
  \<comment> \<open>claims that their JSON text holds exactly\<close>
  "claims_plain c \<longleftrightarrow>
     list_all valid_string [cm_user_id c, cm_username c, cm_role c, cm_issuer c, cm_subject c] \<and>
     list_all (\<lambda>t. t mod second = 0 \<and> 0 \<le> t \<and> t < 10000 * 366 * 86400 * second)
       [cm_issued_at c, cm_not_before c, cm_expires_at c]"

definition jwt_library :: "'x auth_ports \<Rightarrow> bool" where
  "jwt_library ap \<longleftrightarrow>
     (\<forall>t. ap_numeric_date ap t = time_truncate t second) \<and>
     (\<forall>m c k t. ap_sign ap m c k = Inr t \<longrightarrow> token_text t \<and>
        (\<forall>kf now.
           (kf m = None \<longrightarrow> ap_parse ap t kf now = None) \<and>
           (kf m = Some k \<and> claims_plain c \<longrightarrow>
              ap_parse ap t kf now =
                (if cm_not_before c \<le> now \<and> now < cm_expires_at c then Some (c, True) else None))))"

definition carries :: "service \<Rightarrow> string \<Rightarrow> http_request \<Rightarrow> bool" where
  \<comment> \<open>the request has the token in the first place that is looked at and not empty\<close>
  "carries s t r \<longleftrightarrow>
     rq_header r ''Authorization'' = ''Bearer '' @ t \<or>
     bearer_token (rq_header r ''Authorization'') = [] \<and>
       (request_cookie r (sv_cookie_name s) = Some t \<or>
        request_cookie r (sv_cookie_name s) \<in> {None, Some []} \<and> rq_query r ''token'' = t)"

lemma token_text_ascii: "token_text t \<Longrightarrow> ascii t"
  by (auto simp: token_text_def ascii_def)

lemma token_text_no_space: "token_text t \<Longrightarrow> c \<in> set t \<Longrightarrow> \<not> is_space (byte c)"
  by (auto simp: token_text_def is_space_def dest!: bspec)

lemma dropWhile_none: "(\<And>x. x \<in> set xs \<Longrightarrow> \<not> P x) \<Longrightarrow> dropWhile P xs = xs"
  by (cases xs) auto

lemma token_text_trim: "token_text t \<Longrightarrow> trim_space t = t"
  using token_text_no_space [of t] dropWhile_none [of t "is_space \<circ> byte"]
    dropWhile_none [of "rev t" "is_space \<circ> byte"]
  by (simp add: trim_space_ascii token_text_ascii)

lemma split_spaces_token:
  "(\<forall>c \<in> set t. byte c < 128 \<and> \<not> is_space (byte c)) \<Longrightarrow> t @ cur \<noteq> [] \<Longrightarrow> split_spaces (runes t) cur = [cur @ t]"
  by (induction t arbitrary: cur) (auto simp: runes_ascii)

lemma bearer_folds: "map ascii_lower ''Bearer'' = map ascii_lower ''bearer''"
  by code_simp

lemma bearer_token_of: "token_text t \<Longrightarrow> bearer_token (''Bearer '' @ t) = t"
  using token_text_no_space [of t] split_spaces_token [of t "[]"] token_text_ascii [of t]
    bearer_folds
  by (simp add: bearer_token_def Go_Strings.fields_def runes_ascii byte_def is_space_def equal_fold_ascii_def
      token_text_def ascii_def)

lemma carries_decides:
  assumes "token_text t" "carries s t r"
  shows "claims_from_request ap s now r = parse_token ap s now t"
proof -
  have "t \<noteq> []" using assms(1) by (simp add: token_text_def)
  then show ?thesis
    using assms bearer_token_of [OF assms(1)] token_text_trim [OF assms(1)]
    by (auto simp: carries_def claims_from_request_def Let_def)
qed

lemma parse_signed:
  assumes "jwt_library ap" "ap_sign ap ''HS256'' c (sv_secret s) = Inr t" "claims_plain c"
  shows "parse_token ap s now t =
    (if cm_not_before c \<le> now \<and> now < cm_expires_at c \<and> cm_issuer c = sv_issuer s \<and> cm_user_id c \<noteq> []
     then Inr c else Inl Invalid_token)"
proof -
  have t: "token_text t" and p: "ap_parse ap t (key_for s) now =
      (if cm_not_before c \<le> now \<and> now < cm_expires_at c then Some (c, True) else None)"
    using assms by (auto simp: jwt_library_def key_for_def)
  show ?thesis using p t token_text_trim [OF t] by (simp add: parse_token_def token_text_def)
qed

lemma login_result:
  "login ap s now n pw = Inr (t, c) \<longleftrightarrow>
     (\<exists>u. ap_users ap (trim_space n) = Inr (Some u) \<and> (status u = [] \<or> status u = user_status_active) \<and>
          ap_compare ap (password_hash u) pw \<and>
          c = \<lparr>cm_user_id = uid u, cm_username = uname u, cm_role = role u, cm_issuer = sv_issuer s,
               cm_subject = uid u, cm_issued_at = ap_numeric_date ap now,
               cm_not_before = ap_numeric_date ap now,
               cm_expires_at = ap_numeric_date ap (now + sv_access_ttl s)\<rparr> \<and>
          ap_sign ap ''HS256'' c (sv_secret s) = Inr t)"
  by (auto simp: login_def Let_def split: sum.splits option.splits if_splits)

definition login_succeeds :: "'x auth_ports \<Rightarrow> service \<Rightarrow> time \<Rightarrow> login_request \<Rightarrow> bool" where
  "login_succeeds ap s now i \<longleftrightarrow>
     (case ap_users ap (trim_space (lr_username i)) of
        Inr (Some u) \<Rightarrow>
          status u \<in> {[], user_status_active} \<and> ap_compare ap (password_hash u) (lr_password i) \<and>
          (case ap_sign ap ''HS256''
                  \<lparr>cm_user_id = uid u, cm_username = uname u, cm_role = role u, cm_issuer = sv_issuer s,
                   cm_subject = uid u, cm_issued_at = ap_numeric_date ap now,
                   cm_not_before = ap_numeric_date ap now,
                   cm_expires_at = ap_numeric_date ap (now + sv_access_ttl s)\<rparr> (sv_secret s) of
             Inr t \<Rightarrow> True | Inl x \<Rightarrow> False)
      | _ \<Rightarrow> False)"

section \<open>A small service\<close>

definition demo_user :: user where
  "demo_user = \<lparr>uid = ''u1'', uname = ''ann'', password_hash = ''h'', role = ''user'', status = ''active'',
     created_at = 0, updated_at = 0\<rparr>"

definition demo_service :: service where
  "demo_service = \<lparr>sv_secret = ''0123456789abcdef0123456789abcdef'', sv_issuer = ''v10'',
     sv_access_ttl = 15 * minute, sv_cookie_name = ''v10_access_token'', sv_secure_cookie = True\<rparr>"

definition demo_claims :: "string \<Rightarrow> claims" where
  "demo_claims issuer = \<lparr>cm_user_id = ''u1'', cm_username = ''ann'', cm_role = ''user'', cm_issuer = issuer,
     cm_subject = ''u1'', cm_issued_at = 60 * second, cm_not_before = 60 * second,
     cm_expires_at = 960 * second\<rparr>"

definition demo_auth :: "unit auth_ports" where
  \<comment> \<open>a library that signs the two claims of the witnesses with one key\<close>
  "demo_auth =
     (let c = demo_claims ''v10''; f = demo_claims ''x''; k = sv_secret demo_service;
          check = (\<lambda>c kf now. if kf ''HS256'' = Some k \<and> cm_not_before c \<le> now \<and> now < cm_expires_at c
                              then Some (c, True) else None)
      in \<lparr>ap_users = (\<lambda>n. Inr (if n = ''ann'' then Some demo_user else None)),
          ap_compare = (\<lambda>h p. h = ''h'' \<and> p = ''pw''),
          ap_numeric_date = (\<lambda>t. time_truncate t second),
          ap_sign = (\<lambda>m d k'. if m = ''HS256'' \<and> k' = k \<and> d = c then Inr ''t.own''
                              else if m = ''HS256'' \<and> k' = k \<and> d = f then Inr ''t.foreign'' else Inl ()),
          ap_parse = (\<lambda>t kf now. if t = ''t.own'' then check c kf now
                                 else if t = ''t.foreign'' then check f kf now else None),
          ap_dec_login = (\<lambda>limit body. None), ap_enc_login = (\<lambda>l. [])\<rparr>)"

definition demo_token_request :: "string \<Rightarrow> http_request" where
  "demo_token_request t = \<lparr>rq_method = ''GET'', rq_path = ''/'', rq_remote_addr = ''10.0.0.7:999'',
     rq_header = (\<lambda>k. if k = ''Authorization'' then ''Bearer '' @ t else []), rq_cookies = [],
     rq_query = (\<lambda>_. []), rq_body = []\<rparr>"

lemma demo_auth_library: "jwt_library demo_auth"
  by (auto simp: jwt_library_def demo_auth_def Let_def demo_claims_def token_text_def byte_def split: if_splits)

lemma demo_login: "login demo_auth demo_service (60 * second) '' ann'' ''pw'' = Inr (''t.own'', demo_claims ''v10'')"
  by (simp add: login_def demo_auth_def demo_user_def demo_service_def demo_claims_def Let_def
      trim_space_ascii ascii_def byte_def is_space_def user_status_active_def time_truncate_def)

lemma demo_claims_plain: "ascii issuer \<Longrightarrow> claims_plain (demo_claims issuer)"
  by (simp add: claims_plain_def demo_claims_def valid_string_ascii ascii_def byte_def)

lemma demo_carries: "carries demo_service t (demo_token_request t)"
  by (simp add: carries_def demo_token_request_def)

section \<open>Properties\<close>

text \<open>C39: What a login hands out comes back: the token of a successful login, carried by the
  header, the cookie or the query of a request, gives exactly the claims of that login while it is
  valid and \<open>Invalid_token\<close> before and after; it is valid from the second of the login for the
  configured time.\<close>

theorem login_token_round_trip:
  assumes "jwt_library ap" "login ap s now n pw = Inr (t, c)" "claims_plain c" "cm_user_id c \<noteq> []"
    and "carries s t r"
  shows "claims_from_request ap s later r =
      (if cm_not_before c \<le> later \<and> later < cm_expires_at c then Inr c else Inl Invalid_token) \<and>
    now - second < cm_not_before c \<and> cm_not_before c \<le> now \<and>
      now + sv_access_ttl s - second < cm_expires_at c \<and> cm_expires_at c \<le> now + sv_access_ttl s"
proof -
  obtain u where u: "ap_sign ap ''HS256'' c (sv_secret s) = Inr t" "cm_issuer c = sv_issuer s"
    "cm_not_before c = ap_numeric_date ap now" "cm_expires_at c = ap_numeric_date ap (now + sv_access_ttl s)"
    using assms(2) by (auto simp: login_result)
  have t: "token_text t" using assms(1) u(1) by (auto simp: jwt_library_def)
  have "claims_from_request ap s later r =
      (if cm_not_before c \<le> later \<and> later < cm_expires_at c then Inr c else Inl Invalid_token)"
    using carries_decides [OF t assms(5), of ap later] parse_signed [OF assms(1) u(1) assms(3), of later] u(2) assms(4)
    by simp
  moreover have "ap_numeric_date ap x = time_truncate x second" for x using assms(1) by (simp add: jwt_library_def)
  ultimately show ?thesis
    using u(3,4) time_truncate_bounds [of second now] time_truncate_bounds [of second "now + sv_access_ttl s"]
    by simp
qed

theorem login_token_round_trip_witness:
  "claims_from_request demo_auth demo_service (100 * second) (demo_token_request ''t.own'') =
     Inr (demo_claims ''v10'') \<and>
   claims_from_request demo_auth demo_service (960 * second) (demo_token_request ''t.own'') = Inl Invalid_token"
  using login_token_round_trip [OF demo_auth_library demo_login demo_claims_plain _ demo_carries, of "100 * second"]
    login_token_round_trip [OF demo_auth_library demo_login demo_claims_plain _ demo_carries, of "960 * second"]
  by (simp add: demo_claims_def ascii_def byte_def)

text \<open>A token that is not this service's own is refused: signed with another method, of
  another issuer, without a user id, or out of its time, it gives \<open>Invalid_token\<close>, and a handler
  behind \<open>Require\<close> answers 401 and is not run.\<close>

theorem foreign_tokens_rejected:
  assumes "jwt_library ap" "ap_sign ap m c k = Inr t" "carries s t r"
    and "m \<noteq> ''HS256'' \<or> k = sv_secret s \<and> claims_plain c \<and>
      (cm_issuer c \<noteq> sv_issuer s \<or> cm_user_id c = [] \<or> later < cm_not_before c \<or> cm_expires_at c \<le> later)"
  shows "claims_from_request ap s later r = Inl Invalid_token \<and>
    require_claims ap s later handle r = http_error ''unauthorized'' 401"
proof -
  have t: "token_text t" using assms(1,2) by (auto simp: jwt_library_def)
  have "parse_token ap s later t = Inl Invalid_token"
  proof (cases "m = ''HS256''")
    case True
    then show ?thesis using assms parse_signed [OF assms(1), of c s t later] by auto
  next
    case False
    then have "key_for s m = None" by (simp add: key_for_def)
    then have "ap_parse ap t (key_for s) later = None" using assms(1,2) by (auto simp: jwt_library_def)
    then show ?thesis using t token_text_trim [OF t] by (simp add: parse_token_def token_text_def)
  qed
  then show ?thesis using carries_decides [OF t assms(3), of ap later] by (simp add: require_claims_def)
qed

theorem foreign_tokens_rejected_witness:
  "require_claims demo_auth demo_service (100 * second) (\<lambda>c r. http_error ''ok'' 200)
     (demo_token_request ''t.foreign'') = http_error ''unauthorized'' 401"
  using foreign_tokens_rejected [OF demo_auth_library _ demo_carries,
      of "''HS256''" "demo_claims ''x''" "sv_secret demo_service" "''t.foreign''" "100 * second"
         "\<lambda>c r. http_error ''ok'' 200"] demo_claims_plain [of "''x''"]
  by (simp add: demo_auth_def Let_def demo_claims_def demo_service_def ascii_def byte_def)

text \<open>The login handler answers 200 exactly for a POST with a readable body whose user exists,
  is active and has this password, when the token can be signed; every other request gets one of
  three fixed answers, without a cookie, and the answer to a refused login does not tell which
  check refused it.\<close>

theorem login_answers:
  "(rs_status (login_handler ap s now r) = 200) =
     (rq_method r = ''POST'' \<and>
      (\<exists>i. ap_dec_login ap 4096 (rq_body r) = Some i \<and> login_succeeds ap s now i)) \<and>
   (rs_status (login_handler ap s now r) = 200 \<or>
    login_handler ap s now r \<in>
      {method_not_allowed ''POST'', http_error ''invalid login request'' 400,
       http_error ''invalid username or password'' 401})"
  by (auto simp: login_handler_def method_not_allowed_def http_error_def login_def login_succeeds_def Let_def
      split: option.splits sum.splits)

end
