(* ===== verification/Consumer.thy ===== *)
theory Consumer
  imports Repo Publisher "HOL-Library.Sublist"
begin

text \<open>
  The Kafka consumer that writes danmaku to MySQL, \<open>v10/internal/consumer/handler.go\<close>. One
  \<open>claim\<close> is the local state of one run of \<open>ConsumeClaim\<close>: the handler's counters, the pending
  batch, the offsets marked so far, and the environment \<open>'e\<close> (database, broker, clock, context)
  that the functions of \<open>consumer_io\<close> act on. The select statement of the loop is a list of
  events: which channel is ready next is the environment's choice, so the theorems are for
  every list. The recovery loop has no bound; it is a partial function whose value is
  \<open>None\<close> when it never returns.
\<close>

section \<open>Configuration and state\<close>

record consumer_metrics =
  cm_parsed :: u64
  cm_saved :: u64
  cm_inserted :: u64
  cm_duplicates :: u64
  cm_batches :: u64
  cm_skipped :: u64
  cm_dead_letters :: u64
  cm_dead_letter_failures :: u64
  cm_retry_attempts :: u64
  cm_failed_batches :: u64
  cm_last_batch_millis :: int
  cm_paused_partitions :: int
  cm_pause_events :: u64
  cm_recoveries :: u64
  cm_recovery_wait_millis :: u64

record handler =
  batch_size :: int
  flush_interval :: duration
  flush_timeout :: duration
  max_retries :: int
  retry_backoff :: duration
  recovery_min :: duration
  recovery_max :: duration
  parsed :: u64
  saved :: u64
  inserted :: u64
  duplicates :: u64
  batches :: u64
  skipped :: u64
  dead_letter_count :: u64
  dead_letter_failures :: u64
  retry_attempts :: u64
  failed_batches :: u64
  last_batch_millis :: int
  paused_partitions :: int
  pause_events :: u64
  recoveries :: u64
  recovery_wait_millis :: u64

record consumer_config =
  cc_batch_size :: int
  cc_flush_interval :: duration
  cc_flush_timeout :: duration
  cc_max_retries :: int
  cc_retry_backoff :: duration
  cc_recovery_min :: duration
  cc_recovery_max :: duration

definition or_default :: "int \<Rightarrow> int \<Rightarrow> int" where
  "or_default d x = (if x \<le> 0 then d else x)"

definition new_handler :: "consumer_config \<Rightarrow> handler" where
  "new_handler c =
     (let rmin = or_default second (cc_recovery_min c);
          rmax = or_default (30 * second) (cc_recovery_max c);
          rmax = (if rmax < rmin then rmin else rmax)
      in \<lparr>batch_size = or_default 500 (cc_batch_size c),
          flush_interval = or_default (200 * millisecond) (cc_flush_interval c),
          flush_timeout = or_default (5 * second) (cc_flush_timeout c),
          max_retries = or_default 3 (cc_max_retries c),
          retry_backoff = or_default (300 * millisecond) (cc_retry_backoff c),
          recovery_min = rmin, recovery_max = rmax,
          parsed = 0, saved = 0, inserted = 0, duplicates = 0, batches = 0, skipped = 0,
          dead_letter_count = 0, dead_letter_failures = 0, retry_attempts = 0,
          failed_batches = 0, last_batch_millis = 0, paused_partitions = 0,
          pause_events = 0, recoveries = 0, recovery_wait_millis = 0\<rparr>)"

definition consumer_metrics_of :: "handler \<Rightarrow> consumer_metrics" where
  "consumer_metrics_of h =
     \<lparr>cm_parsed = parsed h, cm_saved = saved h, cm_inserted = inserted h,
      cm_duplicates = duplicates h, cm_batches = batches h, cm_skipped = skipped h,
      cm_dead_letters = dead_letter_count h, cm_dead_letter_failures = dead_letter_failures h,
      cm_retry_attempts = retry_attempts h, cm_failed_batches = failed_batches h,
      cm_last_batch_millis = last_batch_millis h, cm_paused_partitions = paused_partitions h,
      cm_pause_events = pause_events h, cm_recoveries = recoveries h,
      cm_recovery_wait_millis = recovery_wait_millis h\<rparr>"

record consumer_message =
  msg_topic :: string
  msg_partition :: int
  msg_offset :: int
  msg_key :: string
  msg_value :: string

record pending_message =
  pm_danmaku :: danmaku
  pm_message :: consumer_message

datatype mark_reason = Mysql_committed | Unsupported_packet | Stored_in_dlq

record 'e claim =
  handler :: handler
  pending :: "pending_message list"
  marks :: "(consumer_message \<times> mark_reason) list"
  env :: 'e

datatype flush_ctx = Session_ctx | Timeout_ctx duration

record ('e, 'x, 'y) consumer_io =
  io_create :: "flush_ctx \<Rightarrow> danmaku list \<Rightarrow> 'e \<Rightarrow> 'e \<times> int \<times> 'x option"
    \<comment> \<open>\<open>BatchRepository.CreateIdempotent\<close>\<close>
  io_timer :: "flush_ctx \<Rightarrow> duration \<Rightarrow> 'e \<Rightarrow> 'e \<times> bool"
    \<comment> \<open>waits for a timer or the context; true when the context is done first\<close>
  io_publish :: "(dead_letter \<Rightarrow> 'e \<Rightarrow> 'e \<times> 'y option) option"
    \<comment> \<open>\<open>DeadLetterPublisher.Publish\<close>, \<open>None\<close> when the interface is nil\<close>
  io_now :: "'e \<Rightarrow> 'e \<times> time"
  io_json_error :: "string \<Rightarrow> string"
    \<comment> \<open>the text of the error that \<open>json.Unmarshal\<close> gives for a text\<close>

section \<open>Parsing\<close>

datatype parse_error =
    Bad_packet string
  | Unsupported int
  | Bad_danmaku string
  | Missing_message_id
  | Missing_room_id
  | Missing_user_id
  | Missing_send_time
  | Invalid_storage storage_error

definition storage_error_text :: "storage_error \<Rightarrow> string" where
  "storage_error_text e =
     (case e of
        Nil_danmaku \<Rightarrow> ''nil danmaku''
      | Field_too_long name limit \<Rightarrow> name @ '' exceeds '' @ show_int (int limit) @ '' characters''
      | Year_out_of_range y \<Rightarrow>
          ''send_time year '' @ show_int y @ '' is outside MySQL DATETIME range'')"

definition parse_error_text :: "(string \<Rightarrow> string) \<Rightarrow> parse_error \<Rightarrow> string" where
  "parse_error_text json_error e =
     (case e of
        Bad_packet text \<Rightarrow> ''unmarshal packet: '' @ json_error text
      | Unsupported t \<Rightarrow> ''unsupported packet: type='' @ show_int t
      | Bad_danmaku text \<Rightarrow> ''unmarshal danmaku: '' @ json_error text
      | Missing_message_id \<Rightarrow> ''missing message_id''
      | Missing_room_id \<Rightarrow> ''missing room_id''
      | Missing_user_id \<Rightarrow> ''missing user_id''
      | Missing_send_time \<Rightarrow> ''missing send_time''
      | Invalid_storage s \<Rightarrow> ''invalid danmaku storage fields: '' @ storage_error_text s)"

definition parse_message :: "codec \<Rightarrow> consumer_message \<Rightarrow> parse_error + danmaku" where
  "parse_message cd msg =
     (case dec_packet cd (msg_value msg) of
        None \<Rightarrow> Inl (Bad_packet (msg_value msg))
      | Some p \<Rightarrow>
          if packet_type p \<noteq> type_danmaku then Inl (Unsupported (packet_type p))
          else
            (case dec_danmaku cd (packet_data p) of
               None \<Rightarrow> Inl (Bad_danmaku (packet_data p))
             | Some d \<Rightarrow>
                 if trim_space (message_id d) = [] then Inl Missing_message_id
                 else if trim_space (room_id d) = [] then Inl Missing_room_id
                 else if trim_space (user_id d) = [] then Inl Missing_user_id
                 else if is_zero (instant (send_time d)) then Inl Missing_send_time
                 else
                   (case validate_danmaku_storage (Some d) of
                      Some e \<Rightarrow> Inl (Invalid_storage e)
                    | None \<Rightarrow> Inr d)))"

section \<open>Flushing a batch\<close>

datatype 'y consume_error =
    Context_error
  | Batch_failed nat
  | Recovery_interrupted
  | No_dead_letter_publisher consumer_message parse_error
  | Dead_letter_failed consumer_message 'y

fun unique_batch_from :: "string list \<Rightarrow> pending_message list \<Rightarrow> danmaku list" where
  "unique_batch_from seen [] = []"
| "unique_batch_from seen (item # items) =
     (if message_id (pm_danmaku item) \<in> set seen then unique_batch_from seen items
      else pm_danmaku item # unique_batch_from (message_id (pm_danmaku item) # seen) items)"

definition unique_batch :: "pending_message list \<Rightarrow> danmaku list" where
  "unique_batch items = unique_batch_from [] items"

definition millis :: "duration \<Rightarrow> int" where
  \<comment> \<open>\<open>d.Milliseconds()\<close>: towards zero\<close>
  "millis d = (if d < 0 then - ((- d) div 1000000) else d div 1000000)"

definition read_clock :: "('e, 'x, 'y) consumer_io \<Rightarrow> 'e claim \<Rightarrow> 'e claim \<times> time" where
  "read_clock io c = (case io_now io (env c) of (e, now) \<Rightarrow> (c\<lparr>env := e\<rparr>, now))"

definition count :: "(handler \<Rightarrow> handler) \<Rightarrow> 'e claim \<Rightarrow> 'e claim" where
  "count f c = c\<lparr>handler := f (handler c)\<rparr>"

definition mark_message :: "consumer_message \<Rightarrow> mark_reason \<Rightarrow> 'e claim \<Rightarrow> 'e claim" where
  "mark_message m r c = c\<lparr>marks := marks c @ [(m, r)]\<rparr>"

definition mark_all :: "pending_message list \<Rightarrow> 'e claim \<Rightarrow> 'e claim" where
  "mark_all items c = fold (\<lambda>item. mark_message (pm_message item) Mysql_committed) items c"

definition committed ::
  "('e, 'x, 'y) consumer_io \<Rightarrow> pending_message list \<Rightarrow> time \<Rightarrow> int \<Rightarrow> 'e claim \<Rightarrow> 'e claim" where
  \<comment> \<open>the branch of \<open>flushPending\<close> for a successful insert of \<open>n\<close> rows\<close>
  "committed io items started n c =
     (let dups = of_nat (length items) - of_int n;
          c = mark_all items c;
          c = count (\<lambda>h. h\<lparr>saved := saved h + of_nat (length items),
                          inserted := inserted h + of_int n,
                          duplicates := duplicates h + dups,
                          batches := batches h + 1\<rparr>) c;
          (c, now) = read_clock io c
      in count (\<lambda>h. h\<lparr>last_batch_millis := millis (time_sub now started)\<rparr>) c)"

definition flush_failed ::
  "('e, 'x, 'y) consumer_io \<Rightarrow> danmaku list \<Rightarrow> time \<Rightarrow> 'e claim \<Rightarrow> 'e claim \<times> 'y consume_error option" where
  "flush_failed io batch started c =
     (let c = count (\<lambda>h. h\<lparr>failed_batches := failed_batches h + 1\<rparr>) c;
          (c, now) = read_clock io c
      in (count (\<lambda>h. h\<lparr>last_batch_millis := millis (time_sub now started)\<rparr>) c,
          Some (Batch_failed (length batch))))"

function flush_attempts ::
  "('e, 'x, 'y) consumer_io \<Rightarrow> flush_ctx \<Rightarrow> pending_message list \<Rightarrow> danmaku list \<Rightarrow> time \<Rightarrow> int \<Rightarrow>
   'e claim \<Rightarrow> 'e claim \<times> 'y consume_error option" where
  "flush_attempts io ctx items batch started attempt c =
     (if attempt > max_retries (handler c) then flush_failed io batch started c
      else
        (let (e, n, err) = io_create io ctx batch (env c);
             c' = c\<lparr>env := e\<rparr>
         in if err = None \<and> 0 \<le> n \<and> n \<le> int (length batch)
            then (committed io items started n c', None)
            else if attempt = max_retries (handler c) then flush_failed io batch started c'
            else
              (let c'' = count (\<lambda>h. h\<lparr>retry_attempts := retry_attempts h + 1\<rparr>) c';
                   (e, cancelled) = io_timer io ctx (wrap64 (retry_backoff (handler c) * attempt)) (env c'')
               in if cancelled
                  then (count (\<lambda>h. h\<lparr>failed_batches := failed_batches h + 1\<rparr>) (c''\<lparr>env := e\<rparr>),
                        Some Context_error)
                  else flush_attempts io ctx items batch started (attempt + 1) (c''\<lparr>env := e\<rparr>))))"
  by pat_completeness auto
termination
  by (relation "measure (\<lambda>(io, ctx, items, batch, started, attempt, c).
        nat (max_retries (handler c) + 1 - attempt))")
    (auto simp: count_def)

declare flush_attempts.simps [simp del]

definition flush_pending ::
  "('e, 'x, 'y) consumer_io \<Rightarrow> flush_ctx \<Rightarrow> pending_message list \<Rightarrow> 'e claim \<Rightarrow>
   'e claim \<times> 'y consume_error option" where
  "flush_pending io ctx items c =
     (if items = [] then (c, None)
      else
        (let batch = unique_batch items;
             (c, started) = read_clock io c
         in flush_attempts io ctx items batch started 1 c))"

definition flush_before_claim_ends ::
  "('e, 'x, 'y) consumer_io \<Rightarrow> 'e claim \<Rightarrow> 'e claim \<times> 'y consume_error option" where
  "flush_before_claim_ends io c =
     (if pending c = [] then (c, None)
      else flush_pending io (Timeout_ctx (flush_timeout (handler c))) (pending c) c)"

section \<open>Recovery\<close>

definition grow_backoff :: "duration \<Rightarrow> duration \<Rightarrow> duration" where
  "grow_backoff current maximum =
     (if current \<ge> maximum then maximum
      else
        (let nxt = wrap64 (current * 2)
         in if nxt > maximum then maximum else nxt))"

partial_function (option) recovery_loop ::
  "('e, 'x, 'y) consumer_io \<Rightarrow> pending_message list \<Rightarrow> duration \<Rightarrow> 'e claim \<Rightarrow>
   ('e claim \<times> 'y consume_error option) option" where
  "recovery_loop io items backoff c =
     (let (e, cancelled) = io_timer io Session_ctx backoff (env c);
          c' = c\<lparr>env := e\<rparr>
      in if cancelled then Some (c', Some Recovery_interrupted)
         else
           (let (c'', err) = flush_pending io Session_ctx items c'
            in if err = None
               then Some (count (\<lambda>h. h\<lparr>recoveries := recoveries h + 1\<rparr>) c'', None)
               else recovery_loop io items (grow_backoff backoff (recovery_max (handler c''))) c''))"

declare recovery_loop.simps [code]

definition resume_partition ::
  "('e, 'x, 'y) consumer_io \<Rightarrow> time \<Rightarrow> 'e claim \<Rightarrow> 'e claim" where
  \<comment> \<open>the deferred update of \<open>flushWithRecovery\<close>\<close>
  "resume_partition io started c =
     (let (c, now) = read_clock io c
      in count (\<lambda>h. h\<lparr>paused_partitions := paused_partitions h - 1,
                      recovery_wait_millis :=
                        recovery_wait_millis h + of_int (millis (time_sub now started))\<rparr>) c)"

definition flush_with_recovery ::
  "('e, 'x, 'y) consumer_io \<Rightarrow> pending_message list \<Rightarrow> 'e claim \<Rightarrow>
   ('e claim \<times> 'y consume_error option) option" where
  "flush_with_recovery io items c =
     (let (c, err) = flush_pending io Session_ctx items c
      in if err = None then Some (c, None)
         else
           (let c = count (\<lambda>h. h\<lparr>pause_events := pause_events h + 1,
                                  paused_partitions := paused_partitions h + 1\<rparr>) c;
                (c, started) = read_clock io c
            in map_option (\<lambda>(c, err). (resume_partition io started c, err))
                 (recovery_loop io items (recovery_min (handler c)) c)))"

section \<open>The claim loop\<close>

definition publish_dead_letter ::
  "('e, 'x, 'y) consumer_io \<Rightarrow> consumer_message \<Rightarrow> parse_error \<Rightarrow> 'e claim \<Rightarrow>
   'e claim \<times> 'y consume_error option" where
  "publish_dead_letter io msg err c =
     (case io_publish io of
        None \<Rightarrow>
          (count (\<lambda>h. h\<lparr>dead_letter_failures := dead_letter_failures h + 1\<rparr>) c,
           Some (No_dead_letter_publisher msg err))
      | Some publish \<Rightarrow>
          (let (c, now) = read_clock io c;
               record =
                 \<lparr>source_topic = msg_topic msg, source_partition = msg_partition msg,
                  source_offset = msg_offset msg, original_key = msg_key msg,
                  original_value = msg_value msg,
                  dl_reason = parse_error_text (io_json_error io) err, failed_at = now\<rparr>;
               (e, failure) = publish record (env c);
               c = c\<lparr>env := e\<rparr>
           in (case failure of
                 Some y \<Rightarrow>
                   (count (\<lambda>h. h\<lparr>dead_letter_failures := dead_letter_failures h + 1\<rparr>) c,
                    Some (Dead_letter_failed msg y))
               | None \<Rightarrow>
                   (count (\<lambda>h. h\<lparr>dead_letter_count := dead_letter_count h + 1\<rparr>) c, None))))"

datatype claim_event = Message consumer_message | Channel_closed | Tick | Context_done

datatype 'y outcome = Running | Returned "'y consume_error option"

definition clear_pending :: "'e claim \<Rightarrow> 'e claim" where
  \<comment> \<open>\<open>clearPending(pending)\<close> and \<open>pending = pending[:0]\<close>\<close>
  "clear_pending c = c\<lparr>pending := []\<rparr>"

definition flush_and_clear ::
  "('e, 'x, 'y) consumer_io \<Rightarrow> 'e claim \<Rightarrow> ('e claim \<times> 'y consume_error option) option" where
  \<comment> \<open>\<open>flushWithRecovery\<close> of the pending messages, which are dropped when it succeeds\<close>
  "flush_and_clear io c =
     map_option (\<lambda>(c, err). (if err = None then clear_pending c else c, err))
       (flush_with_recovery io (pending c) c)"

definition dispose_invalid ::
  "('e, 'x, 'y) consumer_io \<Rightarrow> consumer_message \<Rightarrow> parse_error \<Rightarrow> 'e claim \<Rightarrow> 'e claim \<times> 'y outcome" where
  \<comment> \<open>the switch of \<open>ConsumeClaim\<close>: an unsupported packet is skipped, any other error goes to
    the dead-letter topic\<close>
  "dispose_invalid io msg err c =
     (case err of
        Unsupported t \<Rightarrow>
          (mark_message msg Unsupported_packet (count (\<lambda>h. h\<lparr>skipped := skipped h + 1\<rparr>) c), Running)
      | _ \<Rightarrow>
          (case publish_dead_letter io msg err c of
             (c, Some y) \<Rightarrow> (c, Returned (Some y))
           | (c, None) \<Rightarrow> (mark_message msg Stored_in_dlq c, Running)))"

definition add_pending :: "danmaku \<Rightarrow> consumer_message \<Rightarrow> 'e claim \<Rightarrow> 'e claim" where
  "add_pending d msg c =
     count (\<lambda>h. h\<lparr>parsed := parsed h + 1\<rparr>)
       (c\<lparr>pending := pending c @ [\<lparr>pm_danmaku = d, pm_message = msg\<rparr>]\<rparr>)"

definition consume_message ::
  "('e, 'x, 'y) consumer_io \<Rightarrow> codec \<Rightarrow> consumer_message \<Rightarrow> 'e claim \<Rightarrow> ('e claim \<times> 'y outcome) option" where
  "consume_message io cd msg c =
     (case parse_message cd msg of
        Inl err \<Rightarrow>
          if pending c \<noteq> []
          then
            (case flush_and_clear io c of
               None \<Rightarrow> None
             | Some (c, Some y) \<Rightarrow> Some (c, Returned (Some y))
             | Some (c, None) \<Rightarrow> Some (dispose_invalid io msg err c))
          else Some (dispose_invalid io msg err c)
      | Inr d \<Rightarrow>
          (let c = add_pending d msg c
           in if int (length (pending c)) \<ge> batch_size (handler c)
              then
                (case flush_and_clear io c of
                   None \<Rightarrow> None
                 | Some (c, Some y) \<Rightarrow> Some (c, Returned (Some y))
                 | Some (c, None) \<Rightarrow> Some (c, Running))
              else Some (c, Running)))"

fun consume_step ::
  "('e, 'x, 'y) consumer_io \<Rightarrow> codec \<Rightarrow> claim_event \<Rightarrow> 'e claim \<Rightarrow> ('e claim \<times> 'y outcome) option" where
  "consume_step io cd (Message msg) c = consume_message io cd msg c"
| "consume_step io cd Tick c =
     (if pending c = [] then Some (c, Running)
      else
        (case flush_and_clear io c of
           None \<Rightarrow> None
         | Some (c, Some y) \<Rightarrow> Some (c, Returned (Some y))
         | Some (c, None) \<Rightarrow> Some (c, Running)))"
| "consume_step io cd Channel_closed c =
     (case flush_before_claim_ends io c of (c, err) \<Rightarrow> Some (c, Returned err))"
| "consume_step io cd Context_done c =
     (case flush_before_claim_ends io c of (c, err) \<Rightarrow> Some (c, Returned err))"

fun consume_claim ::
  "('e, 'x, 'y) consumer_io \<Rightarrow> codec \<Rightarrow> claim_event list \<Rightarrow> 'e claim \<Rightarrow> ('e claim \<times> 'y outcome) option" where
  "consume_claim io cd [] c = Some (c, Running)"
| "consume_claim io cd (ev # evs) c =
     (case consume_step io cd ev c of
        None \<Rightarrow> None
      | Some (c, Running) \<Rightarrow> consume_claim io cd evs c
      | Some (c, Returned err) \<Rightarrow> Some (c, Returned err))"

definition new_claim :: "handler \<Rightarrow> 'e \<Rightarrow> 'e claim" where
  "new_claim h e = \<lparr>handler = h, pending = [], marks = [], env = e\<rparr>"

section \<open>Rules for the loops\<close>

text \<open>A predicate on the state before and the result of a flush holds of the retry loop and
  of the recovery loop when it holds of their exits and is inherited through their steps.\<close>

lemma flush_attempts_unfold:
  assumes "attempt \<le> max_retries (handler c)" "io_create io ctx batch (env c) = (e, n, x)"
    and "d = c\<lparr>env := e\<rparr>" "d' = count (\<lambda>h. h\<lparr>retry_attempts := retry_attempts h + 1\<rparr>) d"
    and "io_timer io ctx (wrap64 (retry_backoff (handler c) * attempt)) (env d') = (e', b)"
  shows "flush_attempts io ctx items batch started attempt c =
    (if x = None \<and> 0 \<le> n \<and> n \<le> int (length batch) then (committed io items started n d, None)
     else if attempt = max_retries (handler c) then flush_failed io batch started d
     else if b then (count (\<lambda>h. h\<lparr>failed_batches := failed_batches h + 1\<rparr>) (d'\<lparr>env := e'\<rparr>),
                     Some Context_error)
     else flush_attempts io ctx items batch started (attempt + 1) (d'\<lparr>env := e'\<rparr>))"
  by (subst flush_attempts.simps) (use assms in \<open>simp add: Let_def\<close>)

lemma flush_attempts_rule:
  assumes "\<And>c. P c (flush_failed io batch started c)"
    and "\<And>c e n. io_create io ctx batch (env c) = (e, n, None) \<Longrightarrow> 0 \<le> n \<Longrightarrow> n \<le> int (length batch) \<Longrightarrow>
      P c (committed io items started n (c\<lparr>env := e\<rparr>), None)"
    and "\<And>c e n x r. io_create io ctx batch (env c) = (e, n, x) \<Longrightarrow> P (c\<lparr>env := e\<rparr>) r \<Longrightarrow> P c r"
    and "\<And>c r. P (count (\<lambda>h. h\<lparr>retry_attempts := retry_attempts h + 1\<rparr>) c) r \<Longrightarrow> P c r"
    and "\<And>c d e b r. io_timer io ctx d (env c) = (e, b) \<Longrightarrow> P (c\<lparr>env := e\<rparr>) r \<Longrightarrow> P c r"
    and "\<And>c. P c (count (\<lambda>h. h\<lparr>failed_batches := failed_batches h + 1\<rparr>) c, Some Context_error)"
  shows "P c (flush_attempts io ctx items batch started attempt c)"
proof (induction "nat (max_retries (handler c) + 1 - attempt)" arbitrary: attempt c rule: less_induct)
  case less
  show ?case
  proof (cases "attempt > max_retries (handler c)")
    case True
    then show ?thesis using assms(1) by (simp add: flush_attempts.simps)
  next
    case False
    obtain e n x where created: "io_create io ctx batch (env c) = (e, n, x)" by (metis prod_cases3)
    define d where "d = c\<lparr>env := e\<rparr>"
    define d' where "d' = count (\<lambda>h. h\<lparr>retry_attempts := retry_attempts h + 1\<rparr>) d"
    obtain e' b where waited:
      "io_timer io ctx (wrap64 (retry_backoff (handler c) * attempt)) (env d') = (e', b)"
      by fastforce
    have "attempt \<le> max_retries (handler c)" using False by simp
    note unfolded = flush_attempts_unfold [OF this created d_def d'_def waited, of items started]
    have later: "P c r" if "P (d'\<lparr>env := e'\<rparr>) r" for r
    proof -
      have "P d' r" using assms(5) [OF waited that] .
      then have "P d r" unfolding d'_def by (rule assms(4))
      then show ?thesis unfolding d_def by (rule assms(3) [OF created])
    qed
    have "handler d' = (handler c)\<lparr>retry_attempts := retry_attempts (handler c) + 1\<rparr>"
      by (simp add: d'_def d_def count_def)
    then have "nat (max_retries (handler (d'\<lparr>env := e'\<rparr>)) + 1 - (attempt + 1))
        < nat (max_retries (handler c) + 1 - attempt)" using False by simp
    then have again: "P c (flush_attempts io ctx items batch started (attempt + 1) (d'\<lparr>env := e'\<rparr>))"
      by (intro later less)
    consider "x = None \<and> 0 \<le> n \<and> n \<le> int (length batch)"
      | "\<not> (x = None \<and> 0 \<le> n \<and> n \<le> int (length batch))" "attempt = max_retries (handler c)"
      | "\<not> (x = None \<and> 0 \<le> n \<and> n \<le> int (length batch))" "attempt \<noteq> max_retries (handler c)"
      by blast
    then show ?thesis
    proof cases
      case 1
      then show ?thesis unfolding unfolded using assms(2) [of c e n] created by (simp add: d_def)
    next
      case 2
      have "P c (flush_failed io batch started d)"
        by (rule assms(3) [OF created]) (simp add: d_def [symmetric] assms(1))
      then show ?thesis unfolding unfolded if_not_P [OF 2(1)] if_P [OF 2(2)] .
    next
      case 3
      have "flush_attempts io ctx items batch started attempt c =
          (if b then (count (\<lambda>h. h\<lparr>failed_batches := failed_batches h + 1\<rparr>) (d'\<lparr>env := e'\<rparr>),
                      Some Context_error)
           else flush_attempts io ctx items batch started (attempt + 1) (d'\<lparr>env := e'\<rparr>))"
        unfolding unfolded if_not_P [OF 3(1)] if_not_P [OF 3(2)] ..
      then show ?thesis by (cases b) (simp_all add: again later assms(6))
    qed
  qed
qed

lemma recovery_loop_rule:
  assumes "recovery_loop io items backoff c = Some r"
    and "\<And>c d e b r. io_timer io Session_ctx d (env c) = (e, b) \<Longrightarrow> P (c\<lparr>env := e\<rparr>) r \<Longrightarrow> P c r"
    and "\<And>c. P c (c, Some Recovery_interrupted)"
    and "\<And>c d z r. flush_pending io Session_ctx items c = (d, Some z) \<Longrightarrow> P d r \<Longrightarrow> P c r"
    and "\<And>c d. flush_pending io Session_ctx items c = (d, None) \<Longrightarrow>
      P c (count (\<lambda>h. h\<lparr>recoveries := recoveries h + 1\<rparr>) d, None)"
  shows "P c r"
  using assms(1)
proof (induction io\<equiv>io items\<equiv>items backoff c r
    rule: recovery_loop.raw_induct [rotated 1, consumes 1, case_names step])
  case (step loop backoff c r)
  obtain e b where waited: "io_timer io Session_ctx backoff (env c) = (e, b)" by fastforce
  obtain d y where flush: "flush_pending io Session_ctx items (c\<lparr>env := e\<rparr>) = (d, y)" by fastforce
  have "P (c\<lparr>env := e\<rparr>) r"
  proof (cases b)
    case True
    then show ?thesis using step waited assms(3) by auto
  next
    case False
    show ?thesis
    proof (cases y)
      case None
      then show ?thesis using step waited flush False assms(5) by auto
    next
      case (Some z)
      then have "P d r" using step waited flush False by auto
      then show ?thesis using assms(4) flush Some by blast
    qed
  qed
  then show ?case by (rule assms(2) [OF waited])
qed

lemma flush_with_recovery_rule:
  assumes "flush_with_recovery io items c = Some r"
    and "\<And>c d e b r. io_timer io Session_ctx d (env c) = (e, b) \<Longrightarrow> P (c\<lparr>env := e\<rparr>) r \<Longrightarrow> P c r"
    and "\<And>c. P c (c, Some Recovery_interrupted)"
    and "\<And>c d z r. flush_pending io Session_ctx items c = (d, Some z) \<Longrightarrow> P d r \<Longrightarrow> P c r"
    and "\<And>c d. flush_pending io Session_ctx items c = (d, None) \<Longrightarrow>
      P c (count (\<lambda>h. h\<lparr>recoveries := recoveries h + 1\<rparr>) d, None)"
    and "\<And>c d. flush_pending io Session_ctx items c = (d, None) \<Longrightarrow> P c (d, None)"
    and "\<And>c r. P (count (\<lambda>h. h\<lparr>pause_events := pause_events h + 1,
        paused_partitions := paused_partitions h + 1\<rparr>) c) r \<Longrightarrow> P c r"
    and "\<And>c e now r. io_now io (env c) = (e, now) \<Longrightarrow> P (c\<lparr>env := e\<rparr>) r \<Longrightarrow> P c r"
    and "\<And>c d started err. P c (d, err) \<Longrightarrow> P c (resume_partition io started d, err)"
  shows "P c r"
proof -
  obtain d y where flush: "flush_pending io Session_ctx items c = (d, y)" by fastforce
  show ?thesis
  proof (cases y)
    case None
    then show ?thesis using assms(1) flush assms(6) [of c d] by (simp add: flush_with_recovery_def)
  next
    case (Some z)
    define d' where "d' = count (\<lambda>h. h\<lparr>pause_events := pause_events h + 1,
        paused_partitions := paused_partitions h + 1\<rparr>) d"
    obtain e started where clock: "io_now io (env d') = (e, started)" by fastforce
    obtain f err where loop: "recovery_loop io items (recovery_min (handler d')) (d'\<lparr>env := e\<rparr>) = Some (f, err)"
      "r = (resume_partition io started f, err)"
      using assms(1) flush Some clock
      by (auto simp: flush_with_recovery_def read_clock_def Let_def d'_def [symmetric])
    have "P (d'\<lparr>env := e\<rparr>) (f, err)" by (rule recovery_loop_rule [OF loop(1)]; fact assms)
    then have "P (d'\<lparr>env := e\<rparr>) r" unfolding loop(2) by (rule assms(9))
    then have "P d' r" by (rule assms(8) [OF clock])
    then have "P d r" unfolding d'_def by (rule assms(7))
    then show ?thesis using assms(4) flush Some by blast
  qed
qed

section \<open>What a flush leaves\<close>

text \<open>The configuration of a handler never changes, and a flush touches only its own
  counters. \<open>flushed\<close> says what a flush of \<open>items\<close> leaves, with and without an error; it is
  what the rest of the theory knows of the retry and recovery loops.\<close>

definition configuration :: "handler \<Rightarrow> int \<times> duration \<times> int \<times> duration \<times> duration \<times> duration" where
  "configuration h =
     (batch_size h, flush_timeout h, max_retries h, retry_backoff h, recovery_min h, recovery_max h)"

definition untouched :: "handler \<Rightarrow> handler \<Rightarrow> bool" where
  "untouched h h' \<longleftrightarrow> configuration h' = configuration h \<and> parsed h' = parsed h \<and>
     skipped h' = skipped h \<and> dead_letter_count h' = dead_letter_count h"

definition flushed :: "pending_message list \<Rightarrow> 'y option \<Rightarrow> 'e claim \<Rightarrow> 'e claim \<Rightarrow> bool" where
  "flushed items err c c' \<longleftrightarrow>
     pending c' = pending c \<and> untouched (handler c) (handler c') \<and>
     (if err = None
      then marks c' = marks c @ map (\<lambda>i. (pm_message i, Mysql_committed)) items \<and>
           saved (handler c') = saved (handler c) + of_nat (length items) \<and>
           inserted (handler c') + duplicates (handler c') =
             inserted (handler c) + duplicates (handler c) + of_nat (length items)
      else marks c' = marks c \<and> saved (handler c') = saved (handler c) \<and>
           inserted (handler c') + duplicates (handler c') = inserted (handler c) + duplicates (handler c))"

definition quiet :: "'e claim \<Rightarrow> 'e claim \<Rightarrow> bool" where
  \<comment> \<open>a step that marks, saves and takes nothing\<close>
  "quiet c c' \<longleftrightarrow> flushed [] (None :: unit option) c c'"

lemmas claim_defs = count_def read_clock_def mark_message_def untouched_def configuration_def

lemma mark_all_simps [frame_simps]:
  "marks (mark_all items c) = marks c @ map (\<lambda>i. (pm_message i, Mysql_committed)) items"
  "pending (mark_all items c) = pending c" "handler (mark_all items c) = handler c"
  "env (mark_all items c) = env c"
  by (induction items arbitrary: c) (simp_all add: mark_all_def mark_message_def)

lemma read_clock_simps [frame_simps]:
  "marks (fst (read_clock io c)) = marks c" "pending (fst (read_clock io c)) = pending c"
  "handler (fst (read_clock io c)) = handler c"
  "env (fst (read_clock io c)) = fst (io_now io (env c))"
  by (simp_all add: read_clock_def split: prod.split)

lemma count_simps [frame_simps]:
  "marks (count f c) = marks c" "pending (count f c) = pending c" "env (count f c) = env c"
  "handler (count f c) = f (handler c)"
  by (simp_all add: count_def)

lemma quiet_refl: "quiet c c"
  by (simp add: quiet_def flushed_def untouched_def)

lemma quiet_env: "quiet c (c\<lparr>env := e\<rparr>)"
  by (simp add: quiet_def flushed_def untouched_def)

lemma quiet_clock: "quiet c (fst (read_clock io c))"
  by (simp add: quiet_def flushed_def untouched_def frame_simps)

lemma quiet_flushed: "quiet c c' \<Longrightarrow> flushed items err c' c'' \<Longrightarrow> flushed items err c c''"
  by (auto simp: quiet_def flushed_def untouched_def split: if_splits)

lemma flushed_quiet: "flushed items err c c' \<Longrightarrow> quiet c' c'' \<Longrightarrow> flushed items err c c''"
  by (auto simp: quiet_def flushed_def untouched_def split: if_splits)

lemma flushed_error: "flushed items (Some y) c c' \<Longrightarrow> quiet c c'"
  by (auto simp: quiet_def flushed_def untouched_def)

lemma flushed_quiet_error: "quiet c c' \<Longrightarrow> flushed items (Some y) c c'"
  by (auto simp: quiet_def flushed_def untouched_def)

lemma quiet_trans: "quiet c c' \<Longrightarrow> quiet c' c'' \<Longrightarrow> quiet c c''"
  unfolding quiet_def [of c'] by (metis quiet_def quiet_flushed)

lemma quiet_count:
  assumes "untouched (handler c) (f (handler c))" "saved (f (handler c)) = saved (handler c)"
    and "inserted (f (handler c)) + duplicates (f (handler c)) = inserted (handler c) + duplicates (handler c)"
  shows "quiet c (count f c)"
  using assms by (simp add: quiet_def flushed_def frame_simps)

lemma quiet_counters:
  "quiet c (count (\<lambda>h. h\<lparr>retry_attempts := F h\<rparr>) c)"
  "quiet c (count (\<lambda>h. h\<lparr>failed_batches := F h\<rparr>) c)"
  "quiet c (count (\<lambda>h. h\<lparr>last_batch_millis := T h\<rparr>) c)"
  "quiet c (count (\<lambda>h. h\<lparr>recoveries := F h\<rparr>) c)"
  "quiet c (count (\<lambda>h. h\<lparr>pause_events := F h, paused_partitions := T h\<rparr>) c)"
  "quiet c (count (\<lambda>h. h\<lparr>paused_partitions := T h, recovery_wait_millis := F h\<rparr>) c)"
  "quiet c (count (\<lambda>h. h\<lparr>dead_letter_failures := F h\<rparr>) c)"
  by (rule quiet_count; simp add: untouched_def configuration_def)+

lemma flush_failed_quiet:
  assumes "flush_failed io batch started c = (c', err)"
  shows "quiet c c' \<and> err = Some (Batch_failed (length batch))"
proof -
  define d where "d = count (\<lambda>h. h\<lparr>failed_batches := failed_batches h + 1\<rparr>) c"
  obtain e now where clock: "io_now io (env d) = (e, now)" by fastforce
  have "c' = count (\<lambda>h. h\<lparr>last_batch_millis := millis (time_sub now started)\<rparr>) (d\<lparr>env := e\<rparr>)"
    using assms by (simp add: flush_failed_def Let_def read_clock_def d_def [symmetric] clock)
  moreover have d: "quiet c d" unfolding d_def by (rule quiet_counters)
  ultimately have "quiet c c'" using quiet_trans [OF quiet_trans [OF d quiet_env] quiet_counters(3)] by simp
  then show ?thesis using assms by (simp add: flush_failed_def Let_def split: prod.splits)
qed

lemma duplicates_balance: "(a + n) + (b + (l - n)) = a + b + (l :: u64)"
  by simp

lemma committed_flushed: "flushed items None c (committed io items started n c)"
proof -
  define d where "d = count (\<lambda>h. h\<lparr>saved := saved h + of_nat (length items),
      inserted := inserted h + of_int n,
      duplicates := duplicates h + (of_nat (length items) - of_int n),
      batches := batches h + 1\<rparr>) (mark_all items c)"
  obtain e now where clock: "io_now io (env d) = (e, now)" by fastforce
  have d: "flushed items None c d"
    unfolding flushed_def d_def count_simps mark_all_simps
    by (simp add: untouched_def configuration_def duplicates_balance)
  have "committed io items started n c =
      count (\<lambda>h. h\<lparr>last_batch_millis := millis (time_sub now started)\<rparr>) (d\<lparr>env := e\<rparr>)"
    by (simp add: committed_def Let_def read_clock_def d_def [symmetric] clock)
  then show ?thesis using flushed_quiet [OF flushed_quiet [OF d quiet_env] quiet_counters(3)] by simp
qed

lemma quiet_steps:
  "quiet c d \<Longrightarrow> flushed items (snd r) d (fst r) \<Longrightarrow> flushed items (snd r) c (fst r)"
  "quiet c d \<Longrightarrow> flushed items (snd (d, Some y)) c (fst (d, Some y))"
  "flushed items (snd (d, err)) c (fst (d, err)) \<Longrightarrow> quiet d d' \<Longrightarrow>
    flushed items (snd (d', err)) c (fst (d', err))"
  by (auto intro: quiet_flushed flushed_quiet flushed_quiet_error)

lemma flush_attempts_flushed:
  assumes "flush_attempts io ctx items batch started attempt c = (c', err)"
  shows "flushed items err c c'"
proof -
  let ?P = "\<lambda>c r. flushed items (snd r) c (fst r)"
  have failed: "?P c (flush_failed io batch started c)" for c :: "'a claim"
  proof -
    obtain d y where d: "flush_failed io batch started c = (d, y)" by fastforce
    show ?thesis using flush_failed_quiet [OF d] d by (simp add: flushed_quiet_error)
  qed
  have "?P c (flush_attempts io ctx items batch started attempt c)"
    by (rule flush_attempts_rule [of ?P]; (rule failed)?)
      (auto simp: committed_flushed intro: quiet_steps(1) [OF quiet_env] quiet_steps(1) [OF quiet_counters(1)]
        quiet_flushed [OF quiet_env committed_flushed] flushed_quiet_error [OF quiet_counters(2)])
  then show ?thesis using assms by simp
qed

lemma flush_pending_flushed:
  assumes "flush_pending io ctx items c = (c', err)"
  shows "flushed items err c c'"
proof (cases "items = []")
  case True
  then show ?thesis using assms quiet_refl by (auto simp: flush_pending_def quiet_def flushed_def)
next
  case False
  then have "flush_attempts io ctx items (unique_batch items) (snd (read_clock io c)) 1
      (fst (read_clock io c)) = (c', err)"
    using assms by (simp add: flush_pending_def Let_def split: prod.splits)
  then show ?thesis by (rule quiet_flushed [OF quiet_clock flush_attempts_flushed])
qed

lemma resume_quiet: "quiet c (resume_partition io started c)"
proof -
  obtain e now where clock: "io_now io (env c) = (e, now)" by fastforce
  show ?thesis
    using quiet_trans [OF quiet_env quiet_counters(6)]
    by (simp add: resume_partition_def read_clock_def clock)
qed

lemma flush_with_recovery_flushed:
  assumes "flush_with_recovery io items c = Some (c', err)"
  shows "flushed items err c c'"
proof -
  let ?P = "\<lambda>c r. flushed items (snd r) c (fst r)"
  have "?P c (c', err)"
    by (rule flush_with_recovery_rule [OF assms, of ?P])
      (auto intro: quiet_steps(1) [OF quiet_env] quiet_steps(1) [OF quiet_counters(5)]
        quiet_steps(1) [OF flushed_error] flushed_quiet_error [OF quiet_refl]
        flushed_quiet [OF _ resume_quiet] flushed_quiet [OF _ quiet_counters(4)]
        dest: flush_pending_flushed)
  then show ?thesis by simp
qed

lemma flush_and_clear_flushed:
  assumes "flush_and_clear io c = Some (c', err)"
  obtains d where "flushed (pending c) err c d" "c' = (if err = None then clear_pending d else d)"
  using assms flush_with_recovery_flushed by (force simp: flush_and_clear_def)

section \<open>The invariant of a claim\<close>

definition mark_justified :: "(consumer_message \<Rightarrow> parse_error + danmaku) \<Rightarrow> consumer_message \<times> mark_reason \<Rightarrow> bool" where
  "mark_justified parse mr =
     (case (snd mr, parse (fst mr)) of
        (Mysql_committed, Inr d) \<Rightarrow> True
      | (Unsupported_packet, Inl (Unsupported t)) \<Rightarrow> True
      | (Stored_in_dlq, Inl (Unsupported t)) \<Rightarrow> False
      | (Stored_in_dlq, Inl e) \<Rightarrow> True
      | _ \<Rightarrow> False)"

definition books_balance :: "'e claim \<Rightarrow> bool" where
  \<comment> \<open>the counters of the handler agree with the marks\<close>
  "books_balance c \<longleftrightarrow>
     (let h = handler c
      in of_nat (length (marks c)) = saved h + skipped h + dead_letter_count h \<and>
         parsed h = saved h + of_nat (length (pending c)) \<and>
         saved h = inserted h + duplicates h)"

definition claim_inv :: "(consumer_message \<Rightarrow> parse_error + danmaku) \<Rightarrow> consumer_message list \<Rightarrow> 'e claim \<Rightarrow> bool" where
  \<comment> \<open>\<open>rs\<close>: the messages received so far\<close>
  "claim_inv parse rs c \<longleftrightarrow>
     map fst (marks c) @ map pm_message (pending c) = rs \<and>
     (\<forall>p\<in>set (pending c). parse (pm_message p) = Inr (pm_danmaku p)) \<and>
     (\<forall>mr\<in>set (marks c). mark_justified parse mr) \<and> books_balance c"

text \<open>
  The loop of \<open>ConsumeClaim\<close> over any parser, flush and last flush; that of this version and those of
  earlier versions of the consumer are instances.
\<close>

definition loop_message ::
  "(consumer_message \<Rightarrow> parse_error + danmaku) \<Rightarrow> ('e claim \<Rightarrow> ('e claim \<times> 'y consume_error option) option) \<Rightarrow>
   ('e, 'x, 'y) consumer_io \<Rightarrow> consumer_message \<Rightarrow> 'e claim \<Rightarrow> ('e claim \<times> 'y outcome) option" where
  "loop_message parse flush io msg c =
     (case parse msg of
        Inl err \<Rightarrow>
          if pending c \<noteq> []
          then
            (case flush c of
               None \<Rightarrow> None
             | Some (c, Some y) \<Rightarrow> Some (c, Returned (Some y))
             | Some (c, None) \<Rightarrow> Some (dispose_invalid io msg err c))
          else Some (dispose_invalid io msg err c)
      | Inr d \<Rightarrow>
          (let c = add_pending d msg c
           in if int (length (pending c)) \<ge> batch_size (handler c)
              then
                (case flush c of
                   None \<Rightarrow> None
                 | Some (c, Some y) \<Rightarrow> Some (c, Returned (Some y))
                 | Some (c, None) \<Rightarrow> Some (c, Running))
              else Some (c, Running)))"

fun loop_step ::
  "(consumer_message \<Rightarrow> parse_error + danmaku) \<Rightarrow> ('e claim \<Rightarrow> ('e claim \<times> 'y consume_error option) option) \<Rightarrow>
   ('e claim \<Rightarrow> 'e claim \<times> 'y consume_error option) \<Rightarrow> ('e, 'x, 'y) consumer_io \<Rightarrow> claim_event \<Rightarrow> 'e claim \<Rightarrow>
   ('e claim \<times> 'y outcome) option" where
  "loop_step parse flush last_flush io (Message msg) c = loop_message parse flush io msg c"
| "loop_step parse flush last_flush io Tick c =
     (if pending c = [] then Some (c, Running)
      else
        (case flush c of
           None \<Rightarrow> None
         | Some (c, Some y) \<Rightarrow> Some (c, Returned (Some y))
         | Some (c, None) \<Rightarrow> Some (c, Running)))"
| "loop_step parse flush last_flush io Channel_closed c =
     (case last_flush c of (c, err) \<Rightarrow> Some (c, Returned err))"
| "loop_step parse flush last_flush io Context_done c =
     (case last_flush c of (c, err) \<Rightarrow> Some (c, Returned err))"

fun loop_claim ::
  "(consumer_message \<Rightarrow> parse_error + danmaku) \<Rightarrow> ('e claim \<Rightarrow> ('e claim \<times> 'y consume_error option) option) \<Rightarrow>
   ('e claim \<Rightarrow> 'e claim \<times> 'y consume_error option) \<Rightarrow> ('e, 'x, 'y) consumer_io \<Rightarrow> claim_event list \<Rightarrow> 'e claim \<Rightarrow>
   ('e claim \<times> 'y outcome) option" where
  "loop_claim parse flush last_flush io [] c = Some (c, Running)"
| "loop_claim parse flush last_flush io (ev # evs) c =
     (case loop_step parse flush last_flush io ev c of
        None \<Rightarrow> None
      | Some (c, Running) \<Rightarrow> loop_claim parse flush last_flush io evs c
      | Some (c, Returned err) \<Rightarrow> Some (c, Returned err))"

definition room_left :: "'e claim \<Rightarrow> bool" where
  "room_left c \<longleftrightarrow> int (length (pending c)) < batch_size (handler c)"

fun received :: "claim_event list \<Rightarrow> consumer_message list" where
  "received [] = []"
| "received (Message m # evs) = m # received evs"
| "received (_ # evs) = received evs"

lemma received_Cons: "received (ev # evs) = received [ev] @ received evs"
  by (cases ev) auto

lemma quiet_inv: "quiet c c' \<Longrightarrow> claim_inv parse rs c \<Longrightarrow> claim_inv parse rs c'"
  by (auto simp: quiet_def flushed_def claim_inv_def books_balance_def untouched_def Let_def)

lemma books_shift: "m = s + k + q \<Longrightarrow> l + m = s + l + k + (q :: u64)"
  by simp

lemma flush_inv:
  assumes "flushed (pending c) (None :: 'y option) c d" "claim_inv parse rs c"
  shows "map fst (marks d) = rs" "\<forall>mr\<in>set (marks d). mark_justified parse mr"
    "claim_inv parse rs (clear_pending d)"
proof -
  let ?new = "map (\<lambda>i. (pm_message i, Mysql_committed)) (pending c)"
  have m: "marks d = marks c @ ?new" using assms(1) by (simp add: flushed_def)
  show rs: "map fst (marks d) = rs" using assms(2) by (simp add: m claim_inv_def o_def)
  show just: "\<forall>mr\<in>set (marks d). mark_justified parse mr"
    using assms(2) by (auto simp: m claim_inv_def mark_justified_def)
  have h: "saved (handler d) = saved (handler c) + of_nat (length (pending c))"
      "inserted (handler d) + duplicates (handler d) =
         inserted (handler c) + duplicates (handler c) + of_nat (length (pending c))"
      "skipped (handler d) = skipped (handler c)" "parsed (handler d) = parsed (handler c)"
      "dead_letter_count (handler d) = dead_letter_count (handler c)"
    using assms(1) by (simp_all add: flushed_def untouched_def)
  have b: "of_nat (length (marks c)) = saved (handler c) + skipped (handler c) + dead_letter_count (handler c)"
      "parsed (handler c) = saved (handler c) + of_nat (length (pending c))"
      "saved (handler c) = inserted (handler c) + duplicates (handler c)"
    using assms(2) unfolding claim_inv_def books_balance_def Let_def by simp_all
  have "of_nat (length (marks d)) = saved (handler d) + skipped (handler d) + dead_letter_count (handler d)"
    unfolding h m using books_shift [OF b(1)] by (simp add: add.commute)
  moreover have "parsed (handler d) = saved (handler d)" unfolding h by (rule b(2))
  moreover have "saved (handler d) = inserted (handler d) + duplicates (handler d)"
    unfolding h by (subst b(3)) (rule refl)
  ultimately have "books_balance (clear_pending d)"
    by (simp add: books_balance_def clear_pending_def Let_def)
  then show "claim_inv parse rs (clear_pending d)"
    using rs just by (simp add: claim_inv_def clear_pending_def)
qed

lemma publish_dead_letter_inv:
  assumes "publish_dead_letter io msg err c = (c', y)" "claim_inv parse rs c" "pending c = []"
    "mark_justified parse (msg, Stored_in_dlq)"
  shows "y = None \<Longrightarrow> claim_inv parse (rs @ [msg]) (mark_message msg Stored_in_dlq c')"
    "y \<noteq> None \<Longrightarrow> claim_inv parse rs c'" "pending c' = []"
    "configuration (handler c') = configuration (handler c)"
  using assms
  by (auto simp: publish_dead_letter_def Let_def claim_inv_def claim_defs books_balance_def
      split: option.splits prod.splits)

lemma dispose_other:
  "\<nexists>t. err = Unsupported t \<Longrightarrow> dispose_invalid io msg err c =
     (case publish_dead_letter io msg err c of
        (c, Some y) \<Rightarrow> (c, Returned (Some y)) | (c, None) \<Rightarrow> (mark_message msg Stored_in_dlq c, Running))"
  by (cases err) (simp_all add: dispose_invalid_def)

lemma dispose_invalid_inv:
  assumes "dispose_invalid io msg err c = (c', out)" "claim_inv parse rs c" "pending c = []"
    "parse msg = Inl err"
  shows "(out = Running \<and> claim_inv parse (rs @ [msg]) c' \<or>
      (\<exists>y. out = Returned (Some y)) \<and> claim_inv parse rs c') \<and>
    pending c' = [] \<and> configuration (handler c') = configuration (handler c)"
proof (cases "\<exists>t. err = Unsupported t")
  case True
  then have "mark_justified parse (msg, Unsupported_packet)"
    using assms(4) by (auto simp: mark_justified_def)
  then have "claim_inv parse (rs @ [msg])
      (mark_message msg Unsupported_packet (count (\<lambda>h. h\<lparr>skipped := skipped h + 1\<rparr>) c))"
    using assms(2,3) by (simp add: claim_inv_def claim_defs books_balance_def Let_def)
  then show ?thesis
    using True assms(1,3) by (auto simp: dispose_invalid_def claim_defs)
next
  case False
  obtain d y where d: "publish_dead_letter io msg err c = (d, y)" by fastforce
  have "mark_justified parse (msg, Stored_in_dlq)"
    using assms(4) False by (cases err) (simp_all add: mark_justified_def)
  note pub = publish_dead_letter_inv [OF d assms(2,3) this]
  have result: "(c', out) = (case y of Some z \<Rightarrow> (d, Returned (Some z))
      | None \<Rightarrow> (mark_message msg Stored_in_dlq d, Running))"
    using assms(1) dispose_other [OF False, of io msg c] d by (simp split: option.splits)
  show ?thesis
  proof (cases y)
    case None
    then show ?thesis using result pub(1,3,4) by (simp add: mark_message_def)
  next
    case (Some z)
    then show ?thesis using result pub(2,3,4) by simp
  qed
qed

definition claim_result :: "(consumer_message \<Rightarrow> parse_error + danmaku) \<Rightarrow> consumer_message list \<Rightarrow> 'e claim \<Rightarrow> 'y outcome \<Rightarrow> bool" where
  "claim_result parse rs c out \<longleftrightarrow>
     (case out of
        Running \<Rightarrow> claim_inv parse rs c \<and> room_left c
      | Returned err \<Rightarrow>
          prefix (map fst (marks c)) rs \<and> (\<forall>mr\<in>set (marks c). mark_justified parse mr) \<and>
          (err = None \<longrightarrow> map fst (marks c) = rs))"

lemma claim_inv_prefix: "claim_inv parse rs c \<Longrightarrow> prefix (map fst (marks c)) rs"
  by (auto simp: claim_inv_def prefix_def)

lemma claim_inv_returned:
  assumes "claim_inv parse rs c"
  shows "claim_result parse (rs @ later) c (Returned (Some y))"
proof -
  have marked: "prefix (map fst (marks c)) (rs @ later)"
    by (rule prefix_prefix [OF claim_inv_prefix [OF assms]])
  have "\<forall>mr\<in>set (marks c). mark_justified parse mr" using assms unfolding claim_inv_def by (elim conjE)
  then show ?thesis unfolding claim_result_def outcome.case using marked by (intro conjI) simp_all
qed

lemma batch_size_config: "configuration h' = configuration h \<Longrightarrow> batch_size h' = batch_size h"
  by (simp add: configuration_def)

lemma consume_invalid_result:
  assumes "dispose_invalid io msg err c = (c', out)" "claim_inv parse rs c" "pending c = []"
    "0 < batch_size (handler c)" "parse msg = Inl err"
  shows "claim_result parse (rs @ [msg]) c' out \<and> configuration (handler c') = configuration (handler c)"
proof -
  note d = dispose_invalid_inv [OF assms(1,2,3,5)]
  then have conf: "configuration (handler c') = configuration (handler c)" and "pending c' = []"
    by simp_all
  then have room: "room_left c'" using assms(4) batch_size_config [OF conf] by (simp add: room_left_def)
  show ?thesis
  proof (cases "out = Running")
    case True
    then show ?thesis using d room by (simp add: claim_result_def)
  next
    case False
    then obtain y where y: "out = Returned (Some y)" "claim_inv parse rs c'" using d by auto
    show ?thesis unfolding y(1) using d claim_inv_returned [OF y(2)] by simp
  qed
qed

lemma append_pending_inv:
  assumes "claim_inv parse rs c" "parse msg = Inr d"
  shows "claim_inv parse (rs @ [msg]) (add_pending d msg c)"
  using assms by (auto simp: add_pending_def claim_inv_def claim_defs books_balance_def Let_def)

text \<open>What the loop needs of its flushes, and what follows for every claim.\<close>

locale claim_loop =
  fixes parse :: "consumer_message \<Rightarrow> parse_error + danmaku"
    and flush :: "'e claim \<Rightarrow> ('e claim \<times> 'y consume_error option) option"
    and last_flush :: "'e claim \<Rightarrow> 'e claim \<times> 'y consume_error option"
    and io :: "('e, 'x, 'y) consumer_io"
  assumes flush_law: "flush c = Some (c', err) \<Longrightarrow>
      \<exists>d. flushed (pending c) err c d \<and> c' = (if err = None then clear_pending d else d)"
    and last_flush_law: "last_flush c = (c', err) \<Longrightarrow>
      if pending c = [] then c' = c \<and> err = None else flushed (pending c) err c c'"
begin

lemma flush_inv_law:
  assumes "flush c = Some (c', err)" "claim_inv parse rs c"
  shows "claim_inv parse rs c'" "err = None \<Longrightarrow> pending c' = []"
    "configuration (handler c') = configuration (handler c)"
proof -
  obtain d where d: "flushed (pending c) err c d" "c' = (if err = None then clear_pending d else d)"
    using flush_law [OF assms(1)] by blast
  show "claim_inv parse rs c'"
  proof (cases err)
    case None
    then show ?thesis using d flush_inv(3) [OF _ assms(2)] by simp
  next
    case (Some y)
    then show ?thesis using d flushed_error quiet_inv [OF _ assms(2)] by fastforce
  qed
  show "err = None \<Longrightarrow> pending c' = []" using d(2) by (simp add: clear_pending_def)
  show "configuration (handler c') = configuration (handler c)"
    using d by (auto simp: flushed_def untouched_def clear_pending_def split: if_splits)
qed

lemma flush_result:
  assumes "flush c = Some (c', err)" "claim_inv parse rs c" "0 < batch_size (handler c)"
  shows "claim_result parse rs c' (case err of None \<Rightarrow> Running | Some y \<Rightarrow> Returned (Some y)) \<and>
    configuration (handler c') = configuration (handler c)"
proof (cases err)
  case None
  then show ?thesis
    using flush_inv_law [OF assms(1,2)] assms(3) batch_size_config [of "handler c'" "handler c"]
    by (simp add: claim_result_def room_left_def)
next
  case (Some y)
  then show ?thesis
    using flush_inv_law(1,3) [OF assms(1,2)] claim_inv_returned [of parse rs c' "[]" y] by simp
qed

lemma message_result:
  assumes "loop_message parse flush io msg c = Some (c', out)" "claim_inv parse rs c" "room_left c"
    "0 < batch_size (handler c)"
  shows "claim_result parse (rs @ [msg]) c' out \<and> configuration (handler c') = configuration (handler c)"
proof (cases "parse msg")
  case (Inl err)
  show ?thesis
  proof (cases "pending c = []")
    case True
    then have "dispose_invalid io msg err c = (c', out)"
      using assms(1) Inl by (simp add: loop_message_def)
    then show ?thesis by (rule consume_invalid_result [OF _ assms(2) True assms(4) Inl])
  next
    case False
    obtain d y where d: "flush c = Some (d, y)"
      using assms(1) Inl False by (auto simp: loop_message_def split: option.splits)
    note inv = flush_inv_law [OF d assms(2)]
    show ?thesis
    proof (cases y)
      case None
      then have "dispose_invalid io msg err d = (c', out)"
        using assms(1) Inl False d by (simp add: loop_message_def)
      then show ?thesis
        using consume_invalid_result [OF _ inv(1) inv(2) [OF None] _ Inl, of io c' out] inv(3) assms(4)
          batch_size_config [OF inv(3)] by simp
    next
      case (Some z)
      then have "c' = d" "out = Returned (Some z)"
        using assms(1) Inl False d by (simp_all add: loop_message_def)
      then show ?thesis using inv claim_inv_returned by auto
    qed
  qed
next
  case (Inr d)
  define b where "b = add_pending d msg c"
  have inv: "claim_inv parse (rs @ [msg]) b" unfolding b_def by (rule append_pending_inv [OF assms(2) Inr])
  have conf: "configuration (handler b) = configuration (handler c)"
    by (simp add: b_def add_pending_def claim_defs)
  have size: "0 < batch_size (handler b)" using assms(4) batch_size_config [OF conf] by simp
  have step: "(if int (length (pending b)) \<ge> batch_size (handler b)
       then (case flush b of None \<Rightarrow> None
             | Some (c, Some y) \<Rightarrow> Some (c, Returned (Some y)) | Some (c, None) \<Rightarrow> Some (c, Running))
       else Some (b, Running)) = Some (c', out)"
    using assms(1) unfolding loop_message_def Inr sum.case Let_def b_def .
  show ?thesis
  proof (cases "int (length (pending b)) \<ge> batch_size (handler b)")
    case True
    then obtain e y where e: "flush b = Some (e, y)"
      using step by (auto split: option.splits)
    show ?thesis using step True e flush_result [OF e inv size] conf
      by (auto split: option.splits)
  next
    case False
    then show ?thesis using step inv conf by (simp add: claim_result_def room_left_def)
  qed
qed

lemma end_result:
  assumes "last_flush c = (c', err)" "claim_inv parse rs c"
  shows "claim_result parse rs c' (Returned err) \<and> configuration (handler c') = configuration (handler c)"
proof (cases "pending c = []")
  case True
  then have "c' = c" "err = None" using last_flush_law [OF assms(1)] by simp_all
  then show ?thesis using True assms(2) claim_inv_prefix [OF assms(2)]
    by (auto simp: claim_result_def claim_inv_def)
next
  case False
  then have "flushed (pending c) err c c'"
    using last_flush_law [OF assms(1)] by simp
  moreover have "configuration (handler c') = configuration (handler c)"
    using calculation by (simp add: flushed_def untouched_def)
  ultimately show ?thesis
    using flush_inv(1,2) [OF _ assms(2)] claim_inv_returned [OF quiet_inv [OF _ assms(2)], of _ "[]"]
    by (cases err) (auto simp: claim_result_def dest!: flushed_error)
qed

lemma step_result:
  assumes "loop_step parse flush last_flush io ev c = Some (c', out)" "claim_inv parse rs c" "room_left c"
    "0 < batch_size (handler c)"
  shows "claim_result parse (rs @ received [ev]) c' out \<and> configuration (handler c') = configuration (handler c)"
proof (cases ev)
  case (Message msg)
  then show ?thesis using assms message_result by simp
next
  case Tick
  show ?thesis
  proof (cases "pending c = []")
    case True
    then show ?thesis using assms Tick by (simp add: claim_result_def)
  next
    case False
    obtain d y where d: "flush c = Some (d, y)"
      using assms(1) Tick False by (auto split: option.splits)
    show ?thesis using flush_result [OF d assms(2,4)] assms(1) d Tick False
      by (auto split: option.splits)
  qed
next
  case Channel_closed
  then obtain y where y: "last_flush c = (c', y)" "out = Returned y"
    using assms(1) by (auto split: prod.splits)
  show ?thesis unfolding y(2) using end_result [OF y(1) assms(2)] Channel_closed by simp
next
  case Context_done
  then obtain y where y: "last_flush c = (c', y)" "out = Returned y"
    using assms(1) by (auto split: prod.splits)
  show ?thesis unfolding y(2) using end_result [OF y(1) assms(2)] Context_done by simp
qed

lemma claim_outcome:
  assumes "loop_claim parse flush last_flush io evs c = Some (c', out)" "claim_inv parse rs c" "room_left c"
    "0 < batch_size (handler c)"
  shows "\<exists>used. prefix used evs \<and> claim_result parse (rs @ received used) c' out \<and>
    (out = Running \<longrightarrow> used = evs)"
  using assms
proof (induction evs arbitrary: c rs)
  case Nil
  then show ?case by (auto simp: claim_result_def)
next
  case (Cons ev evs)
  then obtain d y where d: "loop_step parse flush last_flush io ev c = Some (d, y)"
    by (auto split: option.splits)
  note step = step_result [OF d Cons.prems(2-4)]
  show ?case
  proof (cases y)
    case Running
    then have next_inv: "claim_inv parse (rs @ received [ev]) d" "room_left d"
      using step by (simp_all add: claim_result_def)
    have "0 < batch_size (handler d)" using batch_size_config [of "handler d" "handler c"] step Cons.prems(4) by simp
    moreover have "loop_claim parse flush last_flush io evs d = Some (c', out)" using Cons.prems(1) d Running by simp
    ultimately have "\<exists>used. prefix used evs \<and> claim_result parse ((rs @ received [ev]) @ received used) c' out \<and>
        (out = Running \<longrightarrow> used = evs)"
      by (intro Cons.IH [OF _ next_inv])
    then obtain used where "prefix used evs" "claim_result parse ((rs @ received [ev]) @ received used) c' out"
      "out = Running \<longrightarrow> used = evs" by blast
    then show ?thesis
      by (intro exI [of _ "ev # used"]) (simp add: received_Cons [of ev used])
  next
    case (Returned err)
    then have "c' = d" "out = Returned err" using Cons.prems(1) d by simp_all
    then show ?thesis using step Returned by (intro exI [of _ "[ev]"]) simp
  qed
qed

end

section \<open>The loop of this version\<close>

lemma consume_message_loop:
  "consume_message io cd msg c = loop_message (parse_message cd) (flush_and_clear io) io msg c"
  by (simp add: consume_message_def loop_message_def)

lemma consume_step_loop:
  "consume_step io cd ev c = loop_step (parse_message cd) (flush_and_clear io) (flush_before_claim_ends io) io ev c"
  by (cases ev) (simp_all add: consume_message_loop)

lemma consume_claim_loop:
  "consume_claim io cd evs c = loop_claim (parse_message cd) (flush_and_clear io) (flush_before_claim_ends io) io evs c"
  by (induction evs arbitrary: c) (simp_all add: consume_step_loop split: option.split prod.split outcome.split)

interpretation v10_loop: claim_loop "parse_message cd" "flush_and_clear io" "flush_before_claim_ends io" io for cd io
proof unfold_locales
  fix c c' err
  show "\<exists>d. flushed (pending c) err c d \<and> c' = (if err = None then clear_pending d else d)"
    if "flush_and_clear io c = Some (c', err)"
    using that by (rule flush_and_clear_flushed) blast
  show "if pending c = [] then c' = c \<and> err = None else flushed (pending c) err c c'"
    if "flush_before_claim_ends io c = (c', err)"
    using that flush_pending_flushed by (auto simp: flush_before_claim_ends_def)
qed

lemma consume_step_result:
  assumes "consume_step io cd ev c = Some (c', out)" "claim_inv (parse_message cd) rs c" "room_left c"
    "0 < batch_size (handler c)"
  shows "claim_result (parse_message cd) (rs @ received [ev]) c' out \<and> configuration (handler c') = configuration (handler c)"
  by (rule v10_loop.step_result [OF assms(1) [unfolded consume_step_loop] assms(2-4)])

lemma consume_claim_result:
  assumes "consume_claim io cd evs c = Some (c', out)" "claim_inv (parse_message cd) rs c" "room_left c"
    "0 < batch_size (handler c)"
  shows "\<exists>used. prefix used evs \<and> claim_result (parse_message cd) (rs @ received used) c' out \<and>
    (out = Running \<longrightarrow> used = evs)"
  by (rule v10_loop.claim_outcome [OF assms(1) [unfolded consume_claim_loop] assms(2-4)])

end
