(* ===== verification/Delivery.thy ===== *)
theory Delivery
  imports Consumer
begin

text \<open>
  What the consumer of \<open>v10/internal/consumer/handler.go\<close> promises: offsets are marked in the
  order of reception, none before its message is durable, with the handler wired to
  \<open>v10/internal/repo\<close> and \<open>v10/internal/queue\<close> as \<open>v10/cmd/consumer\<close> does; a partition that
  waits for MySQL resumes when MySQL does.
\<close>

section \<open>Batches and backoff\<close>

lemma unique_from_ids:
  "set (map message_id (unique_batch_from seen items)) =
     message_id ` pm_danmaku ` set items - set seen"
  by (induction seen items rule: unique_batch_from.induct) auto

lemma unique_from_distinct: "distinct (map message_id (unique_batch_from seen items))"
  by (induction seen items rule: unique_batch_from.induct)
    (auto simp: unique_from_ids simp flip: set_map)

lemma unique_from_sublist: "subseq (unique_batch_from seen items) (map pm_danmaku items)"
  by (induction seen items rule: unique_batch_from.induct) auto

lemma unique_batch_ids: "set (map message_id (unique_batch items)) = message_id ` pm_danmaku ` set items"
  by (simp add: unique_batch_def unique_from_ids del: set_map)

lemma unique_batch_nonempty: "items \<noteq> [] \<Longrightarrow> unique_batch items \<noteq> []"
  by (cases items) (simp_all add: unique_batch_def)

lemma grow_backoff_min:
  assumes "0 < b" "b \<le> m" "m \<le> 2 ^ 62"
  shows "grow_backoff b m = min (2 * b) m"
proof (cases "b = m")
  case False
  then have "b < 2 ^ 62" using assms by simp
  then have "wrap64 (b * 2) = b * 2" using assms by (simp add: wrap64_id min_int64_def max_int64_def)
  then show ?thesis using assms False by (simp add: grow_backoff_def Let_def)
qed (use assms in \<open>simp add: grow_backoff_def\<close>)

lemma parse_message_Inr:
  "parse_message cd msg = Inr d \<longleftrightarrow>
     (\<exists>p. dec_packet cd (msg_value msg) = Some p \<and> packet_type p = type_danmaku \<and>
          dec_danmaku cd (packet_data p) = Some d) \<and>
     trim_space (message_id d) \<noteq> [] \<and> trim_space (room_id d) \<noteq> [] \<and>
     trim_space (user_id d) \<noteq> [] \<and> instant (send_time d) \<noteq> 0 \<and> storable d"
  by (auto simp: parse_message_def is_zero_def simp flip: validate_storage_None
      split: option.splits if_splits)

section \<open>Durable backends\<close>

text \<open>
  The contract between the handler and its environment: \<open>stored\<close> is the set of message ids
  in the database, \<open>letters\<close> the dead letters that the broker has acknowledged. No call loses
  what is stored, and a call that reports success has stored what it was given.
\<close>

definition durable_mark ::
  "codec \<Rightarrow> (string \<Rightarrow> string) \<Rightarrow> string set \<Rightarrow> dead_letter set \<Rightarrow> consumer_message \<times> mark_reason \<Rightarrow> bool" where
  "durable_mark cd json_error ids ls mr =
     (case mr of
        (m, Mysql_committed) \<Rightarrow>
          (case parse_message cd m of Inr d \<Rightarrow> message_id d \<in> ids | Inl e \<Rightarrow> False)
      | (m, Unsupported_packet) \<Rightarrow>
          (case parse_message cd m of Inl (Unsupported t) \<Rightarrow> True | _ \<Rightarrow> False)
      | (m, Stored_in_dlq) \<Rightarrow>
          (case parse_message cd m of
             Inr d \<Rightarrow> False
           | Inl e \<Rightarrow>
               (\<exists>l\<in>ls. source_topic l = msg_topic m \<and> source_partition l = msg_partition m \<and>
                  source_offset l = msg_offset m \<and> original_key l = msg_key m \<and>
                  original_value l = msg_value m \<and> dl_reason l = parse_error_text json_error e)))"

lemma durable_mark_mono:
  "durable_mark cd j ids ls mr \<Longrightarrow> ids \<subseteq> ids' \<Longrightarrow> ls \<subseteq> ls' \<Longrightarrow> durable_mark cd j ids' ls' mr"
  by (auto simp: durable_mark_def split: prod.splits mark_reason.splits sum.splits)

locale durable_io =
  fixes io :: "('e, 'x, 'y) consumer_io"
    and stored :: "'e \<Rightarrow> string set"
    and letters :: "'e \<Rightarrow> dead_letter set"
  assumes create_keeps: "stored e \<subseteq> stored (fst (io_create io ctx ms e))"
      "letters e \<subseteq> letters (fst (io_create io ctx ms e))"
    and create_stores: "snd (snd (io_create io ctx ms e)) = None \<Longrightarrow>
      message_id ` set ms \<subseteq> stored (fst (io_create io ctx ms e))"
    and timer_keeps: "stored e \<subseteq> stored (fst (io_timer io ctx d e))"
      "letters e \<subseteq> letters (fst (io_timer io ctx d e))"
    and now_keeps: "stored e \<subseteq> stored (fst (io_now io e))"
      "letters e \<subseteq> letters (fst (io_now io e))"
    and publish_keeps: "io_publish io = Some publish \<Longrightarrow>
      stored e \<subseteq> stored (fst (publish r e)) \<and> letters e \<subseteq> letters (fst (publish r e))"
    and publish_stores: "io_publish io = Some publish \<Longrightarrow>
      snd (publish r e) = None \<Longrightarrow> r \<in> letters (fst (publish r e))"
begin

definition keeps :: "'e claim \<Rightarrow> 'e claim \<Rightarrow> bool" where
  "keeps c c' \<longleftrightarrow> stored (env c) \<subseteq> stored (env c') \<and> letters (env c) \<subseteq> letters (env c')"

lemma keeps_refl [simp]: "keeps c c"
  by (simp add: keeps_def)

lemma keeps_trans: "keeps c d \<Longrightarrow> keeps d e \<Longrightarrow> keeps c e"
  by (auto simp: keeps_def)

lemma keeps_count [simp]: "keeps d (count f c) \<longleftrightarrow> keeps d c" "keeps (count f c) d \<longleftrightarrow> keeps c d"
  by (simp_all add: keeps_def frame_simps)

lemma keeps_mark [simp]: "keeps d (mark_message m r c) \<longleftrightarrow> keeps d c"
  by (simp add: keeps_def mark_message_def)

lemma keeps_mark_all [simp]: "keeps d (mark_all items c) \<longleftrightarrow> keeps d c"
  by (simp add: keeps_def frame_simps)

lemma keeps_clock: "keeps c (fst (read_clock io c))"
  by (simp add: keeps_def frame_simps now_keeps)

lemma keeps_env:
  "stored (env c) \<subseteq> stored e \<Longrightarrow> letters (env c) \<subseteq> letters e \<Longrightarrow> keeps c (c\<lparr>env := e\<rparr>)"
  by (simp add: keeps_def)

lemma keeps_after_clock: "keeps d c \<Longrightarrow> keeps d (fst (read_clock io c))"
  by (rule keeps_trans [OF _ keeps_clock])

lemma committed_keeps: "keeps c (committed io items started n c)"
  by (simp add: committed_def Let_def split_beta keeps_after_clock)

lemma flush_failed_keeps: "keeps c (fst (flush_failed io batch started c))"
  by (simp add: flush_failed_def Let_def split_beta keeps_after_clock)

lemma resume_keeps: "keeps c (resume_partition io started c)"
  by (simp add: resume_partition_def Let_def split_beta keeps_after_clock)

definition commits :: "string set \<Rightarrow> 'e claim \<Rightarrow> 'e claim \<times> 'z option \<Rightarrow> bool" where
  "commits ids c r \<longleftrightarrow> keeps c (fst r) \<and> (snd r = None \<longrightarrow> ids \<subseteq> stored (env (fst r)))"

lemma commits_after: "keeps c d \<Longrightarrow> commits ids d r \<Longrightarrow> commits ids c r"
  by (auto simp: commits_def keeps_def)

lemma commits_env:
  "commits ids (c\<lparr>env := e\<rparr>) r \<Longrightarrow> stored (env c) \<subseteq> stored e \<Longrightarrow> letters (env c) \<subseteq> letters e \<Longrightarrow>
    commits ids c r"
  by (rule commits_after [OF keeps_env])

lemma commits_error: "keeps c d \<Longrightarrow> commits ids c (d, Some z)"
  by (simp add: commits_def)

lemma commits_then: "commits ids c (d, err) \<Longrightarrow> keeps d d' \<Longrightarrow> commits ids c (d', err)"
  by (auto simp: commits_def keeps_def)

lemma create_commits:
  assumes "io_create io ctx batch (env c) = (e, n, None)"
  shows "commits (message_id ` set batch) c (committed io items started n (c\<lparr>env := e\<rparr>), None)"
proof -
  have "message_id ` set batch \<subseteq> stored e" using create_stores [of ctx batch "env c"] assms by simp
  moreover have "keeps (c\<lparr>env := e\<rparr>) (committed io items started n (c\<lparr>env := e\<rparr>))"
    by (rule committed_keeps)
  moreover have "keeps c (c\<lparr>env := e\<rparr>)"
    using create_keeps [of "env c" ctx batch] assms by (intro keeps_env) simp_all
  ultimately show ?thesis by (auto simp: commits_def keeps_def)
qed

lemma flush_attempts_commits:
  "commits (message_id ` set batch) c (flush_attempts io ctx items batch started attempt c)"
proof (rule flush_attempts_rule [of "commits (message_id ` set batch)"])
  fix c
  obtain d y where d: "flush_failed io batch started c = (d, y)" by fastforce
  then have "y \<noteq> None" by (auto simp: flush_failed_def Let_def split: prod.splits)
  then show "commits (message_id ` set batch) c (flush_failed io batch started c)"
    using flush_failed_keeps [of c batch started] d by (auto simp: commits_def)
next
  fix c e n x r
  assume e: "io_create io ctx batch (env c) = (e, n, x)"
    and r: "commits (message_id ` set batch) (c\<lparr>env := e\<rparr>) r"
  show "commits (message_id ` set batch) c r"
    by (rule commits_env [OF r]) (use create_keeps [of "env c" ctx batch] e in simp_all)
next
  fix c d e b r
  assume e: "io_timer io ctx d (env c) = (e, b)"
    and r: "commits (message_id ` set batch) (c\<lparr>env := e\<rparr>) r"
  show "commits (message_id ` set batch) c r"
    by (rule commits_env [OF r]) (use timer_keeps [of "env c" ctx d] e in simp_all)
qed ((rule create_commits | simp add: commits_def keeps_def frame_simps)+)

lemma flush_pending_commits:
  "commits (message_id ` pm_danmaku ` set items) c (flush_pending io ctx items c)"
proof (cases "items = []")
  case False
  then show ?thesis
    using commits_after [OF keeps_clock flush_attempts_commits [of "unique_batch items"]]
    by (simp add: flush_pending_def Let_def split_beta unique_batch_ids flip: set_map)
qed (simp add: flush_pending_def commits_def)

lemma flush_with_recovery_commits:
  assumes "flush_with_recovery io items c = Some r"
  shows "commits (message_id ` pm_danmaku ` set items) c r"
    (is "?P c r")
proof (rule flush_with_recovery_rule [OF assms, of ?P])
  fix c d e b r
  assume e: "io_timer io Session_ctx d (env c) = (e, b)" and r: "?P (c\<lparr>env := e\<rparr>) r"
  show "?P c r" by (rule commits_env [OF r]) (use timer_keeps [of "env c" Session_ctx d] e in simp_all)
next
  fix c e now r
  assume e: "io_now io (env c) = (e, now)" and r: "?P (c\<lparr>env := e\<rparr>) r"
  show "?P c r" by (rule commits_env [OF r]) (use now_keeps [of "env c"] e in simp_all)
next
  fix c d z r
  assume d: "flush_pending io Session_ctx items c = (d, Some z)" "?P d r"
  have "keeps c d" using flush_pending_commits [of items c Session_ctx] d(1) by (simp add: commits_def)
  then show "?P c r" using d(2) by (rule commits_after)
next
  fix c d
  assume d: "flush_pending io Session_ctx items c = (d, None)"
  show "?P c (d, None)" using flush_pending_commits [of items c Session_ctx] d by simp
  then show "?P c (count (\<lambda>h. h\<lparr>recoveries := recoveries h + 1\<rparr>) d, None)"
    by (rule commits_then) simp
next
  fix c d started err
  assume "?P c (d, err)"
  then show "?P c (resume_partition io started d, err)" by (rule commits_then) (rule resume_keeps)
qed (auto simp: commits_def keeps_def frame_simps)

definition durable :: "codec \<Rightarrow> 'e claim \<Rightarrow> bool" where
  "durable cd c \<longleftrightarrow>
     (\<forall>mr\<in>set (marks c). durable_mark cd (io_json_error io) (stored (env c)) (letters (env c)) mr)"

lemma durable_keeps:
  assumes "durable cd c" "keeps c d" "marks d = marks c"
  shows "durable cd d"
  unfolding durable_def assms(3)
proof
  fix mr assume "mr \<in> set (marks c)"
  then show "durable_mark cd (io_json_error io) (stored (env d)) (letters (env d)) mr"
    using assms(1,2) durable_mark_mono [of cd "io_json_error io" "stored (env c)" "letters (env c)" mr]
    by (simp add: durable_def keeps_def)
qed

lemma flush_durable:
  assumes fl: "flushed items err c d" and co: "commits (message_id ` pm_danmaku ` set items) c (d, err)"
    and parsed: "\<forall>p\<in>set items. parse_message cd (pm_message p) = Inr (pm_danmaku p)" and "durable cd c"
  shows "durable cd d"
proof -
  have k: "stored (env c) \<subseteq> stored (env d)" "letters (env c) \<subseteq> letters (env d)"
    using co by (simp_all add: commits_def keeps_def)
  have old: "\<forall>mr\<in>set (marks c). durable_mark cd (io_json_error io) (stored (env d)) (letters (env d)) mr"
    using assms(4) durable_mark_mono [OF _ k] by (auto simp: durable_def)
  show ?thesis
  proof (cases err)
    case None
    have "\<forall>p\<in>set items. message_id (pm_danmaku p) \<in> stored (env d)"
      using co None by (auto simp: commits_def)
    then have "\<forall>p\<in>set items. durable_mark cd (io_json_error io) (stored (env d)) (letters (env d))
        (pm_message p, Mysql_committed)" using parsed by (simp add: durable_mark_def)
    then show ?thesis using fl None old by (auto simp: durable_def flushed_def)
  next
    case (Some z)
    then show ?thesis using fl old by (simp add: durable_def flushed_def)
  qed
qed

lemma publish_durable:
  assumes pub: "publish_dead_letter io msg err c = (d, y)" and "durable cd c"
    and "parse_message cd msg = Inl err"
  shows "y = None \<Longrightarrow> durable cd (mark_message msg Stored_in_dlq d)" "y \<noteq> None \<Longrightarrow> durable cd d"
proof -
  have "durable cd d \<and> (y = None \<longrightarrow> durable_mark cd (io_json_error io) (stored (env d)) (letters (env d)) (msg, Stored_in_dlq))"
  proof (cases "io_publish io")
    case None
    then show ?thesis using pub assms(2)
      by (auto simp: publish_dead_letter_def durable_def frame_simps)
  next
    case (Some publish)
    obtain e now where clock: "io_now io (env c) = (e, now)" by fastforce
    define r where "r = \<lparr>source_topic = msg_topic msg, source_partition = msg_partition msg,
        source_offset = msg_offset msg, original_key = msg_key msg, original_value = msg_value msg,
        dl_reason = parse_error_text (io_json_error io) err, failed_at = now\<rparr>"
    obtain f x where sent: "publish r e = (f, x)" by fastforce
    have k: "stored (env c) \<subseteq> stored f" "letters (env c) \<subseteq> letters f"
      using now_keeps [of "env c"] publish_keeps [OF Some, of e r] clock sent by auto
    have d: "marks d = marks c" "env d = f" "y = None \<longleftrightarrow> x = None"
      using pub by (auto simp: publish_dead_letter_def Some read_clock_def clock Let_def
          r_def [symmetric] sent frame_simps split: option.splits)
    have "r \<in> letters f" if "x = None" using publish_stores [OF Some, of r e] sent that by simp
    then have "durable_mark cd (io_json_error io) (stored f) (letters f) (msg, Stored_in_dlq)" if "x = None"
      using assms(3) that by (auto simp: durable_mark_def r_def intro!: bexI [of _ r])
    then show ?thesis
      using durable_keeps [OF assms(2), of d] k d by (simp add: keeps_def)
  qed
  then show "y = None \<Longrightarrow> durable cd (mark_message msg Stored_in_dlq d)" "y \<noteq> None \<Longrightarrow> durable cd d"
    by (simp_all add: durable_def mark_message_def)
qed

lemma durable_frame: "durable cd c \<Longrightarrow> env d = env c \<Longrightarrow> marks d = marks c \<Longrightarrow> durable cd d"
  by (simp add: durable_def)

lemma flush_and_clear_durable:
  assumes "flush_and_clear io c = Some (c', err)" "claim_inv (parse_message cd) rs c" "durable cd c"
  shows "durable cd c'"
proof -
  obtain d where d: "flush_with_recovery io (pending c) c = Some (d, err)"
    "c' = (if err = None then clear_pending d else d)"
    using assms(1) by (auto simp: flush_and_clear_def)
  have "durable cd d"
    using flush_durable [OF flush_with_recovery_flushed [OF d(1)] flush_with_recovery_commits [OF d(1)] _ assms(3)]
      assms(2) by (simp add: claim_inv_def)
  then show ?thesis using d(2) by (auto simp: clear_pending_def intro: durable_frame)
qed

lemma dispose_durable:
  assumes "dispose_invalid io msg err c = (c', out)" "durable cd c" "parse_message cd msg = Inl err"
  shows "durable cd c'"
proof (cases "\<exists>t. err = Unsupported t")
  case True
  have "durable_mark cd j ids ls (msg, Unsupported_packet)" for j ids ls
    using True assms(3) by (auto simp: durable_mark_def)
  then show ?thesis using True assms(1,2)
    by (auto simp: dispose_invalid_def durable_def claim_defs)
next
  case False
  obtain d y where d: "publish_dead_letter io msg err c = (d, y)" by fastforce
  show ?thesis
    using assms(1) dispose_other [OF False, of io msg c] d publish_durable [OF d assms(2,3)]
    by (cases y) auto
qed

lemma claim_end_durable:
  assumes "flush_before_claim_ends io c = (c', err)" "claim_inv (parse_message cd) rs c" "durable cd c"
  shows "durable cd c'"
proof (cases "pending c = []")
  case False
  then have d: "flush_pending io (Timeout_ctx (flush_timeout (handler c))) (pending c) c = (c', err)"
    using assms(1) by (simp add: flush_before_claim_ends_def)
  show ?thesis
    using flush_durable [OF flush_pending_flushed [OF d] _ _ assms(3)] assms(2)
      flush_pending_commits [of "pending c" c "Timeout_ctx (flush_timeout (handler c))"] d
    by (simp add: claim_inv_def)
qed (use assms in \<open>simp add: flush_before_claim_ends_def\<close>)

lemma consume_step_durable:
  assumes "consume_step io cd ev c = Some (c', out)" "claim_inv (parse_message cd) rs c" "durable cd c"
  shows "durable cd c'"
proof (cases ev)
  case (Message msg)
  then have m: "consume_message io cd msg c = Some (c', out)" using assms(1) by simp
  show ?thesis
  proof (cases "parse_message cd msg")
    case (Inl err)
    note dd = dispose_durable [OF _ _ Inl]
    show ?thesis
    proof (cases "pending c = []")
      case True
      then have "dispose_invalid io msg err c = (c', out)" using m Inl by (simp add: consume_message_def)
      then show ?thesis using assms(3) by (rule dd)
    next
      case False
      then obtain d y where d: "flush_and_clear io c = Some (d, y)"
        using m Inl by (auto simp: consume_message_def split: option.splits)
      have dur: "durable cd d" by (rule flush_and_clear_durable [OF d assms(2,3)])
      show ?thesis
      proof (cases y)
        case None
        then have "dispose_invalid io msg err d = (c', out)"
          using m Inl False d by (simp add: consume_message_def)
        then show ?thesis using dur by (rule dd)
      next
        case (Some z)
        then show ?thesis using m Inl False d dur by (simp add: consume_message_def)
      qed
    qed
  next
    case (Inr x)
    have dur: "durable cd (add_pending x msg c)"
      by (rule durable_frame [OF assms(3)]) (simp_all add: add_pending_def frame_simps)
    note inv = append_pending_inv [OF assms(2) Inr]
    have "c' = add_pending x msg c \<or> (\<exists>err. flush_and_clear io (add_pending x msg c) = Some (c', err))"
      using m Inr by (auto simp: consume_message_def Let_def split: if_splits option.splits)
    then show ?thesis using dur flush_and_clear_durable [OF _ inv dur] by auto
  qed
next
  case Tick
  then have "c' = c \<or> (\<exists>err. flush_and_clear io c = Some (c', err))"
    using assms(1) by (auto split: if_splits option.splits)
  then show ?thesis using assms(3) flush_and_clear_durable [OF _ assms(2,3)] by auto
next
  case Channel_closed
  then show ?thesis using assms by (auto intro: claim_end_durable split: prod.splits)
next
  case Context_done
  then show ?thesis using assms by (auto intro: claim_end_durable split: prod.splits)
qed

lemma consume_claim_durable:
  assumes "consume_claim io cd evs c = Some (c', out)" "claim_inv (parse_message cd) rs c" "durable cd c"
    and "room_left c" "0 < batch_size (handler c)"
  shows "durable cd c'"
  using assms
proof (induction evs arbitrary: c rs)
  case (Cons ev evs)
  then obtain d y where d: "consume_step io cd ev c = Some (d, y)"
    by (auto split: option.splits)
  note step = consume_step_result [OF d Cons.prems(2,4,5)]
  note dur = consume_step_durable [OF d Cons.prems(2,3)]
  show ?case
  proof (cases y)
    case Running
    then have next_inv: "claim_inv (parse_message cd) (rs @ received [ev]) d" "room_left d"
      using step by (simp_all add: claim_result_def)
    have "0 < batch_size (handler d)"
      using batch_size_config [of "handler d" "handler c"] step Cons.prems(5) by simp
    moreover have "consume_claim io cd evs d = Some (c', out)" using Cons.prems(1) d Running by simp
    ultimately show ?thesis by (intro Cons.IH [OF _ next_inv(1) dur next_inv(2)])
  next
    case (Returned err)
    then show ?thesis using Cons.prems(1) d dur by simp
  qed
qed simp

end

section \<open>The consumer process\<close>

text \<open>
  \<open>v10/cmd/consumer\<close> gives the handler a \<open>MessageRepo\<close> and a \<open>KafkaDeadLetterPublisher\<close>. The
  state behind them is MySQL (\<open>'d\<close>), the brokers (\<open>'b\<close>) and the runtime (\<open>'t\<close>: clock, timers,
  contexts).
\<close>

record ('d, 'b, 't) world =
  database :: 'd
  broker :: 'b
  runtime :: 't

record ('d, 'b, 't, 'x) services =
  sv_insert :: "flush_ctx \<Rightarrow> danmaku list \<Rightarrow> nat \<Rightarrow> 'd \<Rightarrow> 'd \<times> int \<times> 'x option"
  sv_send :: "'b \<Rightarrow> producer_message \<Rightarrow> 'b \<times> 'x option"
  sv_timer :: "flush_ctx \<Rightarrow> duration \<Rightarrow> 't \<Rightarrow> 't \<times> bool"
  sv_now :: "'t \<Rightarrow> 't \<times> time"
  sv_done :: "'t \<Rightarrow> bool"
  sv_json_error :: "string \<Rightarrow> string"

definition wired_io ::
  "('d, 'b, 't, 'x) services \<Rightarrow> codec \<Rightarrow> string \<Rightarrow> (('d, 'b, 't) world, 'x, 'x dlq_error) consumer_io" where
  "wired_io sv cd dlq_topic =
     \<lparr>io_create = (\<lambda>ctx ms w.
        (case create_idempotent (sv_insert sv ctx) ms (database w) of
           (d, n, x) \<Rightarrow> (w\<lparr>database := d\<rparr>, n, x))),
      io_timer = (\<lambda>ctx d w. (case sv_timer sv ctx d (runtime w) of (t, b) \<Rightarrow> (w\<lparr>runtime := t\<rparr>, b))),
      io_publish = Some (\<lambda>r w.
        (case dead_letter_publish cd (sv_send sv) dlq_topic (sv_done sv (runtime w)) r (broker w) of
           (b, y) \<Rightarrow> (w\<lparr>broker := b\<rparr>, y))),
      io_now = (\<lambda>w. (case sv_now sv (runtime w) of (t, now) \<Rightarrow> (w\<lparr>runtime := t\<rparr>, now))),
      io_json_error = sv_json_error sv\<rparr>"

definition acknowledged_letters :: "codec \<Rightarrow> string \<Rightarrow> producer_message set \<Rightarrow> dead_letter set" where
  "acknowledged_letters cd topic sent =
     {r. case enc_dead_letter cd r of
           None \<Rightarrow> False
         | Some payload \<Rightarrow> \<lparr>pm_topic = topic, pm_key = dead_letter_key r, pm_value = payload\<rparr> \<in> sent}"

lemma acknowledged_mono: "sent \<subseteq> sent' \<Longrightarrow> acknowledged_letters cd topic sent \<subseteq> acknowledged_letters cd topic sent'"
  by (auto simp: acknowledged_letters_def split: option.splits)

text \<open>
  What the code relies on of the services: an INSERT that reports no error leaves a row for
  every message id and none is ever deleted (\<open>insert_statement\<close>), and a \<open>SendMessage\<close> that
  reports no error leaves the message in the broker's log, from which nothing is removed.
\<close>

locale services_contract =
  fixes sv :: "('d, 'b, 't, 'x) services"
    and rows :: "'d \<Rightarrow> string set"
    and sent :: "'b \<Rightarrow> producer_message set"
  assumes inserts: "insert_statement (sv_insert sv ctx) rows"
    and send_keeps: "sent b \<subseteq> sent (fst (sv_send sv b m))"
    and send_acks: "snd (sv_send sv b m) = None \<Longrightarrow> m \<in> sent (fst (sv_send sv b m))"
begin

lemma dead_letter_keeps: "sent b \<subseteq> sent (fst (dead_letter_publish cd (sv_send sv) topic cancelled r b))"
proof (cases "enc_dead_letter cd r")
  case (Some payload)
  then show ?thesis
    using send_keeps [of b "\<lparr>pm_topic = topic, pm_key = dead_letter_key r, pm_value = payload\<rparr>"]
    by (auto simp: dead_letter_publish_def split: option.splits prod.splits)
qed (simp add: dead_letter_publish_def)

lemma dead_letter_acked:
  assumes "snd (dead_letter_publish cd (sv_send sv) topic cancelled r b) = None"
  shows "r \<in> acknowledged_letters cd topic
    (sent (fst (dead_letter_publish cd (sv_send sv) topic cancelled r b)))"
proof -
  obtain payload where payload: "enc_dead_letter cd r = Some payload" "\<not> cancelled"
    using assms by (auto simp: dead_letter_publish_def split: if_splits option.splits)
  obtain b' x where sending: "sv_send sv b \<lparr>pm_topic = topic, pm_key = dead_letter_key r, pm_value = payload\<rparr> = (b', x)"
    by fastforce
  then show ?thesis
    using assms payload send_acks [of b "\<lparr>pm_topic = topic, pm_key = dead_letter_key r, pm_value = payload\<rparr>"]
    by (simp add: dead_letter_publish_def acknowledged_letters_def split: option.splits)
qed

end

sublocale services_contract \<subseteq> wired: durable_io "wired_io sv cd topic" "\<lambda>w. rows (database w)"
    "\<lambda>w. acknowledged_letters cd topic (sent (broker w))" for cd topic
proof (unfold_locales, goal_cases)
  case (1 w ctx ms)
  show ?case using batch_repository.create_keeps [OF insert_statement.create_idempotent_repository [OF inserts], of "database w" ctx ms]
    by (simp add: wired_io_def split_beta)
next
  case (3 ctx ms w)
  then show ?case using batch_repository.create_stores [OF insert_statement.create_idempotent_repository [OF inserts], of ctx ms "database w"]
    by (simp add: wired_io_def split: prod.splits)
next
  case (8 publish w r)
  then show ?case using acknowledged_mono [OF dead_letter_keeps, of cd topic "broker w" cd topic "sv_done sv (runtime w)" r]
    by (auto simp: wired_io_def split_beta)
next
  case (9 publish r w)
  then show ?case using dead_letter_acked [of cd topic "sv_done sv (runtime w)" r "broker w"]
    by (auto simp: wired_io_def split_beta)
qed (auto simp: wired_io_def split: prod.splits)

context services_contract
begin

lemma wired_durable:
  "durable_io (wired_io sv cd topic) (\<lambda>w. rows (database w))
    (\<lambda>w. acknowledged_letters cd topic (sent (broker w)))"
  by (rule wired.durable_io_axioms)

end

section \<open>Attempts and recovery\<close>

text \<open>\<open>counts_inserts io calls\<close>: \<open>calls\<close> counts the calls of \<open>CreateIdempotent\<close>.\<close>

definition counts_inserts :: "('e, 'x, 'y) consumer_io \<Rightarrow> ('e \<Rightarrow> nat) \<Rightarrow> bool" where
  "counts_inserts io calls \<longleftrightarrow>
     (\<forall>ctx ms e. calls (fst (io_create io ctx ms e)) = Suc (calls e)) \<and>
     (\<forall>ctx d e. calls (fst (io_timer io ctx d e)) = calls e) \<and>
     (\<forall>e. calls (fst (io_now io e)) = calls e)"

text \<open>\<open>outage_ends io down\<close>: every insert that fails brings the end of the outage nearer, an
  insert after its end succeeds, and the session is not cancelled meanwhile.\<close>

definition outage_ends :: "('e, 'x, 'y) consumer_io \<Rightarrow> ('e \<Rightarrow> nat) \<Rightarrow> bool" where
  "outage_ends io down \<longleftrightarrow>
     (\<forall>ctx ms e. down e = 0 \<longrightarrow> snd (snd (io_create io ctx ms e)) = None \<and>
        0 \<le> fst (snd (io_create io ctx ms e)) \<and> fst (snd (io_create io ctx ms e)) \<le> int (length ms)) \<and>
     (\<forall>ctx ms e. down e \<noteq> 0 \<and> ms \<noteq> [] \<longrightarrow> down (fst (io_create io ctx ms e)) < down e) \<and>
     (\<forall>ctx ms e. down (fst (io_create io ctx ms e)) \<le> down e) \<and>
     (\<forall>ctx d e. down (fst (io_timer io ctx d e)) \<le> down e \<and> \<not> snd (io_timer io ctx d e)) \<and>
     (\<forall>e. down (fst (io_now io e)) \<le> down e)"

lemma committed_env: "env (committed io items started n c) = fst (io_now io (env c))"
  by (simp add: committed_def Let_def split_beta frame_simps)

lemma flush_failed_env: "env (fst (flush_failed io batch started c)) = fst (io_now io (env c))"
  by (simp add: flush_failed_def Let_def split_beta frame_simps)

lemma flush_failed_error: "snd (flush_failed io batch started c) = Some (Batch_failed (length batch))"
  by (simp add: flush_failed_def Let_def split_beta)

lemma attempts_counted:
  assumes "counts_inserts io calls" "attempt \<le> max_retries (handler c)"
    and "flush_attempts io ctx items batch started attempt c = (c', err)"
  shows "calls (env c) < calls (env c') \<and>
    calls (env c') \<le> calls (env c) + nat (max_retries (handler c) + 1 - attempt) \<and>
    (err = Some (Batch_failed k) \<longrightarrow>
      calls (env c') = calls (env c) + nat (max_retries (handler c) + 1 - attempt))"
  using assms(2,3)
proof (induction "nat (max_retries (handler c) - attempt)" arbitrary: attempt c)
  case 0
  obtain e n x where created: "io_create io ctx batch (env c) = (e, n, x)" by (metis prod_cases3)
  obtain e' b where waited: "io_timer io ctx (wrap64 (retry_backoff (handler c) * attempt))
      (env (count (\<lambda>h. h\<lparr>retry_attempts := retry_attempts h + 1\<rparr>) (c\<lparr>env := e\<rparr>))) = (e', b)"
    by fastforce
  have last: "attempt = max_retries (handler c)" using 0 by simp
  have "calls e = Suc (calls (env c))" using assms(1) created unfolding counts_inserts_def by (metis fst_conv)
  moreover have c': "c' = fst (flush_attempts io ctx items batch started attempt c)" using 0(3) by simp
  have "env c' = fst (io_now io e)"
    unfolding c' flush_attempts_unfold [OF 0(2) created refl refl waited, of items started]
    using last by (simp add: flush_failed_env committed_env)
  ultimately have "calls (env c') = Suc (calls (env c))"
    using assms(1) by (simp add: counts_inserts_def)
  then show ?case using last by simp
next
  case (Suc m)
  obtain e n x where created: "io_create io ctx batch (env c) = (e, n, x)" by (metis prod_cases3)
  define d where "d = c\<lparr>env := e\<rparr>"
  define d' where "d' = count (\<lambda>h. h\<lparr>retry_attempts := retry_attempts h + 1\<rparr>) d"
  obtain e' b where waited:
    "io_timer io ctx (wrap64 (retry_backoff (handler c) * attempt)) (env d') = (e', b)"
    by fastforce
  have conf: "max_retries (handler (d'\<lparr>env := e'\<rparr>)) = max_retries (handler c)"
    by (simp add: d'_def d_def count_def)
  have more: "attempt + 1 \<le> max_retries (handler c)" using Suc(2) by simp
  have e: "calls e = Suc (calls (env c))"
    using assms(1) created unfolding counts_inserts_def by (metis fst_conv)
  have e': "calls e' = Suc (calls (env c))"
    using assms(1) waited e by (simp add: counts_inserts_def d'_def d_def frame_simps) (metis fst_conv)
  consider "c' = committed io items started n d" "err = None"
    | "c' = count (\<lambda>h. h\<lparr>failed_batches := failed_batches h + 1\<rparr>) (d'\<lparr>env := e'\<rparr>)" "err = Some Context_error"
    | "flush_attempts io ctx items batch started (attempt + 1) (d'\<lparr>env := e'\<rparr>) = (c', err)"
    using Suc(4) more unfolding flush_attempts_unfold [OF Suc(3) created d_def d'_def waited, of items started]
    by (cases "x = None \<and> 0 \<le> n \<and> n \<le> int (length batch)"; cases b) auto
  then show ?case
  proof cases
    case 1
    have "calls (env c') = Suc (calls (env c))"
      using assms(1) e 1 by (simp add: committed_env d_def counts_inserts_def)
    then show ?thesis using 1 more by simp
  next
    case 2
    then show ?thesis using e' more by (simp add: frame_simps)
  next
    case 3
    have "m = nat (max_retries (handler (d'\<lparr>env := e'\<rparr>)) - (attempt + 1))"
      unfolding conf using Suc(2) by simp
    from Suc(1) [OF this _ 3] show ?thesis unfolding conf using more e' by auto
  qed
qed

lemma outage_create:
  assumes "outage_ends io down" "io_create io ctx ms e = (e', n, x)"
  shows "down e' \<le> down e" "down e = 0 \<Longrightarrow> x = None \<and> 0 \<le> n \<and> n \<le> int (length ms)"
    "down e \<noteq> 0 \<Longrightarrow> ms \<noteq> [] \<Longrightarrow> down e' < down e"
  using assms(1) unfolding outage_ends_def by (metis assms(2) fst_conv snd_conv)+

lemma outage_wait:
  "outage_ends io down \<Longrightarrow> io_timer io ctx d e = (e', b) \<Longrightarrow> down e' \<le> down e \<and> \<not> b"
  "outage_ends io down \<Longrightarrow> io_now io e = (e', t) \<Longrightarrow> down e' \<le> down e"
  unfolding outage_ends_def by (metis fst_conv snd_conv)+

lemma attempts_not_worse:
  fixes io :: "('e, 'x, 'y) consumer_io"
  assumes "outage_ends io down"
  shows "down (env (fst (flush_attempts io ctx items batch started attempt c))) \<le> down (env c)"
proof -
  have now: "down (fst (io_now io e)) \<le> down e" for e using outage_wait(2) [OF assms] by (metis prod.collapse)
  let ?P = "\<lambda>c r. down (env (fst r)) \<le> down (env c)"
  show ?thesis
  proof (rule flush_attempts_rule [of ?P])
    fix c :: "'e claim" and e n assume "io_create io ctx batch (env c) = (e, n, None)"
    then show "?P c (committed io items started n (c\<lparr>env := e\<rparr>), None)"
      using outage_create(1) [OF assms] now [of e] by (fastforce simp: committed_env)
  next
    fix c :: "'e claim" and e n x r assume "io_create io ctx batch (env c) = (e, n, x)" "?P (c\<lparr>env := e\<rparr>) r"
    then show "?P c r" using outage_create(1) [OF assms] by fastforce
  next
    fix c :: "'e claim" and d e b r assume "io_timer io ctx d (env c) = (e, b)" "?P (c\<lparr>env := e\<rparr>) r"
    then show "?P c r" using outage_wait(1) [OF assms] by fastforce
  qed (simp_all add: flush_failed_env now frame_simps)
qed


lemma attempts_progress:
  assumes "outage_ends io down" "1 \<le> max_retries (handler c)" "batch \<noteq> []"
  shows "snd (flush_attempts io ctx items batch started 1 c) = None \<or>
    down (env (fst (flush_attempts io ctx items batch started 1 c))) < down (env c)"
proof (cases "down (env c) = 0")
  case True
  obtain e n x where created: "io_create io ctx batch (env c) = (e, n, x)" by (metis prod_cases3)
  have "x = None \<and> 0 \<le> n \<and> n \<le> int (length batch)"
    by (rule outage_create(2) [OF assms(1) created True])
  then show ?thesis using assms(2) created by (subst flush_attempts.simps) (simp add: flush_attempts.simps Let_def)
next
  case False
  obtain e n x where created: "io_create io ctx batch (env c) = (e, n, x)" by (metis prod_cases3)
  have less: "down e < down (env c)" by (rule outage_create(3) [OF assms(1) created False assms(3)])
  have now: "down (fst (io_now io e)) \<le> down e" for e using outage_wait(2) [OF assms(1)] by (metis prod.collapse)
  define d where "d = c\<lparr>env := e\<rparr>"
  define d' where "d' = count (\<lambda>h. h\<lparr>retry_attempts := retry_attempts h + 1\<rparr>) d"
  obtain e' b where waited: "io_timer io ctx (wrap64 (retry_backoff (handler c) * 1)) (env d') = (e', b)"
    by fastforce
  have e': "down e' \<le> down e" using outage_wait(1) [OF assms(1) waited] by (simp add: d'_def d_def frame_simps)
  have "down (env (fst (flush_attempts io ctx items batch started (1 + 1) (d'\<lparr>env := e'\<rparr>)))) \<le> down e'"
    using attempts_not_worse [OF assms(1), of ctx items batch started "1 + 1" "d'\<lparr>env := e'\<rparr>"] by simp
  then show ?thesis
    unfolding flush_attempts_unfold [OF assms(2) created d_def d'_def waited, of items started]
    using less e' now [of e]
    by (simp add: committed_env flush_failed_env frame_simps d_def)
qed

lemma pending_progress:
  assumes "outage_ends io down" "1 \<le> max_retries (handler c)" "flush_pending io ctx items c = (d, Some y)"
  shows "down (env d) < down (env c) \<and> max_retries (handler d) = max_retries (handler c)"
proof -
  have ne: "items \<noteq> []" using assms(3) by (auto simp: flush_pending_def)
  have at: "flush_attempts io ctx items (unique_batch items) (snd (read_clock io c)) 1 (fst (read_clock io c)) = (d, Some y)"
    using assms(3) ne by (simp add: flush_pending_def Let_def split_beta)
  have "down (env (fst (read_clock io c))) \<le> down (env c)"
    using outage_wait(2) [OF assms(1)] by (metis frame_simps(8) prod.collapse)
  moreover have "down (env d) < down (env (fst (read_clock io c)))"
    using attempts_progress [OF assms(1), of "fst (read_clock io c)" "unique_batch items" ctx items "snd (read_clock io c)"]
      at assms(2) unique_batch_nonempty [OF ne] by (simp add: frame_simps)
  ultimately show ?thesis
    using flush_pending_flushed [OF assms(3)] by (simp add: flushed_def untouched_def configuration_def)
qed

lemma recovery_loop_ends:
  assumes "outage_ends io down"
  shows "1 \<le> max_retries (handler c) \<Longrightarrow> \<exists>d. recovery_loop io items backoff c = Some (d, None)"
proof (induction "down (env c)" arbitrary: c backoff rule: less_induct)
  case less
  obtain e b where waited: "io_timer io Session_ctx backoff (env c) = (e, b)" by fastforce
  obtain d y where flush: "flush_pending io Session_ctx items (c\<lparr>env := e\<rparr>) = (d, y)" by fastforce
  have e: "down e \<le> down (env c)" "\<not> b" using outage_wait(1) [OF assms waited] by simp_all
  show ?case
  proof (cases y)
    case None
    then show ?thesis by (subst recovery_loop.simps) (simp add: waited flush e Let_def)
  next
    case (Some z)
    have d: "down (env d) < down e" "max_retries (handler d) = max_retries (handler c)"
      using pending_progress [OF assms _ flush [unfolded Some]] less.prems by simp_all
    then have "\<exists>f. recovery_loop io items (grow_backoff backoff (recovery_max (handler d))) d = Some (f, None)"
      using less.prems e by (intro less.hyps) simp_all
    then show ?thesis using Some by (subst recovery_loop.simps) (simp add: waited flush e Let_def)
  qed
qed

lemma flush_with_recovery_ends:
  assumes "outage_ends io down" "1 \<le> max_retries (handler c)"
  shows "\<exists>d. flush_with_recovery io items c = Some (d, None)"
proof -
  obtain d y where flush: "flush_pending io Session_ctx items c = (d, y)" by fastforce
  show ?thesis
  proof (cases y)
    case None
    then show ?thesis by (simp add: flush_with_recovery_def flush)
  next
    case (Some z)
    define d' where "d' = count (\<lambda>h. h\<lparr>pause_events := pause_events h + 1,
        paused_partitions := paused_partitions h + 1\<rparr>) d"
    obtain f started where clock: "read_clock io d' = (f, started)" by fastforce
    have "handler f = handler d'" using frame_simps(7) [of io d'] clock by simp
    then have "1 \<le> max_retries (handler f)"
      using pending_progress [OF assms flush [unfolded Some]] assms(2) by (simp add: d'_def frame_simps)
    from recovery_loop_ends [OF assms(1) this] obtain g
      where "recovery_loop io items (recovery_min (handler f)) f = Some (g, None)" by blast
    then show ?thesis using Some by (simp add: flush_with_recovery_def flush Let_def d'_def [symmetric] clock)
  qed
qed

section \<open>A database that is down and comes back\<close>

text \<open>The services of the witnesses: a table whose next inserts fail, as many as there are
  units in its list, a broker with a log, and a clock that the timers advance.\<close>

definition table_insert ::
  "danmaku list \<Rightarrow> unit list \<times> danmaku list \<Rightarrow> (unit list \<times> danmaku list) \<times> int \<times> string option" where
  "table_insert ms db =
     (case db of
        (_ # down, tbl) \<Rightarrow> ((down, tbl), 0, Some ''connection refused'')
      | ([], tbl) \<Rightarrow>
          (let new = filter (\<lambda>d. message_id d \<notin> message_id ` set tbl) ms
           in (([], tbl @ new), int (length new), None)))"

definition memory_services ::
  "(unit list \<times> danmaku list, producer_message list, time, string) services" where
  "memory_services =
     \<lparr>sv_insert = (\<lambda>ctx ms n db. table_insert ms db), sv_send = (\<lambda>sent m. (sent @ [m], None)),
      sv_timer = (\<lambda>ctx d t. (t + d, False)), sv_now = (\<lambda>t. (t, t)), sv_done = (\<lambda>t. False),
      sv_json_error = (\<lambda>text. ''invalid character'')\<rparr>"

interpretation memory: services_contract memory_services "\<lambda>db. message_id ` set (snd db)" set
proof (unfold_locales, goal_cases)
  case (1 ctx db ms n)
  show ?case by (auto simp: memory_services_def table_insert_def Let_def split: prod.split list.split)
next
  case (2 ctx ms n db)
  then show ?case by (auto simp: memory_services_def table_insert_def Let_def split: prod.splits list.splits)
qed (auto simp: memory_services_def)

definition tagged_codec :: codec where
  "tagged_codec = plain_codec
     \<lparr>dec_packet := (\<lambda>s. case s of
            CHR ''d'' # rest \<Rightarrow> Some \<lparr>packet_type = 101, packet_room_id = ''r'', packet_data = rest\<rparr>
          | CHR ''s'' # rest \<Rightarrow> Some \<lparr>packet_type = 102, packet_room_id = ''r'', packet_data = rest\<rparr>
          | _ \<Rightarrow> None),
      dec_danmaku := (\<lambda>s. Some (sample_danmaku\<lparr>message_id := s\<rparr>))\<rparr>"

definition kafka_record :: "int \<Rightarrow> string \<Rightarrow> consumer_message" where
  "kafka_record i v =
     \<lparr>msg_topic = ''t'', msg_partition = 0, msg_offset = i, msg_key = ''r'', msg_value = v\<rparr>"

definition demo_config :: consumer_config where
  "demo_config =
     \<lparr>cc_batch_size = 2, cc_flush_interval = 0, cc_flush_timeout = 0, cc_max_retries = 2,
      cc_retry_backoff = 0, cc_recovery_min = 0, cc_recovery_max = 0\<rparr>"

definition demo_events :: "claim_event list" where
  "demo_events =
     [Message (kafka_record 0 ''dm1''), Message (kafka_record 1 ''dm1''),
      Message (kafka_record 2 ''s''), Message (kafka_record 3 ''x''), Tick]"

definition demo_io :: "((unit list \<times> danmaku list, producer_message list, time) world, string, string dlq_error) consumer_io" where
  "demo_io = wired_io memory_services tagged_codec ''dlq''"

definition demo_world :: "(unit list \<times> danmaku list, producer_message list, time) world" where
  "demo_world = \<lparr>database = ([(), (), ()], []), broker = [], runtime = 0\<rparr>"

lemma parse_tagged:
  "parse_message tagged_codec (kafka_record i ''dm1'') = Inr (sample_danmaku\<lparr>message_id := ''m1''\<rparr>)"
  "parse_message tagged_codec (kafka_record i ''s'') = Inl (Unsupported 102)"
  "parse_message tagged_codec (kafka_record i ''x'') = Inl (Bad_packet ''x'')"
  by (simp add: parse_message_Inr tagged_codec_def kafka_record_def type_danmaku_def
      sample_danmaku_def plain_codec_def storable_def rune_count_ascii ascii_def trim_space_ascii
      year_of_def year_of_day_def Let_def byte_def is_space_def)
    (simp_all add: parse_message_def tagged_codec_def kafka_record_def type_danmaku_def)

lemma enc_tagged: "enc_dead_letter tagged_codec r = Some (dl_reason r)"
  by (simp add: tagged_codec_def plain_codec_def)

lemmas claim_evaluation = consume_message_def flush_and_clear_def flush_with_recovery_def
  flush_pending_def flush_attempts.simps flush_failed_def committed_def recovery_loop.simps
  unique_batch_def read_clock_def mark_all_def mark_message_def count_def resume_partition_def
  publish_dead_letter_def dispose_invalid_def add_pending_def clear_pending_def new_claim_def
  new_handler_def or_default_def Let_def

lemmas demo_evaluation = parse_tagged enc_tagged demo_config_def sample_danmaku_def wired_io_def
  memory_services_def table_insert_def create_idempotent_def dead_letter_publish_def

lemma demo_run:
  "\<exists>c. consume_claim demo_io tagged_codec demo_events (new_claim (new_handler demo_config) demo_world)
       = Some (c, Running) \<and>
     marks c = [(kafka_record 0 ''dm1'', Mysql_committed), (kafka_record 1 ''dm1'', Mysql_committed),
       (kafka_record 2 ''s'', Unsupported_packet), (kafka_record 3 ''x'', Stored_in_dlq)] \<and>
     pending c = []"
  by (simp add: demo_io_def demo_world_def demo_events_def demo_evaluation claim_evaluation)

lemma demo_outage_ends: "outage_ends demo_io (\<lambda>w. length (fst (database w)))"
  by (auto simp: outage_ends_def demo_io_def wired_io_def memory_services_def create_idempotent_def
      table_insert_def Let_def length_filter_le split: prod.splits list.splits)

definition demo_pending :: "pending_message list" where
  "demo_pending = [\<lparr>pm_danmaku = sample_danmaku, pm_message = kafka_record 0 ''dm1''\<rparr>]"

text \<open>An environment that counts its inserts, all of which fail.\<close>

definition failing_io :: "(nat, unit, unit) consumer_io" where
  "failing_io =
     \<lparr>io_create = (\<lambda>ctx ms n. (Suc n, 0, Some ())), io_timer = (\<lambda>ctx d n. (n, False)),
      io_publish = None, io_now = (\<lambda>n. (n, 0)), io_json_error = (\<lambda>s. s)\<rparr>"

section \<open>Properties\<close>

lemma new_claim_inv: "claim_inv (parse_message cd) [] (new_claim (new_handler cfg) e)"
  by (simp add: claim_inv_def new_claim_def books_balance_def new_handler_def Let_def)

lemma new_handler_room: "room_left (new_claim (new_handler cfg) e)" "0 < batch_size (new_handler cfg)"
  by (simp_all add: room_left_def new_claim_def new_handler_def or_default_def Let_def)

lemma handler_new_claim [simp]: "handler (new_claim h e) = h" "marks (new_claim h e) = []"
  "pending (new_claim h e) = []" "env (new_claim h e) = e"
  by (simp_all add: new_claim_def)

lemma consume_claim_new:
  assumes "consume_claim io cd evs (new_claim (new_handler cfg) e) = Some (c, out)"
  shows "\<exists>used. prefix used evs \<and> claim_result (parse_message cd) (received used) c out \<and> (out = Running \<longrightarrow> used = evs)"
  using consume_claim_result [OF assms new_claim_inv new_handler_room(1)] new_handler_room(2) by simp

text \<open>C1: Whatever the schedule of messages, ticks, cancellation, database failures and
  recoveries, a claim marks only messages that are durable: a message marked as committed has
  its row in MySQL, one marked as dead-lettered has an acknowledged record in the dead-letter
  topic that carries its topic, partition, offset, key, value and the reason, and the only
  other marks are on well-formed packets that are not danmaku.\<close>

theorem marked_is_durable:
  assumes "services_contract sv rows sent"
    and "consume_claim (wired_io sv cd topic) cd evs (new_claim (new_handler cfg) w) = Some (c, out)"
    and "mr \<in> set (marks c)"
  shows "durable_mark cd (sv_json_error sv) (rows (database (env c)))
    (acknowledged_letters cd topic (sent (broker (env c)))) mr"
proof -
  have io: "durable_io (wired_io sv cd topic) (\<lambda>w. rows (database w))
      (\<lambda>w. acknowledged_letters cd topic (sent (broker w)))"
    by (rule services_contract.wired_durable [OF assms(1)])
  have "durable_io.durable (wired_io sv cd topic) (\<lambda>w. rows (database w))
      (\<lambda>w. acknowledged_letters cd topic (sent (broker w))) cd c"
    by (rule durable_io.consume_claim_durable [OF io assms(2) new_claim_inv])
      (simp_all add: durable_io.durable_def [OF io] new_handler_room)
  moreover have "io_json_error (wired_io sv cd topic) = sv_json_error sv" by (simp add: wired_io_def)
  ultimately show ?thesis using assms(3) by (simp add: durable_io.durable_def [OF io])
qed

theorem marked_is_durable_witness:
  "\<exists>c. consume_claim demo_io tagged_codec demo_events (new_claim (new_handler demo_config) demo_world)
         = Some (c, Running) \<and>
       message_id (sample_danmaku\<lparr>message_id := ''m1''\<rparr>) \<in> message_id ` set (snd (database (env c))) \<and>
       (\<exists>l\<in>acknowledged_letters tagged_codec ''dlq'' (set (broker (env c))). source_offset l = 3)"
proof -
  obtain c where c: "consume_claim demo_io tagged_codec demo_events
      (new_claim (new_handler demo_config) demo_world) = Some (c, Running)"
    "(kafka_record 0 ''dm1'', Mysql_committed) \<in> set (marks c)"
    "(kafka_record 3 ''x'', Stored_in_dlq) \<in> set (marks c)"
    using demo_run by auto
  note d = marked_is_durable [OF memory.services_contract_axioms c(1) [unfolded demo_io_def]]
  have "message_id (sample_danmaku\<lparr>message_id := ''m1''\<rparr>) \<in> message_id ` set (snd (database (env c)))"
    using d [OF c(2)] by (simp add: durable_mark_def parse_tagged)
  moreover have "\<exists>l\<in>acknowledged_letters tagged_codec ''dlq'' (set (broker (env c))).
      source_offset l = msg_offset (kafka_record 3 ''x'')"
    using d [OF c(3)] by (auto simp: durable_mark_def parse_tagged)
  ultimately show ?thesis using c(1) by (simp add: kafka_record_def)
qed

text \<open>C2: The marks of a claim are, in order and without a gap, the messages it received: while
  the claim runs, the marked messages followed by the pending ones are exactly the messages
  received, and fewer than a batch are pending; when it returns without error every message
  received has been marked, and when it returns with an error the marks are a prefix of them.\<close>

theorem marks_follow_reception:
  assumes "consume_claim io cd evs (new_claim (new_handler cfg) e) = Some (c, out)"
  shows "case out of
      Running \<Rightarrow> map fst (marks c) @ map pm_message (pending c) = received evs \<and>
        int (length (pending c)) < batch_size (handler c)
    | Returned err \<Rightarrow> (\<exists>used. prefix used evs \<and> prefix (map fst (marks c)) (received used) \<and>
        (err = None \<longrightarrow> map fst (marks c) = received used))"
  using consume_claim_new [OF assms]
  by (cases out) (auto simp: claim_result_def claim_inv_def room_left_def)

theorem marks_follow_reception_witness:
  "\<exists>c. consume_claim demo_io tagged_codec demo_events (new_claim (new_handler demo_config) demo_world)
         = Some (c, Running) \<and>
       map fst (marks c) @ map pm_message (pending c) =
         [kafka_record 0 ''dm1'', kafka_record 1 ''dm1'', kafka_record 2 ''s'', kafka_record 3 ''x'']"
proof -
  obtain c where c: "consume_claim demo_io tagged_codec demo_events
      (new_claim (new_handler demo_config) demo_world) = Some (c, Running)"
    using demo_run by blast
  then show ?thesis using marks_follow_reception [OF c] by (simp add: demo_events_def)
qed

text \<open>C24: The counters of a running claim account for every message: each one received is
  counted once, as saved, skipped, dead-lettered or pending; parsed is saved plus pending, and
  saved splits into inserted rows and duplicates.\<close>

theorem counters_account_for_messages:
  assumes "consume_claim io cd evs (new_claim (new_handler cfg) e) = Some (c, Running)"
  shows "let h = handler c
    in of_nat (length (received evs)) =
         saved h + skipped h + dead_letter_count h + of_nat (length (pending c)) \<and>
       parsed h = saved h + of_nat (length (pending c)) \<and>
       saved h = inserted h + duplicates h"
proof -
  have inv: "claim_inv (parse_message cd) (received evs) c"
    using consume_claim_new [OF assms] by (auto simp: claim_result_def)
  have "length (received evs) = length (marks c) + length (pending c)"
    using inv by (auto simp: claim_inv_def dest: arg_cong [of _ _ length])
  then show ?thesis using inv by (simp add: claim_inv_def books_balance_def Let_def)
qed

theorem counters_account_for_messages_witness:
  "\<exists>c. consume_claim demo_io tagged_codec demo_events (new_claim (new_handler demo_config) demo_world)
         = Some (c, Running) \<and>
       saved (handler c) + skipped (handler c) + dead_letter_count (handler c) = 4"
proof -
  obtain c where c: "consume_claim demo_io tagged_codec demo_events
      (new_claim (new_handler demo_config) demo_world) = Some (c, Running)" "pending c = []"
    using demo_run by blast
  have "length (received demo_events) = 4" by (simp add: demo_events_def)
  then have "saved (handler c) + skipped (handler c) + dead_letter_count (handler c) = 4"
    using conjunct1 [OF counters_account_for_messages [OF c(1), unfolded Let_def]] c(2) by simp
  then show ?thesis using c(1) by blast
qed

text \<open>\<open>parseMessage\<close> accepts a message exactly when it is a danmaku packet whose message,
  room and user ids are not blank, whose send time is set and whose fields fit the columns of
  the MySQL table; what it accepts is what the JSON says.\<close>

theorem parse_accepts_storable_danmaku:
  "parse_message cd msg = Inr d \<longleftrightarrow>
     (\<exists>p. dec_packet cd (msg_value msg) = Some p \<and> packet_type p = type_danmaku \<and>
          dec_danmaku cd (packet_data p) = Some d) \<and>
     trim_space (message_id d) \<noteq> [] \<and> trim_space (room_id d) \<noteq> [] \<and>
     trim_space (user_id d) \<noteq> [] \<and> instant (send_time d) \<noteq> 0 \<and> storable d"
  by (rule parse_message_Inr)

text \<open>\<open>uniqueBatch\<close> keeps the first message of every message id and nothing else: the ids
  of the batch are distinct, they are the ids of the pending messages, and the batch is in
  the order of the pending messages.\<close>

theorem unique_batch_keeps_first:
  "distinct (map message_id (unique_batch items)) \<and>
   set (map message_id (unique_batch items)) = message_id ` pm_danmaku ` set items \<and>
   subseq (unique_batch items) (map pm_danmaku items)"
  using unique_batch_ids [of items] unique_from_distinct [of "[]"] unique_from_sublist [of "[]"]
  by (simp add: unique_batch_def)

text \<open>The wait before the \<open>n\<close>-th recovery attempt is the minimum doubled \<open>n\<close> times and
  capped by the maximum.\<close>

theorem recovery_backoff_doubles:
  assumes "0 < b" "b \<le> m" "m \<le> 2 ^ 62"
  shows "((\<lambda>d. grow_backoff d m) ^^ n) b = min (2 ^ n * b) m"
proof (induction n)
  case (Suc n)
  have "0 < min (2 ^ n * b) m" using assms by simp
  then have "grow_backoff (min (2 ^ n * b) m) m = min (2 * min (2 ^ n * b) m) m"
    using assms by (intro grow_backoff_min) auto
  then show ?case using Suc assms by (auto simp: min_def)
qed (use assms in simp)

theorem recovery_backoff_doubles_witness:
  "((\<lambda>d. grow_backoff d (30 * second)) ^^ 4) second = 16 * second"
  using recovery_backoff_doubles [of "second" "30 * second" 4] by simp

text \<open>C13: A partition paused by a database outage resumes: when the session is not cancelled and
  the outage ends after finitely many failed inserts, \<open>flushWithRecovery\<close> returns without error
  and every pending message has been marked, however long the outage was.\<close>

theorem outage_is_survived:
  assumes "outage_ends io down" "1 \<le> max_retries (handler c)"
  shows "\<exists>d. flush_with_recovery io items c = Some (d, None) \<and>
    marks d = marks c @ map (\<lambda>i. (pm_message i, Mysql_committed)) items"
proof -
  obtain d where d: "flush_with_recovery io items c = Some (d, None)"
    using flush_with_recovery_ends [OF assms] by blast
  then show ?thesis using flush_with_recovery_flushed [OF d] by (simp add: flushed_def)
qed

theorem outage_is_survived_witness:
  "\<exists>d. flush_with_recovery demo_io demo_pending (new_claim (new_handler demo_config) demo_world) = Some (d, None) \<and>
    marks d = [(kafka_record 0 ''dm1'', Mysql_committed)]"
  using outage_is_survived [OF demo_outage_ends, of "new_claim (new_handler demo_config) demo_world" demo_pending]
  by (simp add: demo_pending_def new_handler_def or_default_def demo_config_def Let_def)

text \<open>A flush of a non-empty batch calls \<open>CreateIdempotent\<close> at least once and at most
  \<open>MaxRetries\<close> times, and it reports the batch as failed only after exactly that many calls.\<close>

theorem flush_tries_at_most_max_retries:
  assumes "counts_inserts io calls" "1 \<le> max_retries (handler c)" "items \<noteq> []"
    and "flush_pending io ctx items c = (c', err)"
  shows "calls (env c) < calls (env c') \<and> calls (env c') \<le> calls (env c) + nat (max_retries (handler c)) \<and>
    (err = Some (Batch_failed k) \<longrightarrow> calls (env c') = calls (env c) + nat (max_retries (handler c)))"
proof -
  have "flush_attempts io ctx items (unique_batch items) (snd (read_clock io c)) 1 (fst (read_clock io c)) = (c', err)"
    using assms(3,4) by (simp add: flush_pending_def Let_def split_beta)
  from attempts_counted [OF assms(1) _ this, of k] show ?thesis
    using assms(1,2) by (simp add: frame_simps counts_inserts_def)
qed

theorem flush_tries_at_most_max_retries_witness:
  "env (fst (flush_pending failing_io Session_ctx demo_pending (new_claim (new_handler demo_config) 0))) = 2"
proof -
  obtain c' err where fp: "flush_pending failing_io Session_ctx demo_pending
      (new_claim (new_handler demo_config) 0) = (c', err)" by fastforce
  have retries: "max_retries (new_handler demo_config) = 2"
    by (simp add: new_handler_def or_default_def demo_config_def Let_def)
  have counts: "counts_inserts failing_io (\<lambda>n. n)" by (simp add: counts_inserts_def failing_io_def)
  have "err = Some (Batch_failed 1)"
    using fp by (simp add: failing_io_def demo_pending_def demo_config_def claim_evaluation)
  then show ?thesis
    using flush_tries_at_most_max_retries [OF counts _ _ fp, of 1] retries fp
    by (simp add: demo_pending_def)
qed

end
