(* ===== verification/Client.thy ===== *)
theory Client
  imports Realtime Auth Delivery
begin

text \<open>
  A connection of the realtime server, \<open>v10/internal/ws/client.go\<close> and \<open>handler.go\<close>: the
  admission of a WebSocket request, the read pump with its two kinds of message, and the
  control messages that answer a client. The goroutines beside a read pump run between its
  messages: each input carries what they did to the manager since the previous one.
\<close>

section \<open>Messages from a client\<close>

definition max_message_bytes :: nat where "max_message_bytes = 4 * 1024"
definition max_danmaku_runes :: nat where "max_danmaku_runes = 200"
definition max_like_count :: u64 where "max_like_count = 20"

text \<open>The readings of the clock while one message is handled.\<close>

record moment =
  mo_limiter :: time
  mo_millis :: nat
  mo_now :: zoned_time

definition reason_text :: "reason \<Rightarrow> string" where
  "reason_text r = (case r of ReasonNone \<Rightarrow> [] | ReasonUser \<Rightarrow> ''user'' | ReasonRoom \<Rightarrow> ''room'')"

definition send_control ::
  "('p, 'r, 'x) ports \<Rightarrow> string \<Rightarrow> string \<Rightarrow> string \<Rightarrow> int \<Rightarrow> nat \<Rightarrow> ('p, 'r) manager \<Rightarrow> ('p, 'r) manager" where
  "send_control pt code action scope retry a m =
     (case enc_control (pt_codec pt)
             \<lparr>ctl_code = code, ctl_action = action, ctl_scope = scope, retry_after_millis = retry\<rparr> of
        None \<Rightarrow> m
      | Some data \<Rightarrow>
          (case enc_packet (pt_codec pt)
                  \<lparr>packet_type = type_control, packet_room_id = cl_room (client_at m a), packet_data = data\<rparr> of
             None \<Rightarrow> m
           | Some payload \<Rightarrow> push_control a payload m))"

definition handle_danmaku ::
  "('p, 'r, 'x) ports \<Rightarrow> moment \<Rightarrow> nat \<Rightarrow> string \<Rightarrow> ('p, 'r) manager \<Rightarrow> ('p, 'r) manager" where
  "handle_danmaku pt mo a data m =
     (case dec_danmaku (pt_codec pt) data of
        None \<Rightarrow> m
      | Some input \<Rightarrow>
          (let text = trim_space (content input)
           in if text = [] then m
              else if rune_count text > max_danmaku_runes
              then send_control pt ''content_too_long'' ''danmaku'' ''user'' 0 a m
              else
                (let c = client_at m a;
                     (m, mid) = next_message_id (mo_millis mo) m;
                     full = \<lparr>db_id = 0, message_id = mid, room_id = cl_room c, user_id = cl_user c,
                             username = cl_name c, content = text, send_time = mo_now mo,
                             client_sent_at_unix_nano = client_sent_at_unix_nano input\<rparr>
                 in (case enc_danmaku (pt_codec pt) full of
                       None \<Rightarrow> m
                     | Some payload \<Rightarrow>
                         (case submit_danmaku pt full payload m of
                            (m, True) \<Rightarrow> m
                          | (m, False) \<Rightarrow>
                              send_control pt ''server_overloaded'' ''danmaku'' ''server'' 1000 a m)))))"

definition like_of :: "codec \<Rightarrow> string \<Rightarrow> u64" where
  "like_of cd data =
     (let n = (if data = [] then 0
               else (case dec_like cd data of None \<Rightarrow> 1 | Some l \<Rightarrow> like_count l));
          n = (if n = 0 then 1 else n)
      in if n > max_like_count then max_like_count else n)"

definition handle_like ::
  "('p, 'r, 'x) ports \<Rightarrow> nat \<Rightarrow> string \<Rightarrow> ('p, 'r) manager \<Rightarrow> ('p, 'r) manager" where
  "handle_like pt a data m = add_like (cl_room (client_at m a)) (like_of (pt_codec pt) data) m"

definition read_message ::
  "('p, 'r, 'x) ports \<Rightarrow> moment \<Rightarrow> nat \<Rightarrow> string \<Rightarrow> ('p, 'r) manager \<Rightarrow> ('p, 'r) manager" where
  \<comment> \<open>one round of \<open>ReadPump\<close>\<close>
  "read_message pt mo a raw m =
     (case dec_packet (pt_codec pt) raw of
        None \<Rightarrow> m
      | Some p \<Rightarrow>
          (let c = client_at m a
           in if packet_type p = type_danmaku
              then
                (case manager_allow_danmaku (mo_limiter mo) (cl_room c) (cl_user c) m of
                   (m, False, why) \<Rightarrow> send_control pt ''rate_limited'' ''danmaku'' (reason_text why) 1000 a m
                 | (m, True, _) \<Rightarrow> handle_danmaku pt mo a (packet_data p) m)
              else if packet_type p = action_like
              then
                (case manager_allow_like (mo_limiter mo) (cl_room c) (cl_user c) m of
                   (m, False, why) \<Rightarrow> send_control pt ''rate_limited'' ''like'' (reason_text why) 1000 a m
                 | (m, True, _) \<Rightarrow> handle_like pt a (packet_data p) m)
              else m))"

record ('p, 'r) ws_input =
  in_others :: "('p, 'r) manager \<Rightarrow> ('p, 'r) manager"
  in_moment :: moment
  in_raw :: string

definition end_read_pump :: "nat \<Rightarrow> ('p, 'r) manager \<Rightarrow> ('p, 'r) manager" where
  "end_read_pump a m =
     (let m = handle_unregister a m in set_client a (client_close (client_at m a)) m)"

fun read_pump ::
  "('p, 'r, 'x) ports \<Rightarrow> nat \<Rightarrow> ('p, 'r) ws_input list \<Rightarrow> ('p, 'r) manager \<Rightarrow> ('p, 'r) manager" where
  \<comment> \<open>after the inputs, or at a message over the limit, \<open>ReadMessage\<close> gives an error\<close>
  "read_pump pt a [] m = end_read_pump a m"
| "read_pump pt a (i # is) m =
     (if length (in_raw i) > max_message_bytes then end_read_pump a (in_others i m)
      else read_pump pt a is (read_message pt (in_moment i) a (in_raw i) (in_others i m)))"

section \<open>Admission\<close>

definition remote_ip :: "http_request \<Rightarrow> string" where
  "remote_ip r =
     (case split_host_port (rq_remote_addr r) of
        Some (host, port) \<Rightarrow> if host \<noteq> [] then host else rq_remote_addr r
      | None \<Rightarrow> rq_remote_addr r)"

definition ws_identity ::
  "('x auth_ports \<times> service) option \<Rightarrow> bool \<Rightarrow> time \<Rightarrow> http_request \<Rightarrow>
   http_response + string \<times> string \<times> string" where
  \<comment> \<open>who connects to which room, or the refusal: user id, name, room\<close>
  "ws_identity auth require now r =
     (let user = trim_space (rq_query r ''uid'');
          name = trim_space (rq_query r ''name'');
          room = trim_space (rq_query r ''room'');
          who = (case auth of
                   None \<Rightarrow> Inr (user, name)
                 | Some (ap, s) \<Rightarrow>
                     (case claims_from_request ap s now r of
                        Inr c \<Rightarrow> Inr (cm_user_id c, cm_username c)
                      | Inl e \<Rightarrow>
                          if require \<or> e \<noteq> Missing_token then Inl (http_error ''unauthorized'' 401)
                          else Inr (user, name)))
      in (case who of
            Inl refusal \<Rightarrow> Inl refusal
          | Inr (user, name) \<Rightarrow>
              if user = [] \<or> room = [] then Inl (http_error ''missing uid or room'' 400)
              else
                (let name = (if name = [] then user else name)
                 in if rune_count user > max_user_id_runes \<or> rune_count name > max_username_runes \<or>
                       rune_count room > max_room_id_runes
                    then Inl (http_error ''uid, name, or room is too long'' 400)
                    else Inr (user, name, room))))"

definition serve_ws_with_auth ::
  "('p, 'r, 'x) ports \<Rightarrow> ('y auth_ports \<times> service) option \<Rightarrow> bool \<Rightarrow> time \<Rightarrow> http_request \<Rightarrow> bool \<Rightarrow> nat \<Rightarrow>
   ('p, 'r) ws_input list \<Rightarrow> ('p, 'r) manager \<Rightarrow> ('p, 'r) manager \<times> http_response option" where
  \<comment> \<open>\<open>upgraded\<close>: the upgrade succeeds; \<open>a\<close>: the address of the new client. There is no response
    when the upgrade was attempted: the upgrader has answered.\<close>
  "serve_ws_with_auth pt auth require now r upgraded a inputs m =
     (case ws_identity auth require now r of
        Inl refusal \<Rightarrow> (m, Some refusal)
      | Inr (user, name, room) \<Rightarrow>
          (case manager_acquire (remote_ip r) m of
             (m, None) \<Rightarrow>
               (m, Some ((http_error ''connection limit reached'' 429)\<lparr>rs_headers := [(''Retry-After'', ''1'')]\<rparr>))
           | (m, Some release) \<Rightarrow>
               if \<not> upgraded then (manager_release release m, None)
               else
                 (let m = handle_register a (set_client a (new_client user name room) m)
                  in (manager_release release (read_pump pt a inputs m), None))))"

definition serve_ws ::
  "('p, 'r, 'x) ports \<Rightarrow> time \<Rightarrow> http_request \<Rightarrow> bool \<Rightarrow> nat \<Rightarrow> ('p, 'r) ws_input list \<Rightarrow> ('p, 'r) manager \<Rightarrow>
   ('p, 'r) manager \<times> http_response option" where
  "serve_ws pt now r upgraded a inputs m =
     serve_ws_with_auth pt (None :: (unit auth_ports \<times> service) option) False now r upgraded a inputs m"

section \<open>What a message leaves alone\<close>

lemma push_control_frame [frame_simps]:
  "persister (push_control a x m) = persister m" "broadcast_q (push_control a x m) = broadcast_q m"
  "local_likes (push_control a x m) = local_likes m" "counters (push_control a x m) = counters m"
  "traffic (push_control a x m) = traffic m" "local_like_totals (push_control a x m) = local_like_totals m"
  by (auto simp: push_control_def set_client_def split: option.split)

lemma send_control_frame [frame_simps]:
  "persister (send_control pt x y z k a m) = persister m" "broadcast_q (send_control pt x y z k a m) = broadcast_q m"
  "local_likes (send_control pt x y z k a m) = local_likes m" "counters (send_control pt x y z k a m) = counters m"
  "traffic (send_control pt x y z k a m) = traffic m"
  "local_like_totals (send_control pt x y z k a m) = local_like_totals m"
  by (auto simp: send_control_def frame_simps split: option.split)

lemma allow_frame:
  "manager_allow_danmaku t room u m = (m', b, w) \<Longrightarrow>
     persister m' = persister m \<and> broadcast_q m' = broadcast_q m \<and> client_at m' = client_at m \<and>
     message_ids m' = message_ids m \<and> local_likes m' = local_likes m \<and>
     local_like_totals m' = local_like_totals m \<and> counters m' = counters m"
  "manager_allow_like t room u m = (m', b, w) \<Longrightarrow>
     persister m' = persister m \<and> broadcast_q m' = broadcast_q m \<and> client_at m' = client_at m \<and>
     message_ids m' = message_ids m \<and> local_likes m' = local_likes m \<and>
     local_like_totals m' = local_like_totals m \<and> counters m' = counters m"
  by (auto simp: manager_allow_danmaku_def manager_allow_like_def split: option.splits prod.splits)

lemma add_like_frame [frame_simps]:
  "persister (add_like room k m) = persister m" "broadcast_q (add_like room k m) = broadcast_q m"
  by (simp_all add: add_like_def Let_def bump_def)

definition danmaku_from :: "moment \<Rightarrow> nat \<Rightarrow> ('p, 'r) manager \<Rightarrow> danmaku \<Rightarrow> danmaku" where
  \<comment> \<open>what the server makes of the danmaku a client sends: only the text and the client's time
    stamp are the client's\<close>
  "danmaku_from mo a m input =
     \<lparr>db_id = 0, message_id = snd (next_id (mo_millis mo) (message_ids m)),
      room_id = cl_room (client_at m a), user_id = cl_user (client_at m a),
      username = cl_name (client_at m a), content = trim_space (content input),
      send_time = mo_now mo, client_sent_at_unix_nano = client_sent_at_unix_nano input\<rparr>"

lemma handle_danmaku_cases:
  obtains (unsent) "persister (handle_danmaku pt mo a data m) = persister m"
      "chan_buf (broadcast_q (handle_danmaku pt mo a data m)) = chan_buf (broadcast_q m)"
  | (sent) input payload where
      "dec_danmaku (pt_codec pt) data = Some input" "trim_space (content input) \<noteq> []"
      "rune_count (trim_space (content input)) \<le> 200"
      "enc_danmaku (pt_codec pt) (danmaku_from mo a m input) = Some payload"
      "persister (handle_danmaku pt mo a data m) =
         map_option (\<lambda>p. fst (pt_enqueue pt (danmaku_from mo a m input) p)) (persister m)"
      "chan_buf (broadcast_q (handle_danmaku pt mo a data m)) = chan_buf (broadcast_q m) @
         [\<lparr>packet_type = type_danmaku, packet_room_id = cl_room (client_at m a), packet_data = payload\<rparr>]"
proof (cases "dec_danmaku (pt_codec pt) data")
  case None
  then show ?thesis using unsent by (simp add: handle_danmaku_def)
next
  case (Some input)
  let ?text = "trim_space (content input)"
  let ?n = "fst (next_message_id (mo_millis mo) m)"
  obtain g mid where gid: "next_id (mo_millis mo) (message_ids m) = (g, mid)" by fastforce
  have n_eq: "?n = m\<lparr>message_ids := g\<rparr>" by (simp add: next_message_id_def gid)
  have df: "danmaku_from mo a m input =
     \<lparr>db_id = 0, message_id = mid,
      room_id = cl_room (client_at m a), user_id = cl_user (client_at m a),
      username = cl_name (client_at m a), content = trim_space (content input),
      send_time = mo_now mo, client_sent_at_unix_nano = client_sent_at_unix_nano input\<rparr>"
    by (simp add: danmaku_from_def gid)
  have n: "persister ?n = persister m" "broadcast_q ?n = broadcast_q m"
    by (simp_all add: next_message_id_def split: prod.split)
  have full: "handle_danmaku pt mo a data m =
     (case enc_danmaku (pt_codec pt) (danmaku_from mo a m input) of
        None \<Rightarrow> ?n
      | Some payload \<Rightarrow>
          (case submit_danmaku pt (danmaku_from mo a m input) payload ?n of
             (m, True) \<Rightarrow> m
           | (m, False) \<Rightarrow> send_control pt ''server_overloaded'' ''danmaku'' ''server'' 1000 a m))"
    if "?text \<noteq> []" "rune_count ?text \<le> 200"
    unfolding df n_eq using that Some
    by (simp add: handle_danmaku_def Let_def max_danmaku_runes_def next_message_id_def gid)
  show ?thesis
  proof (cases "?text \<noteq> [] \<and> rune_count ?text \<le> 200")
    case False
    then show ?thesis using unsent Some
      by (auto simp: handle_danmaku_def Let_def max_danmaku_runes_def frame_simps)
  next
    case True
    show ?thesis
    proof (cases "enc_danmaku (pt_codec pt) (danmaku_from mo a m input)")
      case None
      then show ?thesis using unsent full True n by simp
    next
      case e: (Some payload)
      obtain m' ok where s: "submit_danmaku pt (danmaku_from mo a m input) payload ?n = (m', ok)" by fastforce
      show ?thesis
      proof (cases ok)
        case False
        then show ?thesis using unsent full True e s n submit_persister [OF s]
          by (simp add: frame_simps)
      next
        case ok: True
        have "room_id (danmaku_from mo a m input) = cl_room (client_at m a)"
          by (simp add: danmaku_from_def)
        then show ?thesis using sent [OF Some _ _ e] full True e s n submit_persister [OF s] ok by simp
      qed
    qed
  qed
qed

lemma read_message_cases:
  obtains (unsent) "persister (read_message pt mo a raw m) = persister m"
      "chan_buf (broadcast_q (read_message pt mo a raw m)) = chan_buf (broadcast_q m)"
  | (sent) data input payload where
      "dec_danmaku (pt_codec pt) data = Some input" "trim_space (content input) \<noteq> []"
      "rune_count (trim_space (content input)) \<le> 200"
      "enc_danmaku (pt_codec pt) (danmaku_from mo a m input) = Some payload"
      "persister (read_message pt mo a raw m) =
         map_option (\<lambda>p. fst (pt_enqueue pt (danmaku_from mo a m input) p)) (persister m)"
      "chan_buf (broadcast_q (read_message pt mo a raw m)) = chan_buf (broadcast_q m) @
         [\<lparr>packet_type = type_danmaku, packet_room_id = cl_room (client_at m a), packet_data = payload\<rparr>]"
proof (cases "dec_packet (pt_codec pt) raw")
  case None
  then show ?thesis using unsent by (simp add: read_message_def)
next
  case (Some p)
  let ?c = "client_at m a"
  obtain m1 ok1 w1 where d: "manager_allow_danmaku (mo_limiter mo) (cl_room ?c) (cl_user ?c) m = (m1, ok1, w1)"
    by (metis prod_cases3)
  obtain m2 ok2 w2 where l: "manager_allow_like (mo_limiter mo) (cl_room ?c) (cl_user ?c) m = (m2, ok2, w2)"
    by (metis prod_cases3)
  note f = allow_frame(1) [OF d] allow_frame(2) [OF l]
  show ?thesis
  proof (cases "packet_type p = type_danmaku \<and> ok1")
    case False
    then show ?thesis using unsent Some d l f
      by (auto simp: read_message_def Let_def frame_simps handle_like_def split: bool.splits)
  next
    case True
    then have r: "read_message pt mo a raw m = handle_danmaku pt mo a (packet_data p) m1"
      using Some d by (simp add: read_message_def Let_def)
    have "danmaku_from mo a m1 = danmaku_from mo a m"
      using f by (simp add: danmaku_from_def fun_eq_iff)
    then show ?thesis using r f
      by (cases rule: handle_danmaku_cases [of pt mo a "packet_data p" m1]) (auto intro: unsent sent)
  qed
qed

section \<open>From the browser to the table\<close>

text \<open>What the code relies on of \<open>encoding/json\<close>: a danmaku of valid UTF-8 strings and a time that
  RFC 3339 can hold survives its two encodings, and decoded strings are valid UTF-8.\<close>

definition json_plain :: "danmaku \<Rightarrow> bool" where
  "json_plain d \<longleftrightarrow>
     list_all valid_string [message_id d, room_id d, user_id d, username d, content d] \<and>
     utc_offset (send_time d) mod minute = 0 \<and> \<bar>utc_offset (send_time d)\<bar> < 24 * 60 * minute \<and>
     0 \<le> year_of (send_time d) \<and> year_of (send_time d) \<le> 9999"

definition json_danmaku_codec :: "codec \<Rightarrow> bool" where
  "json_danmaku_codec cd \<longleftrightarrow>
     (\<forall>d s t. json_plain d \<and> enc_danmaku cd d = Some s \<and>
        enc_packet cd \<lparr>packet_type = type_danmaku, packet_room_id = room_id d, packet_data = s\<rparr> = Some t \<longrightarrow>
        (\<exists>p. dec_packet cd t = Some p \<and> packet_type p = type_danmaku \<and>
             dec_danmaku cd (packet_data p) = Some d)) \<and>
     (\<forall>s d. dec_danmaku cd s = Some d \<longrightarrow> valid_string (content d))"

definition moment_fits :: "moment \<Rightarrow> bool" where
  \<comment> \<open>a clock between the years 1000 and 9999, in a zone of whole minutes\<close>
  "moment_fits mo \<longleftrightarrow>
     mo_millis mo < 16 ^ 13 \<and> 1000 \<le> year_of (mo_now mo) \<and> year_of (mo_now mo) \<le> 9999 \<and>
     utc_offset (mo_now mo) mod minute = 0 \<and> \<bar>utc_offset (mo_now mo)\<bar> < 24 * 60 * minute"

lemma moment_not_zero:
  assumes "moment_fits mo"
  shows "\<not> is_zero (instant (mo_now mo))"
proof
  assume "is_zero (instant (mo_now mo))"
  then have y: "year_of (mo_now mo) = year_of_day (utc_offset (mo_now mo) div (86400 * second))"
    by (simp add: year_of_def is_zero_def)
  have "utc_offset (mo_now mo) div (86400 * second) \<le> 0"
    using assms by (simp add: moment_fits_def div_le_dividend zdiv_mono1) linarith
  then show False using assms y year_of_day_range [of "utc_offset (mo_now mo) div (86400 * second)"]
    by (simp add: moment_fits_def) linarith
qed

lemma ws_identity_admitted:
  assumes "ws_identity auth require now r = Inr (u, n, room)"
  shows "u \<noteq> []" "n \<noteq> []" "trim_space room = room" "room \<noteq> []"
    "rune_count u \<le> 64" "rune_count n \<le> 64" "rune_count room \<le> 64"
  using assms by (auto simp: ws_identity_def Let_def rune_limits not_less
      split: option.splits sum.splits if_splits prod.splits)

lemma ingress_danmaku_parses:
  assumes codec: "json_danmaku_codec cd"
    and who: "ws_identity auth require now r = Inr (u, n, room)" "trim_space u \<noteq> []"
    and client: "cl_user (client_at m a) = u" "cl_name (client_at m a) = n" "cl_room (client_at m a) = room"
    and valid: "valid_string u" "valid_string n" "valid_string room"
    and ids: "generator_ok (message_ids m)" and clock: "moment_fits mo"
    and dec: "dec_danmaku cd data = Some input"
    and trimmed: "trim_space (content input) \<noteq> []" "rune_count (trim_space (content input)) \<le> 200"
    and d: "d = danmaku_from mo a m input"
    and enc: "enc_danmaku cd d = Some s"
      "enc_packet cd \<lparr>packet_type = type_danmaku, packet_room_id = room_id d, packet_data = s\<rparr> = Some t"
  shows "parse_message cd \<lparr>msg_topic = topic, msg_partition = part, msg_offset = off, msg_key = key,
    msg_value = t\<rparr> = Inr d"
proof -
  have "mo_millis mo < 16 ^ 13" using clock by (simp add: moment_fits_def)
  note mid = next_id_fits [OF ids this]
  note who' = ws_identity_admitted [OF who(1)]
  have "valid_string (content input)" using codec dec by (auto simp: json_danmaku_codec_def)
  then have plain: "json_plain d"
    using d client valid clock mid(1)
    by (simp add: json_plain_def danmaku_from_def moment_fits_def valid_string_ascii valid_string_trim)
  obtain p where p: "dec_packet cd t = Some p" "packet_type p = type_danmaku"
    "dec_danmaku cd (packet_data p) = Some d"
    using codec plain enc unfolding json_danmaku_codec_def by blast
  have "storable d"
    using d client who' mid(2) trimmed(2) clock by (simp add: storable_def danmaku_from_def moment_fits_def)
  then have "validate_danmaku_storage (Some d) = None" by (simp add: validate_storage_None)
  moreover have "trim_space (message_id d) \<noteq> []" "trim_space (room_id d) \<noteq> []" "trim_space (user_id d) \<noteq> []"
    using d client who' who(2) mid(3) by (simp_all add: danmaku_from_def)
  moreover have "\<not> is_zero (instant (send_time d))"
    using moment_not_zero [OF clock] d by (simp add: danmaku_from_def)
  ultimately show ?thesis using p by (simp add: parse_message_def)
qed

lemma kafka_enqueue_new:
  assumes "enc_danmaku cd d = Some s"
  shows "\<exists>new. chan_buf (producer_input (fst (kafka_enqueue cd d p))) = chan_buf (producer_input p) @ new \<and>
    length new \<le> 1 \<and> (\<forall>pm \<in> set new. pm_key pm = room_id d \<and> enc_packet cd
      \<lparr>packet_type = type_danmaku, packet_room_id = room_id d, packet_data = s\<rparr> = Some (pm_value pm))"
  using assms by (auto simp: kafka_enqueue_def try_send_def split: option.split)

section \<open>A small session\<close>

definition session_client :: client where
  "session_client = new_client ''u'' ''n'' ''r''"

definition session_moment :: moment where
  "session_moment =
     \<lparr>mo_limiter = 0, mo_millis = 5, mo_now = \<lparr>instant = 63900000000 * second, utc_offset = 0\<rparr>\<rparr>"

definition session_request :: http_request where
  "session_request =
     \<lparr>rq_method = ''GET'', rq_path = ''/ws'', rq_remote_addr = ''10.0.0.7:999'', rq_header = (\<lambda>_. []),
      rq_cookies = [],
      rq_query = (\<lambda>k. if k = ''uid'' then ''u'' else if k = ''name'' then ''n''
                      else if k = ''room'' then '' r'' else []),
      rq_body = []\<rparr>"

definition session_manager :: "(kafka_publisher, nat) manager" where
  "session_manager = set_client 7 session_client
     (demo_manager\<lparr>message_ids := \<lparr>gen_prefix = ''0a1b'', gen_sequence = 0\<rparr>\<rparr>)"

definition session_input :: danmaku where
  "session_input = sample_danmaku\<lparr>content := '' hi ''\<rparr>"

definition session_codec :: codec where
  \<comment> \<open>a codec of one danmaku: the text ''d'' is the one the server makes of the client's ''i''\<close>
  "session_codec =
     (let full = danmaku_from session_moment 7 session_manager session_input
      in plain_codec\<lparr>dec_packet := (\<lambda>s. Some \<lparr>packet_type = type_danmaku, packet_room_id = [], packet_data = s\<rparr>),
           dec_danmaku := (\<lambda>s. if s = ''d'' then Some full else if s = ''i'' then Some session_input else None),
           enc_danmaku := (\<lambda>d. if d = full then Some ''d'' else None),
           enc_packet := (\<lambda>p. Some (packet_data p))\<rparr>)"

definition session_ports :: "(kafka_publisher, nat, string) ports" where
  "session_ports = demo_ports\<lparr>pt_codec := session_codec, pt_enqueue := kafka_enqueue session_codec\<rparr>"

lemma session_identity:
  "ws_identity (None :: (unit auth_ports \<times> service) option) False 0 session_request = Inr (''u'', ''n'', ''r'')"
  by (simp add: ws_identity_def session_request_def trim_space_ascii rune_count_ascii ascii_def byte_def
      is_space_def rune_limits)

lemma session_codec_ok: "json_danmaku_codec session_codec"
  by (auto simp: json_danmaku_codec_def session_codec_def Let_def type_danmaku_def danmaku_from_def
      session_input_def sample_danmaku_def valid_string_trim valid_string_ascii ascii_def byte_def split: if_splits)

lemma session_moment_fits: "moment_fits session_moment"
  by (simp add: moment_fits_def session_moment_def year_of_def year_of_day_def Let_def)

lemma session_fields:
  "persister session_manager = Some (new_kafka_publisher (make_chan 1) ''t'')" "traffic session_manager = None"
  "client_at session_manager 7 = session_client" "broadcast_q session_manager = make_chan 512"
  "message_ids session_manager = \<lparr>gen_prefix = ''0a1b'', gen_sequence = 0\<rparr>"
  by (simp_all add: session_manager_def set_client_def demo_fields)

lemma session_message_sent:
  "\<exists>p'. persister (read_message session_ports session_moment 7 ''i'' session_manager) = Some p' \<and>
     chan_buf (producer_input p') \<noteq> []"
proof -
  obtain g i where g: "next_id 5 \<lparr>gen_prefix = ''0a1b'', gen_sequence = 0\<rparr> = (g, i)" by fastforce
  have t: "trim_space '' hi '' = ''hi''" "rune_count ''hi'' = 2"
    by (simp_all add: trim_space_ascii rune_count_ascii ascii_def byte_def is_space_def)
  have full: "danmaku_from session_moment 7 session_manager session_input =
     \<lparr>db_id = 0, message_id = i, room_id = ''r'', user_id = ''u'', username = ''n'', content = ''hi'',
      send_time = \<lparr>instant = 63900000000000000000, utc_offset = 0\<rparr>, client_sent_at_unix_nano = 0\<rparr>"
    by (simp add: danmaku_from_def session_moment_def session_fields g t session_client_def new_client_def
        session_input_def sample_danmaku_def)
  have cd: "dec_packet session_codec s = Some \<lparr>packet_type = type_danmaku, packet_room_id = [], packet_data = s\<rparr>"
    "dec_danmaku session_codec ''i'' = Some session_input" for s
    by (simp_all add: session_codec_def Let_def)
  have enc: "enc_danmaku session_codec \<lparr>db_id = 0, message_id = i, room_id = ''r'', user_id = ''u'', username = ''n'', content = ''hi'',
      send_time = \<lparr>instant = 63900000000000000000, utc_offset = 0\<rparr>, client_sent_at_unix_nano = 0\<rparr> = Some ''d''"
    "enc_packet session_codec p = Some (packet_data p)" for p
    by (simp_all add: session_codec_def Let_def full)
  show ?thesis
    by (simp add: read_message_def session_ports_def cd Let_def manager_allow_danmaku_def session_fields
        handle_danmaku_def session_input_def sample_danmaku_def t max_danmaku_runes_def next_message_id_def
        session_moment_def g enc session_client_def new_client_def submit_danmaku_def make_chan_def try_send_def
        enqueue_persistence_def bump_def kafka_enqueue_def new_kafka_publisher_def)
qed

section \<open>Identity and connection slots\<close>

abbreviation respelled :: "string \<Rightarrow> string \<Rightarrow> http_request \<Rightarrow> http_request" where
  "respelled x y r \<equiv> r\<lparr>rq_query := (rq_query r)(''uid'' := x, ''name'' := y)\<rparr>"

lemma claims_ignore_query_identity:
  "claims_from_request ap s now (respelled x y r) = claims_from_request ap s now r"
  by (simp add: claims_from_request_def request_cookie_def Let_def split: option.split)

definition slots :: "string option \<Rightarrow> ('p, 'r) manager \<Rightarrow> int" where
  \<comment> \<open>the connections that are counted, in all or of an address\<close>
  "slots x m =
     (case traffic m of
        None \<Rightarrow> 0
      | Some c \<Rightarrow> (case x of None \<Rightarrow> connections c | Some ip \<Rightarrow> gm_get 0 (connections_ip c) ip))"

lemma traffic_rooms [frame_simps]:
  "traffic (set_client a c m) = traffic m" "traffic (handle_register a m) = traffic m"
  "traffic (handle_unregister a m) = traffic m" "traffic (end_read_pump a m) = traffic m"
  by (simp_all add: set_client_def handle_register_def handle_unregister_def end_read_pump_def bump_def
      Let_def split: option.split)

lemma traffic_ingress [frame_simps]:
  "traffic (add_like room k m) = traffic m" "traffic (enqueue_persistence pt d m) = traffic m"
  "traffic (fst (submit_danmaku pt d payload m)) = traffic m"
  "traffic (fst (next_message_id n m)) = traffic m"
  by (auto simp: add_like_def enqueue_persistence_def submit_danmaku_def next_message_id_def bump_def Let_def
      split: option.split prod.split bool.split)

lemma traffic_handle_danmaku [frame_simps]: "traffic (handle_danmaku pt mo a data m) = traffic m"
proof -
  have s: "traffic m' = traffic n" if "submit_danmaku pt d payload n = (m', b)" for d payload n m' b
    using traffic_ingress(3) [of pt d payload n] that by simp
  have i: "traffic m' = traffic m" if "next_message_id k m = (m', x)" for k m' x
    using traffic_ingress(4) [of k m] that by simp
  show ?thesis
    by (auto simp: handle_danmaku_def Let_def frame_simps dest!: s i
        split: option.split prod.split bool.split)
qed

lemma slots_same: "traffic n = traffic m \<Longrightarrow> slots x n = slots x m"
  by (simp add: slots_def)

lemma slots_frame [frame_simps]:
  "slots x (handle_danmaku pt mo a data m) = slots x m"
  "slots x (send_control pt u v w k a m) = slots x m" "slots x (add_like room n m) = slots x m"
  by (rule slots_same, simp add: frame_simps)+

lemma slots_read_message: "slots x (read_message pt mo a raw m) = slots x m \<and>
    (traffic (read_message pt mo a raw m) = None \<longleftrightarrow> traffic m = None)"
proof -
  have d: "slots x m' = slots x m \<and> (traffic m' = None \<longleftrightarrow> traffic m = None)"
    if "manager_allow_danmaku t room u m = (m', b, w)" for t room u m' b w
    using that by (auto simp: manager_allow_danmaku_def allow_danmaku_def slots_def Let_def
        split: option.splits prod.splits bool.splits)
  have l: "slots x m' = slots x m \<and> (traffic m' = None \<longleftrightarrow> traffic m = None)"
    if "manager_allow_like t room u m = (m', b, w)" for t room u m' b w
    using that by (auto simp: manager_allow_like_def allow_like_def slots_def Let_def
        split: option.splits prod.splits bool.splits)
  show ?thesis
    by (auto simp: read_message_def Let_def frame_simps handle_like_def dest!: d l
        split: option.split prod.split bool.split)
qed

lemma slots_read_pump:
  assumes "\<forall>i \<in> set inputs. \<forall>m. traffic m \<noteq> None \<longrightarrow>
      traffic (in_others i m) \<noteq> None \<and> slots x (in_others i m) = slots x m + d i"
    and "traffic m \<noteq> None"
  shows "traffic (read_pump pt a inputs m) \<noteq> None \<and>
    (\<exists>k. slots x (read_pump pt a inputs m) = slots x m + sum_list (map d (take k inputs)))"
  using assms
proof (induction inputs arbitrary: m)
  case Nil
  then show ?case by (auto simp: frame_simps slots_def)
next
  case (Cons i inputs)
  have o: "traffic (in_others i m) \<noteq> None" "slots x (in_others i m) = slots x m + d i"
    using Cons.prems by auto
  show ?case
  proof (cases "length (in_raw i) > max_message_bytes")
    case True
    then show ?thesis using o by (auto simp: frame_simps slots_def intro!: exI [of _ 1])
  next
    case False
    let ?n = "read_message pt (in_moment i) a (in_raw i) (in_others i m)"
    have n: "traffic ?n \<noteq> None" "slots x ?n = slots x m + d i" using o slots_read_message by metis+
    obtain k where "traffic (read_pump pt a inputs ?n) \<noteq> None"
      "slots x (read_pump pt a inputs ?n) = slots x ?n + sum_list (map d (take k inputs))"
      using Cons.IH [OF _ n(1)] Cons.prems(1) by auto
    then show ?thesis using False n by (auto intro!: exI [of _ "Suc k"])
  qed
qed

lemma like_of_bounds: "1 \<le> like_of cd data \<and> like_of cd data \<le> 20"
proof -
  have "1 \<le> n" if "n \<noteq> 0" for n :: u64 using that by (simp add: word_le_nat_alt Suc_le_eq unat_gt_0)
  then show ?thesis by (auto simp: like_of_def Let_def max_like_count_def)
qed

lemma demo_own_token:
  "claims_from_request demo_auth demo_service (100 * second) (demo_token_request ''t.own'') = Inr (demo_claims ''v10'')"
proof -
  have t: "token_text ''t.own''" by (simp add: token_text_def byte_def)
  have s: "ap_sign demo_auth ''HS256'' (demo_claims ''v10'') (sv_secret demo_service) = Inr ''t.own''"
    by (simp add: demo_auth_def Let_def)
  have c: "claims_plain (demo_claims ''v10'')" by (rule demo_claims_plain) (simp add: ascii_def byte_def)
  have "parse_token demo_auth demo_service (100 * second) ''t.own'' = Inr (demo_claims ''v10'')"
    unfolding parse_signed [OF demo_auth_library s c] by (simp add: demo_claims_def demo_service_def)
  then show ?thesis by (simp only: carries_decides [OF t demo_carries])
qed

definition neighbour_input :: "(kafka_publisher, nat) ws_input" where
  \<comment> \<open>a message before which another connection is taken\<close>
  "neighbour_input =
     \<lparr>in_others = (\<lambda>m. case traffic m of None \<Rightarrow> m
                        | Some c \<Rightarrow> m\<lparr>traffic := Some (c\<lparr>connections := connections c + 1\<rparr>)\<rparr>),
      in_moment = session_moment, in_raw = ''i''\<rparr>"

section \<open>Properties\<close>



text \<open>C37: A token decides who connects: when authentication is required or the request carries a
  token, a bad token is answered 401 without touching the manager, and with a good one the user
  id and name of the query play no part: the whole session is the same whatever they say.\<close>

theorem token_decides_identity:
  assumes "require \<or> claims_from_request ap s now r \<noteq> Inl Missing_token"
  shows "case claims_from_request ap s now r of
      Inl e \<Rightarrow> serve_ws_with_auth pt (Some (ap, s)) require now r upgraded a inputs m =
                (m, Some (http_error ''unauthorized'' 401))
    | Inr c \<Rightarrow> serve_ws_with_auth pt (Some (ap, s)) require now (respelled x y r) upgraded a inputs m =
                serve_ws_with_auth pt (Some (ap, s)) require now r upgraded a inputs m \<and>
              (\<forall>u n room. ws_identity (Some (ap, s)) require now r = Inr (u, n, room) \<longrightarrow>
                 u = cm_user_id c \<and> n = (if cm_username c = [] then u else cm_username c))"
proof (cases "claims_from_request ap s now r")
  case (Inl e)
  then show ?thesis using assms by (simp add: serve_ws_with_auth_def ws_identity_def)
next
  case (Inr c)
  have "ws_identity (Some (ap, s)) require now (respelled x y r) = ws_identity (Some (ap, s)) require now r"
    using Inr by (simp add: ws_identity_def claims_ignore_query_identity)
  moreover have "remote_ip (respelled x y r) = remote_ip r"
    by (simp add: remote_ip_def split: option.split)
  ultimately show ?thesis
    using Inr by (auto simp: serve_ws_with_auth_def) (auto simp: ws_identity_def Let_def split: if_splits)
qed

theorem token_decides_identity_witness:
  "\<forall>x y. serve_ws_with_auth demo_ports (Some (demo_auth, demo_service)) False (100 * second)
       (respelled x y (demo_token_request ''t.own'')) False 7 [] demo_manager =
     serve_ws_with_auth demo_ports (Some (demo_auth, demo_service)) False (100 * second)
       (demo_token_request ''t.own'') False 7 [] demo_manager"
  using token_decides_identity [of False demo_auth demo_service "100 * second" "demo_token_request ''t.own''"
      demo_ports False 7 "[]" demo_manager] demo_own_token
  by simp

text \<open>A session gives back exactly the slot it took: on every path (refused, over a limit, failed
  upgrade, closed by the client or by a message over the limit) the connections counted in all and
  of every address are afterwards what the other goroutines alone made of them.\<close>

theorem session_returns_its_slot:
  assumes "\<forall>i \<in> set inputs. \<forall>m. traffic m \<noteq> None \<longrightarrow>
      traffic (in_others i m) \<noteq> None \<and> slots x (in_others i m) = slots x m + d i"
    and "traffic m \<noteq> None"
  shows "\<exists>k. slots x (fst (serve_ws_with_auth pt auth require now r upgraded a inputs m)) =
    slots x m + sum_list (map d (take k inputs))"
proof (cases "ws_identity auth require now r")
  case (Inl e)
  then show ?thesis by (auto simp: serve_ws_with_auth_def intro!: exI [of _ 0])
next
  case (Inr w)
  obtain u n room where w: "w = (u, n, room)" by (metis prod_cases3)
  obtain c where c: "traffic m = Some c" using assms(2) by auto
  obtain m1 rel where acq: "manager_acquire (remote_ip r) m = (m1, rel)" by fastforce
  show ?thesis
  proof (cases rel)
    case None
    then have "slots x m1 = slots x m"
      using acq c by (auto simp: manager_acquire_def acquire_connection_def slots_def
          split: if_splits prod.splits option.split)
    then show ?thesis using Inr w acq None by (auto simp: serve_ws_with_auth_def intro!: exI [of _ 0])
  next
    case (Some l)
    define taken :: int where "taken = (if x = None \<or> x = Some (remote_ip r) then 1 else 0)"
    have l: "l = Release \<lparr>release_ip = remote_ip r, release_done = False\<rparr>"
      "traffic m1 \<noteq> None" "slots x m1 = slots x m + taken"
      using acq c Some
      by (auto simp: manager_acquire_def acquire_connection_def slots_def taken_def gm_get_update
          split: if_splits prod.splits option.splits)
    have rel: "slots x (manager_release l n) = slots x n - taken" if "traffic n \<noteq> None" for n :: "('a, 'b) manager"
      using that l(1)
      by (auto simp: manager_release_def release_connection_def Let_def slots_def taken_def
          gm_get_update gm_get_delete split: option.split)
    let ?m2 = "handle_register a (set_client a (new_client u n room) m1)"
    have m2: "traffic ?m2 = traffic m1" by (simp add: frame_simps)
    then have "slots x ?m2 = slots x m1" by (simp add: slots_def)
    then obtain k where "traffic (read_pump pt a inputs ?m2) \<noteq> None"
      "slots x (read_pump pt a inputs ?m2) = slots x m1 + sum_list (map d (take k inputs))"
      using slots_read_pump [OF assms(1), of ?m2 pt a] m2 l(2) by auto
    then show ?thesis
      using Inr w acq Some rel l
      by (intro exI [of _ "if upgraded then k else 0"]) (auto simp: serve_ws_with_auth_def)
  qed
qed

theorem session_returns_its_slot_witness:
  "\<exists>k. slots None (fst (serve_ws_with_auth demo_ports (None :: (unit auth_ports \<times> service) option) False 0
       session_request True 7 [neighbour_input] (demo_manager\<lparr>traffic := Some (new_controller default_rl_config)\<rparr>))) =
     slots None (demo_manager\<lparr>traffic := Some (new_controller default_rl_config)\<rparr>) +
     sum_list (map (\<lambda>_. 1) (take k [neighbour_input]))"
  by (rule session_returns_its_slot) (auto simp: neighbour_input_def slots_def)

end
