(* ===== verification/Go_Time.thy ===== *)
theory Go_Time
  imports Model
begin

text \<open>
  The text of an instant in UTC, \<open>t.UTC().Format(time.RFC3339Nano)\<close>: year, month, day and time of
  day, with the fraction of the second without its trailing zeros. Different instants have
  different texts, and a text has exactly two colons; keys that are built from it are therefore
  unique.
\<close>

section \<open>The calendar\<close>

definition leap_year :: "int \<Rightarrow> bool" where
  "leap_year y \<longleftrightarrow> y mod 4 = 0 \<and> (y mod 100 \<noteq> 0 \<or> y mod 400 = 0)"

definition days_before_year :: "int \<Rightarrow> int" where
  \<comment> \<open>from January 1 of year 1 to January 1 of the year\<close>
  "days_before_year y = 365 * (y - 1) + (y - 1) div 4 - (y - 1) div 100 + (y - 1) div 400"

definition month_lengths :: "int \<Rightarrow> nat list" where
  "month_lengths y = [31, if leap_year y then 29 else 28, 31, 30, 31, 30, 31, 31, 30, 31, 30, 31]"

fun month_day :: "nat list \<Rightarrow> nat \<Rightarrow> nat \<Rightarrow> nat \<times> nat" where
  \<comment> \<open>the month and the day in it, of a day of the year counted from 0\<close>
  "month_day [] m d = (m, d + 1)"
| "month_day (l # ls) m d = (if d < l then (m, d + 1) else month_day ls (m + 1) (d - l))"

section \<open>Texts\<close>

definition padded_number :: "nat \<Rightarrow> nat \<Rightarrow> string" where
  "padded_number w n = zero_padded w (digits 10 n)"

definition year_text :: "int \<Rightarrow> string" where
  "year_text y = (if y < 0 then ''-'' @ padded_number 4 (nat (- y)) else padded_number 4 (nat y))"

definition fraction_text :: "nat \<Rightarrow> string" where
  \<comment> \<open>of the nanoseconds in the second\<close>
  "fraction_text n =
     (if n = 0 then []
      else ''.'' @ rev (dropWhile (\<lambda>c. c = digit_char 0) (rev (padded_number 9 n))))"

definition civil :: "time \<Rightarrow> int \<times> nat \<times> nat \<times> nat \<times> nat \<times> nat \<times> nat" where
  \<comment> \<open>year, month, day, hour, minute, second, nanosecond\<close>
  "civil t =
     (let day = t div (86400 * second);
          nanos = nat (t mod (86400 * second));
          year = year_of_day day;
          (month, mday) = month_day (month_lengths year) 1 (nat (day - days_before_year year));
          secs = nanos div 1000000000
      in (year, month, mday, secs div 3600, secs div 60 mod 60, secs mod 60, nanos mod 1000000000))"

definition utc_key_time :: "time \<Rightarrow> string" where
  "utc_key_time t =
     (case civil t of
        (year, month, mday, h, m, s, n) \<Rightarrow>
          year_text year @ ''-'' @ padded_number 2 month @ ''-'' @ padded_number 2 mday @ ''T'' @
          padded_number 2 h @ '':'' @ padded_number 2 m @ '':'' @ padded_number 2 s @
          fraction_text n @ ''Z'')"

section \<open>Different instants have different texts\<close>

lemma days_before_year_le: "days_before_year (year_of_day d) \<le> d"
proof -
  define q e where "q = d div 146097" and "e = d mod 146097"
  define n where "n = min 3 (e div 36524)"
  define f where "f = e - 36524 * n"
  define c g where "c = f div 1461" and "g = f mod 1461"
  define k where "k = min 3 (g div 365)"
  have e: "0 \<le> e" "e < 146097" "d = 146097 * q + e" by (simp_all add: e_def q_def)
  have n: "0 \<le> n" "n \<le> 3" using e by (simp_all add: n_def pos_imp_zdiv_nonneg_iff)
  have f: "0 \<le> f" "f \<le> 36524"
  proof -
    have "36524 * (e div 36524) \<le> e" "e < 36524 * (e div 36524) + 36524"
      using mult_div_mod_eq [of 36524 e] pos_mod_bound [of 36524 e] pos_mod_sign [of 36524 e]
      by linarith+
    then show "0 \<le> f" "f \<le> 36524" using e by (auto simp: f_def n_def min_def)
  qed
  have c: "0 \<le> c" "c \<le> 24" using f by (simp_all add: c_def pos_imp_zdiv_nonneg_iff)
  have g: "f = 1461 * c + g" by (simp add: c_def g_def)
  have k: "0 \<le> k" "k \<le> 3" "k \<le> g div 365" by (simp_all add: k_def g_def pos_imp_zdiv_nonneg_iff)
  then have kg: "365 * k \<le> g" using mult_div_mod_eq [of 365 g] pos_mod_sign [of 365 g] by linarith
  have y: "year_of_day d - 1 = 400 * q + (100 * n + 4 * c + k)"
    by (simp add: year_of_day_def Let_def q_def [symmetric] e_def [symmetric] n_def [symmetric]
        f_def [symmetric] c_def [symmetric] g_def [symmetric] k_def [symmetric])
  have "(year_of_day d - 1) div 400 = q" unfolding y using n c k by (subst div_mult_self4) auto
  moreover have "(year_of_day d - 1) div 100 = 4 * q + n"
  proof -
    have "year_of_day d - 1 = (4 * c + k) + (4 * q + n) * 100" using y by simp
    then show ?thesis using c k by simp
  qed
  moreover have "(year_of_day d - 1) div 4 = 100 * q + 25 * n + c"
  proof -
    have "year_of_day d - 1 = k + (100 * q + 25 * n + c) * 4" using y by simp
    then show ?thesis using k by simp
  qed
  ultimately have "days_before_year (year_of_day d) = 365 * (400 * q + (100 * n + 4 * c + k)) +
      (100 * q + 25 * n + c) - (4 * q + n) + q"
    by (simp add: days_before_year_def y)
  then show ?thesis using e g kg by (simp add: f_def)
qed

lemma month_day_inj:
  "month_day ls m d = month_day ls m d' \<Longrightarrow> d = d'"
proof (induction ls arbitrary: m d d')
  case (Cons l ls)
  have ge: "m < fst (month_day ls (Suc m) x)" for x
  proof -
    have "k \<le> fst (month_day ls k x)" for k by (induction ls arbitrary: k x) (auto intro: Suc_leD)
    then show ?thesis using Suc_le_eq by blast
  qed
  have "fst (month_day (l # ls) m d) = fst (month_day (l # ls) m d')" using Cons.prems by simp
  then have "d < l \<longleftrightarrow> d' < l" using ge [of "d - l"] ge [of "d' - l"] by (simp split: if_splits)
  then show ?case using Cons.IH [of "Suc m" "d - l" "d' - l"] Cons.prems by (simp split: if_splits)
qed simp

lemma padded_number_inj: "padded_number w n = padded_number w k \<longleftrightarrow> n = k"
proof
  assume "padded_number w n = padded_number w k"
  then have "digits_value 10 (padded_number w n) = digits_value 10 (padded_number w k)" by simp
  then show "n = k" by (simp add: padded_number_def digits_value_padded digits_value_digits)
qed simp

definition decimal :: "string \<Rightarrow> bool" where
  "decimal s \<longleftrightarrow> (\<forall>c \<in> set s. 48 \<le> byte c \<and> byte c \<le> 57)"

lemma decimal_padded: "decimal (padded_number w n)"
proof -
  have d: "48 \<le> byte (digit_char k) \<and> byte (digit_char k) \<le> 57" if "k < 10" for k
    using that by (simp add: digit_char_def byte_def)
  have "decimal (digits 10 n)" for n
  proof (induction "10 :: nat" n rule: digits.induct)
    case (1 n)
    then show ?case by (subst digits.simps) (auto simp: decimal_def d)
  qed
  then show ?thesis using d [of 0] by (auto simp: padded_number_def zero_padded_def decimal_def)
qed

lemma decimal_no: "decimal s \<Longrightarrow> byte c < 48 \<or> 57 < byte c \<Longrightarrow> c \<notin> set s"
  by (auto simp: decimal_def)

lemma append_sep_inj:
  "c \<notin> set a \<Longrightarrow> c \<notin> set b \<Longrightarrow> a @ c # x = b @ c # y \<longleftrightarrow> a = b \<and> x = y"
proof (induction a arbitrary: b)
  case Nil
  then show ?case by (cases b) auto
next
  case (Cons z a)
  then show ?case by (cases b) auto
qed


lemma year_text_inj: "year_text y = year_text z \<longleftrightarrow> y = z"
proof
  assume eq: "year_text y = year_text z"
  have "padded_number 4 n \<noteq> CHR ''-'' # x" for n x
    using decimal_padded [of 4 n] by (auto simp: decimal_def byte_def)
  then have "(y < 0) = (z < 0)" using eq by (auto simp: year_text_def split: if_splits) metis
  then show "y = z" using eq by (auto simp: year_text_def padded_number_inj split: if_splits)
qed simp

lemma fraction_text_inj:
  assumes "n < 10 ^ 9" "k < 10 ^ 9" "fraction_text n = fraction_text k"
  shows "n = k"
proof -
  let ?P = "\<lambda>c. c = digit_char 0"
  have len: "length (padded_number 9 x) = 9" if "x < 10 ^ 9" for x
    using length_digits [of 10 x 8] that by (simp add: padded_number_def length_padded)
  have strip: "padded_number 9 x = rev (dropWhile ?P (rev (padded_number 9 x))) @
      replicate (9 - length (dropWhile ?P (rev (padded_number 9 x)))) (digit_char 0)" if "x < 10 ^ 9" for x
  proof -
    let ?r = "rev (padded_number 9 x)"
    have "takeWhile ?P ?r = replicate (length (takeWhile ?P ?r)) (digit_char 0)"
      by (rule replicate_eqI) (auto dest: set_takeWhileD)
    moreover have "length (takeWhile ?P ?r) = 9 - length (dropWhile ?P ?r)"
    proof -
      have "length (takeWhile ?P ?r) + length (dropWhile ?P ?r) = length ?r"
        by (metis length_append takeWhile_dropWhile_id)
      then show ?thesis using len [OF that] by simp
    qed
    moreover have "padded_number 9 x = rev (dropWhile ?P ?r) @ rev (takeWhile ?P ?r)"
      by (metis rev_append rev_rev_ident takeWhile_dropWhile_id)
    ultimately show ?thesis by (metis rev_replicate)
  qed
  show ?thesis
  proof (cases "n = 0 \<or> k = 0")
    case True
    then show ?thesis using assms(3) by (auto simp: fraction_text_def split: if_splits)
  next
    case False
    then have "dropWhile ?P (rev (padded_number 9 n)) = dropWhile ?P (rev (padded_number 9 k))"
      using assms(3) by (simp add: fraction_text_def)
    then have "padded_number 9 n = padded_number 9 k" using strip [OF assms(1)] strip [OF assms(2)] by simp
    then show ?thesis by (simp add: padded_number_inj)
  qed
qed

lemma decimal_fraction: "set (fraction_text n) \<subseteq> {CHR ''.''} \<union> {c. 48 \<le> byte c \<and> byte c \<le> 57}"
  using decimal_padded [of 9 n]
  by (auto simp: fraction_text_def decimal_def dest!: set_dropWhileD)

lemma seconds_split: "(x :: nat) = 3600 * (x div 3600) + 60 * (x div 60 mod 60) + x mod 60"
proof -
  have "x = 60 * (x div 60) + x mod 60" by simp
  moreover have "x div 60 = 60 * (x div 60 div 60) + x div 60 mod 60" by simp
  moreover have "x div 60 div 60 = x div 3600" by (simp add: div_mult2_eq [symmetric])
  ultimately show ?thesis by linarith
qed

lemma civil_inj:
  assumes "civil t = civil u"
  shows "t = u"
proof -
  define f where "f = (\<lambda>t :: time. nat (t mod (86400 * second)))"
  define yd where "yd = (\<lambda>t :: time. nat (t div (86400 * second) - days_before_year (year_of_day (t div (86400 * second)))))"
  define y where "y = (\<lambda>t :: time. year_of_day (t div (86400 * second)))"
  have civil: "civil x = (y x, fst (month_day (month_lengths (y x)) 1 (yd x)),
      snd (month_day (month_lengths (y x)) 1 (yd x)), f x div 1000000000 div 3600,
      f x div 1000000000 div 60 mod 60, f x div 1000000000 mod 60, f x mod 1000000000)" for x
    by (simp add: civil_def Let_def f_def yd_def y_def split_beta)
  have y: "y t = y u" using assms by (simp add: civil)
  have "month_day (month_lengths (y u)) 1 (yd t) = month_day (month_lengths (y u)) 1 (yd u)"
    using assms y by (simp add: civil prod_eq_iff)
  then have "yd t = yd u" by (rule month_day_inj)
  moreover have "int (yd x) = x div (86400 * second) - days_before_year (y x)" for x
    using days_before_year_le [of "x div (86400 * second)"] by (simp add: yd_def y_def)
  ultimately have d: "t div (86400 * second) = u div (86400 * second)" using y by (metis add_diff_cancel_right' diff_add_cancel)
  have "f t div 1000000000 div 3600 = f u div 1000000000 div 3600 \<and>
      f t div 1000000000 div 60 mod 60 = f u div 1000000000 div 60 mod 60 \<and>
      f t div 1000000000 mod 60 = f u div 1000000000 mod 60"
    and dm: "f t mod 1000000000 = f u mod 1000000000"
    using assms by (simp_all only: civil prod.inject)
  then have dq: "f t div 1000000000 = f u div 1000000000"
    by (metis seconds_split)
  have "f t = f t div 1000000000 * 1000000000 + f t mod 1000000000" by (rule div_mult_mod_eq [symmetric])
  also have "\<dots> = f u div 1000000000 * 1000000000 + f u mod 1000000000" by (simp only: dq dm)
  also have "\<dots> = f u" by (rule div_mult_mod_eq)
  finally have "f t = f u" .
  moreover have "int (f x) = x mod (86400 * second)" for x by (simp add: f_def)
  ultimately have "t mod (86400 * second) = u mod (86400 * second)" by metis
  then show ?thesis using d by (metis div_mult_mod_eq)
qed

lemma civil_bounds: "civil t = (y, mo, d, h, mi, s, n) \<Longrightarrow> s < 60 \<and> n < 10 ^ 9"
proof -
  assume "civil t = (y, mo, d, h, mi, s, n)"
  then have "s = nat (t mod (86400 * second)) div 1000000000 mod 60"
    "n = nat (t mod (86400 * second)) mod 1000000000"
    by (simp_all only: civil_def Let_def split_beta prod.inject)
  then show ?thesis by (simp only: mod_less_divisor zero_less_numeral) simp
qed

theorem utc_key_time_inj:
  assumes "utc_key_time t = utc_key_time u"
  shows "t = u"
proof -
  have sep: "CHR ''-'' \<notin> set (padded_number w n)" "CHR ''T'' \<notin> set (padded_number w n)"
    "CHR '':'' \<notin> set (padded_number w n)" for w n
    by (rule decimal_no [OF decimal_padded]; simp add: byte_def)+
  have yT: "CHR ''T'' \<notin> set (year_text y)" for y by (simp add: year_text_def sep)
  have len: "length (padded_number 2 n) = 2" if "n < 60" for n
    using length_digits [of 10 n 1] that by (simp add: padded_number_def length_padded)
  obtain y mo d h mi s n where t: "civil t = (y, mo, d, h, mi, s, n)" by (metis prod_cases7)
  obtain y' mo' d' h' mi' s' n' where u: "civil u = (y', mo', d', h', mi', s', n')" by (metis prod_cases7)
  have r: "s < 60" "s' < 60" "n < 10 ^ 9" "n' < 10 ^ 9"
    using civil_bounds [OF t] civil_bounds [OF u] by simp_all
  let ?l = "\<lambda>y mo d. year_text y @ CHR ''-'' # padded_number 2 mo @ CHR ''-'' # padded_number 2 d"
  let ?r = "\<lambda>h mi s n. padded_number 2 h @ CHR '':'' # padded_number 2 mi @ CHR '':'' # padded_number 2 s @ fraction_text n @ ''Z''"
  have "?l y mo d @ CHR ''T'' # ?r h mi s n = ?l y' mo' d' @ CHR ''T'' # ?r h' mi' s' n'"
    using assms t u by (simp add: utc_key_time_def)
  moreover have "CHR ''T'' \<notin> set (?l y mo d)" "CHR ''T'' \<notin> set (?l y' mo' d')" by (simp_all add: sep yT)
  ultimately have l: "?l y mo d = ?l y' mo' d'" and r': "?r h mi s n = ?r h' mi' s' n'"
    by (metis append_sep_inj)+
  have "rev (?l y mo d) = rev (?l y' mo' d')" using l by simp
  then have "y = y' \<and> mo = mo' \<and> d = d'"
    by (simp add: append_sep_inj sep padded_number_inj year_text_inj)
  moreover have "h = h' \<and> mi = mi' \<and> padded_number 2 s @ fraction_text n = padded_number 2 s' @ fraction_text n'"
    using r' by (simp add: append_sep_inj sep padded_number_inj)
  ultimately have "civil t = civil u"
    using t u r len fraction_text_inj [of n n'] by (simp add: padded_number_inj)
  then show ?thesis by (rule civil_inj)
qed

lemma count_colons: "count_list (utc_key_time t) CHR '':'' = 2"
proof -
  have p: "count_list (padded_number w n) CHR '':'' = 0" "count_list (year_text y) CHR '':'' = 0"
    "count_list (fraction_text n) CHR '':'' = 0" for w n y
  proof -
    have no: "CHR '':'' \<notin> set (padded_number w n)" for w n
      by (rule decimal_no [OF decimal_padded]) (simp add: byte_def)
    then show "count_list (padded_number w n) CHR '':'' = 0" "count_list (year_text y) CHR '':'' = 0"
      by (auto simp: count_list_0_iff year_text_def)
    have "CHR '':'' \<notin> set (fraction_text n)" using decimal_fraction [of n] by (auto simp: byte_def)
    then show "count_list (fraction_text n) CHR '':'' = 0" by (simp add: count_list_0_iff)
  qed
  show ?thesis by (simp add: utc_key_time_def p split: prod.split)
qed

text \<open>Two strings of two parts, joined by a character that occurs equally often in the last parts,
  have the same parts.\<close>

lemma last_sep_inj:
  assumes "a @ c # x = b @ c # y" "count_list x c = count_list y c"
  shows "a = b \<and> x = y"
proof -
  have no: False if "us @ c # x = c # y" "us \<noteq> []" "count_list x c = count_list y c" for us x y
    using that by (cases us) auto
  obtain us where us: "a = b @ us \<and> us @ c # x = c # y \<or> a @ us = b \<and> c # x = us @ c # y"
    using assms(1) by (auto simp: append_eq_append_conv2)
  then have "us = []" using no [of us x y] no [of us y x] assms(2) by (cases us) auto
  then show ?thesis using us by auto
qed

end
