(* ===== verification/Insight.thy ===== *)
theory Insight
  imports Go_Time Float64 "HOL-Library.Product_Lexorder"
begin

text \<open>
  The domain of the insight service, \<open>v11/insight/internal/domain\<close>: message events, time windows
  and room insights, with their validation and their keys. An instant carries no zone here: the
  service compares instants and writes them in UTC. A nil slice and an empty one are the same list.
\<close>

section \<open>Message events\<close>

definition max_event_content_runes :: nat where "max_event_content_runes = 500"

record message_event =
  ev_id :: string
  ev_room :: string
  ev_user :: string
  ev_username :: string
  ev_content :: string
  ev_at :: time
  ev_schema_version :: string
  ev_source :: string

definition validate_event :: "message_event \<Rightarrow> string option" where
  \<comment> \<open>the text of the error, if any\<close>
  "validate_event e =
     (if trim_space (ev_id e) = [] then Some ''event ID is required''
      else if trim_space (ev_room e) = [] then Some ''room ID is required''
      else if trim_space (ev_user e) = [] then Some ''user ID is required''
      else if trim_space (ev_content e) = [] then Some ''content is required''
      else if \<not> valid_string (ev_content e) then Some ''content must be valid UTF-8''
      else if rune_count (ev_content e) > max_event_content_runes then Some ''content exceeds 500 runes''
      else if is_zero (ev_at e) then Some ''occurred at is required''
      else None)"

section \<open>Windows\<close>

record window_ref =
  wr_room :: string
  wr_start :: time
  wr_end :: time

definition new_window_ref :: "string \<Rightarrow> time \<Rightarrow> duration \<Rightarrow> string + window_ref" where
  "new_window_ref room t width =
     (let room = trim_space room
      in if room = [] then Inl ''room ID is required''
         else if width \<le> 0 then Inl ''window size must be positive''
         else (let start = time_truncate t width
               in Inr \<lparr>wr_room = room, wr_start = start, wr_end = start + width\<rparr>))"

definition window_key :: "window_ref \<Rightarrow> string" where
  "window_key r = wr_room r @ '':'' @ utc_key_time (wr_start r) @ '':'' @ utc_key_time (wr_end r)"

record insight_window =
  iw_ref :: window_ref
  iw_events :: "message_event list"
  iw_total_messages :: int
  iw_duplicate_messages :: int
  iw_late_messages :: int

section \<open>Insights\<close>

definition max_alert_type_runes :: nat where "max_alert_type_runes = 64"

record rule_stats =
  ru_message_count :: int
  ru_unique_users :: int
  ru_question_count :: int
  ru_repeated_message_ratio :: real
  ru_peak_messages_per_second :: int
  ru_top_repeated_text :: string
  ru_top_repeated_count :: int

record topic =
  tp_name :: string
  tp_confidence :: real
  tp_evidence :: "string list"

record sentiment =
  sm_label :: string
  sm_confidence :: real
  sm_evidence :: "string list"

record question =
  qu_text :: string
  qu_evidence :: "string list"

record alert =
  al_type :: string
  al_severity :: string
  al_description :: string
  al_evidence :: "string list"

record semantic_insight =
  se_summary :: string
  se_topics :: "topic list"
  se_sentiment :: sentiment
  se_questions :: "question list"
  se_alerts :: "alert list"

record model_meta =
  mt_provider :: string
  mt_model :: string
  mt_prompt_version :: string
  mt_input_tokens :: int
  mt_output_tokens :: int
  mt_latency_millis :: int

record analysis_result =
  ar_rules :: rule_stats
  ar_semantic :: semantic_insight
  ar_model :: model_meta

definition insight_status_normal :: string where "insight_status_normal = ''normal''"
definition insight_status_degraded :: string where "insight_status_degraded = ''degraded''"

record room_insight =
  ri_room :: string
  ri_start :: time
  ri_end :: time
  ri_status :: string
  ri_rules :: rule_stats
  ri_semantic :: semantic_insight
  ri_model :: model_meta
  ri_generated_at :: time
  ri_degraded_reason :: string

definition valid_sentiment :: "string \<Rightarrow> bool" where
  "valid_sentiment label \<longleftrightarrow> label \<in> {''positive'', ''neutral'', ''negative'', ''mixed''}"

definition valid_severity :: "string \<Rightarrow> bool" where
  "valid_severity severity \<longleftrightarrow> severity \<in> {''low'', ''medium'', ''high''}"

definition validate_alert :: "alert \<Rightarrow> string option" where
  \<comment> \<open>one round of the loop at the end of \<open>RoomInsight.Validate\<close>\<close>
  "validate_alert a =
     (if trim_space (al_type a) = [] then Some ''alert type is required''
      else if \<not> valid_string (al_type a) then Some ''alert type must be valid UTF-8''
      else if rune_count (al_type a) > max_alert_type_runes then Some ''alert type exceeds 64 runes''
      else if \<not> valid_severity (al_severity a) then Some ''unsupported alert severity''
      else None)"

fun first_error :: "('a \<Rightarrow> 'e option) \<Rightarrow> 'a list \<Rightarrow> 'e option" where
  \<comment> \<open>a loop that returns the first error\<close>
  "first_error f [] = None"
| "first_error f (x # xs) = (case f x of Some e \<Rightarrow> Some e | None \<Rightarrow> first_error f xs)"

definition validate_insight :: "room_insight \<Rightarrow> string option" where
  "validate_insight i =
     (if trim_space (ri_room i) = [] then Some ''room ID is required''
      else if is_zero (ri_start i) then Some ''window start is required''
      else if \<not> ri_start i < ri_end i then Some ''window end must be after window start''
      else if ri_status i \<noteq> insight_status_normal \<and> ri_status i \<noteq> insight_status_degraded
      then Some ''unsupported insight status''
      else if trim_space (mt_prompt_version (ri_model i)) = [] then Some ''prompt version is required''
      else if is_zero (ri_generated_at i) then Some ''generated at is required''
      else if \<not> valid_sentiment (sm_label (se_sentiment (ri_semantic i)))
      then Some ''unsupported sentiment label''
      else first_error validate_alert (se_alerts (ri_semantic i)))"

definition idempotency_key :: "room_insight \<Rightarrow> string" where
  "idempotency_key i =
     trim_space (ri_room i) @ '':'' @ utc_key_time (ri_start i) @ '':'' @ utc_key_time (ri_end i) @ '':'' @
     trim_space (mt_prompt_version (ri_model i))"

section \<open>Lemmas\<close>

lemma first_error_None: "first_error f xs = None \<longleftrightarrow> (\<forall>x \<in> set xs. f x = None)"
  by (induction xs) (auto split: option.split)

lemma window_key_inj: "window_key r = window_key q \<longleftrightarrow> r = q"
proof
  assume eq: "window_key r = window_key q"
  have "wr_room r = wr_room q \<and> utc_key_time (wr_start r) @ '':'' @ utc_key_time (wr_end r) =
      utc_key_time (wr_start q) @ '':'' @ utc_key_time (wr_end q)"
    using eq by (intro last_sep_inj [of _ "CHR '':''"]) (simp_all add: window_key_def count_colons)
  moreover from this have "utc_key_time (wr_start r) = utc_key_time (wr_start q) \<and>
      utc_key_time (wr_end r) = utc_key_time (wr_end q)"
    by (intro last_sep_inj [of _ "CHR '':''"]) (simp_all add: count_colons)
  ultimately show "r = q" by (auto intro!: window_ref.equality dest: utc_key_time_inj)
qed simp

lemma new_window_ref_Inr:
  "new_window_ref room t width = Inr r \<longleftrightarrow>
     trim_space room \<noteq> [] \<and> 0 < width \<and>
     r = \<lparr>wr_room = trim_space room, wr_start = time_truncate t width,
          wr_end = time_truncate t width + width\<rparr>"
  by (auto simp: new_window_ref_def Let_def)

lemma validate_event_None:
  "validate_event e = None \<longleftrightarrow>
     trim_space (ev_id e) \<noteq> [] \<and> trim_space (ev_room e) \<noteq> [] \<and> trim_space (ev_user e) \<noteq> [] \<and>
     trim_space (ev_content e) \<noteq> [] \<and> valid_string (ev_content e) \<and> rune_count (ev_content e) \<le> 500 \<and>
     \<not> is_zero (ev_at e)"
  by (simp add: validate_event_def max_event_content_runes_def not_less)

end
