(* ===== verification/Rule_Analyzer.thy ===== *)
theory Rule_Analyzer
  imports Insight
begin

text \<open>
  The rule analyzer, \<open>v11/insight/internal/adapters/analyzer/rule/analyzer.go\<close>: the loops over the
  events and over the maps they fill, and the statistics said without them. The maps are
  association lists in one of Go's iteration orders; the statistics do not depend on it.
\<close>

section \<open>The code\<close>

definition normalize_text :: "string \<Rightarrow> string" where
  "normalize_text value = join '' '' (Go_Strings.fields value)"

definition is_question :: "string \<Rightarrow> bool" where
  \<comment> \<open>a question mark, also the full-width one, or one of the words ma, me and shenme in UTF-8\<close>
  "is_question value \<longleftrightarrow>
     (\<exists>(r, bs) \<in> set (runes value). r = 63 \<or> r = 65311) \<or>
     contains value [CHR 0xE5, CHR 0x90, CHR 0x97] \<or> contains value [CHR 0xE4, CHR 0xB9, CHR 0x88] \<or>
     contains value [CHR 0xE4, CHR 0xBB, CHR 0x80, CHR 0xE4, CHR 0xB9, CHR 0x88]"

record tallies =
  tl_counts :: "(string, int) gomap"
  tl_users :: "string list"
  tl_per_second :: "(time, int) gomap"
  tl_questions :: int

definition tally_event :: "message_event \<Rightarrow> tallies \<Rightarrow> tallies" where
  \<comment> \<open>one round of the loop over the events\<close>
  "tally_event e t =
     (let content = normalize_text (ev_content e);
          sec = time_truncate (ev_at e) second
      in t\<lparr>tl_counts := AList.update content (gm_get 0 (tl_counts t) content + 1) (tl_counts t),
           tl_users := List.insert (ev_user e) (tl_users t),
           tl_questions := (if is_question content then tl_questions t + 1 else tl_questions t),
           tl_per_second := AList.update sec (gm_get 0 (tl_per_second t) sec + 1) (tl_per_second t)\<rparr>)"

definition peak_of :: "(time, int) gomap \<Rightarrow> int" where
  "peak_of per_second = fold (\<lambda>(sec, count) peak. if count > peak then count else peak) per_second 0"

definition repeated_of :: "(string, int) gomap \<Rightarrow> int \<times> string list" where
  "repeated_of counts =
     fold (\<lambda>(text, count) (messages, texts).
        if count > 1 then (messages + count, texts @ [text]) else (messages, texts)) counts (0, [])"

definition top_of :: "(string, int) gomap \<Rightarrow> string list \<Rightarrow> string \<times> int" where
  "top_of counts texts =
     fold (\<lambda>text (best, n). if gm_get 0 counts text > n then (text, gm_get 0 counts text) else (best, n))
       texts ([], 0)"

definition rule_analyze :: "string option \<Rightarrow> insight_window \<Rightarrow> string + rule_stats" where
  \<comment> \<open>first the context's error, if it has one\<close>
  "rule_analyze ctx window =
     (case ctx of
        Some err \<Rightarrow> Inl err
      | None \<Rightarrow>
          (let t = fold tally_event (iw_events window)
                 \<lparr>tl_counts = [], tl_users = [], tl_per_second = [], tl_questions = 0\<rparr>;
               n = int (length (iw_events window));
               (messages, texts) = repeated_of (tl_counts t);
               (best, top_count) = top_of (tl_counts t) (sort texts)
           in Inr \<lparr>ru_message_count = n, ru_unique_users = int (length (tl_users t)),
                   ru_question_count = tl_questions t,
                   ru_repeated_message_ratio =
                     (if n > 0 then fdiv (float64_of_int messages) (float64_of_int n) else 0),
                   ru_peak_messages_per_second = peak_of (tl_per_second t),
                   ru_top_repeated_text = best, ru_top_repeated_count = top_count\<rparr>))"

section \<open>The statistics\<close>

definition text_of :: "message_event \<Rightarrow> string" where "text_of e = normalize_text (ev_content e)"

definition second_of :: "message_event \<Rightarrow> time" where "second_of e = time_truncate (ev_at e) second"

definition occurs :: "('a \<Rightarrow> 'b) \<Rightarrow> 'a list \<Rightarrow> 'b \<Rightarrow> int" where
  "occurs f xs y = int (count_list (map f xs) y)"

definition rule_spec :: "message_event list \<Rightarrow> rule_stats \<Rightarrow> bool" where
  "rule_spec es s \<longleftrightarrow>
     ru_message_count s = int (length es) \<and>
     ru_unique_users s = int (card (ev_user ` set es)) \<and>
     ru_question_count s = int (length (filter (\<lambda>e. is_question (text_of e)) es)) \<and>
     ru_peak_messages_per_second s = Max (insert 0 (occurs second_of es ` second_of ` set es)) \<and>
     ru_repeated_message_ratio s =
       (if es = [] then 0
        else fdiv (float64_of_int (int (length (filter (\<lambda>e. occurs text_of es (text_of e) > 1) es))))
                  (float64_of_int (int (length es)))) \<and>
     (if \<exists>e \<in> set es. occurs text_of es (text_of e) > 1
      then ru_top_repeated_text s \<in> text_of ` set es \<and>
        ru_top_repeated_count s = occurs text_of es (ru_top_repeated_text s) \<and>
        (\<forall>e \<in> set es. occurs text_of es (text_of e) < ru_top_repeated_count s \<or>
           occurs text_of es (text_of e) = ru_top_repeated_count s \<and> ru_top_repeated_text s \<le> text_of e)
      else ru_top_repeated_text s = [] \<and> ru_top_repeated_count s = 0)"

lemma occurs_snoc: "occurs f (xs @ [x]) y = occurs f xs y + (if y = f x then 1 else 0)"
  by (simp add: occurs_def)

definition tallied :: "message_event list \<Rightarrow> tallies \<Rightarrow> bool" where
  "tallied es t \<longleftrightarrow>
     gm_wf (tl_counts t) \<and> (\<forall>x. gm_has (tl_counts t) x \<longleftrightarrow> x \<in> text_of ` set es) \<and>
     (\<forall>x. gm_get 0 (tl_counts t) x = occurs text_of es x) \<and>
     distinct (tl_users t) \<and> set (tl_users t) = ev_user ` set es \<and>
     gm_wf (tl_per_second t) \<and> (\<forall>x. gm_has (tl_per_second t) x \<longleftrightarrow> x \<in> second_of ` set es) \<and>
     (\<forall>x. gm_get 0 (tl_per_second t) x = occurs second_of es x) \<and>
     tl_questions t = int (length (filter (\<lambda>e. is_question (text_of e)) es))"

lemma tallied_step: "tallied es t \<Longrightarrow> tallied (es @ [e]) (tally_event e t)"
  by (auto simp: tallied_def tally_event_def Let_def text_of_def [symmetric] second_of_def [symmetric]
      occurs_snoc gm_get_update gm_has_update)

lemma tallied_run:
  "tallied es (fold tally_event es \<lparr>tl_counts = [], tl_users = [], tl_per_second = [], tl_questions = 0\<rparr>)"
  by (induction es rule: rev_induct) (simp add: tallied_def occurs_def, simp add: tallied_step)

lemma gm_entries:
  "gm_wf m \<Longrightarrow> set m = (\<lambda>k. (k, gm_get z m k)) ` {k. gm_has m k}"
  by (auto simp: gm_wf_def gm_has_def gm_get_def image_iff dest: map_of_SomeD)

lemma peak_of_Max: "peak_of m = Max (insert 0 (snd ` set m))"
proof -
  have "fold (\<lambda>(sec, count) peak. if count > peak then count else peak) m p = Max (insert p (snd ` set m))" for p
  proof (induction m arbitrary: p)
    case (Cons x m)
    have "Max (insert p (insert (snd x) (snd ` set m))) = Max (insert (max p (snd x)) (snd ` set m))"
      by (cases "snd ` set m = {}") (simp_all add: Max_insert max.assoc)
    then show ?case using Cons by (cases x) (auto simp: max_def)
  qed simp
  then show ?thesis by (simp add: peak_of_def)
qed

lemma repeated_of_filter:
  "repeated_of m =
     (sum_list (map snd (filter (\<lambda>kv. snd kv > 1) m)), map fst (filter (\<lambda>kv. snd kv > 1) m))"
proof -
  have "fold (\<lambda>(text, count) (messages, texts).
        if count > 1 then (messages + count, texts @ [text]) else (messages, texts)) m (a, xs) =
     (a + sum_list (map snd (filter (\<lambda>kv. snd kv > 1) m)), xs @ map fst (filter (\<lambda>kv. snd kv > 1) m))"
    for a :: int and xs :: "string list"
    by (induction m arbitrary: a xs) auto
  then show ?thesis by (simp add: repeated_of_def)
qed

lemma sum_of_counts:
  assumes "gm_wf m" "\<forall>x. gm_has m x \<longleftrightarrow> x \<in> f ` set es" "\<forall>x. gm_get 0 m x = occurs f es x"
  shows "sum_list (map snd (filter (\<lambda>kv. snd kv > 1) m)) =
    int (length (filter (\<lambda>e. occurs f es (f e) > 1) es))"
proof -
  have d: "distinct (filter (\<lambda>kv. snd kv > 1) m)" using assms(1) by (simp add: gm_wf_def distinct_map)
  have entries: "set (filter (\<lambda>kv. snd kv > 1) m) = (\<lambda>x. (x, occurs f es x)) ` {x \<in> f ` set es. occurs f es x > 1}"
    using gm_entries [OF assms(1), of 0] assms(2,3) by auto
  have "sum_list (map snd (filter (\<lambda>kv. snd kv > 1) m)) = (\<Sum>kv \<in> set (filter (\<lambda>kv. snd kv > 1) m). snd kv)"
    using d by (rule sum_list_distinct_conv_sum_set)
  also have "\<dots> = (\<Sum>x \<in> {x \<in> f ` set es. occurs f es x > 1}. occurs f es x)"
    unfolding entries by (subst sum.reindex) (auto simp: inj_on_def)
  also have "\<dots> = (\<Sum>x \<in> {x \<in> f ` set es. occurs f es x > 1}. int (length (filter (\<lambda>e. f e = x) es)))"
    by (intro sum.cong) (auto simp: occurs_def count_list_eq_length_filter filter_map comp_def eq_commute)
  also have "\<dots> = int (length (filter (\<lambda>e. occurs f es (f e) > 1) es))"
  proof -
    have "length (filter (\<lambda>e. f e \<in> A) es) = (\<Sum>x \<in> A. length (filter (\<lambda>e. f e = x) es))" if "finite A" for A
    proof (induction es)
      case (Cons a es)
      have "length (filter (\<lambda>e. f e = x) (a # es)) = (if x = f a then 1 else 0) + length (filter (\<lambda>e. f e = x) es)" for x
        by simp
      then have "(\<Sum>x \<in> A. length (filter (\<lambda>e. f e = x) (a # es))) =
          (\<Sum>x \<in> A. if x = f a then 1 else 0) + (\<Sum>x \<in> A. length (filter (\<lambda>e. f e = x) es))"
        by (simp only: sum.distrib)
      then show ?case using Cons that by simp
    qed simp
    from this [of "{x \<in> f ` set es. occurs f es x > 1}"]
    have "length (filter (\<lambda>e. f e \<in> {x \<in> f ` set es. occurs f es x > 1}) es) =
       (\<Sum>x \<in> {x \<in> f ` set es. occurs f es x > 1}. length (filter (\<lambda>e. f e = x) es))" by simp
    moreover have "filter (\<lambda>e. f e \<in> {x \<in> f ` set es. occurs f es x > 1}) es = filter (\<lambda>e. occurs f es (f e) > 1) es"
      by (rule filter_cong) auto
    ultimately show ?thesis by simp
  qed
  finally show ?thesis .
qed

text \<open>The loop over the sorted texts ends at the smallest text of the highest count.\<close>

lemma top_of_sorted:
  fixes counts :: "(string, int) gomap"
  assumes "sorted texts"
    "fold (\<lambda>text (best, n). if gm_get 0 counts text > n then (text, gm_get 0 counts text) else (best, n))
       texts (best, n) = (best', n')"
  shows "n \<le> n' \<and> (\<forall>x \<in> set texts. gm_get 0 counts x \<le> n') \<and>
    (n' = n \<longrightarrow> best' = best) \<and>
    (n < n' \<longrightarrow> best' \<in> set texts \<and> gm_get 0 counts best' = n' \<and>
       (\<forall>x \<in> set texts. gm_get 0 counts x = n' \<longrightarrow> best' \<le> x))"
  using assms
proof (induction texts arbitrary: best n)
  case (Cons x texts)
  show ?case
  proof (cases "gm_get 0 counts x > n")
    case True
    then have "fold (\<lambda>text (best, n). if gm_get 0 counts text > n then (text, gm_get 0 counts text) else (best, n))
       texts (x, gm_get 0 counts x) = (best', n')" using Cons.prems by simp
    from Cons.IH [OF _ this] Cons.prems(1) True show ?thesis by (cases "gm_get 0 counts x = n'") auto
  next
    case False
    then have "fold (\<lambda>text (best, n). if gm_get 0 counts text > n then (text, gm_get 0 counts text) else (best, n))
       texts (best, n) = (best', n')" using Cons.prems by simp
    from Cons.IH [OF _ this] Cons.prems(1) False show ?thesis by (cases "n = n'") auto
  qed
qed simp

lemma rule_analyze_spec:
  "\<exists>s. rule_analyze None window = Inr s \<and> rule_spec (iw_events window) s"
proof -
  let ?es = "iw_events window"
  define t where "t = fold tally_event ?es
    \<lparr>tl_counts = [], tl_users = [], tl_per_second = [], tl_questions = 0\<rparr>"
  have t: "tallied ?es t" unfolding t_def by (rule tallied_run)
  then have wf: "gm_wf (tl_counts t)" "gm_wf (tl_per_second t)"
    and has: "\<forall>x. gm_has (tl_counts t) x \<longleftrightarrow> x \<in> text_of ` set ?es"
      "\<forall>x. gm_has (tl_per_second t) x \<longleftrightarrow> x \<in> second_of ` set ?es"
    and get: "\<forall>x. gm_get 0 (tl_counts t) x = occurs text_of ?es x"
      "\<forall>x. gm_get 0 (tl_per_second t) x = occurs second_of ?es x"
    and users: "distinct (tl_users t)" "set (tl_users t) = ev_user ` set ?es"
    and questions: "tl_questions t = int (length (filter (\<lambda>e. is_question (text_of e)) ?es))"
    by (simp_all add: tallied_def)
  define m where "m = sum_list (map snd (filter (\<lambda>kv. snd kv > 1) (tl_counts t)))"
  define texts where "texts = map fst (filter (\<lambda>kv. snd kv > 1) (tl_counts t))"
  obtain best n where best: "top_of (tl_counts t) (sort texts) = (best, n)" by fastforce
  have m: "m = int (length (filter (\<lambda>e. occurs text_of ?es (text_of e) > 1) ?es))"
    unfolding m_def by (rule sum_of_counts [OF wf(1) has(1) get(1)])
  have texts: "set texts = {x \<in> text_of ` set ?es. occurs text_of ?es x > 1}"
    using gm_entries [OF wf(1), of 0] has(1) get(1) by (auto simp: texts_def image_iff)
  have peak: "peak_of (tl_per_second t) = Max (insert 0 (occurs second_of ?es ` second_of ` set ?es))"
  proof -
    have "snd ` set (tl_per_second t) = occurs second_of ?es ` second_of ` set ?es"
    proof -
      have "{k. gm_has (tl_per_second t) k} = second_of ` set ?es" using has(2) by blast
      then show ?thesis unfolding gm_entries [OF wf(2), of 0] using get(2) by (simp add: image_image)
    qed
    then show ?thesis by (simp add: peak_of_Max)
  qed
  have top: "0 \<le> n \<and> (\<forall>x \<in> set texts. occurs text_of ?es x \<le> n) \<and> (n = 0 \<longrightarrow> best = []) \<and>
      (0 < n \<longrightarrow> best \<in> set texts \<and> occurs text_of ?es best = n \<and>
        (\<forall>x \<in> set texts. occurs text_of ?es x = n \<longrightarrow> best \<le> x))"
    using top_of_sorted [of "sort texts" "tl_counts t" "[]" 0 best n] best get(1) by (simp add: top_of_def)
  have result: "rule_analyze None window = Inr
      \<lparr>ru_message_count = int (length ?es), ru_unique_users = int (length (tl_users t)),
       ru_question_count = tl_questions t,
       ru_repeated_message_ratio =
         (if int (length ?es) > 0 then fdiv (float64_of_int m) (float64_of_int (int (length ?es))) else 0),
       ru_peak_messages_per_second = peak_of (tl_per_second t),
       ru_top_repeated_text = best, ru_top_repeated_count = n\<rparr>" (is "_ = Inr ?s")
    using best by (simp add: rule_analyze_def Let_def t_def [symmetric] repeated_of_filter
        m_def [symmetric] texts_def [symmetric])
  have "int (length (tl_users t)) = int (card (ev_user ` set ?es))"
    using users by (metis distinct_card)
  moreover have "if \<exists>e \<in> set ?es. occurs text_of ?es (text_of e) > 1
      then best \<in> text_of ` set ?es \<and> n = occurs text_of ?es best \<and>
        (\<forall>e \<in> set ?es. occurs text_of ?es (text_of e) < n \<or>
           occurs text_of ?es (text_of e) = n \<and> best \<le> text_of e)
      else best = [] \<and> n = 0"
  proof (cases "\<exists>e \<in> set ?es. occurs text_of ?es (text_of e) > 1")
    case True
    then obtain e where "e \<in> set ?es" "occurs text_of ?es (text_of e) > 1" by blast
    then have "1 < n" using top texts by fastforce
    then have "best \<in> set texts" "occurs text_of ?es best = n" using top by auto
    moreover have "occurs text_of ?es (text_of e) < n \<or> occurs text_of ?es (text_of e) = n \<and> best \<le> text_of e"
      if "e \<in> set ?es" for e
      using that top texts \<open>1 < n\<close> by (cases "occurs text_of ?es (text_of e) > 1") force+
    ultimately show ?thesis using True texts by auto
  next
    case False
    then have "set texts = {}" using texts by auto
    then have "n = 0" using top by force
    then show ?thesis using False top by simp
  qed
  ultimately have "rule_spec ?es ?s"
    using m peak questions by (simp add: rule_spec_def) (metis (no_types, lifting))
  then show ?thesis using result by blast
qed


end
