(* ===== verification/Window_Store.thy ===== *)
theory Window_Store
  imports Insight
begin

text \<open>
  The window store of the insight service, \<open>v11/insight/internal/adapters/window/memory/store.go\<close>,
  and what its callers learn from an \<open>Add\<close> (\<open>ports.go\<close>). Every operation runs under the store's
  mutex and is one step. A Go map is an association list in one of its iteration orders; a set of
  keys is a list.
\<close>

section \<open>State\<close>

record add_result =
  ad_ref :: window_ref
  ad_added :: bool
  ad_duplicate :: bool
  ad_late :: bool
  ad_completed :: bool

record store_config =
  sc_window_size :: duration
  sc_lateness :: duration
  sc_max_events :: int

record window_state =
  ws_ref :: window_ref
  ws_events :: "message_event list"
  ws_event_ids :: "string list"
  ws_total :: int
  ws_duplicates :: int
  ws_late :: int
  ws_due_at :: time
  ws_claimed :: bool

record window_store =
  st_config :: store_config
  st_windows :: "(string, window_state) gomap"
  st_completed :: "string list"

definition default_window_size :: duration where "default_window_size = 60 * second"
definition default_lateness :: duration where "default_lateness = 10 * second"
definition default_max_events :: int where "default_max_events = 500"

definition new_store :: "store_config \<Rightarrow> window_store" where
  "new_store config =
     \<lparr>st_config =
        \<lparr>sc_window_size = (if sc_window_size config \<le> 0 then default_window_size else sc_window_size config),
         sc_lateness = (if sc_lateness config \<le> 0 then default_lateness else sc_lateness config),
         sc_max_events = (if sc_max_events config \<le> 0 then default_max_events else sc_max_events config)\<rparr>,
      st_windows = [], st_completed = []\<rparr>"

section \<open>Operations\<close>

definition fresh_window :: "store_config \<Rightarrow> window_ref \<Rightarrow> window_state" where
  "fresh_window config ref =
     \<lparr>ws_ref = ref, ws_events = [], ws_event_ids = [], ws_total = 0, ws_duplicates = 0, ws_late = 0,
      ws_due_at = wr_end ref + sc_lateness config, ws_claimed = False\<rparr>"

definition count_event ::
  "store_config \<Rightarrow> message_event \<Rightarrow> time \<Rightarrow> window_state \<Rightarrow> window_state" where
  \<comment> \<open>what an event does to the state of its window\<close>
  "count_event config e now w =
     (if ev_id e \<in> set (ws_event_ids w) then w\<lparr>ws_duplicates := ws_duplicates w + 1\<rparr>
      else
        (let w = w\<lparr>ws_event_ids := ev_id e # ws_event_ids w, ws_total := ws_total w + 1\<rparr>
         in if \<not> now < wr_end (ws_ref w) + sc_lateness config then w\<lparr>ws_late := ws_late w + 1\<rparr>
            else if int (length (ws_events w)) < sc_max_events config
            then w\<lparr>ws_events := ws_events w @ [e]\<rparr>
            else w))"

definition add_event :: "message_event \<Rightarrow> time \<Rightarrow> window_store \<Rightarrow> window_store \<times> (string + add_result)" where
  "add_event e now s =
     (case validate_event e of
        Some err \<Rightarrow> (s, Inl err)
      | None \<Rightarrow>
          (case new_window_ref (ev_room e) (ev_at e) (sc_window_size (st_config s)) of
             Inl err \<Rightarrow> (s, Inl err)
           | Inr ref \<Rightarrow>
               (let key = window_key ref;
                    w = (case map_of (st_windows s) key of
                           Some w \<Rightarrow> w | None \<Rightarrow> fresh_window (st_config s) ref);
                    duplicate = (ev_id e \<in> set (ws_event_ids w));
                    late = (\<not> duplicate \<and> \<not> now < wr_end ref + sc_lateness (st_config s))
                in (s\<lparr>st_windows := AList.update key (count_event (st_config s) e now w) (st_windows s)\<rparr>,
                    Inr \<lparr>ad_ref = ref, ad_added = \<not> duplicate, ad_duplicate = duplicate, ad_late = late,
                         ad_completed = (key \<in> set (st_completed s))\<rparr>))))"

definition due_windows :: "time \<Rightarrow> window_store \<Rightarrow> (string \<times> window_state) list" where
  \<comment> \<open>in the order of the sort: by start, then by room\<close>
  "due_windows now s =
     sort_key (\<lambda>kw. (wr_start (ws_ref (snd kw)), wr_room (ws_ref (snd kw))))
       (filter (\<lambda>kw. \<not> (fst kw \<in> set (st_completed s) \<or> ws_claimed (snd kw) \<or> ws_due_at (snd kw) > now))
          (st_windows s))"

definition mark_claimed :: "string \<times> window_state \<Rightarrow> window_store \<Rightarrow> window_store" where
  "mark_claimed kw s =
     s\<lparr>st_windows := AList.update (fst kw) ((snd kw)\<lparr>ws_claimed := True\<rparr>) (st_windows s)\<rparr>"

definition claim_due :: "time \<Rightarrow> int \<Rightarrow> window_store \<Rightarrow> window_store \<times> window_ref list" where
  "claim_due now limit s =
     (if limit \<le> 0 then (s, [])
      else
        (let due = take (nat limit) (due_windows now s)
         in (fold mark_claimed due s, map (ws_ref \<circ> snd) due)))"

definition load_window :: "window_ref \<Rightarrow> window_store \<Rightarrow> string + insight_window" where
  "load_window ref s =
     (case map_of (st_windows s) (window_key ref) of
        None \<Rightarrow> Inl ''window not found''
      | Some w \<Rightarrow>
          Inr \<lparr>iw_ref = ws_ref w, iw_events = sort_key (\<lambda>e. (ev_at e, ev_id e)) (ws_events w),
               iw_total_messages = ws_total w, iw_duplicate_messages = ws_duplicates w,
               iw_late_messages = ws_late w\<rparr>)"

definition complete_window :: "window_ref \<Rightarrow> window_store \<Rightarrow> window_store \<times> string option" where
  "complete_window ref s =
     (let key = window_key ref
      in (case map_of (st_windows s) key of
            None \<Rightarrow> (s, Some ''window not found'')
          | Some w \<Rightarrow>
              (s\<lparr>st_completed := List.insert key (st_completed s),
                 st_windows := AList.update key (w\<lparr>ws_claimed := False\<rparr>) (st_windows s)\<rparr>, None)))"

definition release_window :: "window_ref \<Rightarrow> time \<Rightarrow> window_store \<Rightarrow> window_store \<times> string option" where
  "release_window ref retry_at s =
     (let key = window_key ref
      in (case map_of (st_windows s) key of
            None \<Rightarrow> (s, Some ''window not found'')
          | Some w \<Rightarrow>
              (s\<lparr>st_windows :=
                   AList.update key (w\<lparr>ws_claimed := False, ws_due_at := retry_at\<rparr>) (st_windows s)\<rparr>, None)))"

section \<open>Runs of the store\<close>

datatype store_op =
    Add message_event time
  | Claim time int
  | Complete window_ref
  | Release window_ref time

fun store_step :: "store_op \<Rightarrow> window_store \<Rightarrow> window_store \<times> window_ref list" where
  "store_step (Add e now) s = (fst (add_event e now s), [])"
| "store_step (Claim now limit) s = claim_due now limit s"
| "store_step (Complete ref) s = (fst (complete_window ref s), [])"
| "store_step (Release ref t) s = (fst (release_window ref t s), [])"

definition store_wf :: "window_store \<Rightarrow> bool" where
  "store_wf s \<longleftrightarrow> gm_wf (st_windows s) \<and>
     (\<forall>k w. map_of (st_windows s) k = Some w \<longrightarrow> k = window_key (ws_ref w))"

text \<open>A run over a list of operations; \<open>window_at\<close> is the state of a window after it.\<close>

definition window_at :: "window_store \<Rightarrow> window_ref \<Rightarrow> window_state option" where
  "window_at s ref = map_of (st_windows s) (window_key ref)"

lemma map_of_gm: "map_of (AList.update k v m) k' = (if k' = k then Some v else map_of m k')"
  by (simp add: update_conv')

lemma mark_claimed_frame [simp]:
  "st_completed (mark_claimed kw s) = st_completed s" "st_config (mark_claimed kw s) = st_config s"
  "st_windows (mark_claimed kw s) = AList.update (fst kw) ((snd kw)\<lparr>ws_claimed := True\<rparr>) (st_windows s)"
  by (simp_all add: mark_claimed_def)

lemma mark_all_frame:
  "st_completed (fold mark_claimed ks s) = st_completed s \<and> st_config (fold mark_claimed ks s) = st_config s \<and>
   (gm_wf (st_windows s) \<longrightarrow> gm_wf (st_windows (fold mark_claimed ks s)))"
  by (induction ks arbitrary: s) auto

lemma mark_all_lookup:
  "distinct (map fst ks) \<Longrightarrow>
   map_of (st_windows (fold mark_claimed ks s)) k =
     (case map_of ks k of Some w \<Rightarrow> Some (w\<lparr>ws_claimed := True\<rparr>) | None \<Rightarrow> map_of (st_windows s) k)"
proof (induction ks arbitrary: s)
  case (Cons kw ks)
  have "map_of ks (fst kw) = None" using Cons.prems by (simp add: map_of_eq_None_iff)
  then show ?case using Cons by (cases kw) (auto simp: map_of_gm split: option.split)
qed simp

lemma due_windows_member:
  "gm_wf (st_windows s) \<Longrightarrow> (k, w) \<in> set (due_windows now s) \<longleftrightarrow>
     map_of (st_windows s) k = Some w \<and> k \<notin> set (st_completed s) \<and> \<not> ws_claimed w \<and> ws_due_at w \<le> now"
  by (auto simp: due_windows_def gm_wf_def not_less)

lemma due_windows_distinct: "gm_wf (st_windows s) \<Longrightarrow> distinct (map fst (due_windows now s))"
proof -
  assume "gm_wf (st_windows s)"
  then have d: "distinct (map fst (filter P (st_windows s)))" for P by (simp add: gm_wf_def distinct_map_filter)
  have "distinct (map fst (sort_key f xs)) = distinct (map fst xs)"
    for f :: "string \<times> window_state \<Rightarrow> time \<times> string" and xs :: "(string \<times> window_state) list"
    by (rule mset_eq_imp_distinct_iff) simp
  then show ?thesis unfolding due_windows_def using d by blast
qed

lemma store_wf_new: "store_wf (new_store c)"
  by (simp add: store_wf_def new_store_def)

lemma count_event_ref [simp]: "ws_ref (count_event c e now w) = ws_ref w"
  "ws_claimed (count_event c e now w) = ws_claimed w" "ws_due_at (count_event c e now w) = ws_due_at w"
  by (simp_all add: count_event_def Let_def)

definition claimed_refs :: "time \<Rightarrow> int \<Rightarrow> window_store \<Rightarrow> window_ref list" where
  "claimed_refs now limit s = snd (claim_due now limit s)"

lemma claim_due_refs:
  "snd (claim_due now limit s) = map (ws_ref \<circ> snd) (take (nat limit) (due_windows now s))"
  by (simp add: claim_due_def Let_def)

lemma claim_due_state: "fst (claim_due now limit s) = fold mark_claimed (take (nat limit) (due_windows now s)) s"
  by (simp add: claim_due_def Let_def)

lemma due_keys:
  assumes "store_wf s" "(k, w) \<in> set (due_windows now s)"
  shows "k = window_key (ws_ref w)" "map_of (st_windows s) k = Some w"
  using assms due_windows_member [of s k w now] by (auto simp: store_wf_def)

lemma claim_due_windows:
  assumes "store_wf s"
  shows "window_at (fst (claim_due now limit s)) ref =
    map_option (\<lambda>w. if ref \<in> set (snd (claim_due now limit s)) then w\<lparr>ws_claimed := True\<rparr> else w)
      (window_at s ref)"
proof -
  define due where "due = take (nat limit) (due_windows now s)"
  have wf: "gm_wf (st_windows s)" using assms by (simp add: store_wf_def)
  have dist: "distinct (map fst due)"
    using due_windows_distinct [OF wf, of now] by (simp add: due_def take_map [symmetric])
  have mem: "x \<in> set (due_windows now s)" if "x \<in> set due" for x
    using that by (auto simp: due_def dest: in_set_takeD)
  have key: "k = window_key (ws_ref w) \<and> map_of (st_windows s) k = Some w" if "(k, w) \<in> set due" for k w
    using due_keys [OF assms mem [OF that]] by simp
  have look: "map_of (st_windows (fold mark_claimed due s)) (window_key ref) =
     (case map_of due (window_key ref) of Some w \<Rightarrow> Some (w\<lparr>ws_claimed := True\<rparr>)
      | None \<Rightarrow> map_of (st_windows s) (window_key ref))"
    by (rule mark_all_lookup [OF dist])
  have taken: "ref \<in> set (map (ws_ref \<circ> snd) due) \<longleftrightarrow> map_of due (window_key ref) \<noteq> None"
  proof
    assume "ref \<in> set (map (ws_ref \<circ> snd) due)"
    then obtain k w where "(k, w) \<in> set due" "ref = ws_ref w" by auto
    then have "(window_key ref, w) \<in> set due" using key by auto
    then show "map_of due (window_key ref) \<noteq> None" by (auto dest: weak_map_of_SomeI)
  next
    assume "map_of due (window_key ref) \<noteq> None"
    then obtain w where "(window_key ref, w) \<in> set due" by (auto dest: map_of_SomeD)
    then show "ref \<in> set (map (ws_ref \<circ> snd) due)" using key by (force simp: window_key_inj)
  qed
  have "map_of (st_windows (fold mark_claimed due s)) (window_key ref) =
      map_option (\<lambda>w. if ref \<in> set (map (ws_ref \<circ> snd) due) then w\<lparr>ws_claimed := True\<rparr> else w)
        (map_of (st_windows s) (window_key ref))"
  proof (cases "map_of due (window_key ref)")
    case None
    then show ?thesis using taken by (simp only: look) (simp add: option.map_ident)
  next
    case (Some w)
    then have "map_of (st_windows s) (window_key ref) = Some w" using key [OF map_of_SomeD] by blast
    then show ?thesis using Some taken by (simp only: look) simp
  qed
  then show ?thesis
    by (simp only: window_at_def claim_due_refs claim_due_state due_def [symmetric])
qed

lemma claim_due_wf: "store_wf s \<Longrightarrow> store_wf (fst (claim_due now limit s))"
proof -
  assume wf: "store_wf s"
  define due where "due = take (nat limit) (due_windows now s)"
  have g: "gm_wf (st_windows s)" using wf by (simp add: store_wf_def)
  have dist: "distinct (map fst due)"
    using due_windows_distinct [OF g, of now] by (simp add: due_def take_map [symmetric])
  have key: "k = window_key (ws_ref w)" if "(k, w) \<in> set due" for k w
    using due_keys(1) [OF wf, of k w now] that by (auto simp: due_def dest: in_set_takeD)
  show ?thesis
    unfolding store_wf_def claim_due_state due_def [symmetric] mark_all_lookup [OF dist]
    using mark_all_frame [of due s] g wf key
    by (auto simp: store_wf_def split: option.splits dest!: map_of_SomeD)
qed

lemma store_step_wf: "store_wf s \<Longrightarrow> store_wf (fst (store_step op s))"
proof (cases op)
  case (Claim now limit)
  then show "store_wf s \<Longrightarrow> ?thesis" by (simp add: claim_due_wf)
qed (auto simp: store_wf_def add_event_def complete_window_def release_window_def Let_def map_of_gm
      fresh_window_def new_window_ref_Inr split: option.splits sum.splits)

lemma store_run_wf: "store_wf s \<Longrightarrow> store_wf (final store_step ops s)"
  by (induction ops arbitrary: s) (auto simp: store_step_wf)

section \<open>The log of a window\<close>

text \<open>What a window holds, said from the events that were added to it: an event counts once, by
  its id; the late ones are only counted, and of the others the first ones are kept.\<close>

definition events_for :: "duration \<Rightarrow> window_ref \<Rightarrow> store_op \<Rightarrow> (message_event \<times> time) list" where
  "events_for width ref op =
     (case op of
        Add e now \<Rightarrow>
          if validate_event e = None \<and> new_window_ref (ev_room e) (ev_at e) width = Inr ref then [(e, now)] else []
      | _ \<Rightarrow> [])"

definition window_log :: "duration \<Rightarrow> window_ref \<Rightarrow> store_op list \<Rightarrow> (message_event \<times> time) list" where
  "window_log width ref ops = concat (map (events_for width ref) ops)"

fun first_by_id :: "string list \<Rightarrow> (message_event \<times> time) list \<Rightarrow> (message_event \<times> time) list" where
  "first_by_id seen [] = []"
| "first_by_id seen (x # xs) =
     (if ev_id (fst x) \<in> set seen then first_by_id seen xs
      else x # first_by_id (ev_id (fst x) # seen) xs)"

definition on_time :: "store_config \<Rightarrow> window_ref \<Rightarrow> message_event \<times> time \<Rightarrow> bool" where
  "on_time c ref x \<longleftrightarrow> snd x < wr_end ref + sc_lateness c"

definition window_of_log :: "store_config \<Rightarrow> window_ref \<Rightarrow> (message_event \<times> time) list \<Rightarrow> insight_window" where
  "window_of_log c ref evs =
     (let counted = first_by_id [] evs
      in \<lparr>iw_ref = ref,
          iw_events = sort_key (\<lambda>e. (ev_at e, ev_id e))
            (take (nat (sc_max_events c)) (map fst (filter (on_time c ref) counted))),
          iw_total_messages = int (length counted),
          iw_duplicate_messages = int (length evs) - int (length counted),
          iw_late_messages = int (length (filter (\<lambda>x. \<not> on_time c ref x) counted))\<rparr>)"

definition holds_log :: "store_config \<Rightarrow> window_ref \<Rightarrow> (message_event \<times> time) list \<Rightarrow> window_state \<Rightarrow> bool" where
  "holds_log c ref evs w \<longleftrightarrow>
     ws_ref w = ref \<and> set (ws_event_ids w) = (ev_id \<circ> fst) ` set evs \<and>
     ws_total w = int (length (first_by_id [] evs)) \<and>
     ws_duplicates w = int (length evs) - int (length (first_by_id [] evs)) \<and>
     ws_late w = int (length (filter (\<lambda>x. \<not> on_time c ref x) (first_by_id [] evs))) \<and>
     ws_events w = take (nat (sc_max_events c)) (map fst (filter (on_time c ref) (first_by_id [] evs)))"

lemma first_by_id_snoc:
  "first_by_id seen (xs @ [x]) = first_by_id seen xs @
     (if ev_id (fst x) \<in> set seen \<union> (ev_id \<circ> fst) ` set xs then [] else [x])"
  by (induction xs arbitrary: seen) auto

lemma holds_log_fresh: "holds_log c ref [] (fresh_window c ref)"
  by (simp add: holds_log_def fresh_window_def)

lemma holds_log_count:
  assumes "holds_log c ref evs w" "0 < sc_max_events c"
  shows "holds_log c ref (evs @ [(e, now)]) (count_event c e now w)"
proof (cases "ev_id e \<in> set (ws_event_ids w)")
  case True
  then show ?thesis using assms by (auto simp: holds_log_def count_event_def first_by_id_snoc)
next
  case False
  define kept where "kept = map fst (filter (on_time c ref) (first_by_id [] evs))"
  have first: "first_by_id [] (evs @ [(e, now)]) = first_by_id [] evs @ [(e, now)]"
    using False assms(1) by (auto simp: first_by_id_snoc holds_log_def)
  have w: "ws_ref w = ref" "ws_events w = take (nat (sc_max_events c)) kept"
    using assms(1) by (simp_all add: holds_log_def kept_def)
  have full: "int (length (ws_events w)) < sc_max_events c \<longleftrightarrow> length kept < nat (sc_max_events c)"
    using w(2) assms(2) by (simp add: min_def) linarith
  show ?thesis
    using assms False w full
    by (auto simp: holds_log_def count_event_def Let_def first on_time_def kept_def [symmetric])
qed

lemma store_step_config [simp]: "st_config (fst (store_step op s)) = st_config s"
  using mark_all_frame
  by (cases op) (auto simp: add_event_def claim_due_def complete_window_def release_window_def Let_def
      split: option.split sum.split)

lemma store_run_config [simp]: "st_config (final store_step ops s) = st_config s"
  by (induction ops arbitrary: s) auto

text \<open>An operation that adds no event to a window changes at most its claim and its due time.\<close>

definition same_contents :: "window_state \<Rightarrow> window_state \<Rightarrow> bool" where
  "same_contents w v \<longleftrightarrow> v = w\<lparr>ws_claimed := ws_claimed v, ws_due_at := ws_due_at v\<rparr>"

lemma same_contents_simps [simp]:
  "same_contents w w" "same_contents w (w\<lparr>ws_claimed := b\<rparr>)"
  "same_contents w (w\<lparr>ws_claimed := b, ws_due_at := t\<rparr>)"
  by (simp_all add: same_contents_def)

lemma same_window: "rel_option same_contents w w"
  by (simp add: option.rel_refl)

lemma step_window:
  assumes "store_wf s"
  shows "case events_for (sc_window_size (st_config s)) ref op of
      [] \<Rightarrow> rel_option same_contents (window_at s ref) (window_at (fst (store_step op s)) ref)
    | (e, now) # rest \<Rightarrow> rest = [] \<and> window_at (fst (store_step op s)) ref = Some (count_event (st_config s) e now
        (case window_at s ref of Some w \<Rightarrow> w | None \<Rightarrow> fresh_window (st_config s) ref))"
proof (cases op)
  case (Add e now)
  then show ?thesis
    by (auto simp: events_for_def add_event_def window_at_def Let_def map_of_gm window_key_inj
        same_window split: option.split sum.split)
next
  case (Claim now limit)
  then show ?thesis
    by (cases "window_at s ref") (simp_all add: events_for_def claim_due_windows [OF assms])
next
  case (Complete r)
  then show ?thesis
    by (auto simp: events_for_def complete_window_def window_at_def Let_def map_of_gm window_key_inj
        same_window split: option.split)
next
  case (Release r t)
  then show ?thesis
    by (auto simp: events_for_def release_window_def window_at_def Let_def map_of_gm window_key_inj
        same_window split: option.split)
qed

lemma holds_log_same: "holds_log c ref evs w \<Longrightarrow> same_contents w v \<Longrightarrow> holds_log c ref evs v"
proof -
  assume h: "holds_log c ref evs w" and s: "same_contents w v"
  have "v = w\<lparr>ws_claimed := ws_claimed v, ws_due_at := ws_due_at v\<rparr>"
    by (rule s [unfolded same_contents_def])
  then obtain b t where "v = w\<lparr>ws_claimed := b, ws_due_at := t\<rparr>" by (rule that)
  then show "holds_log c ref evs v" using h by (simp add: holds_log_def)
qed

lemma run_holds_log:
  fixes config :: store_config
  defines "c \<equiv> st_config (new_store config)"
  shows "case window_at (final store_step ops (new_store config)) ref of
      None \<Rightarrow> window_log (sc_window_size c) ref ops = []
    | Some w \<Rightarrow> window_log (sc_window_size c) ref ops \<noteq> [] \<and> holds_log c ref (window_log (sc_window_size c) ref ops) w"
proof (induction ops rule: rev_induct)
  case Nil
  then show ?case by (simp add: window_at_def new_store_def window_log_def)
next
  case (snoc op ops)
  let ?s = "final store_step ops (new_store config)"
  have "0 < sc_max_events c" by (simp add: c_def new_store_def default_max_events_def)
  note count = holds_log_count [OF _ this]
  have step: "final store_step (ops @ [op]) (new_store config) = fst (store_step op ?s)"
    by (simp add: final_append)
  have cfg: "st_config ?s = c" by (simp add: c_def)
  show ?case
  proof (cases "events_for (sc_window_size c) ref op")
    case Nil
    then have "rel_option same_contents (window_at ?s ref) (window_at (fst (store_step op ?s)) ref)"
      using step_window [OF store_run_wf [OF store_wf_new], of ops config ref op] cfg by simp
    then show ?thesis using snoc Nil unfolding step
      by (cases rule: option.rel_cases) (auto simp: window_log_def intro: holds_log_same)
  next
    case (Cons x rest)
    obtain e now where x: "x = (e, now)" by fastforce
    then have "rest = []" "window_at (fst (store_step op ?s)) ref = Some (count_event c e now
        (case window_at ?s ref of Some w \<Rightarrow> w | None \<Rightarrow> fresh_window c ref))"
      using step_window [OF store_run_wf [OF store_wf_new], of ops config ref op, unfolded cfg] Cons by simp_all
    moreover have "window_log (sc_window_size c) ref (ops @ [op]) = window_log (sc_window_size c) ref ops @ [(e, now)]"
      using Cons x \<open>rest = []\<close> by (simp add: window_log_def)
    ultimately show ?thesis using snoc count [OF holds_log_fresh, of ref e now] count unfolding step
      by (cases "window_at ?s ref") auto
  qed
qed

lemma load_of_log:
  "load_window ref (final store_step ops (new_store config)) =
    (let c = st_config (new_store config); evs = window_log (sc_window_size c) ref ops
     in if evs = [] then Inl ''window not found'' else Inr (window_of_log c ref evs))"
  using run_holds_log [of config ref ops]
  by (auto simp: load_window_def window_at_def holds_log_def window_of_log_def Let_def split: option.splits)

section \<open>Claims\<close>

text \<open>The windows that are claimed and neither completed nor released yet, beside the store.\<close>

fun claims_after :: "store_op list \<Rightarrow> window_store \<times> window_ref list \<Rightarrow> window_store \<times> window_ref list" where
  "claims_after [] sc = sc"
| "claims_after (op # ops) sc =
     (case store_step op (fst sc) of
        (s, refs) \<Rightarrow>
          claims_after ops (s, (case op of
              Complete r \<Rightarrow> removeAll r (snd sc)
            | Release r t \<Rightarrow> removeAll r (snd sc)
            | _ \<Rightarrow> snd sc @ refs)))"

definition claims_inv :: "window_store \<times> window_ref list \<Rightarrow> bool" where
  "claims_inv sc \<longleftrightarrow> store_wf (fst sc) \<and> distinct (snd sc) \<and>
     (\<forall>r \<in> set (snd sc). window_key r \<notin> set (st_completed (fst sc)) \<and>
        (\<exists>w. window_at (fst sc) r = Some w \<and> ws_claimed w))"

lemma claimed_ref:
  assumes "store_wf s" "r \<in> set (snd (claim_due now limit s))"
  shows "\<exists>w. window_at s r = Some w \<and> \<not> ws_claimed w \<and> ws_due_at w \<le> now \<and> window_key r \<notin> set (st_completed s)"
proof -
  obtain k w where kw: "(k, w) \<in> set (due_windows now s)" "r = ws_ref w"
    using assms(2) by (auto simp: claim_due_refs dest: in_set_takeD)
  have "gm_wf (st_windows s)" using assms(1) by (simp add: store_wf_def)
  then show ?thesis using kw due_keys [OF assms(1) kw(1)] due_windows_member [of s k w now]
    by (auto simp: window_at_def)
qed

lemma claimed_distinct:
  assumes "store_wf s"
  shows "distinct (snd (claim_due now limit s))"
proof -
  have "gm_wf (st_windows s)" using assms by (simp add: store_wf_def)
  then have "distinct (map fst (due_windows now s))" by (rule due_windows_distinct)
  moreover have "map fst (due_windows now s) = map (window_key \<circ> (ws_ref \<circ> snd)) (due_windows now s)"
    using due_keys(1) [OF assms] by (intro map_cong) (auto simp: split_beta)
  ultimately have "distinct (map (ws_ref \<circ> snd) (due_windows now s))"
    by (auto simp: distinct_map intro: inj_on_imageI2)
  then show ?thesis by (simp add: claim_due_refs take_map [symmetric] del: map_map)
qed

lemma claims_inv_step:
  assumes inv: "claims_inv (s, out)"
  shows "claims_inv (fst (store_step op s), case op of
      Complete r \<Rightarrow> removeAll r out | Release r t \<Rightarrow> removeAll r out | _ \<Rightarrow> out @ snd (store_step op s))"
proof -
  have wf: "store_wf s" using inv by (simp add: claims_inv_def)
  note wf' = store_step_wf [OF wf, of op]
  show ?thesis
  proof (cases op)
    case (Add e now)
    have "\<exists>w'. window_at (fst (add_event e now s)) r = Some w' \<and> ws_claimed w'"
      if "window_at s r = Some w" "ws_claimed w" for r w
      using that by (auto simp: add_event_def window_at_def Let_def map_of_gm window_key_inj
          split: option.split sum.split)
    moreover have "st_completed (fst (add_event e now s)) = st_completed s"
      by (auto simp: add_event_def Let_def split: option.split sum.split)
    ultimately show ?thesis using inv wf' Add by (auto simp: claims_inv_def)
  next
    case (Claim now limit)
    have out: "r \<notin> set (snd (claim_due now limit s))" if "r \<in> set out" for r
      using claimed_ref [OF wf, of r now limit] inv that by (auto simp: claims_inv_def)
    have "st_completed (fst (claim_due now limit s)) = st_completed s"
      by (simp add: claim_due_state mark_all_frame)
    then show ?thesis
      using inv wf' Claim out claimed_distinct [OF wf, of now limit] claimed_ref [OF wf, of _ now limit]
      by (auto simp: claims_inv_def claim_due_windows [OF wf]) fastforce
  next
    case (Complete r)
    then show ?thesis using inv wf'
      by (auto simp: claims_inv_def distinct_removeAll complete_window_def window_at_def Let_def map_of_gm window_key_inj
          split: option.split)
  next
    case (Release r t)
    then show ?thesis using inv wf'
      by (auto simp: claims_inv_def distinct_removeAll release_window_def window_at_def Let_def map_of_gm window_key_inj
          split: option.split)
  qed
qed

lemma claims_inv_run: "claims_inv sc \<Longrightarrow> claims_inv (claims_after ops sc)"
proof (induction ops arbitrary: sc)
  case (Cons op ops)
  show ?case using Cons.IH [OF claims_inv_step [of "fst sc" "snd sc" op]] Cons.prems
    by (cases op) (simp_all add: split_beta)
qed simp

section \<open>Two events\<close>

definition demo_event :: "string \<Rightarrow> string \<Rightarrow> time \<Rightarrow> message_event" where
  "demo_event i room t =
     \<lparr>ev_id = i, ev_room = room, ev_user = ''u'', ev_username = ''ann'', ev_content = ''hi'', ev_at = t,
      ev_schema_version = ''v1'', ev_source = ''demo''\<rparr>"

definition demo_window :: "string \<Rightarrow> window_ref" where
  "demo_window room = \<lparr>wr_room = room, wr_start = 60 * second, wr_end = 120 * second\<rparr>"

definition demo_store_config :: store_config where
  "demo_store_config = \<lparr>sc_window_size = 60 * second, sc_lateness = second, sc_max_events = 2\<rparr>"

lemma demo_add:
  assumes "room \<in> {''a'', ''b''}"
  shows "validate_event (demo_event ''1'' room (61 * second)) = None \<and>
    new_window_ref room (61 * second) (60 * second) = Inr (demo_window room)"
  using assms
  by (auto simp: validate_event_None demo_event_def demo_window_def new_window_ref_def Let_def
      trim_space_ascii rune_count_ascii valid_string_ascii ascii_def byte_def is_space_def is_zero_def
      time_truncate_def)

lemma demo_claims:
  "\<exists>s. claims_after [Add (demo_event ''1'' ''a'' (61 * second)) 0, Add (demo_event ''1'' ''b'' (61 * second)) 0,
      Claim (300 * second) 1] (new_store demo_store_config, []) = (s, [demo_window ''a''])"
proof -
  have w: "window_key (demo_window ''a'') \<noteq> window_key (demo_window ''b'')"
    by (simp add: window_key_inj demo_window_def)
  have ne: "ev_room (demo_event ''1'' room t) = room" "ev_at (demo_event ''1'' room t) = t"
    "ev_id (demo_event ''1'' room t) = ''1''" for room t by (simp_all add: demo_event_def)
  show ?thesis
    using demo_add [of "''a''"] demo_add [of "''b''"] w
    by (simp add: add_event_def Let_def new_store_def demo_store_config_def ne fresh_window_def count_event_def
        claim_due_def due_windows_def demo_window_def mark_claimed_def)
qed

section \<open>Properties\<close>

text \<open>C14: No window is with two workers: after any operations, \<open>ClaimDue\<close> hands out windows
  that are neither claimed nor completed, each once, at most \<open>limit\<close> of them, oldest first, all of
  them due; and when a window that is due stays behind, the limit was reached.\<close>

theorem claims_are_exclusive:
  assumes "claims_after ops (new_store config, []) = (s, out)"
  shows "let refs = snd (claim_due now limit s) in
    distinct (out @ refs) \<and> int (length refs) \<le> max 0 limit \<and>
    sorted (map (\<lambda>r. (wr_start r, wr_room r)) refs) \<and>
    (\<forall>r \<in> set refs. window_key r \<notin> set (st_completed s) \<and> (\<exists>w. window_at s r = Some w \<and> ws_due_at w \<le> now)) \<and>
    (\<forall>r w. window_at s r = Some w \<and> \<not> ws_claimed w \<and> ws_due_at w \<le> now \<and> window_key r \<notin> set (st_completed s) \<longrightarrow>
       r \<in> set refs \<or> int (length refs) = max 0 limit)"
proof -
  have "claims_inv (new_store config, [])" by (simp add: claims_inv_def store_wf_new)
  then have inv: "claims_inv (s, out)" using claims_inv_run assms by metis
  then have wf: "store_wf s" by (simp add: claims_inv_def)
  then have g: "gm_wf (st_windows s)" by (simp add: store_wf_def)
  let ?refs = "snd (claim_due now limit s)"
  have 1: "distinct (out @ ?refs)"
    using inv claimed_distinct [OF wf, of now limit] claimed_ref [OF wf, of _ now limit]
    by (auto simp: claims_inv_def) fastforce
  have 2: "int (length ?refs) \<le> max 0 limit" by (simp add: claim_due_refs min_def) linarith
  have "sorted (map (\<lambda>kw. (wr_start (ws_ref (snd kw)), wr_room (ws_ref (snd kw)))) (due_windows now s))"
    by (simp add: due_windows_def)
  then have "sorted (take (nat limit) (map (\<lambda>kw. (wr_start (ws_ref (snd kw)), wr_room (ws_ref (snd kw)))) (due_windows now s)))"
    by (rule sorted_wrt_take)
  then have 3: "sorted (map (\<lambda>r. (wr_start r, wr_room r)) ?refs)"
    by (simp add: claim_due_refs take_map comp_def)
  have 4: "\<forall>r \<in> set ?refs. window_key r \<notin> set (st_completed s) \<and> (\<exists>w. window_at s r = Some w \<and> ws_due_at w \<le> now)"
    using claimed_ref [OF wf] by blast
  have "r \<in> set ?refs \<or> int (length ?refs) = max 0 limit"
    if "window_at s r = Some w" "\<not> ws_claimed w" "ws_due_at w \<le> now" "window_key r \<notin> set (st_completed s)" for r w
  proof -
    have "(window_key r, w) \<in> set (due_windows now s)" using that due_windows_member [OF g] by (simp add: window_at_def)
    moreover have "window_key r = window_key (ws_ref w)"
      using that(1) wf unfolding store_wf_def window_at_def by blast
    then have "ws_ref w = r" by (simp add: window_key_inj)
    ultimately have "r \<in> set (map (ws_ref \<circ> snd) (due_windows now s))" by force
    then show ?thesis by (cases "length (due_windows now s) \<le> nat limit") (auto simp: claim_due_refs)
  qed
  then show ?thesis unfolding Let_def using 1 2 3 4 by blast
qed

theorem claims_are_exclusive_witness:
  "\<exists>s. distinct (demo_window ''a'' # snd (claim_due (300 * second) 5 s)) \<and>
     claims_after [Add (demo_event ''1'' ''a'' (61 * second)) 0, Add (demo_event ''1'' ''b'' (61 * second)) 0,
       Claim (300 * second) 1] (new_store demo_store_config, []) = (s, [demo_window ''a''])"
proof -
  obtain s where s: "claims_after [Add (demo_event ''1'' ''a'' (61 * second)) 0,
      Add (demo_event ''1'' ''b'' (61 * second)) 0, Claim (300 * second) 1]
      (new_store demo_store_config, []) = (s, [demo_window ''a''])" using demo_claims by blast
  from claims_are_exclusive [OF s, of "300 * second" 5] show ?thesis
    unfolding Let_def append_Cons append_Nil using s by blast
qed

text \<open>C11: The store is its log: after any operations in any order a window loads as computed from the
  events that were added to it alone. Every event counts once by its id, duplicates and late events
  are only counted, the first \<open>MaxEvents\<close> others are kept, in the order of time and id; claims,
  completions and releases change none of it, and other windows never interfere.\<close>

theorem store_refines_log:
  "load_window ref (final store_step ops (new_store config)) =
    (let c = st_config (new_store config); evs = window_log (sc_window_size c) ref ops
     in if evs = [] then Inl ''window not found'' else Inr (window_of_log c ref evs))"
  by (rule load_of_log)

end
