(* ===== verification/Insight_Repo.thy ===== *)
theory Insight_Repo
  imports Insight
begin

text \<open>
  The insight repository of \<open>v11/insight/internal/adapters/repository/memory/repository.go\<close>: a map
  from idempotency keys to insights behind a mutex. \<open>Save\<close> is the first writer's, \<open>Latest\<close> and
  \<open>List\<close> read the insights of a room, newest window first.
\<close>

section \<open>Operations\<close>

type_synonym insight_repo = "(string, room_insight) gomap"

definition new_repo :: insight_repo where "new_repo = []"

definition clone_insight :: "room_insight \<Rightarrow> room_insight" where
  \<comment> \<open>fresh slices with the same elements\<close>
  "clone_insight i =
     (let s = ri_semantic i
      in i\<lparr>ri_semantic := s\<lparr>se_topics := map (\<lambda>t. t\<lparr>tp_evidence := [] @ tp_evidence t\<rparr>) (se_topics s),
             se_sentiment := (se_sentiment s)\<lparr>sm_evidence := [] @ sm_evidence (se_sentiment s)\<rparr>,
             se_questions := map (\<lambda>q. q\<lparr>qu_evidence := [] @ qu_evidence q\<rparr>) (se_questions s),
             se_alerts := map (\<lambda>a. a\<lparr>al_evidence := [] @ al_evidence a\<rparr>) (se_alerts s)\<rparr>\<rparr>)"

definition save_insight :: "room_insight \<Rightarrow> insight_repo \<Rightarrow> insight_repo \<times> (string + bool)" where
  "save_insight i r =
     (case validate_insight i of
        Some err \<Rightarrow> (r, Inl err)
      | None \<Rightarrow>
          (let key = idempotency_key i
           in if gm_has r key then (r, Inr False)
              else (AList.update key (clone_insight i) r, Inr True)))"

definition newer :: "room_insight \<Rightarrow> room_insight \<Rightarrow> bool" where
  "newer l r =
     (if ri_end l = ri_end r
      then (if ri_start l = ri_start r then idempotency_key l > idempotency_key r
            else ri_start l > ri_start r)
      else ri_end l > ri_end r)"

definition latest_insight :: "string \<Rightarrow> insight_repo \<Rightarrow> room_insight option" where
  "latest_insight room r =
     (let room = trim_space room
      in map_option clone_insight
           (fold (\<lambda>(key, i) latest.
               if ri_room i \<noteq> room \<or> (case latest of Some l \<Rightarrow> \<not> newer i l | None \<Rightarrow> False)
               then latest else Some i) r None))"

definition list_insights :: "string \<Rightarrow> int \<Rightarrow> insight_repo \<Rightarrow> room_insight list" where
  \<comment> \<open>the sort is by \<open>newer\<close>, which is the reverse order of window end, start and key\<close>
  "list_insights room limit r =
     (if limit \<le> 0 then []
      else
        (let room = trim_space room;
             found = map (clone_insight \<circ> snd) (filter (\<lambda>(key, i). ri_room i = room) r);
             sorted = rev (sort_key (\<lambda>i. (ri_end i, ri_start i, idempotency_key i)) found)
         in take (nat limit) sorted))"

section \<open>The contract\<close>

locale insight_repository =
  fixes save :: "room_insight \<Rightarrow> 'r \<Rightarrow> 'r \<times> (string + bool)"
    and stored :: "'r \<Rightarrow> string \<Rightarrow> room_insight option"
  assumes save_invalid: "validate_insight i = Some e \<Longrightarrow> save i r = (r, Inl e)"
    and save_again: "validate_insight i = None \<Longrightarrow> stored r (idempotency_key i) = Some j \<Longrightarrow> save i r = (r, Inr False)"
    and save_new: "validate_insight i = None \<Longrightarrow> stored r (idempotency_key i) = None \<Longrightarrow>
      snd (save i r) = Inr True \<and> stored (fst (save i r)) = (stored r)(idempotency_key i \<mapsto> i)"
begin

lemma save_ok: "validate_insight i = None \<Longrightarrow> (\<exists>b. snd (save i r) = Inr b) \<and> stored (fst (save i r)) (idempotency_key i) \<noteq> None"
  using save_again [of i r] save_new [of i r] by (cases "stored r (idempotency_key i)") auto

lemma save_keeps: "stored r k = Some j \<Longrightarrow> stored (fst (save i r)) k = Some j"
  using save_invalid [of i _ r] save_again [of i r] save_new [of i r]
  by (cases "validate_insight i"; cases "stored r (idempotency_key i)") auto

lemma run_keeps: "stored r k = Some j \<Longrightarrow> stored (final save is r) k = Some j"
  by (induction "is" arbitrary: r) (auto intro: save_keeps)

text \<open>After any saves a key holds the first valid insight with it.\<close>

lemma first_writer_wins:
  "stored (final save is r) k =
     (case stored r k of
        Some j \<Rightarrow> Some j
      | None \<Rightarrow> find (\<lambda>i. validate_insight i = None \<and> idempotency_key i = k) is)"
proof (induction "is" arbitrary: r)
  case (Cons i "is")
  show ?case
  proof (cases "validate_insight i")
    case None
    then show ?thesis using Cons save_again [OF None, of r] save_new [OF None, of r]
      by (cases "stored r (idempotency_key i)") (auto split: option.splits)
  next
    case (Some e)
    then show ?thesis using Cons save_invalid [OF Some, of r] by (simp split: option.split)
  qed
qed (simp split: option.split)

end

lemma clone_insight_id [simp]: "clone_insight i = i"
  by (simp add: clone_insight_def Let_def)

interpretation memory_repo: insight_repository save_insight map_of
  by unfold_locales (auto simp: save_insight_def Let_def gm_has_def update_conv' split: option.splits)

section \<open>Reading\<close>

definition repo_wf :: "insight_repo \<Rightarrow> bool" where
  "repo_wf r \<longleftrightarrow> gm_wf r \<and> (\<forall>(k, i) \<in> set r. k = idempotency_key i)"

lemma set_update: "x \<in> set (AList.update k v m) \<Longrightarrow> x = (k, v) \<or> x \<in> set m"
  by (induction m) (auto split: if_splits)

lemma save_wf: "repo_wf r \<Longrightarrow> repo_wf (fst (save_insight i r))"
  by (auto simp: repo_wf_def save_insight_def Let_def gm_wf_def distinct_update dest!: set_update
      split: option.split)

lemma saves_wf: "repo_wf r \<Longrightarrow> repo_wf (final save_insight is r)"
  by (induction "is" arbitrary: r) (auto simp: save_wf)

definition age :: "room_insight \<Rightarrow> time \<times> time \<times> string" where
  "age i = (ri_end i, ri_start i, idempotency_key i)"

lemma newer_age: "newer l r \<longleftrightarrow> age r < age l"
  by (auto simp: newer_def age_def)

lemma latest_fold:
  "\<forall>x. acc = Some x \<longrightarrow> ri_room x = room \<Longrightarrow>
   fold (\<lambda>(key, i) latest.
      if ri_room i \<noteq> room \<or> (case latest of Some l \<Rightarrow> \<not> newer i l | None \<Rightarrow> False) then latest else Some i) r acc = res \<Longrightarrow>
   (case res of
      None \<Rightarrow> acc = None \<and> (\<forall>(k, i) \<in> set r. ri_room i \<noteq> room)
    | Some x \<Rightarrow> (acc = Some x \<or> (\<exists>k. (k, x) \<in> set r \<and> ri_room x = room)) \<and>
        (\<forall>a. acc = Some a \<longrightarrow> age a \<le> age x) \<and> (\<forall>(k, i) \<in> set r. ri_room i = room \<longrightarrow> age i \<le> age x))"
proof (induction r arbitrary: acc)
  case Nil
  then show ?case by (auto split: option.split)
next
  case (Cons ki r)
  obtain k i where ki: "ki = (k, i)" by fastforce
  let ?acc = "if ri_room i \<noteq> room \<or> (case acc of Some l \<Rightarrow> \<not> newer i l | None \<Rightarrow> False) then acc else Some i"
  have inv: "\<forall>x. ?acc = Some x \<longrightarrow> ri_room x = room" using Cons.prems(1) by auto
  have "fold (\<lambda>(key, i) latest.
      if ri_room i \<noteq> room \<or> (case latest of Some l \<Rightarrow> \<not> newer i l | None \<Rightarrow> False) then latest else Some i) r ?acc = res"
    using Cons.prems(2) ki by simp
  note ih = Cons.IH [OF inv this]
  show ?case
  proof (cases res)
    case None
    then show ?thesis using ih by (auto simp: ki split: if_splits option.splits)
  next
    case (Some x)
    have "age i \<le> age x \<and> (\<forall>a. acc = Some a \<longrightarrow> age a \<le> age x)" if "ri_room i = room"
      using ih that unfolding Some newer_age
      by (cases acc) (auto split: if_splits dest: leI less_imp_le intro: order_trans)
    then show ?thesis using ih Some by (auto simp: ki split: if_splits)
  qed
qed

lemma entries_distinct:
  assumes "repo_wf r"
  shows "distinct (map (age \<circ> snd) r)"
proof -
  have "map fst r = map (idempotency_key \<circ> snd) r" using assms by (intro map_cong) (auto simp: repo_wf_def)
  then have "distinct (map (idempotency_key \<circ> snd) r)" using assms by (metis gm_wf_def repo_wf_def)
  moreover have "idempotency_key \<circ> snd = (\<lambda>(x, y, z). z) \<circ> (age \<circ> snd)" by (auto simp: age_def)
  ultimately show ?thesis by (metis distinct_map inj_on_imageI2 comp_assoc)
qed

definition found_in :: "string \<Rightarrow> insight_repo \<Rightarrow> room_insight list" where
  "found_in room r = map snd (filter (\<lambda>(k, i). ri_room i = room) r)"

lemma list_insights_found:
  "0 < limit \<Longrightarrow> list_insights room limit r = take (nat limit) (rev (sort_key age (found_in (trim_space room) r)))"
  by (simp add: list_insights_def Let_def found_in_def age_def [abs_def] comp_def)

lemma found_ages_distinct: "repo_wf r \<Longrightarrow> distinct (map age (found_in room r))"
  using distinct_map_filter [of "age \<circ> snd" r] entries_distinct [of r] by (simp add: found_in_def)

lemma listed_newest_first:
  assumes "repo_wf r"
  shows "sorted_wrt newer (rev (sort_key age (found_in room r)))"
proof -
  let ?xs = "sort_key age (found_in room r)"
  have "distinct (map age ?xs) = distinct (map age (found_in room r))"
    by (rule mset_eq_imp_distinct_iff) simp
  then have "sorted_wrt (<) (map age ?xs)"
    using found_ages_distinct [OF assms, of room] by (simp add: strict_sorted_iff)
  then show ?thesis by (simp add: sorted_wrt_rev sorted_wrt_map newer_age)
qed

lemma latest_of_found:
  assumes "repo_wf r"
  shows "latest_insight room r = (case rev (sort_key age (found_in (trim_space room) r)) of [] \<Rightarrow> None | i # _ \<Rightarrow> Some i)"
proof -
  let ?room = "trim_space room"
  let ?found = "found_in ?room r"
  define res where "res = fold (\<lambda>(key, i) latest.
      if ri_room i \<noteq> ?room \<or> (case latest of Some l \<Rightarrow> \<not> newer i l | None \<Rightarrow> False) then latest else Some i) r None"
  have l: "latest_insight room r = res"
    by (simp add: latest_insight_def Let_def res_def clone_insight_id [abs_def] option.map_ident)
  have fold: "case res of None \<Rightarrow> \<forall>(k, i) \<in> set r. ri_room i \<noteq> ?room
    | Some x \<Rightarrow> (\<exists>k. (k, x) \<in> set r \<and> ri_room x = ?room) \<and> (\<forall>(k, i) \<in> set r. ri_room i = ?room \<longrightarrow> age i \<le> age x)"
    using latest_fold [of None ?room r res] by (auto simp: res_def split: option.splits)
  show ?thesis
  proof (cases "rev (sort_key age ?found)")
    case Nil
    then have "?found = []" by (metis length_0_conv length_rev length_sort)
    then have "\<forall>(k, i) \<in> set r. ri_room i \<noteq> ?room" by (auto simp: found_in_def filter_empty_conv)
    then show ?thesis using fold l Nil by (auto split: option.splits)
  next
    case (Cons y ys)
    have y: "y \<in> set ?found" by (metis Cons list.set_intros(1) set_rev set_sort)
    have top: "\<forall>i \<in> set ?found. i = y \<or> age i < age y"
      using listed_newest_first [OF assms, of ?room] Cons
      by (metis newer_age set_ConsD set_rev set_sort sorted_wrt.simps(2))
    obtain x where x: "res = Some x" "x \<in> set ?found" "\<forall>i \<in> set ?found. age i \<le> age x"
    proof (cases res)
      case None
      then show ?thesis using fold y by (auto simp: found_in_def)
    next
      case (Some x)
      then show ?thesis using fold that [of x] by (force simp: found_in_def)
    qed
    have "x = y" using top x y by force
    then show ?thesis using l x Cons by simp
  qed
qed

lemma saved_wf: "repo_wf (final save_insight is new_repo)"
  by (rule saves_wf) (simp add: repo_wf_def new_repo_def)

lemma saved_insight:
  assumes "(k, i) \<in> set (final save_insight is new_repo)"
  shows "i \<in> set is \<and> validate_insight i = None \<and> idempotency_key i = k"
proof -
  have "map_of (final save_insight is new_repo) k = Some i"
    using assms saved_wf [of "is"] by (simp add: repo_wf_def gm_wf_def)
  then have "find (\<lambda>i. validate_insight i = None \<and> idempotency_key i = k) is = Some i"
    using memory_repo.first_writer_wins [of "is" new_repo k] by (simp add: new_repo_def)
  then show ?thesis by (auto simp: find_Some_iff)
qed

lemma latest_listed:
  assumes "repo_wf r" "0 < limit"
  shows "latest_insight room r = (case list_insights room limit r of [] \<Rightarrow> None | i # _ \<Rightarrow> Some i)"
  using assms(2) latest_of_found [OF assms(1), of room]
  by (simp add: list_insights_found) (auto simp: take_Cons' split: list.split)

lemma listed_found: "i \<in> set (list_insights room limit r) \<Longrightarrow> i \<in> set (found_in (trim_space room) r)"
proof (cases "0 < limit")
  case True
  then show "i \<in> set (list_insights room limit r) \<Longrightarrow> ?thesis" by (auto simp: list_insights_found dest: in_set_takeD)
qed (simp add: list_insights_def)

lemma listed_saved:
  "i \<in> set (list_insights room limit (final save_insight is new_repo)) \<Longrightarrow>
   i \<in> set is \<and> validate_insight i = None \<and> ri_room i = trim_space room"
  using listed_found saved_insight by (fastforce simp: found_in_def)

lemma no_limit: "\<not> 0 < limit \<Longrightarrow> list_insights room limit r = []"
  by (simp add: list_insights_def)

lemma listed_sorted: "repo_wf r \<Longrightarrow> sorted_wrt newer (list_insights room limit r)"
  using listed_newest_first by (cases "0 < limit") (simp_all add: list_insights_found sorted_wrt_take no_limit)

lemma listed_length: "0 < limit \<Longrightarrow> int (length (list_insights room limit r)) \<le> limit"
  by (simp add: list_insights_found)

text \<open>Reading agrees with itself: after any saves \<open>Latest\<close> of a room is the first of its \<open>List\<close>
  whatever the positive limit, the list is strictly newest first, no longer than the limit, and has
  only insights that were saved for the room.\<close>

theorem latest_is_first_of_list:
  assumes "0 < limit"
  shows "latest_insight room (final save_insight is new_repo) =
      (case list_insights room limit (final save_insight is new_repo) of [] \<Rightarrow> None | i # _ \<Rightarrow> Some i) \<and>
    sorted_wrt newer (list_insights room limit (final save_insight is new_repo)) \<and>
    int (length (list_insights room limit (final save_insight is new_repo))) \<le> limit \<and>
    set (list_insights room limit (final save_insight is new_repo)) \<subseteq>
      {i \<in> set is. validate_insight i = None \<and> ri_room i = trim_space room}"
  using latest_listed [OF saved_wf assms] listed_sorted [OF saved_wf] listed_length [OF assms] listed_saved by blast

text \<open>C16: The repository stays well-formed: after any saves every key is that of its one insight, every
  insight in it is valid, and it is the first valid one that was saved with its key; later ones with
  the same key, and invalid ones, change nothing.\<close>

theorem repository_holds_first_valid_insights:
  "gm_wf (final save_insight is new_repo) \<and>
   list_all (\<lambda>(k, i). k = idempotency_key i \<and> validate_insight i = None) (final save_insight is new_repo) \<and>
   (\<forall>k. map_of (final save_insight is new_repo) k =
      find (\<lambda>i. validate_insight i = None \<and> idempotency_key i = k) is)"
proof -
  have "map_of (final save_insight is new_repo) k = find (\<lambda>i. validate_insight i = None \<and> idempotency_key i = k) is" for k
    using memory_repo.first_writer_wins [of "is" new_repo k] by (simp add: new_repo_def)
  then show ?thesis using saved_wf [of "is"] saved_insight [of _ _ "is"] by (auto simp: repo_wf_def list_all_iff)
qed

definition empty_semantic :: semantic_insight where
  "empty_semantic =
     \<lparr>se_summary = [], se_topics = [],
      se_sentiment = \<lparr>sm_label = ''neutral'', sm_confidence = 0, sm_evidence = []\<rparr>,
      se_questions = [], se_alerts = []\<rparr>"

definition no_rules :: rule_stats where
  "no_rules =
     \<lparr>ru_message_count = 0, ru_unique_users = 0, ru_question_count = 0, ru_repeated_message_ratio = 0,
      ru_peak_messages_per_second = 0, ru_top_repeated_text = [], ru_top_repeated_count = 0\<rparr>"

definition demo_insight :: room_insight where
  "demo_insight =
     \<lparr>ri_room = ''r'', ri_start = 60 * second, ri_end = 120 * second, ri_status = ''normal'',
      ri_rules = no_rules, ri_semantic = empty_semantic,
      ri_model = \<lparr>mt_provider = ''p'', mt_model = ''m'', mt_prompt_version = ''v1'', mt_input_tokens = 0,
                  mt_output_tokens = 0, mt_latency_millis = 0\<rparr>,
      ri_generated_at = 130 * second, ri_degraded_reason = []\<rparr>"

lemma demo_insight_valid: "validate_insight demo_insight = None"
  by (simp add: validate_insight_def demo_insight_def trim_space_ascii ascii_def byte_def is_space_def
      is_zero_def insight_status_normal_def valid_sentiment_def empty_semantic_def)

theorem latest_is_first_of_list_witness:
  "latest_insight ''r'' (final save_insight [demo_insight] new_repo) = Some demo_insight \<and>
   list_insights ''r'' 5 (final save_insight [demo_insight] new_repo) = [demo_insight]"
proof -
  have room: "ri_room demo_insight = ''r''" "trim_space ''r'' = ''r''"
    by (simp_all add: demo_insight_def trim_space_ascii ascii_def byte_def is_space_def)
  have "list_insights ''r'' 5 (final save_insight [demo_insight] new_repo) = [demo_insight]"
    by (simp add: list_insights_def save_insight_def demo_insight_valid new_repo_def Let_def room)
  then show ?thesis using latest_is_first_of_list [of 5 "''r''" "[demo_insight]"] by simp
qed

end
