(* ===== verification/Processor.thy ===== *)
theory Processor
  imports Model_Analyzer Window_Store Insight_Repo
begin

text \<open>
  The application layer of the insight service, \<open>v11/insight/internal/app\<close>: the ingestor, which
  validates events and adds them to the window store, and the processor, which claims the due
  windows and gives each an insight: the primary analyzer's when its evidence names messages of the
  window, else the fallback's.

  A worker's job is a sequence of calls of the store, an analyzer and the repository, each atomic by
  itself (\<open>advance\<close>); \<open>work\<close> interleaves the jobs of the workers in any order, and
  \<open>process_window\<close> is one job run by itself. Which answer the primary analyzer gives under
  concurrent calls is left open: it is any of a set of answers.
\<close>

section \<open>Ingestion\<close>

definition ingest :: "time \<Rightarrow> message_event \<Rightarrow> window_store \<Rightarrow> window_store \<times> string option" where
  \<comment> \<open>\<open>Ingestor.Handle\<close>; \<open>now\<close>: what its clock reads\<close>
  "ingest now e s =
     (case validate_event e of
        Some err \<Rightarrow> (s, Some err)
      | None \<Rightarrow>
          (case add_event e now s of
             (s, Inl err) \<Rightarrow> (s, Some err)
           | (s, Inr _) \<Rightarrow> (s, None)))"

section \<open>State\<close>

definition max_due_windows :: int where "max_due_windows = 32"
definition default_job_capacity :: int where "default_job_capacity = 128"

record proc_config =
  pc_workers :: int
  pc_job_capacity :: int

record summary =
  sy_completed :: int
  sy_degraded :: int
  sy_failed :: int

record proc_state =
  px_store :: window_store
  px_repo :: insight_repo

definition new_processor :: "bool \<Rightarrow> bool \<Rightarrow> bool \<Rightarrow> bool \<Rightarrow> proc_config \<Rightarrow> string + proc_config" where
  \<comment> \<open>which of the four dependencies are there, and the configuration the processor runs with\<close>
  "new_processor store primary fallback repository config =
     (if \<not> store \<or> \<not> primary \<or> \<not> fallback \<or> \<not> repository then Inl ''processor dependencies are required''
      else if pc_workers config \<le> 0 then Inl ''workers must be positive''
      else if pc_job_capacity config < 0 then Inl ''job capacity must not be negative''
      else if pc_job_capacity config = 0 then Inr (config\<lparr>pc_job_capacity := default_job_capacity\<rparr>)
      else Inr config)"

section \<open>One window\<close>

definition valid_evidence_ids :: "string list \<Rightarrow> string list \<Rightarrow> bool" where
  "valid_evidence_ids ids allowed \<longleftrightarrow> ids \<noteq> [] \<and> list_all (\<lambda>i. i \<in> set allowed) ids"

definition validate_primary_evidence :: "insight_window \<Rightarrow> semantic_insight \<Rightarrow> string option" where
  "validate_primary_evidence window semantic =
     (let allowed = map ev_id (iw_events window);
          check = (\<lambda>ids err. if valid_evidence_ids ids allowed then None else Some err)
      in if \<not> valid_evidence_ids (sm_evidence (se_sentiment semantic)) allowed
         then Some ''primary sentiment evidence is invalid''
         else
           orelse (first_error (\<lambda>t. check (tp_evidence t) ''primary topic evidence is invalid'') (se_topics semantic))
             (orelse
               (first_error (\<lambda>q. check (qu_evidence q) ''primary question evidence is invalid'') (se_questions semantic))
               (first_error (\<lambda>a. check (al_evidence a) ''primary alert evidence is invalid'') (se_alerts semantic))))"

definition degraded_semantic :: semantic_insight where
  "degraded_semantic =
     \<lparr>se_summary = [], se_topics = [],
      se_sentiment = \<lparr>sm_label = ''neutral'', sm_confidence = 0, sm_evidence = []\<rparr>,
      se_questions = [], se_alerts = []\<rparr>"

definition degraded_model :: model_meta where
  "degraded_model =
     \<lparr>mt_provider = ''rule'', mt_model = ''rule'', mt_prompt_version = ''rule.v1'', mt_input_tokens = 0,
      mt_output_tokens = 0, mt_latency_millis = 0\<rparr>"

type_synonym answer = "string + analysis_result"

definition insight_from :: "time \<Rightarrow> window_ref \<Rightarrow> string \<Rightarrow> string \<Rightarrow> analysis_result \<Rightarrow> room_insight" where
  \<comment> \<open>nil slices are empty lists already, so \<open>normalizeSemanticCollections\<close> changes nothing\<close>
  "insight_from now ref status reason result =
     \<lparr>ri_room = wr_room ref, ri_start = wr_start ref, ri_end = wr_end ref, ri_status = status,
      ri_rules = ar_rules result, ri_semantic = ar_semantic result, ri_model = ar_model result,
      ri_generated_at = now, ri_degraded_reason = reason\<rparr>"

definition conclude ::
  "(insight_window \<Rightarrow> answer) \<Rightarrow> time \<Rightarrow> window_ref \<Rightarrow> insight_window \<Rightarrow> answer \<Rightarrow> room_insight option" where
  \<comment> \<open>from the primary's answer to the insight; nothing when the fallback fails as well\<close>
  "conclude fallback now ref window primary =
     (case (case primary of Inl err \<Rightarrow> Inl err
            | Inr result \<Rightarrow>
                (case validate_primary_evidence window (ar_semantic result) of
                   Some err \<Rightarrow> Inl err | None \<Rightarrow> Inr result)) of
        Inr result \<Rightarrow> Some (insight_from now ref insight_status_normal [] result)
      | Inl reason \<Rightarrow>
          (case fallback window of
             Inl err \<Rightarrow> None
           | Inr result \<Rightarrow>
               Some (insight_from now ref insight_status_degraded reason
                 (result\<lparr>ar_semantic := degraded_semantic, ar_model := degraded_model\<rparr>))))"

definition failed_window :: "time \<Rightarrow> window_ref \<Rightarrow> proc_state \<Rightarrow> proc_state \<times> summary \<times> string option" where
  "failed_window now ref st =
     (case release_window ref now (px_store st) of
        (s, err) \<Rightarrow> (st\<lparr>px_store := s\<rparr>, \<lparr>sy_completed = 0, sy_degraded = 0, sy_failed = 1\<rparr>, err))"

definition success :: "room_insight \<Rightarrow> summary" where
  "success i =
     (if ri_status i = insight_status_degraded
      then \<lparr>sy_completed = 0, sy_degraded = 1, sy_failed = 0\<rparr>
      else \<lparr>sy_completed = 1, sy_degraded = 0, sy_failed = 0\<rparr>)"

definition with_model :: "'m \<Rightarrow> proc_state \<times> 'r \<Rightarrow> ('m \<times> proc_state) \<times> 'r" where
  "with_model m res = ((m, fst res), snd res)"

definition process_window ::
  "(insight_window \<Rightarrow> 'm \<Rightarrow> 'm \<times> answer) \<Rightarrow> (insight_window \<Rightarrow> answer) \<Rightarrow> time \<Rightarrow> window_ref \<Rightarrow>
   'm \<times> proc_state \<Rightarrow> ('m \<times> proc_state) \<times> summary \<times> string option" where
  \<comment> \<open>\<open>'m\<close>: the state of the primary analyzer's model\<close>
  "process_window primary fallback now ref = (\<lambda>(m, st).
     (case load_window ref (px_store st) of
        Inl err \<Rightarrow> with_model m (failed_window now ref st)
      | Inr window \<Rightarrow>
     (case primary window m of
        (m, res) \<Rightarrow>
     (case conclude fallback now ref window res of
        None \<Rightarrow> with_model m (failed_window now ref st)
      | Some i \<Rightarrow>
     (case save_insight i (px_repo st) of
        (r, Inl err) \<Rightarrow> with_model m (failed_window now ref (st\<lparr>px_repo := r\<rparr>))
      | (r, Inr _) \<Rightarrow>
     (case complete_window ref (px_store st) of
        (s, Some err) \<Rightarrow> with_model m (failed_window now ref (st\<lparr>px_repo := r, px_store := s\<rparr>))
      | (s, None) \<Rightarrow> ((m, st\<lparr>px_repo := r, px_store := s\<rparr>), success i, None)))))))"

section \<open>All due windows\<close>

definition add_summary :: "summary \<Rightarrow> summary \<Rightarrow> summary" where
  "add_summary a b =
     \<lparr>sy_completed = sy_completed a + sy_completed b, sy_degraded = sy_degraded a + sy_degraded b,
      sy_failed = sy_failed a + sy_failed b\<rparr>"

definition no_summary :: summary where
  "no_summary = \<lparr>sy_completed = 0, sy_degraded = 0, sy_failed = 0\<rparr>"

definition join_errors :: "string option \<Rightarrow> string option \<Rightarrow> string option" where
  "join_errors a b =
     (case (a, b) of
        (Some e, Some f) \<Rightarrow> Some (e @ [CHR 0x0A] @ f)
      | (None, x) \<Rightarrow> x
      | (x, None) \<Rightarrow> x)"

definition collect_results :: "(summary \<times> string option) list \<Rightarrow> summary \<times> string option" where
  \<comment> \<open>the loop over the closed channel of results\<close>
  "collect_results results =
     fold (\<lambda>(s, err) (sum, errs). (add_summary sum s, join_errors errs err)) results (no_summary, None)"

fun process_each ::
  "(insight_window \<Rightarrow> 'm \<Rightarrow> 'm \<times> answer) \<Rightarrow> (insight_window \<Rightarrow> answer) \<Rightarrow> time \<Rightarrow> window_ref list \<Rightarrow>
   'm \<times> proc_state \<Rightarrow> ('m \<times> proc_state) \<times> (summary \<times> string option) list" where
  "process_each primary fallback now [] ms = (ms, [])"
| "process_each primary fallback now (ref # refs) ms =
     (case process_window primary fallback now ref ms of
        (ms, res) \<Rightarrow>
          (case process_each primary fallback now refs ms of (ms, rest) \<Rightarrow> (ms, res # rest)))"

definition process_due ::
  "(insight_window \<Rightarrow> 'm \<Rightarrow> 'm \<times> answer) \<Rightarrow> (insight_window \<Rightarrow> answer) \<Rightarrow> time \<Rightarrow>
   'm \<times> proc_state \<Rightarrow> ('m \<times> proc_state) \<times> summary \<times> string option" where
  \<comment> \<open>\<open>ProcessDue\<close> with one worker; the memory store's \<open>ClaimDue\<close> gives no error\<close>
  "process_due primary fallback now = (\<lambda>(m, st).
     (case claim_due now max_due_windows (px_store st) of
        (s, refs) \<Rightarrow>
          (case process_each primary fallback now refs (m, st\<lparr>px_store := s\<rparr>) of
             (ms, results) \<Rightarrow> (ms, collect_results results))))"

lemma with_model_eq [simp]: "with_model m res = ((m', st'), x) \<longleftrightarrow> m = m' \<and> res = (st', x)"
  by (cases res) (auto simp: with_model_def)

section \<open>Workers side by side\<close>

datatype job =
    Queued window_ref
  | Loaded window_ref insight_window
  | Analyzed window_ref room_insight
  | Stored window_ref room_insight
  | Finished window_ref summary "string option"

fun job_ref :: "job \<Rightarrow> window_ref" where
  "job_ref (Queued ref) = ref"
| "job_ref (Loaded ref _) = ref"
| "job_ref (Analyzed ref _) = ref"
| "job_ref (Stored ref _) = ref"
| "job_ref (Finished ref _ _) = ref"

fun queued :: "job \<Rightarrow> bool" where
  "queued (Queued _) = True"
| "queued _ = False"

fun finished :: "job \<Rightarrow> bool" where
  "finished (Finished _ _ _) = True"
| "finished _ = False"

definition job_failed :: "time \<Rightarrow> window_ref \<Rightarrow> proc_state \<Rightarrow> proc_state \<times> job" where
  "job_failed now ref st = (case failed_window now ref st of (st, s, err) \<Rightarrow> (st, Finished ref s err))"

fun advance :: "(insight_window \<Rightarrow> answer) \<Rightarrow> time \<Rightarrow> answer \<Rightarrow> job \<Rightarrow> proc_state \<Rightarrow> proc_state \<times> job" where
  \<comment> \<open>the next call of a job; the answer is the primary's, when it is asked\<close>
  "advance fallback now a (Queued ref) st =
     (case load_window ref (px_store st) of
        Inl err \<Rightarrow> job_failed now ref st
      | Inr window \<Rightarrow> (st, Loaded ref window))"
| "advance fallback now a (Loaded ref window) st =
     (case conclude fallback now ref window a of
        None \<Rightarrow> job_failed now ref st
      | Some i \<Rightarrow> (st, Analyzed ref i))"
| "advance fallback now a (Analyzed ref i) st =
     (case save_insight i (px_repo st) of
        (r, Inl err) \<Rightarrow> job_failed now ref (st\<lparr>px_repo := r\<rparr>)
      | (r, Inr _) \<Rightarrow> (st\<lparr>px_repo := r\<rparr>, Stored ref i))"
| "advance fallback now a (Stored ref i) st =
     (case complete_window ref (px_store st) of
        (s, Some err) \<Rightarrow> job_failed now ref (st\<lparr>px_store := s\<rparr>)
      | (s, None) \<Rightarrow> (st\<lparr>px_store := s\<rparr>, Finished ref (success i) None))"
| "advance fallback now a (Finished ref s err) st = (st, Finished ref s err)"

inductive work ::
  "int \<Rightarrow> (insight_window \<Rightarrow> answer set) \<Rightarrow> (insight_window \<Rightarrow> answer) \<Rightarrow> time \<Rightarrow>
   proc_state \<times> job list \<Rightarrow> proc_state \<times> job list \<Rightarrow> bool"
  for workers answers fallback now where
  a_call: "i < length jobs \<Longrightarrow> \<not> finished (jobs ! i) \<Longrightarrow>
    (queued (jobs ! i) \<longrightarrow> (\<forall>k < i. \<not> queued (jobs ! k)) \<and>
       int (length (filter (\<lambda>j. \<not> queued j \<and> \<not> finished j) jobs)) < workers) \<Longrightarrow>
    (\<forall>ref window. jobs ! i = Loaded ref window \<longrightarrow> a \<in> answers window) \<Longrightarrow>
    advance fallback now a (jobs ! i) st = (st', j) \<Longrightarrow>
    work workers answers fallback now (st, jobs) (st', jobs[i := j])"

inductive_cases workE: "work workers answers fallback now (st, jobs) x"

section \<open>The workers come to an end\<close>

text \<open>How many calls a job has left.\<close>

fun calls_left :: "job \<Rightarrow> nat" where
  "calls_left (Queued _) = 4"
| "calls_left (Loaded _ _) = 3"
| "calls_left (Analyzed _ _) = 2"
| "calls_left (Stored _ _) = 1"
| "calls_left (Finished _ _ _) = 0"

lemma failed_is_finished: "job_failed now ref st = (st', j) \<Longrightarrow> finished j \<and> calls_left j = 0 \<and> job_ref j = ref"
  by (auto simp: job_failed_def split: prod.splits)

lemma advance_decreases:
  assumes "advance fallback now a j st = (st', j')" "\<not> finished j"
  shows "calls_left j' < calls_left j" "job_ref j' = job_ref j"
  using assms
  by (cases j; auto split: sum.splits option.splits prod.splits dest: failed_is_finished)+

lemma sum_list_update:
  fixes f :: "'a \<Rightarrow> nat"
  assumes "i < length xs"
  shows "sum_list (map f (xs[i := y])) + f (xs ! i) = sum_list (map f xs) + f y"
  using assms by (induction xs arbitrary: i) (auto split: nat.split)

lemma work_decreases:
  assumes "work n answers fallback now (st, jobs) (st', jobs')"
  shows "sum_list (map calls_left jobs') < sum_list (map calls_left jobs) \<and> map job_ref jobs' = map job_ref jobs"
proof -
  from assms obtain i a j where i: "i < length jobs" "\<not> finished (jobs ! i)"
    "advance fallback now a (jobs ! i) st = (st', j)" "jobs' = jobs[i := j]" by (elim workE) auto
  have "map job_ref jobs' = map job_ref jobs"
    using advance_decreases(2) [OF i(3,2)] i(1) unfolding i(4) map_update by (metis list_update_id nth_map)
  then show ?thesis
    using sum_list_update [OF i(1), of calls_left j] advance_decreases(1) [OF i(3,2)] i(4) by simp
qed

lemma works_decrease:
  "(work n answers fallback now ^^ k) (st, jobs) (st', jobs') \<Longrightarrow>
   k + sum_list (map calls_left jobs') \<le> sum_list (map calls_left jobs) \<and> map job_ref jobs' = map job_ref jobs"
proof (induction k arbitrary: st' jobs')
  case (Suc k)
  then obtain stm jobsm where m: "(work n answers fallback now ^^ k) (st, jobs) (stm, jobsm)"
    "work n answers fallback now (stm, jobsm) (st', jobs')" by (auto elim!: relpowp_Suc_E)
  then show ?case using Suc.IH [OF m(1)] work_decreases [OF m(2)] by simp
qed simp

lemma work_progress:
  assumes "0 < n" "\<forall>w. answers w \<noteq> {}" "\<not> list_all finished jobs"
  shows "\<exists>x. work n answers fallback now (st, jobs) x"
proof -
  let ?busy = "\<lambda>j. \<not> queued j \<and> \<not> finished j"
  have call: "\<exists>x. work n answers fallback now (st, jobs) x"
    if "i < length jobs" "\<not> finished (jobs ! i)" "queued (jobs ! i) \<longrightarrow> (\<forall>k < i. \<not> queued (jobs ! k)) \<and>
       int (length (filter ?busy jobs)) < n" for i
  proof -
    have "\<exists>a. \<forall>ref window. jobs ! i = Loaded ref window \<longrightarrow> a \<in> answers window"
      using assms(2) by (cases "jobs ! i") auto
    then obtain a where "\<forall>ref window. jobs ! i = Loaded ref window \<longrightarrow> a \<in> answers window" ..
    from a_call [OF that this surjective_pairing] show ?thesis ..
  qed
  show ?thesis
  proof (cases "\<exists>j \<in> set jobs. ?busy j")
    case True
    then obtain i where "i < length jobs" "?busy (jobs ! i)" by (auto simp: in_set_conv_nth)
    then show ?thesis using call by blast
  next
    case False
    obtain i where i: "i < length jobs" "\<not> finished (jobs ! i)" "\<forall>k < i. finished (jobs ! k)"
    proof -
      let ?P = "\<lambda>i. i < length jobs \<and> \<not> finished (jobs ! i)"
      have "\<exists>i. ?P i" using assms(3) by (auto simp: list_all_length)
      then have "?P (LEAST i. ?P i)" by (rule LeastI_ex)
      moreover have "finished (jobs ! k)" if "k < (LEAST i. ?P i)" for k
        using not_less_Least [OF that] that calculation by auto
      ultimately show ?thesis using that by blast
    qed
    have "\<not> queued j" if "finished j" for j using that by (cases j) auto
    then show ?thesis using call [of i] i False assms(1) by (simp add: filter_empty_conv)
  qed
qed

section \<open>What an insight is good for\<close>

definition cites_window :: "insight_window \<Rightarrow> semantic_insight \<Rightarrow> bool" where
  \<comment> \<open>every statement names messages of the window, and only them\<close>
  "cites_window window s \<longleftrightarrow>
     (\<forall>ids \<in> set (sm_evidence (se_sentiment s) # map tp_evidence (se_topics s) @ map qu_evidence (se_questions s) @
         map al_evidence (se_alerts s)). ids \<noteq> [] \<and> set ids \<subseteq> ev_id ` set (iw_events window))"

definition good_insight :: "time \<Rightarrow> window_ref \<Rightarrow> insight_window \<Rightarrow> room_insight \<Rightarrow> bool" where
  "good_insight now ref window i \<longleftrightarrow>
     ri_room i = wr_room ref \<and> ri_start i = wr_start ref \<and> ri_end i = wr_end ref \<and>
     ri_generated_at i = now \<and> validate_insight i = None \<and> rule_spec (iw_events window) (ri_rules i) \<and>
     (if ri_status i = insight_status_normal
      then cites_window window (ri_semantic i) \<and> mt_prompt_version (ri_model i) = prompt_version
      else ri_status i = insight_status_degraded \<and> ri_semantic i = degraded_semantic \<and> ri_model i = degraded_model)"

definition ok_answer :: "insight_window \<Rightarrow> analysis_result \<Rightarrow> bool" where
  "ok_answer window r \<longleftrightarrow>
     rule_spec (iw_events window) (ar_rules r) \<and> valid_sentiment (sm_label (se_sentiment (ar_semantic r))) \<and>
     (\<forall>a \<in> set (se_alerts (ar_semantic r)). validate_alert a = None) \<and>
     mt_prompt_version (ar_model r) = prompt_version"

definition ref_fits :: "window_ref \<Rightarrow> bool" where
  "ref_fits ref \<longleftrightarrow> wr_room ref \<noteq> [] \<and> trim_space (wr_room ref) = wr_room ref \<and>
     wr_start ref \<noteq> 0 \<and> wr_start ref < wr_end ref"

definition ok_fallback :: "(insight_window \<Rightarrow> answer) \<Rightarrow> bool" where
  "ok_fallback fallback \<longleftrightarrow> (\<forall>w. \<exists>r. fallback w = Inr r \<and> rule_spec (iw_events w) (ar_rules r))"

lemma orelse_None: "orelse a b = None \<longleftrightarrow> a = None \<and> b = None"
  by (simp add: orelse_def split: option.split)

lemma valid_evidence_iff: "valid_evidence_ids ids allowed \<longleftrightarrow> ids \<noteq> [] \<and> set ids \<subseteq> set allowed"
  by (auto simp: valid_evidence_ids_def list_all_iff)

lemma primary_evidence_cites: "validate_primary_evidence w s = None \<longleftrightarrow> cites_window w s"
  by (auto simp: validate_primary_evidence_def Let_def orelse_None first_error_None valid_evidence_iff
      cites_window_def)

lemma versions: "trim_space prompt_version = prompt_version" "trim_space ''rule.v1'' = ''rule.v1''"
  "CHR '':'' \<notin> set prompt_version" "prompt_version \<noteq> []" "prompt_version \<noteq> ''rule.v1''"
  by (simp_all add: prompt_version_def trim_space_ascii ascii_def byte_def is_space_def)

lemma conclude_good:
  assumes "ref_fits ref" "now \<noteq> 0" "\<forall>r. a = Inr r \<longrightarrow> ok_answer w r" "ok_fallback fallback"
  shows "\<exists>i. conclude fallback now ref w a = Some i \<and> good_insight now ref w i"
proof -
  obtain f where f: "fallback w = Inr f" "rule_spec (iw_events w) (ar_rules f)"
    using assms(4) by (auto simp: ok_fallback_def)
  let ?deg = "\<lambda>reason. insight_from now ref insight_status_degraded reason
     (f\<lparr>ar_semantic := degraded_semantic, ar_model := degraded_model\<rparr>)"
  have ne: "insight_status_degraded \<noteq> insight_status_normal"
    by (simp add: insight_status_degraded_def insight_status_normal_def)
  have "validate_insight (?deg reason) = None" for reason
    using assms(1,2) versions by (simp add: validate_insight_def insight_from_def ref_fits_def is_zero_def
        degraded_model_def degraded_semantic_def valid_sentiment_def)
  then have deg: "good_insight now ref w (?deg reason)" for reason
    using f ne by (simp add: good_insight_def insight_from_def)
  show ?thesis
  proof (cases "\<exists>r. a = Inr r \<and> validate_primary_evidence w (ar_semantic r) = None")
    case True
    then obtain r where r: "a = Inr r" "cites_window w (ar_semantic r)" "ok_answer w r"
      "validate_primary_evidence w (ar_semantic r) = None"
      using assms(3) primary_evidence_cites by blast
    then have "validate_insight (insight_from now ref insight_status_normal [] r) = None"
      using assms(1,2) versions by (simp add: validate_insight_def insight_from_def ref_fits_def is_zero_def
          ok_answer_def first_error_None)
    then have "good_insight now ref w (insight_from now ref insight_status_normal [] r)"
      using r by (simp add: good_insight_def insight_from_def ok_answer_def)
    then show ?thesis using r by (simp add: conclude_def)
  next
    case False
    then show ?thesis using deg f by (auto simp: conclude_def split: sum.split option.split)
  qed
qed

lemma good_key:
  "good_insight now ref w i \<Longrightarrow> ref_fits ref \<Longrightarrow>
   idempotency_key i = window_key ref @ '':'' @
     (if ri_status i = insight_status_normal then prompt_version else ''rule.v1'')"
  using versions by (auto simp: idempotency_key_def window_key_def good_insight_def ref_fits_def degraded_model_def)

lemma good_key_inj:
  assumes "good_insight now ref w i" "good_insight now' ref' w' j" "ref_fits ref" "ref_fits ref'"
    "idempotency_key i = idempotency_key j"
  shows "ref = ref'" "ri_status i = ri_status j"
proof -
  let ?v = "\<lambda>i. if ri_status i = insight_status_normal then prompt_version else ''rule.v1''"
  have "window_key ref @ CHR '':'' # ?v i = window_key ref' @ CHR '':'' # ?v j"
    using assms(5) good_key [OF assms(1,3)] good_key [OF assms(2,4)] by simp
  moreover have "count_list (?v k) CHR '':'' = 0" for k :: room_insight using versions(3) by simp
  then have "count_list (?v i) CHR '':'' = count_list (?v j) CHR '':''" by metis
  ultimately have eq: "window_key ref = window_key ref' \<and> ?v i = ?v j" by (rule last_sep_inj)
  then show "ref = ref'" by (simp add: window_key_inj)
  show "ri_status i = ri_status j"
    using eq versions(5) assms(1,2) by (auto simp: good_insight_def split: if_splits)
qed

section \<open>The invariant of the workers\<close>

definition same_windows :: "window_store \<Rightarrow> window_store \<Rightarrow> bool" where
  "same_windows s0 s \<longleftrightarrow> (\<forall>ref. load_window ref s = load_window ref s0)"

definition has_insight :: "time \<Rightarrow> window_store \<Rightarrow> insight_repo \<Rightarrow> window_ref \<Rightarrow> room_insight \<Rightarrow> bool" where
  \<comment> \<open>the repository holds a good insight of the window, with the status of \<open>i\<close>\<close>
  "has_insight now s0 r ref i \<longleftrightarrow>
     (\<exists>w j. load_window ref s0 = Inr w \<and> good_insight now ref w j \<and> map_of r (idempotency_key j) = Some j \<and>
        ri_status j = ri_status i)"

fun job_ok :: "time \<Rightarrow> window_store \<Rightarrow> proc_state \<Rightarrow> job \<Rightarrow> bool" where
  "job_ok now s0 st (Queued ref) \<longleftrightarrow> True"
| "job_ok now s0 st (Loaded ref w) \<longleftrightarrow> load_window ref s0 = Inr w"
| "job_ok now s0 st (Analyzed ref i) \<longleftrightarrow> (\<exists>w. load_window ref s0 = Inr w \<and> good_insight now ref w i)"
| "job_ok now s0 st (Stored ref i) \<longleftrightarrow> has_insight now s0 (px_repo st) ref i"
| "job_ok now s0 st (Finished ref s err) \<longleftrightarrow>
     err = None \<and> window_key ref \<in> set (st_completed (px_store st)) \<and>
     (\<exists>i. has_insight now s0 (px_repo st) ref i \<and> s = success i)"

definition repo_good :: "time \<Rightarrow> window_store \<Rightarrow> insight_repo \<Rightarrow> bool" where
  "repo_good now s0 r \<longleftrightarrow>
     (\<forall>k j. map_of r k = Some j \<longrightarrow> k = idempotency_key j \<and>
        (\<exists>ref w. ref_fits ref \<and> load_window ref s0 = Inr w \<and> good_insight now ref w j))"

definition work_inv :: "time \<Rightarrow> window_store \<Rightarrow> window_ref list \<Rightarrow> proc_state \<times> job list \<Rightarrow> bool" where
  "work_inv now s0 refs sj \<longleftrightarrow>
     map job_ref (snd sj) = refs \<and> same_windows s0 (px_store (fst sj)) \<and>
     repo_good now s0 (px_repo (fst sj)) \<and> list_all (job_ok now s0 (fst sj)) (snd sj)"

definition grows :: "proc_state \<Rightarrow> proc_state \<Rightarrow> bool" where
  "grows st st' \<longleftrightarrow>
     (\<forall>k j. map_of (px_repo st) k = Some j \<longrightarrow> map_of (px_repo st') k = Some j) \<and>
     set (st_completed (px_store st)) \<subseteq> set (st_completed (px_store st'))"

lemma job_ok_grows: "job_ok now s0 st j \<Longrightarrow> grows st st' \<Longrightarrow> job_ok now s0 st' j"
  by (cases j) (auto simp: grows_def has_insight_def, blast+)

lemma load_complete: "load_window r (fst (complete_window ref s)) = load_window r s"
  by (auto simp: load_window_def complete_window_def Let_def map_of_gm split: option.split)

lemma complete_known:
  "load_window ref s = Inr w \<Longrightarrow> snd (complete_window ref s) = None \<and>
     set (st_completed (fst (complete_window ref s))) = insert (window_key ref) (set (st_completed s))"
  by (auto simp: load_window_def complete_window_def Let_def split: option.splits)

lemma advance_keeps:
  assumes inv: "work_inv now s0 refs (st, jobs)" and i: "i < length jobs" and open_job: "\<not> finished (jobs ! i)"
    and step: "advance fallback now a (jobs ! i) st = (st', j)"
    and refs: "\<forall>ref \<in> set refs. ref_fits ref \<and> (\<exists>w. load_window ref s0 = Inr w)" "now \<noteq> 0"
    and ans: "\<forall>ref w r. jobs ! i = Loaded ref w \<and> a = Inr r \<longrightarrow> ok_answer w r" and fb: "ok_fallback fallback"
  shows "job_ok now s0 st' j \<and> grows st st' \<and> same_windows s0 (px_store st') \<and>
    repo_good now s0 (px_repo st')"
proof -
  have ok: "job_ok now s0 st (jobs ! i)" using inv i by (simp add: work_inv_def list_all_length)
  have "job_ref (jobs ! i) \<in> set refs" using inv i by (auto simp: work_inv_def)
  then have ref: "job_ref (jobs ! i) \<in> set refs" "ref_fits (job_ref (jobs ! i))" using refs by auto
  obtain w where w: "load_window (job_ref (jobs ! i)) s0 = Inr w" using refs ref by blast
  then have w': "load_window (job_ref (jobs ! i)) (px_store st) = Inr w"
    using inv ref by (simp add: work_inv_def same_windows_def)
  have frame: "same_windows s0 (px_store st)" "repo_good now s0 (px_repo st)"
    using inv by (simp_all add: work_inv_def)
  show ?thesis
  proof (cases "jobs ! i")
    case (Queued r)
    then show ?thesis using step w w' frame by (auto simp: grows_def)
  next
    case (Loaded r v)
    then have "v = w" using ok w by simp
    obtain k where "conclude fallback now r w a = Some k" "good_insight now r w k"
      using conclude_good [of r now a w fallback] ref(2) refs(2) ans fb Loaded \<open>v = w\<close> by auto
    then show ?thesis using step Loaded \<open>v = w\<close> w frame by (auto simp: grows_def)
  next
    case (Analyzed r k)
    then have k: "good_insight now r w k" using ok w by simp
    then have valid: "validate_insight k = None" by (simp add: good_insight_def)
    obtain b where b: "snd (save_insight k (px_repo st)) = Inr b" using memory_repo.save_ok [OF valid] by blast
    define r' where "r' = fst (save_insight k (px_repo st))"
    have st': "st' = st\<lparr>px_repo := r'\<rparr>" "j = Stored r k"
      using step Analyzed b by (auto simp: r'_def split: prod.splits sum.splits)
    have kept: "map_of r' key = Some x" if "map_of (px_repo st) key = Some x" for key x
      using memory_repo.save_keeps that unfolding r'_def by blast
    show ?thesis
    proof (cases "map_of (px_repo st) (idempotency_key k)")
      case (Some x)
      then have same: "r' = px_repo st" using memory_repo.save_again [OF valid Some] by (simp add: r'_def)
      obtain q v where q: "ref_fits q" "good_insight now q v x" "load_window q s0 = Inr v"
        "idempotency_key k = idempotency_key x"
        using frame(2) Some unfolding repo_good_def by blast
      have "ref_fits r" "ref_fits q" using ref(2) Analyzed q(1) by auto
      from good_key_inj [OF k q(2) this q(4)] have "r = q" "ri_status k = ri_status x" .
      then have "has_insight now s0 r' r k" using q Some same by (auto simp: has_insight_def)
      then show ?thesis using frame st' same by (simp add: grows_def)
    next
      case None
      then have new: "map_of r' = (map_of (px_repo st))(idempotency_key k \<mapsto> k)"
        using memory_repo.save_new [OF valid None] by (simp add: r'_def)
      then have "has_insight now s0 r' r k" using k w Analyzed by (auto simp: has_insight_def)
      moreover have "repo_good now s0 r'"
        using frame(2) new k w ref(2) Analyzed unfolding repo_good_def by (auto split: if_splits)
      ultimately show ?thesis using frame st' kept by (simp add: grows_def)
    qed
  next
    case (Stored r k)
    note known = complete_known [OF w']
    have st': "st' = st\<lparr>px_store := fst (complete_window r (px_store st))\<rparr>" "j = Finished r (success k) None"
      using step Stored known by (auto split: prod.splits)
    show ?thesis using st' Stored ok known frame by (auto simp: grows_def same_windows_def load_complete)
  next
    case Finished
    then show ?thesis using open_job by simp
  qed
qed

lemma work_inv_step:
  assumes "work n answers fallback now (st, jobs) (st', jobs')" "work_inv now s0 refs (st, jobs)"
    "\<forall>ref \<in> set refs. ref_fits ref \<and> (\<exists>w. load_window ref s0 = Inr w)" "now \<noteq> 0"
    "\<forall>w r. Inr r \<in> answers w \<longrightarrow> ok_answer w r" "ok_fallback fallback"
  shows "work_inv now s0 refs (st', jobs')"
proof -
  from assms(1) obtain i a j where i: "i < length jobs" "\<not> finished (jobs ! i)"
    "\<forall>ref window. jobs ! i = Loaded ref window \<longrightarrow> a \<in> answers window"
    "advance fallback now a (jobs ! i) st = (st', j)" "jobs' = jobs[i := j]" by (elim workE) auto
  have "\<forall>ref w r. jobs ! i = Loaded ref w \<and> a = Inr r \<longrightarrow> ok_answer w r" using i(3) assms(5) by blast
  note kept = advance_keeps [OF assms(2) i(1,2,4) assms(3,4) this assms(6)]
  have "list_all (job_ok now s0 st') jobs"
    using assms(2) kept by (auto simp: work_inv_def list_all_iff intro: job_ok_grows)
  then have "list_all (job_ok now s0 st') jobs'"
    using kept i(1) by (auto simp: i(5) list_all_length nth_list_update)
  then show ?thesis using kept assms(2) work_decreases [OF assms(1)] by (simp add: work_inv_def)
qed

lemma work_inv_run:
  assumes "(work n answers fallback now)\<^sup>*\<^sup>* (st, jobs) x" "work_inv now s0 refs (st, jobs)"
    "\<forall>ref \<in> set refs. ref_fits ref \<and> (\<exists>w. load_window ref s0 = Inr w)" "now \<noteq> 0"
    "\<forall>w r. Inr r \<in> answers w \<longrightarrow> ok_answer w r" "ok_fallback fallback"
  shows "work_inv now s0 refs x"
  using assms(1,2)
proof (induction rule: rtranclp_induct)
  case (step y z)
  then show ?case using work_inv_step [OF _ _ assms(3-6)] by (cases y; cases z) auto
qed

section \<open>Other windows\<close>

definition others_kept :: "window_ref set \<Rightarrow> window_store \<Rightarrow> window_store \<Rightarrow> bool" where
  "others_kept refs s s' \<longleftrightarrow> store_wf s' \<and>
     (\<forall>q. q \<notin> refs \<longrightarrow> window_at s' q = window_at s q \<and>
        (window_key q \<in> set (st_completed s') \<longleftrightarrow> window_key q \<in> set (st_completed s)))"

lemma others_kept_complete: "store_wf s \<Longrightarrow> others_kept {ref} s (fst (complete_window ref s))"
  using store_step_wf [of s "Complete ref"]
  by (auto simp: others_kept_def complete_window_def window_at_def Let_def map_of_gm window_key_inj split: option.split)

lemma others_kept_release: "store_wf s \<Longrightarrow> others_kept {ref} s (fst (release_window ref t s))"
  using store_step_wf [of s "Release ref t"]
  by (auto simp: others_kept_def release_window_def window_at_def Let_def map_of_gm window_key_inj split: option.split)

lemma others_kept_refl: "store_wf s \<Longrightarrow> others_kept refs s s"
  by (simp add: others_kept_def)

lemma others_kept_trans:
  assumes "others_kept refs s s'" "others_kept refs' s' s''" "refs \<subseteq> all" "refs' \<subseteq> all"
  shows "others_kept all s s''"
proof -
  have "q \<notin> refs \<and> q \<notin> refs'" if "q \<notin> all" for q using assms(3,4) that by blast
  then show ?thesis using assms(1,2) by (simp add: others_kept_def)
qed

lemma job_failed_store:
  "job_failed now ref st = (st', j) \<Longrightarrow> px_store st' = fst (release_window ref now (px_store st))"
  by (auto simp: job_failed_def failed_window_def split: prod.splits)

lemma advance_others:
  assumes "advance fallback now a j st = (st', j')" "store_wf (px_store st)"
  shows "others_kept {job_ref j} (px_store st) (px_store st')"
proof -
  have failed: "others_kept {ref} (px_store st) (px_store st')"
    if "job_failed now ref st1 = (st', j')" "px_store st1 = px_store st" for ref st1
    using job_failed_store [OF that(1)] others_kept_release [OF assms(2)] that(2) by simp
  note same = others_kept_refl [OF assms(2)]
  show ?thesis
  proof (cases j)
    case (Queued ref)
    then show ?thesis using assms(1) same failed [of ref st] by (cases "load_window ref (px_store st)") auto
  next
    case (Loaded ref w)
    then show ?thesis using assms(1) same failed [of ref st] by (cases "conclude fallback now ref w a") auto
  next
    case (Analyzed ref i)
    then show ?thesis using assms(1) same failed [of ref "st\<lparr>px_repo := fst (save_insight i (px_repo st))\<rparr>"]
      by (auto split: prod.splits sum.splits)
  next
    case (Stored ref i)
    note one = others_kept_complete [OF assms(2), of ref]
    show ?thesis
    proof (cases "snd (complete_window ref (px_store st))")
      case None
      then show ?thesis using assms Stored one by (auto split: prod.splits)
    next
      case (Some e)
      then have "px_store st' = fst (release_window ref now (fst (complete_window ref (px_store st))))"
        using assms Stored by (auto split: prod.splits dest: job_failed_store)
      moreover have "store_wf (fst (complete_window ref (px_store st)))" using one by (simp add: others_kept_def)
      note others_kept_release [OF this, of ref now]
      ultimately show ?thesis using Stored one by (auto intro: others_kept_trans)
    qed
  next
    case (Finished ref s err)
    then show ?thesis using assms(1) same by simp
  qed
qed

lemma work_others:
  assumes "(work n answers fallback now)\<^sup>*\<^sup>* (st, jobs) x" "store_wf (px_store st)"
  shows "others_kept (job_ref ` set jobs) (px_store st) (px_store (fst x)) \<and> map job_ref (snd x) = map job_ref jobs"
  using assms(1)
proof (induction rule: rtranclp_induct)
  case base
  then show ?case using others_kept_refl [OF assms(2)] by simp
next
  case (step y z)
  obtain st1 jobs1 st2 jobs2 where yz: "y = (st1, jobs1)" "z = (st2, jobs2)" by (cases y; cases z)
  from step(2) obtain i a j where i: "i < length jobs1" "advance fallback now a (jobs1 ! i) st1 = (st2, j)"
    unfolding yz by (elim workE) auto
  have wf: "store_wf (px_store st1)" using step.IH yz by (simp add: others_kept_def)
  have "set (map job_ref jobs1) = set (map job_ref jobs)" using step.IH yz by simp
  then have "{job_ref (jobs1 ! i)} \<subseteq> job_ref ` set jobs" using i(1) by auto
  with step.IH advance_others [OF i(2) wf] have "others_kept (job_ref ` set jobs) (px_store st) (px_store st2)"
    unfolding yz by (auto intro: others_kept_trans)
  then show ?case using step.IH work_decreases step(2) yz by fastforce
qed

section \<open>One worker\<close>

lemma solo_step:
  assumes "advance fallback now a j st = (st', j')" "\<not> finished j" "list_all finished pre" "list_all queued post" "0 < n"
    "\<forall>ref w. j = Loaded ref w \<longrightarrow> a \<in> answers w"
  shows "work n answers fallback now (st, pre @ j # post) (st', pre @ j' # post)"
proof -
  have fq: "\<not> queued x" if "finished x" for x using that by (cases x) auto
  have "filter (\<lambda>j. \<not> queued j \<and> \<not> finished j) pre = []" "filter (\<lambda>j. \<not> queued j \<and> \<not> finished j) post = []"
    using assms(3,4) by (auto simp: filter_empty_conv list_all_iff)
  moreover have "\<not> queued ((pre @ j # post) ! k)" if "k < length pre" for k
    using that assms(3) fq by (simp add: nth_append list_all_length)
  ultimately show ?thesis
    using a_call [of "length pre" "pre @ j # post" n a answers fallback now st st' j'] assms by simp
qed

lemma process_window_works:
  assumes "process_window primary fallback now ref (m, st) = ((m', st'), s, err)"
    and pq: "list_all finished pre" "list_all queued post" "0 < n" and ans: "\<And>w m. snd (primary w m) \<in> answers w"
  shows "(work n answers fallback now)\<^sup>*\<^sup>* (st, pre @ Queued ref # post) (st', pre @ Finished ref s err # post)"
proof -
  let ?W = "(work n answers fallback now)\<^sup>*\<^sup>*"
  have solo: "?W (st1, pre @ j # post) x"
    if "advance fallback now a j st1 = (st2, j')" "\<not> finished j" "\<forall>ref w. j = Loaded ref w \<longrightarrow> a \<in> answers w"
      "?W (st2, pre @ j' # post) x" for a j st1 st2 j' x
    using that solo_step [OF that(1,2) pq that(3)] by (rule_tac converse_rtranclp_into_rtranclp)
  show ?thesis
  proof (cases "load_window ref (px_store st)")
    case (Inl e)
    then show ?thesis using assms(1)
      by (intro solo [OF _ _ _ rtranclp.rtrancl_refl])
        (auto simp: process_window_def job_failed_def split: prod.splits)
  next
    case (Inr w)
    obtain a where a: "primary w m = (m', a)" using assms(1) Inr
      by (auto simp: process_window_def split: prod.splits option.splits sum.splits)
    then have in_ans: "a \<in> answers w" using ans [of w m] by simp
    have rest: "?W (st, pre @ Loaded ref w # post) (st', pre @ Finished ref s err # post)"
    proof (cases "conclude fallback now ref w a")
      case None
      then show ?thesis using assms(1) Inr a in_ans
        by (intro solo [OF _ _ _ rtranclp.rtrancl_refl])
          (auto simp: process_window_def job_failed_def split: prod.splits)
    next
      case (Some i)
      obtain r res where save: "save_insight i (px_repo st) = (r, res)" by fastforce
      have "?W (st, pre @ Analyzed ref i # post) (st', pre @ Finished ref s err # post)"
      proof (cases res)
        case (Inl e)
        then show ?thesis using assms(1) Inr a Some save
          by (intro solo [OF _ _ _ rtranclp.rtrancl_refl])
            (auto simp: process_window_def job_failed_def split: prod.splits)
      next
        case b: (Inr b)
        obtain s1 e where comp: "complete_window ref (px_store st) = (s1, e)" by fastforce
        have "?W (st\<lparr>px_repo := r\<rparr>, pre @ Stored ref i # post) (st', pre @ Finished ref s err # post)"
          using assms(1) Inr a Some save b comp
          by (intro solo [OF _ _ _ rtranclp.rtrancl_refl])
            (auto simp: process_window_def job_failed_def split: prod.splits option.splits)
        then show ?thesis by (rule solo [rotated 3]) (use save b in auto)
      qed
      then show ?thesis by (rule solo [rotated 3]) (use Some in_ans in auto)
    qed
    then show ?thesis by (rule solo [rotated 3]) (use Inr in auto)
  qed
qed

lemma process_each_works:
  assumes "process_each primary fallback now refs (m, st) = ((m', st'), results)"
    and "0 < n" and ans: "\<And>w m. snd (primary w m) \<in> answers w" and "list_all finished pre"
  shows "length results = length refs \<and>
    (work n answers fallback now)\<^sup>*\<^sup>* (st, pre @ map Queued refs)
      (st', pre @ map2 (\<lambda>ref (s, err). Finished ref s err) refs results)"
  using assms(1,4)
proof (induction refs arbitrary: m st pre results)
  case (Cons ref refs)
  obtain m1 st1 s err rest where one: "process_window primary fallback now ref (m, st) = ((m1, st1), s, err)"
    "process_each primary fallback now refs (m1, st1) = ((m', st'), rest)" "results = (s, err) # rest"
    using Cons.prems(1) by (auto split: prod.splits)
  have "list_all queued (map Queued refs)" by (simp add: list_all_iff)
  note process_window_works [OF one(1) Cons.prems(2) this assms(2) ans]
  moreover have "list_all finished (pre @ [Finished ref s err])" using Cons.prems(2) by simp
  note Cons.IH [OF one(2) this]
  ultimately show ?case using one(3) by (auto intro: rtranclp_trans)
qed simp

lemma collect_results_fold:
  "fold (\<lambda>(s, err) (sum, errs). (add_summary sum s, join_errors errs err)) results (acc, None) = (tot, errs) \<Longrightarrow>
   (\<forall>r \<in> set results. snd r = None) \<Longrightarrow>
   errs = None \<and> sy_completed tot = sy_completed acc + sum_list (map (sy_completed \<circ> fst) results) \<and>
     sy_degraded tot = sy_degraded acc + sum_list (map (sy_degraded \<circ> fst) results) \<and>
     sy_failed tot = sy_failed acc + sum_list (map (sy_failed \<circ> fst) results)"
proof (induction results arbitrary: acc)
  case (Cons x results)
  obtain s where "x = (s, None)" using Cons.prems(2) by (cases x) auto
  then show ?case using Cons.IH [of "add_summary acc s"] Cons.prems by (simp add: join_errors_def add_summary_def)
qed simp

end
