(* ===== verification/Service.thy ===== *)
theory Service
  imports Processor
begin

text \<open>
  The processor over its real parts: the analyzer that asks a model
  (\<open>v11/insight/internal/adapters/analyzer/eino\<close>) as the primary one, the rule analyzer as the
  fallback, the memory store and the memory repository. The properties hold for every interleaving
  of the workers; \<open>drain\<close> is the loop of \<open>v11/insight/internal/benchmark/run.go\<close>, which runs
  the processor until nothing is due.
\<close>

section \<open>The analyzers\<close>

definition rule_fallback :: "string option \<Rightarrow> insight_window \<Rightarrow> answer" where
  \<comment> \<open>\<open>rule.Analyzer.Analyze\<close>: the statistics, everything else is zero\<close>
  "rule_fallback ctx window =
     map_sum id (\<lambda>rules.
       \<lparr>ar_rules = rules,
        ar_semantic = \<lparr>se_summary = [], se_topics = [], se_sentiment = \<lparr>sm_label = [], sm_confidence = 0, sm_evidence = []\<rparr>,
          se_questions = [], se_alerts = []\<rparr>,
        ar_model = \<lparr>mt_provider = [], mt_model = [], mt_prompt_version = [], mt_input_tokens = 0,
          mt_output_tokens = 0, mt_latency_millis = 0\<rparr>\<rparr>) (rule_analyze ctx window)"

definition model_answers :: "semantic_json \<Rightarrow> insight_window \<Rightarrow> answer set" where
  \<comment> \<open>what the model's analyzer may answer, whatever the model does\<close>
  "model_answers js window =
     {snd (model_analyze js (\<lambda>request m. (m, res)) ctx window ()) | res ctx. True}"

definition decodes_text :: "semantic_json \<Rightarrow> bool" where
  \<comment> \<open>\<open>encoding/json\<close> replaces what is not UTF-8 in a string\<close>
  "decodes_text js \<longleftrightarrow>
     (\<forall>text s rest. sj_decode js text = Inr (s, rest) \<longrightarrow> (\<forall>a \<in> set (se_alerts s). valid_string (al_type a)))"

lemma model_answers_all: "snd (model_analyze js ask ctx window m) \<in> model_answers js window"
proof -
  have "snd (model_analyze js ask ctx window m) =
      snd (model_analyze js (\<lambda>request m'. (m', snd (ask (build_completion_request window) m))) ctx window ())"
    by (auto simp: model_analyze_def split: option.split sum.split prod.split)
  then show ?thesis unfolding model_answers_def by blast
qed

lemma model_answer_ok:
  assumes "Inr r \<in> model_answers js w" "decodes_text js"
  shows "ok_answer w r"
proof -
  obtain res ctx where "snd (model_analyze js (\<lambda>request m. (m, res)) ctx w ()) = Inr r"
    using assms(1) by (auto simp: model_answers_def)
  then obtain rules and response :: completion_response where a: "rule_analyze (ctx 2) w = Inr rules" "ar_rules r = rules"
    "parse_and_validate js (cp_content response) w = Inr (ar_semantic r)" "mt_prompt_version (ar_model r) = prompt_version"
    by (auto simp: model_analyze_def split: option.splits sum.splits)
  have "rule_spec (iw_events w) rules"
    using a(1) rule_analyze_spec [of w] by (cases "ctx 2") (auto simp: rule_analyze_def)
  moreover obtain rest where s: "sj_decode js (cp_content response) = Inr (ar_semantic r, rest)"
    "validate_semantic (sj_quote js) (ar_semantic r) (map ev_id (iw_events w)) = None"
    using a(3) by (auto simp: parse_and_validate_def split: sum.splits prod.splits if_splits option.splits)
  moreover have "validate_alert x = None" if "x \<in> set (se_alerts (ar_semantic r))" for x
    using s that assms(2)
    by (auto simp: validate_semantic_def orelse_None first_error_None check_alert_def validate_alert_def
        decodes_text_def max_alert_type_runes_def split: if_splits)
  moreover have "valid_sentiment (sm_label (se_sentiment (ar_semantic r)))"
    using s(2) by (auto simp: validate_semantic_def split: if_splits)
  ultimately show ?thesis using a by (simp add: ok_answer_def)
qed

lemma rule_fallback_ok: "ok_fallback (rule_fallback None)"
proof -
  have "\<exists>r. rule_fallback None w = Inr r \<and> rule_spec (iw_events w) (ar_rules r)" for w
    using rule_analyze_spec [of w] by (auto simp: rule_fallback_def)
  then show ?thesis by (simp add: ok_fallback_def)
qed

section \<open>Windows of a run\<close>

lemma run_window:
  assumes "window_at (final store_step ops (new_store config)) ref = Some w"
  shows "ws_ref w = ref \<and> wr_room ref \<noteq> [] \<and> trim_space (wr_room ref) = wr_room ref \<and> wr_start ref < wr_end ref"
proof -
  let ?width = "sc_window_size (st_config (new_store config))"
  have log: "window_log ?width ref ops \<noteq> []" "ws_ref w = ref"
    using run_holds_log [of config ref ops] assms by (auto simp: holds_log_def)
  then obtain op where "events_for ?width ref op \<noteq> []" by (auto simp: window_log_def)
  then obtain e :: message_event where "new_window_ref (ev_room e) (ev_at e) ?width = Inr ref"
    by (auto simp: events_for_def split: store_op.splits if_splits)
  then show ?thesis using log by (auto simp: new_window_ref_Inr)
qed

lemma load_window_at: "load_window ref s = Inr v \<Longrightarrow> \<exists>w. window_at s ref = Some w"
  by (auto simp: load_window_def window_at_def split: option.splits)

lemma window_at_load: "window_at s ref = Some w \<Longrightarrow> \<exists>v. load_window ref s = Inr v"
  by (simp add: load_window_def window_at_def)

definition due_refs :: "time \<Rightarrow> window_store \<Rightarrow> window_ref set" where
  "due_refs now s =
     {ref. \<exists>w. window_at s ref = Some w \<and> \<not> ws_claimed w \<and> ws_due_at w \<le> now \<and> window_key ref \<notin> set (st_completed s)}"

lemma due_refs_set:
  assumes "store_wf s"
  shows "due_refs now s = (ws_ref \<circ> snd) ` set (due_windows now s)"
proof -
  have wf: "gm_wf (st_windows s)" using assms by (simp add: store_wf_def)
  show ?thesis
  proof (rule set_eqI)
    fix ref
    have "ref \<in> due_refs now s \<longleftrightarrow> (\<exists>w. (window_key ref, w) \<in> set (due_windows now s))"
      using due_windows_member [OF wf] by (auto simp: due_refs_def window_at_def)
    also have "\<dots> \<longleftrightarrow> ref \<in> (ws_ref \<circ> snd) ` set (due_windows now s)"
      using due_keys [OF assms] by (force simp: window_key_inj)
    finally show "ref \<in> due_refs now s \<longleftrightarrow> ref \<in> (ws_ref \<circ> snd) ` set (due_windows now s)" .
  qed
qed

lemma due_refs_card:
  assumes "store_wf s"
  shows "finite (due_refs now s)" "card (due_refs now s) = length (due_windows now s)"
proof -
  have "distinct (map (ws_ref \<circ> snd) (due_windows now s))"
    using claimed_distinct [OF assms, of now "int (length (due_windows now s))"] by (simp add: claim_due_refs)
  then show "card (due_refs now s) = length (due_windows now s)"
    using distinct_card by (fastforce simp: due_refs_set [OF assms])
  show "finite (due_refs now s)" by (simp add: due_refs_set [OF assms])
qed

lemma claimed_are_due:
  "store_wf s \<Longrightarrow> set (snd (claim_due now limit s)) \<subseteq> due_refs now s"
  using claimed_ref by (force simp: due_refs_def)

lemma claim_load:
  assumes "store_wf s"
  shows "load_window ref (fst (claim_due now limit s)) = load_window ref s"
  using claim_due_windows [OF assms, of now limit ref]
  by (cases "window_at s ref") (auto simp: load_window_def window_at_def)

lemma claim_completed: "st_completed (fst (claim_due now limit s)) = st_completed s"
  by (simp add: claim_due_state mark_all_frame)

section \<open>A round of the processor\<close>

lemma job_failed_repo: "job_failed now ref st = (st', j) \<Longrightarrow> px_repo st' = px_repo st \<and> st_completed (px_store st') = st_completed (px_store st)"
  by (auto simp: job_failed_def failed_window_def release_window_def Let_def split: prod.splits option.splits)

lemma grows_repo: "grows st (st\<lparr>px_repo := fst (save_insight i (px_repo st))\<rparr>)"
  by (simp add: grows_def memory_repo.save_keeps)

lemma grows_complete: "grows st (st\<lparr>px_store := fst (complete_window ref (px_store st))\<rparr>)"
  by (auto simp: grows_def complete_window_def Let_def split: option.split)

lemma grows_failed: "grows st st1 \<Longrightarrow> job_failed now ref st1 = (st', j) \<Longrightarrow> grows st st'"
  using job_failed_repo [of now ref st1 st' j] by (simp add: grows_def)

lemma advance_grows: "advance fallback now a j st = (st', j') \<Longrightarrow> grows st st'"
proof (cases j)
  case (Analyzed ref i)
  then show "advance fallback now a j st = (st', j') \<Longrightarrow> grows st st'"
    using grows_repo [of st i] grows_failed [OF grows_repo [of st i]] by (auto split: prod.splits sum.splits)
next
  case (Stored ref i)
  then show "advance fallback now a j st = (st', j') \<Longrightarrow> grows st st'"
    using grows_complete [of st ref] grows_failed [OF grows_complete [of st ref]] by (auto split: prod.splits option.splits)
qed (auto simp: grows_def split: sum.splits option.splits dest: job_failed_repo)

lemma grows_trans: "grows a b \<Longrightarrow> grows b c \<Longrightarrow> grows a c"
  by (auto simp: grows_def)

lemma work_grows: "(work n answers fallback now)\<^sup>*\<^sup>* x y \<Longrightarrow> grows (fst x) (fst y)"
proof (induction rule: rtranclp_induct)
  case (step y z)
  then show ?case by (cases y; cases z) (auto elim!: workE dest!: advance_grows intro: grows_trans)
qed (simp add: grows_def)

definition round_inv :: "time \<Rightarrow> window_store \<Rightarrow> proc_state \<Rightarrow> bool" where
  "round_inv now s0 st \<longleftrightarrow> store_wf (px_store st) \<and> same_windows s0 (px_store st) \<and> repo_good now s0 (px_repo st)"

definition dated :: "window_store \<Rightarrow> bool" where
  \<comment> \<open>the windows of the store are those that \<open>Add\<close> makes, and none starts at the zero time\<close>
  "dated s \<longleftrightarrow> (\<forall>ref w. load_window ref s = Inr w \<longrightarrow> ref_fits ref)"

lemma round_starts:
  assumes "round_inv now s0 st" "claim_due now limit (px_store st) = (s, refs)"
  shows "work_inv now s0 refs (st\<lparr>px_store := s\<rparr>, map Queued refs)"
    "\<forall>ref \<in> set refs. \<exists>w. load_window ref s0 = Inr w" "store_wf s" "set refs \<subseteq> due_refs now (px_store st)"
proof -
  have wf: "store_wf (px_store st)" using assms(1) by (simp add: round_inv_def)
  have s: "s = fst (claim_due now limit (px_store st))" "refs = snd (claim_due now limit (px_store st))"
    using assms(2) by simp_all
  have "same_windows s0 s"
    using assms(1) claim_load [OF wf] by (simp add: same_windows_def round_inv_def s)
  then show "work_inv now s0 refs (st\<lparr>px_store := s\<rparr>, map Queued refs)"
    using assms(1) by (simp add: work_inv_def round_inv_def list_all_iff comp_def)
  show due: "set refs \<subseteq> due_refs now (px_store st)" using claimed_are_due [OF wf] by (simp add: s)
  show "\<forall>ref \<in> set refs. \<exists>w. load_window ref s0 = Inr w"
    using due window_at_load assms(1) by (fastforce simp: due_refs_def round_inv_def same_windows_def)
  show "store_wf s" using claim_due_wf [OF wf] by (simp add: s)
qed

definition served :: "time \<Rightarrow> window_store \<Rightarrow> proc_state \<Rightarrow> window_ref \<Rightarrow> room_insight \<Rightarrow> bool" where
  \<comment> \<open>the window is completed, and the repository has a good insight of it\<close>
  "served now s0 st ref i \<longleftrightarrow>
     window_key ref \<in> set (st_completed (px_store st)) \<and> map_of (px_repo st) (idempotency_key i) = Some i \<and>
     (\<exists>w. load_window ref s0 = Inr w \<and> good_insight now ref w i)"

lemma served_grows: "served now s0 st ref i \<Longrightarrow> grows st st' \<Longrightarrow> served now s0 st' ref i"
  by (auto simp: served_def grows_def)

lemma round_ends:
  assumes "round_inv now s0 st" "claim_due now limit (px_store st) = (s, refs)"
    "(work n answers fallback now)\<^sup>*\<^sup>* (st\<lparr>px_store := s\<rparr>, map Queued refs) (st', jobs)" "list_all finished jobs"
    "\<forall>ref \<in> set refs. ref_fits ref" "now \<noteq> 0"
    "\<forall>w r. Inr r \<in> answers w \<longrightarrow> ok_answer w r" "ok_fallback fallback"
  shows "round_inv now s0 st'"
    "list_all2 (\<lambda>ref j. \<exists>i. served now s0 st' ref i \<and> j = Finished ref (success i) None) refs jobs"
    "due_refs now (px_store st') = due_refs now (px_store st) - set refs"
proof -
  note start = round_starts [OF assms(1,2)]
  have inv: "work_inv now s0 refs (st', jobs)"
    using work_inv_run [OF assms(3) start(1) _ assms(6-8)] start(2) assms(5) by blast
  have others: "others_kept (set refs) s (px_store st')"
    using work_others [OF assms(3)] start(3) by (simp add: image_image)
  show "round_inv now s0 st'" using inv others by (simp add: round_inv_def work_inv_def others_kept_def)
  have len: "length refs = length jobs" using inv by (metis work_inv_def length_map snd_conv)
  have each: "\<exists>i. served now s0 st' (refs ! k) i \<and> jobs ! k = Finished (refs ! k) (success i) None" if "k < length jobs" for k
  proof -
    have "job_ok now s0 st' (jobs ! k)" "finished (jobs ! k)" "job_ref (jobs ! k) = refs ! k"
      using inv assms(4) that by (auto simp: work_inv_def list_all_length)
    then obtain i where "jobs ! k = Finished (refs ! k) (success i) None" "has_insight now s0 (px_repo st') (refs ! k) i"
      "window_key (refs ! k) \<in> set (st_completed (px_store st'))"
      by (cases "jobs ! k") auto
    then show ?thesis unfolding has_insight_def served_def success_def by fastforce
  qed
  then show "list_all2 (\<lambda>ref j. \<exists>i. served now s0 st' ref i \<and> j = Finished ref (success i) None) refs jobs"
    using len by (simp add: list_all2_conv_all_nth)
  have ended: "window_key q \<in> set (st_completed (px_store st'))" if "q \<in> set refs" for q
    using that each len by (force simp: in_set_conv_nth served_def)
  have wf: "store_wf (px_store st)" using assms(1) by (simp add: round_inv_def)
  have s: "s = fst (claim_due now limit (px_store st))" "refs = snd (claim_due now limit (px_store st))"
    using assms(2) by simp_all
  show "due_refs now (px_store st') = due_refs now (px_store st) - set refs"
  proof (rule set_eqI)
    fix q
    show "q \<in> due_refs now (px_store st') \<longleftrightarrow> q \<in> due_refs now (px_store st) - set refs"
    proof (cases "q \<in> set refs")
      case True
      then show ?thesis using ended by (simp add: due_refs_def)
    next
      case False
      then have "window_at (px_store st') q = window_at (px_store st) q"
        "window_key q \<in> set (st_completed (px_store st')) \<longleftrightarrow> window_key q \<in> set (st_completed (px_store st))"
        using others claim_due_windows [OF wf, of now limit q] claim_completed [of now limit "px_store st"]
        by (auto simp: others_kept_def s option.map_ident)
      then show ?thesis using False by (simp add: due_refs_def)
    qed
  qed
qed

section \<open>Rounds until nothing is due\<close>

definition processed :: "summary \<Rightarrow> int" where
  "processed s = sy_completed s + sy_degraded s + sy_failed s"

partial_function (option) drain ::
  "(insight_window \<Rightarrow> 'm \<Rightarrow> 'm \<times> answer) \<Rightarrow> (insight_window \<Rightarrow> answer) \<Rightarrow> time \<Rightarrow> 'm \<times> proc_state \<Rightarrow> summary \<Rightarrow>
   (('m \<times> proc_state) \<times> (string + summary)) option" where
  \<comment> \<open>the loop of \<open>Run\<close>; \<open>None\<close>: it goes on for ever\<close>
  "drain primary fallback now ms sofar =
     (case process_due primary fallback now ms of
        (ms, s, Some err) \<Rightarrow> Some (ms, Inl err)
      | (ms, s, None) \<Rightarrow>
          if processed s = 0 then Some (ms, Inr (add_summary sofar s))
          else drain primary fallback now ms (add_summary sofar s))"

lemma success_counts: "sy_failed (success i) = 0" "sy_completed (success i) + sy_degraded (success i) = 1"
  by (simp_all add: success_def)

lemma sum_of_successes:
  "sum_list (map (sy_failed \<circ> fst) (map (\<lambda>i. (success i, None)) xs)) = 0"
  "sum_list (map (sy_completed \<circ> fst) (map (\<lambda>i. (success i, None)) xs)) +
   sum_list (map (sy_degraded \<circ> fst) (map (\<lambda>i. (success i, None)) xs)) = int (length xs)"
  using success_counts by (induction xs) (simp_all add: algebra_simps)

lemma all_finished: "list_all finished (map2 (\<lambda>ref (s, err). Finished ref s err) refs results)"
  by (auto simp: list_all_iff split: prod.split)

lemma due_round:
  fixes answers :: "insight_window \<Rightarrow> answer set"
  assumes inv: "round_inv now s0 st" and now: "now \<noteq> 0"
    and due: "\<forall>ref \<in> due_refs now (px_store st). ref_fits ref"
    and ans: "\<And>w m. snd (primary w m) \<in> answers w" "\<forall>w r. Inr r \<in> answers w \<longrightarrow> ok_answer w r"
    and fb: "ok_fallback fallback"
  obtains m' st' s refs where "process_due primary fallback now (m, st) = ((m', st'), s, None)"
    "round_inv now s0 st'" "due_refs now (px_store st') = due_refs now (px_store st) - set refs"
    "refs = snd (claim_due now max_due_windows (px_store st))" "grows st st'"
    "sy_failed s = 0" "sy_completed s + sy_degraded s = int (length refs)"
    "\<forall>ref \<in> set refs. \<exists>i. served now s0 st' ref i"
proof -
  obtain s1 refs where claim: "claim_due now max_due_windows (px_store st) = (s1, refs)" by fastforce
  obtain m' st' results where run:
    "process_each primary fallback now refs (m, st\<lparr>px_store := s1\<rparr>) = ((m', st'), results)" by (metis surj_pair)
  let ?jobs = "map2 (\<lambda>ref (s, err). Finished ref s err) refs results"
  have w: "length results = length refs"
    "(work 1 answers fallback now)\<^sup>*\<^sup>* (st\<lparr>px_store := s1\<rparr>, map Queued refs) (st', ?jobs)"
    using process_each_works [OF run _ ans(1), of 1 "[]"] by simp_all
  have fits: "\<forall>ref \<in> set refs. ref_fits ref" using round_starts(4) [OF inv claim] due by blast
  have fin: "list_all finished ?jobs" by (rule all_finished)
  note ends = round_ends [OF inv claim w(2) fin fits now ans(2) fb]
  have each: "\<exists>i. served now s0 st' (refs ! k) i \<and> results ! k = (success i, None)" if "k < length refs" for k
    using list_all2_nthD [OF ends(2) that] that w(1) by (cases "results ! k") auto
  obtain tot errs where col: "collect_results results = (tot, errs)" by fastforce
  obtain f where f: "\<forall>k < length refs. served now s0 st' (refs ! k) (f k) \<and> results ! k = (success (f k), None)"
    using each by metis
  have results: "results = map (\<lambda>i. (success i, None)) (map f [0..<length refs])"
    using f w(1) by (intro nth_equalityI) simp_all
  note counted = sum_of_successes [of "map f [0..<length refs]"]
  have "\<forall>r \<in> set results. snd r = None" unfolding results by simp
  note sums = collect_results_fold [OF col [unfolded collect_results_def] this]
  have counts: "sy_failed tot = 0" "sy_completed tot + sy_degraded tot = int (length refs)" "errs = None"
    using sums counted unfolding results by (simp_all add: no_summary_def del: map_map)
  have "grows (st\<lparr>px_store := s1\<rparr>) st'" using work_grows [OF w(2)] by simp
  then have "grows st st'" using claim_completed [of now max_due_windows "px_store st"] claim by (simp add: grows_def)
  moreover have "\<forall>ref \<in> set refs. \<exists>i. served now s0 st' ref i" using each by (metis in_set_conv_nth)
  moreover have "process_due primary fallback now (m, st) = ((m', st'), tot, None)"
    using claim run col counts by (simp add: process_due_def)
  moreover have "refs = snd (claim_due now max_due_windows (px_store st))" using claim by simp
  ultimately show ?thesis using that [of m' st' tot refs] ends(1,3) counts(1,2) by blast
qed

lemma drain_ends:
  fixes answers :: "insight_window \<Rightarrow> answer set"
  assumes now: "now \<noteq> 0"
    and ans: "\<And>w m. snd (primary w m) \<in> answers w" "\<forall>w r. Inr r \<in> answers w \<longrightarrow> ok_answer w r"
    and fb: "ok_fallback fallback"
    and "round_inv now s0 st" "\<forall>ref \<in> due_refs now (px_store st). ref_fits ref"
  shows "\<exists>m' st' tot. drain primary fallback now (m, st) sofar = Some ((m', st'), Inr tot) \<and> round_inv now s0 st' \<and>
     grows st st' \<and> due_refs now (px_store st') = {} \<and> sy_failed tot = sy_failed sofar \<and>
     sy_completed tot + sy_degraded tot = sy_completed sofar + sy_degraded sofar + int (card (due_refs now (px_store st))) \<and>
     (\<forall>ref \<in> due_refs now (px_store st). \<exists>i. served now s0 st' ref i)"
  using assms(5,6)
proof (induction "card (due_refs now (px_store st))" arbitrary: m st sofar rule: less_induct)
  case less
  obtain m1 st1 s refs where
    r: "process_due primary fallback now (m, st) = ((m1, st1), s, None)" "round_inv now s0 st1"
    "due_refs now (px_store st1) = due_refs now (px_store st) - set refs"
    "refs = snd (claim_due now max_due_windows (px_store st))" "grows st st1"
    "sy_failed s = 0" "sy_completed s + sy_degraded s = int (length refs)" "\<forall>ref \<in> set refs. \<exists>i. served now s0 st1 ref i"
    by (rule due_round [where m = m and answers = answers and primary = primary, OF less.prems(1) now less.prems(2) ans fb])
  have wf: "store_wf (px_store st)" using less.prems(1) by (simp add: round_inv_def)
  have refs: "set refs \<subseteq> due_refs now (px_store st)" "distinct refs"
    using claimed_are_due [OF wf] claimed_distinct [OF wf] by (simp_all add: r(4))
  note fin = due_refs_card(1) [OF wf, of now]
  have card: "card (due_refs now (px_store st1)) = card (due_refs now (px_store st)) - length refs"
    "length refs \<le> card (due_refs now (px_store st))"
    using refs fin card_mono [OF fin refs(1)] distinct_card [OF refs(2)] by (simp_all add: r(3) card_Diff_subset)
  show ?case
  proof (cases refs)
    case Nil
    then have "due_windows now (px_store st) = []" using r(4) by (simp add: claim_due_refs max_due_windows_def)
    then have "due_refs now (px_store st) = {}" by (simp add: due_refs_set [OF wf])
    moreover have "processed s = 0" using r(6,7) Nil by (simp add: processed_def)
    ultimately show ?thesis using r Nil by (simp add: drain.simps [of _ _ _ "(m, st)"] add_summary_def)
  next
    case (Cons a l)
    then have "card (due_refs now (px_store st1)) < card (due_refs now (px_store st))" using card by simp
    moreover have "\<forall>ref \<in> due_refs now (px_store st1). ref_fits ref" using r(3) less.prems(2) by blast
    ultimately obtain m' st' tot where d:
      "drain primary fallback now (m1, st1) (add_summary sofar s) = Some ((m', st'), Inr tot)" "round_inv now s0 st'"
      "grows st1 st'" "due_refs now (px_store st') = {}" "sy_failed tot = sy_failed (add_summary sofar s)"
      "sy_completed tot + sy_degraded tot = sy_completed (add_summary sofar s) + sy_degraded (add_summary sofar s) +
         int (card (due_refs now (px_store st1)))"
      "\<forall>ref \<in> due_refs now (px_store st1). \<exists>i. served now s0 st' ref i"
      using less.hyps [of st1 m1 "add_summary sofar s"] r(2) by blast
    have "processed s \<noteq> 0" using r(6,7) Cons by (simp add: processed_def)
    then have "drain primary fallback now (m, st) sofar = Some ((m', st'), Inr tot)"
      using d(1) by (simp add: drain.simps [of _ _ _ "(m, st)"] r(1))
    moreover have "\<forall>ref \<in> due_refs now (px_store st). \<exists>i. served now s0 st' ref i"
      using d(7) r(8) served_grows [OF _ d(3)] r(3) by blast
    ultimately show ?thesis using d r(5,6,7) card grows_trans [OF r(5) d(3)]
      by (simp add: add_summary_def)
  qed
qed

section \<open>A cancelled run\<close>

lemma release_due:
  assumes "store_wf s" "window_at s ref = Some w" "window_key ref \<notin> set (st_completed s)"
  shows "ref \<in> due_refs now (fst (release_window ref now s))"
  using assms by (auto simp: due_refs_def release_window_def window_at_def Let_def map_of_gm)

lemma process_each_kept:
  assumes "process_each primary fallback now refs (m, st) = ((m', st'), results)" "store_wf (px_store st)"
  shows "others_kept (set refs) (px_store st) (px_store st')"
proof -
  have "(work 1 (\<lambda>_. UNIV) fallback now)\<^sup>*\<^sup>* (st, map Queued refs)
      (st', map2 (\<lambda>ref (s, err). Finished ref s err) refs results)"
    using process_each_works [OF assms(1), of 1 "\<lambda>_. UNIV" "[]"] by simp
  from work_others [OF this assms(2)] show ?thesis by (simp add: image_image)
qed

lemma refused_window:
  assumes "\<And>w m. \<exists>e. snd (primary w m) = Inl e" "\<And>w. \<exists>e. fallback w = Inl e"
    and "store_wf (px_store st)" "window_at (px_store st) ref = Some w"
    and "process_window primary fallback now ref (m, st) = ((m', st'), s, err)"
  shows "px_store st' = fst (release_window ref now (px_store st)) \<and> s = \<lparr>sy_completed = 0, sy_degraded = 0, sy_failed = 1\<rparr> \<and> err = None"
proof -
  obtain v where v: "load_window ref (px_store st) = Inr v" using window_at_load [OF assms(4)] by blast
  obtain m1 e where p: "primary v m = (m1, Inl e)" using assms(1) [of v m] by (cases "primary v m") auto
  obtain e' where "fallback v = Inl e'" using assms(2) by blast
  then have "conclude fallback now ref v (Inl e) = None" by (simp add: conclude_def)
  moreover have "snd (release_window ref now (px_store st)) = None"
    using assms(4) by (simp add: release_window_def window_at_def Let_def)
  ultimately show ?thesis using assms(5) v p
    by (auto simp: process_window_def failed_window_def split: prod.splits)
qed

lemma refused_round:
  assumes no: "\<And>w m. \<exists>e. snd (primary w m) = Inl e" "\<And>w. \<exists>e. fallback w = Inl e"
    and "store_wf (px_store st)" "distinct refs"
    and "\<forall>ref \<in> set refs. window_key ref \<notin> set (st_completed (px_store st)) \<and> (\<exists>w. window_at (px_store st) ref = Some w)"
    and "process_each primary fallback now refs (m, st) = ((m', st'), results)"
  shows "set refs \<subseteq> due_refs now (px_store st') \<and>
    results = replicate (length refs) (\<lparr>sy_completed = 0, sy_degraded = 0, sy_failed = 1\<rparr>, None)"
  using assms(3-6)
proof (induction refs arbitrary: m st results)
  case (Cons ref refs)
  obtain m1 st1 s err rest where one: "process_window primary fallback now ref (m, st) = ((m1, st1), s, err)"
    "process_each primary fallback now refs (m1, st1) = ((m', st'), rest)" "results = (s, err) # rest"
    using Cons.prems(4) by (auto split: prod.splits)
  obtain w where w: "window_at (px_store st) ref = Some w" using Cons.prems(3) by auto
  note ref = refused_window [OF no Cons.prems(1) w one(1)]
  have kept: "others_kept {ref} (px_store st) (px_store st1)" using ref others_kept_release [OF Cons.prems(1)] by simp
  then have wf: "store_wf (px_store st1)" by (simp add: others_kept_def)
  have "\<forall>q \<in> set refs. window_key q \<notin> set (st_completed (px_store st1)) \<and> (\<exists>w. window_at (px_store st1) q = Some w)"
    using kept Cons.prems(2,3) by (auto simp: others_kept_def)
  note rest = Cons.IH [OF wf _ this one(2)]
  have "ref \<in> due_refs now (px_store st1)" using ref release_due [OF Cons.prems(1) w] Cons.prems(3) by simp
  then have "ref \<in> due_refs now (px_store st')"
    using process_each_kept [OF one(2) wf] Cons.prems(2) by (simp add: others_kept_def due_refs_def)
  then show ?case using rest Cons.prems(2) ref one(3) by simp
qed simp

lemma collect_failures:
  "collect_results (replicate k (\<lparr>sy_completed = 0, sy_degraded = 0, sy_failed = 1\<rparr>, None)) =
     (\<lparr>sy_completed = 0, sy_degraded = 0, sy_failed = int k\<rparr>, None)"
proof -
  let ?f = "\<lparr>sy_completed = 0, sy_degraded = 0, sy_failed = 1\<rparr>"
  let ?rs = "replicate k (?f, None :: string option)"
  obtain tot errs where col: "collect_results ?rs = (tot, errs)" by fastforce
  have "\<forall>r \<in> set ?rs. snd r = None" by simp
  note collect_results_fold [OF col [unfolded collect_results_def] this]
  then show ?thesis using col by (simp add: no_summary_def sum_list_replicate)
qed

lemma drain_refused:
  "drain primary fallback now ms sofar = Some x \<Longrightarrow>
   (\<forall>w m. \<exists>e. snd (primary w m) = Inl e) \<Longrightarrow> (\<forall>w. \<exists>e. fallback w = Inl e) \<Longrightarrow>
   store_wf (px_store (snd ms)) \<Longrightarrow> due_refs now (px_store (snd ms)) = {}"
proof (induction rule: drain.raw_induct [rotated 1, consumes 1])
  case (1 drain primary fallback now ms sofar x)
  obtain m st where ms: "ms = (m, st)" by fastforce
  note no = "1.prems"(1,2) [rule_format]
  have wf: "store_wf (px_store st)" using "1.prems"(3) ms by simp
  obtain s1 refs where claim: "claim_due now max_due_windows (px_store st) = (s1, refs)" by fastforce
  have s1: "s1 = fst (claim_due now max_due_windows (px_store st))" "refs = snd (claim_due now max_due_windows (px_store st))"
    using claim by simp_all
  obtain m' st' results where run:
    "process_each primary fallback now refs (m, st\<lparr>px_store := s1\<rparr>) = ((m', st'), results)" by (metis surj_pair)
  have wf1: "store_wf s1" "distinct refs" using claim_due_wf [OF wf] claimed_distinct [OF wf] by (simp_all add: s1)
  have "\<forall>ref \<in> set refs. window_key ref \<notin> set (st_completed s1) \<and> (\<exists>w. window_at s1 ref = Some w)"
    using claimed_ref [OF wf] claim_due_windows [OF wf] by (fastforce simp: s1 claim_completed)
  then have round: "set refs \<subseteq> due_refs now (px_store st')"
    "results = replicate (length refs) (\<lparr>sy_completed = 0, sy_degraded = 0, sy_failed = 1\<rparr>, None)"
    using refused_round [OF no _ wf1(2) _ run] wf1(1) by simp_all
  have due: "process_due primary fallback now ms =
      ((m', st'), \<lparr>sy_completed = 0, sy_degraded = 0, sy_failed = int (length refs)\<rparr>, None)"
    using claim run by (simp add: ms process_due_def round(2) collect_failures)
  show ?case
  proof (cases refs)
    case Nil
    then have "due_windows now (px_store st) = []" using s1(2) by (simp add: claim_due_refs max_due_windows_def)
    then show ?thesis using ms due_refs_set [OF wf] by simp
  next
    case (Cons a l)
    then have go: "drain primary fallback now (m', st')
        (add_summary sofar \<lparr>sy_completed = 0, sy_degraded = 0, sy_failed = int (length refs)\<rparr>) = Some x"
      using "1.hyps" due by (simp add: processed_def)
    have "store_wf (px_store st')" using process_each_kept [OF run] wf1(1) by (simp add: others_kept_def)
    then have "due_refs now (px_store st') = {}" using "1.IH" [OF go "1.prems"(1,2)] by simp
    then show ?thesis using round(1) Cons by simp
  qed
qed

section \<open>Properties\<close>

lemma round_inv_start:
  "round_inv now (final store_step ops (new_store config))
     \<lparr>px_store = final store_step ops (new_store config), px_repo = new_repo\<rparr>"
  by (simp add: round_inv_def store_run_wf store_wf_new same_windows_def repo_good_def new_repo_def)

lemma run_refs_fit:
  assumes "ref \<in> due_refs now (final store_step ops (new_store config))" "wr_start ref \<noteq> 0"
  shows "ref_fits ref"
  using assms run_window by (force simp: due_refs_def ref_fits_def)

definition refusing_json :: semantic_json where
  "refusing_json = \<lparr>sj_decode = \<lambda>text. Inl ''no JSON'', sj_at_end = \<lambda>rest. True, sj_quote = id\<rparr>"

definition demo_ops :: "store_op list" where
  "demo_ops = [Add (demo_event ''1'' ''a'' (61 * second)) 0]"

lemma demo_due:
  "due_refs (300 * second) (final store_step demo_ops (new_store demo_store_config)) = {demo_window ''a''} \<and>
   snd (claim_due (300 * second) 32 (final store_step demo_ops (new_store demo_store_config))) = [demo_window ''a'']"
proof -
  have ne: "ev_room (demo_event ''1'' room t) = room" "ev_at (demo_event ''1'' room t) = t"
    "ev_id (demo_event ''1'' room t) = ''1''" for room t by (simp_all add: demo_event_def)
  have "map (ws_ref \<circ> snd) (due_windows (300 * second) (final store_step demo_ops (new_store demo_store_config))) = [demo_window ''a'']"
    using demo_add [of "''a''"]
    by (simp add: demo_ops_def add_event_def Let_def new_store_def demo_store_config_def ne fresh_window_def
        count_event_def due_windows_def demo_window_def)
  note due = this
  have wf: "store_wf (final store_step demo_ops (new_store demo_store_config))"
    by (rule store_run_wf [OF store_wf_new])
  have "due_refs (300 * second) (final store_step demo_ops (new_store demo_store_config)) = {demo_window ''a''}"
    unfolding due_refs_set [OF wf] using arg_cong [OF due, of set] by simp
  moreover have "snd (claim_due (300 * second) 32 (final store_step demo_ops (new_store demo_store_config))) = [demo_window ''a'']"
    unfolding claim_due_refs take_map [symmetric] due by simp
  ultimately show ?thesis ..
qed

text \<open>C10: Whatever the language model does and however the workers interleave, every window that was
  claimed ends completed with an insight in the repository, and none fails: a normal one whose every
  statement cites messages of its window, and only those, or a degraded one without statements;
  either with the statistics of the window's messages. A window that starts at the zero time is the
  exception, since no insight of it is valid.\<close>

theorem claimed_windows_get_their_insight:
  fixes n :: int
  assumes "claim_due now max_due_windows (final store_step ops (new_store config)) = (s, refs)"
    "(work n (model_answers js) (rule_fallback None) now)\<^sup>*\<^sup>*
       (\<lparr>px_store = s, px_repo = new_repo\<rparr>, map Queued refs) (st, jobs)"
    "list_all finished jobs" "now \<noteq> 0" "\<forall>ref \<in> set refs. wr_start ref \<noteq> 0" "decodes_text js"
  shows "list_all2 (\<lambda>ref j. \<exists>i w. j = Finished ref (success i) None \<and>
      window_key ref \<in> set (st_completed (px_store st)) \<and> map_of (px_repo st) (idempotency_key i) = Some i \<and>
      load_window ref (final store_step ops (new_store config)) = Inr w \<and> good_insight now ref w i) refs jobs"
proof -
  let ?s0 = "final store_step ops (new_store config)"
  have "set refs \<subseteq> due_refs now ?s0"
    using claimed_are_due [OF store_run_wf [OF store_wf_new], of now max_due_windows ops config] assms(1) by simp
  then have fits: "\<forall>ref \<in> set refs. ref_fits ref" using run_refs_fit assms(5) by blast
  have work: "(work n (model_answers js) (rule_fallback None) now)\<^sup>*\<^sup>*
      (\<lparr>px_store = ?s0, px_repo = new_repo\<rparr>\<lparr>px_store := s\<rparr>, map Queued refs) (st, jobs)" using assms(2) by simp
  have ok: "\<forall>w r. Inr r \<in> model_answers js w \<longrightarrow> ok_answer w r" using model_answer_ok assms(6) by blast
  have claim: "claim_due now max_due_windows (px_store \<lparr>px_store = ?s0, px_repo = new_repo\<rparr>) = (s, refs)"
    using assms(1) by simp
  from round_ends(2) [OF round_inv_start claim work assms(3) fits assms(4) ok rule_fallback_ok]
  show ?thesis unfolding served_def by (rule list_all2_mono) blast
qed

theorem claimed_windows_get_their_insight_witness:
  "\<exists>(st :: proc_state) i. map_of (px_repo st) (idempotency_key i) = Some i \<and>
     window_key (demo_window ''a'') \<in> set (st_completed (px_store st))"
proof -
  let ?s0 = "final store_step demo_ops (new_store demo_store_config)"
  obtain s where claim: "claim_due (300 * second) max_due_windows ?s0 = (s, [demo_window ''a''])"
    using demo_due by (metis max_due_windows_def prod.collapse)
  let ?primary = "\<lambda>w (m :: unit). model_analyze refusing_json (\<lambda>request m. (m, Inl ''down'')) (\<lambda>_. None) w m"
  obtain m' st results where run: "process_each ?primary (rule_fallback None) (300 * second) [demo_window ''a'']
      ((), \<lparr>px_store = s, px_repo = new_repo\<rparr>) = ((m', st), results)" by (metis surj_pair)
  have "\<And>w m. snd (?primary w m) \<in> model_answers refusing_json w" by (rule model_answers_all)
  from process_each_works [OF run _ this, of 1 "[]"]
  have works: "length results = 1" "(work 1 (model_answers refusing_json) (rule_fallback None) (300 * second))\<^sup>*\<^sup>*
      (\<lparr>px_store = s, px_repo = new_repo\<rparr>, map Queued [demo_window ''a''])
      (st, map2 (\<lambda>ref (s, err). Finished ref s err) [demo_window ''a''] results)" by simp_all
  have "list_all finished (map2 (\<lambda>ref (s, err). Finished ref s err) [demo_window ''a''] results)"
    by (rule all_finished)
  moreover have "wr_start (demo_window ''a'') \<noteq> 0" by (simp add: demo_window_def)
  moreover have "decodes_text refusing_json" by (simp add: decodes_text_def refusing_json_def)
  moreover have "(300 * second) \<noteq> 0" by simp
  ultimately have "\<exists>i. window_key (demo_window ''a'') \<in> set (st_completed (px_store st)) \<and>
      map_of (px_repo st) (idempotency_key i) = Some i"
    using claimed_windows_get_their_insight [OF claim works(2)] unfolding list_all2_Cons1 by fastforce
  then show ?thesis by blast
qed



text \<open>The benchmark's loop over \<open>ProcessDue\<close> ends, whatever the language model does: it takes at
  most 32 windows a round and leaves no window due; the summary counts each due window once, none as
  failed, and each of them is completed with its insight in the repository.\<close>

theorem drain_serves_every_due_window:
  assumes "now \<noteq> 0" "decodes_text js"
    "\<forall>ref \<in> due_refs now (final store_step ops (new_store config)). wr_start ref \<noteq> 0"
  shows "\<exists>m' st' tot. drain (model_analyze js ask ctx) (rule_fallback None) now
      (m, \<lparr>px_store = final store_step ops (new_store config), px_repo = new_repo\<rparr>) no_summary = Some ((m', st'), Inr tot) \<and>
    due_refs now (px_store st') = {} \<and> sy_failed tot = 0 \<and>
    sy_completed tot + sy_degraded tot = int (card (due_refs now (final store_step ops (new_store config)))) \<and>
    (\<forall>ref \<in> due_refs now (final store_step ops (new_store config)).
       \<exists>i. served now (final store_step ops (new_store config)) st' ref i)"
proof -
  let ?s0 = "final store_step ops (new_store config)"
  have fits: "\<forall>ref \<in> due_refs now (px_store \<lparr>px_store = ?s0, px_repo = new_repo\<rparr>). ref_fits ref"
    using run_refs_fit assms(3) by auto
  have ok: "\<forall>w r. Inr r \<in> model_answers js w \<longrightarrow> ok_answer w r" using model_answer_ok assms(2) by blast
  show ?thesis
    using drain_ends [where primary = "model_analyze js ask ctx" and answers = "model_answers js" and m = m and sofar = no_summary,
        OF assms(1) model_answers_all ok rule_fallback_ok round_inv_start fits]
    by (auto simp: no_summary_def)
qed

theorem drain_serves_every_due_window_witness:
  "\<exists>m' st' tot. drain (model_analyze refusing_json (\<lambda>request m. (m, Inl ''down'')) (\<lambda>_. None)) (rule_fallback None) (300 * second)
      ((), \<lparr>px_store = final store_step demo_ops (new_store demo_store_config), px_repo = new_repo\<rparr>) no_summary =
      Some ((m', st'), Inr tot) \<and> sy_completed tot + sy_degraded tot = 1"
  using drain_serves_every_due_window [of "300 * second" refusing_json demo_ops demo_store_config
      "\<lambda>request m. (m, Inl ''down'')" "\<lambda>_. None" "()"] demo_due
  by (auto simp: decodes_text_def refusing_json_def demo_window_def)

text \<open>With a cancelled context the same loop does not end: when any window is due, every round
  claims it, fails, and releases it at once to be due again, and the loop only stops at a round that
  claimed nothing.\<close>

theorem cancelled_drain_never_ends:
  assumes "store_wf (px_store st)" "due_refs now (px_store st) \<noteq> {}"
  shows "drain (model_analyze js ask (\<lambda>_. Some err)) (rule_fallback (Some err)) now (m, st) sofar = None"
proof (rule ccontr)
  assume "\<not> ?thesis"
  then obtain x where x: "drain (model_analyze js ask (\<lambda>_. Some err)) (rule_fallback (Some err)) now (m, st) sofar = Some x"
    by auto
  have "\<forall>w m. \<exists>e. snd (model_analyze js ask (\<lambda>_. Some err) w m) = Inl e" by (simp add: model_analyze_def)
  moreover have "\<forall>w. \<exists>e. rule_fallback (Some err) w = Inl e" by (simp add: rule_fallback_def rule_analyze_def)
  ultimately show False using drain_refused [OF x] assms by simp
qed

theorem cancelled_drain_never_ends_witness:
  "drain (model_analyze refusing_json (\<lambda>request m. (m, Inl ''down'')) (\<lambda>_. Some ''context canceled''))
     (rule_fallback (Some ''context canceled'')) (300 * second)
     ((), \<lparr>px_store = final store_step demo_ops (new_store demo_store_config), px_repo = new_repo\<rparr>) no_summary = None"
  using cancelled_drain_never_ends [of "\<lparr>px_store = final store_step demo_ops (new_store demo_store_config), px_repo = new_repo\<rparr>"
      "300 * second" refusing_json "\<lambda>request m. (m, Inl ''down'')" "''context canceled''" "()" no_summary]
    demo_due store_run_wf [OF store_wf_new] by simp

end
