(* ===== verification/Insight_Api.thy ===== *)
theory Insight_Api
  imports Insight_Repo Http "HOL-Library.Sublist"
begin

text \<open>
  The HTTP interface of the insight service, \<open>v11/insight/internal/httpapi\<close>: the JSON API over the
  insight repository (\<open>handler.go\<close>) and the static files beside it (\<open>static.go\<close>). What the source
  uses of \<open>net/url\<close>, \<open>strconv\<close>, \<open>path\<close> and \<open>http.ServeMux\<close> is written out; the file system is a
  parameter. A body stands for its JSON text, and every answer of the API has the JSON content type.
\<close>

section \<open>Requests\<close>

record api_request =
  aq_method :: string
  aq_path :: string
    \<comment> \<open>\<open>URL.Path\<close>, decoded\<close>
  aq_escaped_path :: string
    \<comment> \<open>\<open>URL.EscapedPath()\<close>, as it was sent\<close>
  aq_limit :: "string list option"
    \<comment> \<open>the values of the query parameter \<open>limit\<close>, if it is there\<close>

datatype api_body =
    Status_ok
  | Error_message string
  | One_insight room_insight
  | Insights "room_insight list"

datatype api_response =
    Json int api_body
  | Moved string

section \<open>Standard library\<close>

definition hex_value :: "char \<Rightarrow> nat option" where
  "hex_value c =
     (if 48 \<le> byte c \<and> byte c \<le> 57 then Some (byte c - 48)
      else if 97 \<le> byte c \<and> byte c \<le> 102 then Some (byte c - 87)
      else if 65 \<le> byte c \<and> byte c \<le> 70 then Some (byte c - 55)
      else None)"

fun path_unescape :: "string \<Rightarrow> string option" where
  \<comment> \<open>\<open>url.PathUnescape\<close>; \<open>None\<close>: an error\<close>
  "path_unescape [] = Some []"
| "path_unescape (c # s) =
     (if c \<noteq> CHR ''%'' then map_option (Cons c) (path_unescape s)
      else (case s of
              h # l # rest \<Rightarrow>
                (case (hex_value h, hex_value l) of
                   (Some a, Some b) \<Rightarrow> map_option (Cons (char_of (16 * a + b))) (path_unescape rest)
                 | _ \<Rightarrow> None)
            | _ \<Rightarrow> None))"

definition atoi :: "string \<Rightarrow> int option" where
  \<comment> \<open>\<open>strconv.Atoi\<close>; \<open>None\<close>: an error\<close>
  "atoi s =
     (let (negative, ds) =
            (case s of
               [] \<Rightarrow> (False, [])
             | c # r \<Rightarrow> if c = CHR ''-'' then (True, r) else if c = CHR ''+'' then (False, r) else (False, s));
          v = (if negative then - int (digits_value 10 ds) else int (digits_value 10 ds))
      in if ds = [] \<or> \<not> decimal ds \<or> v < min_int64 \<or> max_int64 < v then None else Some v)"

definition path_components :: "string \<Rightarrow> string list" where
  \<comment> \<open>the elements of \<open>path.Clean\<close> of a rooted path\<close>
  "path_components p =
     rev (fold (\<lambda>c acc. if c = [] \<or> c = ''.'' then acc else if c = ''..'' then drop 1 acc else c # acc)
            (split_char CHR ''/'' p) [])"

definition clean_path :: "string \<Rightarrow> string" where
  \<comment> \<open>as \<open>http.ServeMux\<close> does it: a slash at the end stays\<close>
  "clean_path p =
     (let np = ''/'' @ join ''/'' (path_components p)
      in if p \<noteq> [] \<and> last p = CHR ''/'' \<and> np \<noteq> ''/'' then np @ ''/'' else np)"

section \<open>The API\<close>

definition default_history_limit :: int where "default_history_limit = 20"

definition write_error :: "int \<Rightarrow> string \<Rightarrow> api_response" where
  "write_error status message = Json status (Error_message message)"

definition not_allowed :: api_response where
  "not_allowed = write_error 405 ''method not allowed''"

definition not_found :: api_response where
  "not_found = write_error 404 ''not found''"

definition health :: api_response where
  "health = Json 200 Status_ok"

definition insight_route :: "string \<Rightarrow> (string \<times> string) option" where
  "insight_route escaped_path =
     (case split_char CHR ''/'' escaped_path of
        [p0, p1, p2, p3, p4, p5, p6] \<Rightarrow>
          if p0 \<noteq> [] \<or> p1 \<noteq> ''api'' \<or> p2 \<noteq> ''v1'' \<or> p3 \<noteq> ''rooms'' \<or> p5 \<noteq> ''insights'' \<or>
             (p6 \<noteq> ''latest'' \<and> p6 \<noteq> ''history'')
          then None
          else
            (case path_unescape p4 of
               None \<Rightarrow> None
             | Some room \<Rightarrow> if trim_space room = [] then None else Some (room, p6))
      | _ \<Rightarrow> None)"

definition history_limit :: "api_request \<Rightarrow> int option" where
  "history_limit request =
     (case aq_limit request of
        None \<Rightarrow> Some default_history_limit
      | Some values \<Rightarrow>
          if length values \<noteq> 1 then None
          else
            (case atoi (hd values) of
               None \<Rightarrow> None
             | Some limit \<Rightarrow> if limit < 1 \<or> limit > 100 then None else Some limit))"

definition insights_api :: "insight_repo \<Rightarrow> api_request \<Rightarrow> api_response" where
  \<comment> \<open>the memory repository gives no errors\<close>
  "insights_api repository request =
     (if aq_method request \<noteq> ''GET'' then not_allowed
      else
        (case insight_route (aq_escaped_path request) of
           None \<Rightarrow> not_found
         | Some (room, action) \<Rightarrow>
             if action = ''latest'' then
               (case latest_insight room repository of
                  None \<Rightarrow> write_error 404 ''insight not found''
                | Some insight \<Rightarrow> Json 200 (One_insight insight))
             else
               (case history_limit request of
                  None \<Rightarrow> write_error 400 ''limit must be an integer from 1 to 100''
                | Some limit \<Rightarrow> Json 200 (Insights (list_insights room limit repository)))))"

definition api_handler :: "insight_repo \<Rightarrow> api_request \<Rightarrow> api_response" where
  \<comment> \<open>\<open>New\<close>: the API below \<open>/api/\<close>, else the multiplexer, which redirects to clean paths; a pattern
    with GET also takes HEAD\<close>
  "api_handler repository request =
     (if has_prefix (aq_path request) ''/api/'' then insights_api repository request
      else if aq_method request \<noteq> ''CONNECT'' \<and> clean_path (aq_escaped_path request) \<noteq> aq_escaped_path request
      then Moved (clean_path (aq_escaped_path request))
      else if aq_path request = ''/health''
      then (if aq_method request = ''GET'' \<or> aq_method request = ''HEAD'' then health else not_allowed)
      else not_found)"

section \<open>Static files\<close>

record file_system =
  fs_abs :: "string \<Rightarrow> string + string list"
    \<comment> \<open>\<open>filepath.Abs\<close>: the elements of the path\<close>
  fs_resolve :: "string list \<Rightarrow> string list option"
    \<comment> \<open>\<open>filepath.EvalSymlinks\<close> of an absolute path\<close>
  fs_is_dir :: "string list \<Rightarrow> string + bool"
    \<comment> \<open>\<open>os.Stat\<close>\<close>

fun relative_path :: "string list \<Rightarrow> string list \<Rightarrow> string list" where
  \<comment> \<open>\<open>filepath.Rel\<close> of clean absolute paths\<close>
  "relative_path (b # bs) (t # ts) =
     (if b = t then relative_path bs ts else replicate (length (b # bs)) ''..'' @ t # ts)"
| "relative_path bs ts = replicate (length bs) ''..'' @ ts"

definition static_file :: "file_system \<Rightarrow> string list \<Rightarrow> string \<Rightarrow> string list option" where
  "static_file fs dir request_path =
     (case fs_resolve fs dir of
        None \<Rightarrow> None
      | Some resolved_root \<Rightarrow>
          (case fs_resolve fs (resolved_root @ path_components (''/'' @ request_path)) of
             None \<Rightarrow> None
           | Some resolved_file \<Rightarrow>
               (let relative = relative_path resolved_root resolved_file
                in if relative \<noteq> [] \<and> hd relative = ''..'' then None
                   else
                     (case fs_is_dir fs resolved_file of
                        Inl err \<Rightarrow> None
                      | Inr is_dir \<Rightarrow> if is_dir then None else Some resolved_file))))"

datatype site_response =
    From_api api_response
  | Served_file "string list"
  | Plain_not_found

definition serve_static :: "file_system \<Rightarrow> string list \<Rightarrow> (api_request \<Rightarrow> api_response) \<Rightarrow> api_request \<Rightarrow> site_response" where
  "serve_static fs dir api request =
     (if aq_path request = ''/health'' \<or> aq_path request = ''/api'' \<or> has_prefix (aq_path request) ''/api/''
      then From_api (api request)
      else if aq_method request \<noteq> ''GET'' \<and> aq_method request \<noteq> ''HEAD'' then From_api not_allowed
      else
        (case static_file fs dir (aq_path request) of
           Some file \<Rightarrow> Served_file file
         | None \<Rightarrow>
             (case static_file fs dir ''/index.html'' of
                Some index \<Rightarrow> Served_file index
              | None \<Rightarrow> Plain_not_found)))"

definition with_static ::
  "file_system \<Rightarrow> (api_request \<Rightarrow> api_response) \<Rightarrow> string \<Rightarrow> string + (api_request \<Rightarrow> site_response)" where
  "with_static fs api web_dir =
     (if web_dir = [] then Inr (From_api \<circ> api)
      else
        (case fs_abs fs web_dir of
           Inl err \<Rightarrow> Inl err
         | Inr dir \<Rightarrow>
             (case fs_is_dir fs dir of
                Inl err \<Rightarrow> Inl err
              | Inr is_dir \<Rightarrow>
                  if \<not> is_dir then Inl ''web directory must be a directory''
                  else Inr (serve_static fs dir api))))"

section \<open>Lemmas\<close>

definition hex_digit :: "nat \<Rightarrow> char" where
  "hex_digit d = (if d < 10 then char_of (48 + d) else char_of (55 + d))"

definition percent_encode :: "(char \<Rightarrow> bool) \<Rightarrow> string \<Rightarrow> string" where
  \<comment> \<open>how clients write a room into a path: the bytes they do not keep are escaped\<close>
  "percent_encode keep s =
     concat (map (\<lambda>c. if keep c then [c] else [CHR ''%'', hex_digit (byte c div 16), hex_digit (byte c mod 16)]) s)"

lemma byte_less: "byte c < 256"
  by (simp add: byte_def)

lemma char_of_byte [simp]: "char_of (byte c) = c"
  by (simp add: byte_def)

lemma byte_char_of: "n < 256 \<Longrightarrow> byte (char_of n) = n"
  by (simp add: byte_def)

lemma hex_value_digit: "d < 16 \<Longrightarrow> hex_value (hex_digit d) = Some d"
  by (simp add: hex_value_def hex_digit_def byte_char_of)

lemma unescape_encoded:
  "(\<forall>c. keep c \<longrightarrow> c \<noteq> CHR ''%'') \<Longrightarrow> path_unescape (percent_encode keep s) = Some s"
proof (induction s)
  case (Cons c s)
  have "16 * (byte c div 16) + byte c mod 16 = byte c" by simp
  moreover have "byte c div 16 < 16" using byte_less [of c] by simp
  ultimately show ?case using Cons by (auto simp: percent_encode_def hex_value_digit)
qed (simp add: percent_encode_def)

lemma hex_digit_no_slash: "d < 16 \<Longrightarrow> hex_digit d \<noteq> CHR ''/''"
proof
  assume "d < 16" "hex_digit d = CHR ''/''"
  then have "hex_value CHR ''/'' = Some d" using hex_value_digit by metis
  then show False by (simp add: hex_value_def byte_def)
qed

lemma encoded_no_slash:
  assumes "\<forall>c. keep c \<longrightarrow> c \<noteq> CHR ''/''"
  shows "CHR ''/'' \<notin> set (percent_encode keep s)"
proof -
  have "hex_digit (byte c div 16) \<noteq> CHR ''/''" "hex_digit (byte c mod 16) \<noteq> CHR ''/''" for c
    using byte_less [of c] by (simp_all add: hex_digit_no_slash)
  note no = this this [symmetric]
  show ?thesis using assms by (auto simp: percent_encode_def no split: if_splits)
qed

definition room_path :: "(char \<Rightarrow> bool) \<Rightarrow> string \<Rightarrow> string \<Rightarrow> string" where
  "room_path keep room action = ''/api/v1/rooms/'' @ percent_encode keep room @ ''/insights/'' @ action"

lemma route_of_path:
  assumes "\<forall>c. keep c \<longrightarrow> c \<noteq> CHR ''%'' \<and> c \<noteq> CHR ''/''" "trim_space room \<noteq> []" "action = ''latest'' \<or> action = ''history''"
  shows "insight_route (room_path keep room action) = Some (room, action)"
proof -
  let ?e = "percent_encode keep room"
  have "CHR ''/'' \<notin> set ?e" using assms(1) by (intro encoded_no_slash) auto
  then have "split_char CHR ''/'' (?e @ CHR ''/'' # ''insights/'' @ action) = ?e # split_char CHR ''/'' (''insights/'' @ action)"
    by (rule split_char_append)
  moreover have "split_char CHR ''/'' (''insights/'' @ action) = [''insights'', action]" using assms(3) by auto
  ultimately have "split_char CHR ''/'' (room_path keep room action) =
      [[], ''api'', ''v1'', ''rooms'', ?e, ''insights'', action]"
    by (simp add: room_path_def)
  then show ?thesis using assms unescape_encoded [of keep room] by (auto simp: insight_route_def)
qed

lemma atoi_show_int:
  assumes "0 \<le> n" "n \<le> max_int64"
  shows "atoi (show_int n) = Some n"
proof -
  have d: "decimal (digits 10 (nat n))" using decimal_padded [of 0 "nat n"] by (simp add: padded_number_def zero_padded_def)
  have ne: "digits 10 (nat n) \<noteq> []" by (subst digits.simps) simp
  then obtain c r where c: "digits 10 (nat n) = c # r" by (cases "digits 10 (nat n)") auto
  then have "48 \<le> byte c" using d by (simp add: decimal_def)
  then have "c \<noteq> CHR ''-''" "c \<noteq> CHR ''+''" by (auto simp: byte_def)
  moreover have "digits_value 10 (digits 10 (nat n)) = nat n" by (rule digits_value_digits) simp_all
  ultimately show ?thesis using assms d c by (simp add: atoi_def show_int_def min_int64_def)
qed

lemma relative_inside:
  assumes "''..'' \<notin> set ts" "relative_path bs ts = [] \<or> hd (relative_path bs ts) \<noteq> ''..''"
  shows "prefix bs ts"
  using assms
  by (induction bs ts rule: relative_path.induct) (auto split: if_splits, metis hd_replicate length_0_conv)

definition api_get :: "(char \<Rightarrow> bool) \<Rightarrow> string \<Rightarrow> string \<Rightarrow> string list option \<Rightarrow> api_request" where
  \<comment> \<open>a GET of a room's insights, as clients send it\<close>
  "api_get keep room action limit =
     \<lparr>aq_method = ''GET'', aq_path = ''/api/v1/rooms/'' @ room @ ''/insights/'' @ action,
      aq_escaped_path = room_path keep room action, aq_limit = limit\<rparr>"

lemma api_get_handled:
  assumes "\<forall>c. keep c \<longrightarrow> c \<noteq> CHR ''%'' \<and> c \<noteq> CHR ''/''" "trim_space room \<noteq> []"
  shows "api_handler r (api_get keep room ''latest'' limit) =
      (case latest_insight room r of
         None \<Rightarrow> write_error 404 ''insight not found'' | Some insight \<Rightarrow> Json 200 (One_insight insight))"
    "api_handler r (api_get keep room ''history'' limit) =
      (case history_limit (api_get keep room ''history'' limit) of
         None \<Rightarrow> write_error 400 ''limit must be an integer from 1 to 100''
       | Some n \<Rightarrow> Json 200 (Insights (list_insights room n r)))"
  using route_of_path [OF assms, of "''latest''"] route_of_path [OF assms, of "''history''"]
  by (simp_all add: api_handler_def insights_api_def api_get_def has_prefix_def)

section \<open>Properties\<close>


definition encode_all :: "char \<Rightarrow> bool" where "encode_all c \<longleftrightarrow> c = CHR ''r''"



definition demo_files :: file_system where
  \<comment> \<open>a directory with an index page and a link that leads outside\<close>
  "demo_files =
     \<lparr>fs_abs = (\<lambda>p. Inr [p]),
      fs_resolve = (\<lambda>p. if p = [''web'', ''link''] then Some [''etc'', ''passwd'']
        else if p = [''web''] \<or> p = [''web'', ''index.html''] then Some p else None),
      fs_is_dir = (\<lambda>p. if p = [''web''] then Inr True
        else if p = [''web'', ''index.html''] \<or> p = [''etc'', ''passwd''] then Inr False else Inl ''missing'')\<rparr>"


end
