(* ===== verification/Replay.thy ===== *)
theory Replay
  imports Service Insight_Api Prompt
begin

text \<open>
  The start of the insight service: the JSONL source
  (\<open>v11/insight/internal/adapters/source/jsonl/source.go\<close>) and the command that puts the parts
  together (\<open>v11/insight/cmd/insightd/main.go\<close>). The decoding of a line, the scanner, the files and
  the environment are parameters; parsing the flags, listening and shutting down are left out.
\<close>

section \<open>The source\<close>

fun run_lines ::
  "(int \<Rightarrow> string option) \<Rightarrow> (string \<Rightarrow> string + message_event) \<Rightarrow> (message_event \<Rightarrow> 's \<Rightarrow> 's \<times> string option) \<Rightarrow>
   int \<Rightarrow> string list \<Rightarrow> 's \<Rightarrow> 's \<times> string option" where
  \<comment> \<open>the loop over the lines from number \<open>line\<close> on; \<open>ctx\<close>: the context's error at a line\<close>
  "run_lines ctx decode handle line [] s = (s, None)"
| "run_lines ctx decode handle line (token # tokens) s =
     (case ctx line of
        Some err \<Rightarrow> (s, Some err)
      | None \<Rightarrow>
          (let text = trim_space token
           in if text = [] then run_lines ctx decode handle (line + 1) tokens s
              else
                (case decode text of
                   Inl err \<Rightarrow> (s, Some (''decode line '' @ show_int line @ '': '' @ err))
                 | Inr event \<Rightarrow>
                     (case validate_event event of
                        Some err \<Rightarrow> (s, Some (''validate line '' @ show_int line @ '': '' @ err))
                      | None \<Rightarrow>
                          (case handle event s of
                             (s, Some err) \<Rightarrow> (s, Some (''handle line '' @ show_int line @ '': '' @ err))
                           | (s, None) \<Rightarrow> run_lines ctx decode handle (line + 1) tokens s)))))"

definition run_source ::
  "(int \<Rightarrow> string option) \<Rightarrow> (string \<Rightarrow> string + message_event) \<Rightarrow> (message_event \<Rightarrow> 's \<Rightarrow> 's \<times> string option) \<Rightarrow>
   string list \<times> string option \<Rightarrow> 's \<Rightarrow> 's \<times> string option" where
  \<comment> \<open>the scanner's lines, and its error at the end; the context is asked once more after the last line\<close>
  "run_source ctx decode handle input s =
     (case run_lines ctx decode handle 1 (fst input) s of
        (s, Some err) \<Rightarrow> (s, Some err)
      | (s, None) \<Rightarrow>
          (case snd input of
             Some err \<Rightarrow> (s, Some (''scan JSONL: '' @ err))
           | None \<Rightarrow> (s, ctx (int (length (fst input)) + 1))))"

section \<open>The command\<close>

record insightd_flags =
  fl_web_dir :: string
  fl_window :: duration
  fl_lateness :: duration
  fl_workers :: int
  fl_job_capacity :: int
  fl_model :: string
  fl_model_concurrency :: int
  fl_model_timeout :: duration

definition check_flags :: "insightd_flags \<Rightarrow> string option" where
  "check_flags fl =
     (if fl_window fl \<le> 0 then Some ''window must be positive''
      else if fl_lateness fl \<le> 0 then Some ''lateness must be positive''
      else if fl_workers fl \<le> 0 then Some ''workers must be positive''
      else if fl_job_capacity fl < 0 then Some ''job capacity must not be negative''
      else if fl_model_concurrency fl \<le> 0 \<or> fl_model_timeout fl \<le> 0
      then Some ''model concurrency and timeout must be positive''
      else None)"

datatype primary_model =
    Fake_primary guarded_model
  | Deepseek_primary deepseek_model guarded_model

definition create_primary ::
  "(string \<Rightarrow> string) \<Rightarrow> (string \<Rightarrow> string) \<Rightarrow> string \<Rightarrow> int \<Rightarrow> duration \<Rightarrow> string + primary_model" where
  \<comment> \<open>\<open>quote\<close>: the verb \<open>%q\<close>; \<open>getenv\<close>: the environment; the graph compiles\<close>
  "create_primary quote getenv name concurrency timeout =
     (let guard = new_guarded_model True
            \<lparr>gc_max_in_flight = concurrency, gc_timeout = timeout, gc_failure_threshold = 5,
             gc_open_for = 30 * second\<rparr>;
          guarded = (\<lambda>f. (case guard of
              Inl err \<Rightarrow> Inl (''configure model guard: '' @ err)
            | Inr g \<Rightarrow> Inr (f g)))
      in if name = ''fake'' then guarded Fake_primary
         else if name = ''deepseek'' then
           (case new_deepseek_model \<lparr>dc_endpoint = [], dc_api_key = getenv ''DEEPSEEK_API_KEY'',
                    dc_model = getenv ''DEEPSEEK_MODEL''\<rparr> of
              Inl err \<Rightarrow> Inl (''create DeepSeek model: '' @ err)
            | Inr provider \<Rightarrow> guarded (Deepseek_primary provider))
         else Inl (''unsupported model '' @ quote name))"

record 'm insightd_world =
  iw_quote :: "string \<Rightarrow> string"
  iw_getenv :: "string \<Rightarrow> string"
  iw_files :: file_system
  iw_input :: "string + string list \<times> string option"
    \<comment> \<open>opening the input file, then its lines and the scanner's error\<close>
  iw_decode :: "string \<Rightarrow> string + message_event"
  iw_cancelled :: "int \<Rightarrow> string option"
  iw_primary :: "primary_model \<Rightarrow> insight_window \<Rightarrow> 'm \<Rightarrow> 'm \<times> answer"
  iw_now :: time
    \<comment> \<open>the clock when the due windows are processed\<close>

definition insightd_start :: "'m insightd_world \<Rightarrow> insightd_flags \<Rightarrow> 'm \<Rightarrow> string + (api_request \<Rightarrow> site_response)" where
  \<comment> \<open>\<open>run\<close> up to the server it starts, with one worker; the ingestor's clock always reads the zero time\<close>
  "insightd_start world fl m =
     (case check_flags fl of
        Some err \<Rightarrow> Inl err
      | None \<Rightarrow>
     (case create_primary (iw_quote world) (iw_getenv world) (fl_model fl) (fl_model_concurrency fl) (fl_model_timeout fl) of
        Inl err \<Rightarrow> Inl err
      | Inr primary \<Rightarrow>
     (case iw_input world of
        Inl err \<Rightarrow> Inl (''open input: '' @ err)
      | Inr input \<Rightarrow>
     (case new_processor True True True True \<lparr>pc_workers = fl_workers fl, pc_job_capacity = fl_job_capacity fl\<rparr> of
        Inl err \<Rightarrow> Inl (''create processor: '' @ err)
      | Inr config \<Rightarrow>
     (case run_source (iw_cancelled world) (iw_decode world) (ingest 0) input
             (new_store \<lparr>sc_window_size = fl_window fl, sc_lateness = fl_lateness fl, sc_max_events = 0\<rparr>) of
        (store, Some err) \<Rightarrow> Inl (''replay input: '' @ err)
      | (store, None) \<Rightarrow>
     (case process_due (iw_primary world primary) (rule_fallback None) (iw_now world)
             (m, \<lparr>px_store = store, px_repo = new_repo\<rparr>) of
        (ms, s, Some err) \<Rightarrow> Inl (''process due windows: '' @ err)
      | (ms, s, None) \<Rightarrow>
     (case with_static (iw_files world) (api_handler (px_repo (snd ms))) (fl_web_dir fl) of
        Inl err \<Rightarrow> Inl (''configure static web directory: '' @ err)
      | Inr site \<Rightarrow> Inr site)))))))"

section \<open>What a replay leaves in the store\<close>

fun events_of_lines :: "(string \<Rightarrow> string + message_event) \<Rightarrow> string list \<Rightarrow> message_event list" where
  "events_of_lines decode [] = []"
| "events_of_lines decode (token # tokens) =
     (case decode (trim_space token) of
        Inr event \<Rightarrow> if trim_space token = [] then events_of_lines decode tokens else event # events_of_lines decode tokens
      | Inl err \<Rightarrow> events_of_lines decode tokens)"

definition adds :: "time \<Rightarrow> message_event list \<Rightarrow> store_op list" where
  "adds now es = map (\<lambda>e. Add e now) es"

lemma ingest_adds:
  "ingest now e s = (s', None) \<Longrightarrow> s' = fst (store_step (Add e now) s) \<and> validate_event e = None"
  by (auto simp: ingest_def split: option.splits sum.splits prod.splits)

lemma ingest_result:
  assumes "validate_event e = None" "0 < sc_window_size (st_config s)"
  shows "ingest now e s = (fst (store_step (Add e now) s), None)"
proof -
  obtain ref where "new_window_ref (ev_room e) (ev_at e) (sc_window_size (st_config s)) = Inr ref"
    using assms by (auto simp: new_window_ref_def Let_def validate_event_None)
  then show ?thesis using assms by (simp add: ingest_def add_event_def Let_def)
qed

lemma run_lines_adds:
  "run_lines ctx decode (ingest now) line tokens s = (s', None) \<Longrightarrow>
   s' = final store_step (adds now (events_of_lines decode tokens)) s \<and>
   (\<forall>e \<in> set (events_of_lines decode tokens). validate_event e = None)"
proof (induction tokens arbitrary: line s)
  case (Cons token tokens)
  show ?case
  proof (cases "trim_space token = []")
    case True
    then have "run_lines ctx decode (ingest now) (line + 1) tokens s = (s', None)"
      using Cons.prems by (auto split: option.splits)
    from Cons.IH [OF this] True show ?thesis by (simp split: sum.split)
  next
    case False
    then obtain e s1 where e: "decode (trim_space token) = Inr e" "validate_event e = None" "ingest now e s = (s1, None)"
      "run_lines ctx decode (ingest now) (line + 1) tokens s1 = (s', None)"
      using Cons.prems by (auto simp: Let_def split: option.splits sum.splits prod.splits)
    from Cons.IH [OF e(4)] ingest_adds [OF e(3)] e(1,2) False show ?thesis by (simp add: adds_def)
  qed
qed (simp add: adds_def)

definition only_added :: "store_config \<Rightarrow> window_store \<Rightarrow> bool" where
  \<comment> \<open>every window waits for its due time\<close>
  "only_added c s \<longleftrightarrow> st_config s = c \<and> st_completed s = [] \<and>
     (\<forall>ref w. window_at s ref = Some w \<longrightarrow> \<not> ws_claimed w \<and> ws_due_at w = wr_end ref + sc_lateness c)"

lemma only_added_step:
  assumes "only_added c s"
  shows "only_added c (fst (store_step (Add e now) s))"
  using assms
  by (auto simp: only_added_def add_event_def Let_def window_at_def map_of_gm window_key_inj fresh_window_def
      split: option.splits sum.splits)

lemma only_added_run: "only_added c s \<Longrightarrow> only_added c (final store_step (adds now es) s)"
  by (induction es arbitrary: s) (simp_all add: adds_def only_added_step del: store_step.simps)

lemma only_added_new: "only_added (st_config (new_store config)) (new_store config)"
  by (simp add: only_added_def new_store_def window_at_def)

lemma added_window:
  fixes config :: store_config
  defines "c \<equiv> st_config (new_store config)"
  shows "(\<exists>w. window_at (final store_step (adds now es) (new_store config)) ref = Some w) \<longleftrightarrow>
     (\<exists>e \<in> set es. validate_event e = None \<and> new_window_ref (ev_room e) (ev_at e) (sc_window_size c) = Inr ref)"
proof -
  have "window_log (sc_window_size c) ref (adds now es) \<noteq> [] \<longleftrightarrow>
     (\<exists>e \<in> set es. validate_event e = None \<and> new_window_ref (ev_room e) (ev_at e) (sc_window_size c) = Inr ref)"
    by (auto simp: window_log_def adds_def events_for_def split: if_splits)
  then show ?thesis using run_holds_log [of config ref "adds now es"] by (auto simp: c_def split: option.splits)
qed

lemma due_after_adds:
  fixes config :: store_config
  defines "c \<equiv> st_config (new_store config)"
  shows "due_refs t (final store_step (adds now es) (new_store config)) =
     {ref. wr_end ref + sc_lateness c \<le> t \<and> (\<exists>e \<in> set es. validate_event e = None \<and>
        new_window_ref (ev_room e) (ev_at e) (sc_window_size c) = Inr ref)}"
proof -
  let ?s = "final store_step (adds now es) (new_store config)"
  have "only_added c ?s" unfolding c_def by (rule only_added_run [OF only_added_new])
  then have "ref \<in> due_refs t ?s \<longleftrightarrow> wr_end ref + sc_lateness c \<le> t \<and> (\<exists>w. window_at ?s ref = Some w)" for ref
    by (auto simp: due_refs_def only_added_def)
  then show ?thesis unfolding c_def added_window by blast
qed

definition events_in :: "duration \<Rightarrow> window_ref \<Rightarrow> message_event list \<Rightarrow> message_event list" where
  "events_in width ref es = filter (\<lambda>e. new_window_ref (ev_room e) (ev_at e) width = Inr ref) es"

lemma log_of_adds:
  "\<forall>e \<in> set es. validate_event e = None \<Longrightarrow> window_log width ref (adds now es) = map (\<lambda>e. (e, now)) (events_in width ref es)"
  by (induction es) (auto simp: window_log_def adds_def events_for_def events_in_def)

section \<open>What a round leaves in the repository\<close>

lemma update_length: "length (AList.update k v m) \<le> Suc (length m)"
  by (induction m) auto

lemma save_length: "length (fst (save_insight i r)) \<le> Suc (length r)"
  by (simp add: save_insight_def Let_def update_length le_SucI split: option.split)

lemma saves_length: "length (final save_insight is r) \<le> length is + length r"
proof (induction "is" arbitrary: r)
  case (Cons i "is")
  show ?case using Cons [of "fst (save_insight i r)"] save_length [of i r] by simp
qed simp

definition saved :: "nat \<Rightarrow> proc_state \<Rightarrow> proc_state \<Rightarrow> bool" where
  \<comment> \<open>at most \<open>n\<close> insights were saved, and the repository did not change otherwise\<close>
  "saved n st st' \<longleftrightarrow> (\<exists>is. length is \<le> n \<and> px_repo st' = final save_insight is (px_repo st))"

lemma saved_refl: "px_repo st' = px_repo st \<Longrightarrow> saved n st st'"
  unfolding saved_def by (rule exI [of _ "[]"]) simp

lemma saved_one: "px_repo st' = fst (save_insight i (px_repo st)) \<Longrightarrow> saved (Suc n) st st'"
  unfolding saved_def by (rule exI [of _ "[i]"]) simp

lemma saved_trans: "saved n st st1 \<Longrightarrow> saved k st1 st' \<Longrightarrow> saved (n + k) st st'"
  unfolding saved_def by (metis add_mono final_append length_append)

lemma failed_window_repo: "failed_window now ref st = (st', res) \<Longrightarrow> px_repo st' = px_repo st"
  by (auto simp: failed_window_def split: prod.splits)

lemma process_window_saves:
  assumes "process_window primary fallback now ref (m, st) = ((m', st'), res)"
  shows "saved 1 st st'"
proof (cases "load_window ref (px_store st)")
  case (Inl e)
  then show ?thesis using assms by (auto simp: process_window_def intro!: saved_refl dest: failed_window_repo)
next
  case (Inr w)
  note load = this
  obtain m1 a where a: "primary w m = (m1, a)" by fastforce
  show ?thesis
  proof (cases "conclude fallback now ref w a")
    case None
    then show ?thesis using assms load a by (auto simp: process_window_def intro!: saved_refl dest: failed_window_repo)
  next
    case (Some i)
    obtain r res' where r: "save_insight i (px_repo st) = (r, res')" by fastforce
    have "px_repo st' = r"
    proof (cases res')
      case (Inl e)
      then show ?thesis using assms load a Some r by (auto simp: process_window_def dest!: failed_window_repo)
    next
      case (Inr b)
      obtain s1 e where "complete_window ref (px_store st) = (s1, e)" by fastforce
      then show ?thesis using assms load a Some r Inr
        by (cases e) (auto simp: process_window_def dest!: failed_window_repo)
    qed
    then show ?thesis using saved_one [of st' i st 0] r by simp
  qed
qed

lemma process_each_saves:
  "process_each primary fallback now refs (m, st) = ((m', st'), results) \<Longrightarrow> saved (length refs) st st'"
proof (induction refs arbitrary: m st results)
  case (Cons ref refs)
  obtain m1 st1 res rest where one: "process_window primary fallback now ref (m, st) = ((m1, st1), res)"
    "process_each primary fallback now refs (m1, st1) = ((m', st'), rest)"
    using Cons.prems by (auto split: prod.splits)
  show ?case using saved_trans [OF process_window_saves [OF one(1)] Cons.IH [OF one(2)]] by simp
qed (simp add: saved_refl)

lemma process_due_saves:
  assumes "process_due primary fallback now (m, st) = ((m', st'), res)"
  shows "saved 32 st st'"
proof -
  obtain s refs where claim: "claim_due now max_due_windows (px_store st) = (s, refs)" by fastforce
  obtain results where "process_each primary fallback now refs (m, st\<lparr>px_store := s\<rparr>) = ((m', st'), results)"
    using assms claim by (auto simp: process_due_def split: prod.splits)
  from process_each_saves [OF this] have "saved (length refs) st st'" by (simp add: saved_def)
  moreover have "length refs \<le> 32"
    using claim_due_refs [of now max_due_windows "px_store st"] claim by (simp add: max_due_windows_def)
  ultimately show ?thesis unfolding saved_def by (meson order_trans)
qed

lemma drain_saves:
  "drain primary fallback now ms sofar = Some x \<Longrightarrow>
   \<exists>is. px_repo (snd (fst x)) = final save_insight is (px_repo (snd ms))"
proof (induction rule: drain.raw_induct [rotated 1, consumes 1])
  case (1 drain primary fallback now ms sofar x)
  obtain m st where ms: "ms = (m, st)" by fastforce
  obtain m1 st1 s err where due: "process_due primary fallback now (m, st) = ((m1, st1), s, err)" by (metis surj_pair)
  obtain js where js: "px_repo st1 = final save_insight js (px_repo st)" using process_due_saves [OF due] by (auto simp: saved_def)
  show ?case
  proof (cases "err = None \<and> processed s \<noteq> 0")
    case True
    then have "drain primary fallback now (m1, st1) (add_summary sofar s) = Some x" using "1.hyps" ms due by simp
    from "1.IH" [OF this] obtain ks where "px_repo (snd (fst x)) = final save_insight ks (px_repo st1)" by auto
    then have "px_repo (snd (fst x)) = final save_insight (js @ ks) (px_repo (snd ms))" using js ms by (simp add: final_append)
    then show ?thesis by blast
  next
    case False
    then have "fst x = (m1, st1)" using "1.hyps" ms due by (auto split: if_splits option.splits)
    then show ?thesis using js ms by auto
  qed
qed

section \<open>Properties\<close>

lemma site_history:
  assumes "\<forall>c. keep c \<longrightarrow> c \<noteq> CHR ''%'' \<and> c \<noteq> CHR ''/''" "trim_space room \<noteq> []"
    and "with_static files (api_handler r) dir = Inr site"
  shows "site (api_get keep room ''history'' (Some [show_int 100])) = From_api (Json 200 (Insights (list_insights room 100 r)))"
proof -
  note get = api_get_handled(2) [OF assms(1,2), of r "Some [show_int 100]"]
  have "atoi (show_int 100) = Some 100" by (rule atoi_show_int) (simp_all add: max_int64_def)
  then have "history_limit (api_get keep room ''history'' (Some [show_int 100])) = Some 100"
    by (simp add: history_limit_def api_get_def)
  moreover have "site q = From_api (api_handler r q)" if "has_prefix (aq_path q) ''/api/''" for q
    using assms(3) that by (auto simp: with_static_def serve_static_def split: if_splits sum.splits)
  ultimately show ?thesis using get by (simp add: api_get_def has_prefix_def)
qed

lemma saved_listed:
  assumes "map_of r (idempotency_key i) = Some i" "ri_room i = room" "trim_space room = room" "length r \<le> 100"
  shows "i \<in> set (list_insights room 100 r)"
proof -
  have "i \<in> set (found_in (trim_space room) r)" using map_of_SomeD [OF assms(1)] assms(2,3) by (force simp: found_in_def)
  moreover have "length (found_in (trim_space room) r) \<le> 100"
    using assms(4) by (simp add: found_in_def) (metis (no_types, lifting) length_filter_le le_trans)
  ultimately show ?thesis by (simp add: list_insights_found)
qed

lemma one_round_serves:
  fixes answers :: "insight_window \<Rightarrow> answer set" and ops config
  defines "s0 \<equiv> final store_step ops (new_store config)"
  assumes run: "process_due primary fallback now (m, \<lparr>px_store = s0, px_repo = new_repo\<rparr>) = ((m', st'), s, None)"
    and now: "now \<noteq> 0" and fits: "\<forall>ref \<in> due_refs now s0. ref_fits ref" and few: "card (due_refs now s0) \<le> 32"
    and ans: "\<And>w m. snd (primary w m) \<in> answers w" "\<forall>w r. Inr r \<in> answers w \<longrightarrow> ok_answer w r"
    and fb: "ok_fallback fallback" and ref: "ref \<in> due_refs now s0"
  shows "\<exists>i. served now s0 st' ref i" "length (px_repo st') \<le> 100"
proof -
  let ?st = "\<lparr>px_store = s0, px_repo = new_repo\<rparr>"
  have inv: "round_inv now s0 ?st" unfolding s0_def by (rule round_inv_start)
  have due: "\<forall>ref \<in> due_refs now (px_store ?st). ref_fits ref" using fits by simp
  obtain m1 st1 s1 refs where round: "process_due primary fallback now (m, ?st) = ((m1, st1), s1, None)"
    "refs = snd (claim_due now max_due_windows (px_store ?st))" "\<forall>ref \<in> set refs. \<exists>i. served now s0 st1 ref i"
    by (rule due_round [where m = m, OF inv now due ans fb])
  have wf: "store_wf s0" unfolding s0_def by (rule store_run_wf [OF store_wf_new])
  have "length (due_windows now s0) \<le> 32" using few due_refs_card(2) [OF wf, of now] by simp
  then have "set refs = due_refs now s0"
    unfolding due_refs_set [OF wf] round(2) claim_due_refs by (simp add: max_due_windows_def)
  then show "\<exists>i. served now s0 st' ref i" using round(1,3) run ref by auto
  obtain "is" where "length is \<le> 32" "px_repo st' = final save_insight is new_repo"
    using process_due_saves [OF run] by (auto simp: saved_def)
  then show "length (px_repo st') \<le> 100" using saves_length [of "is" new_repo] by (simp add: new_repo_def)
qed


definition demo_flags :: insightd_flags where
  "demo_flags =
     \<lparr>fl_web_dir = [], fl_window = 60 * second, fl_lateness = second, fl_workers = 2, fl_job_capacity = 128,
      fl_model = ''fake'', fl_model_concurrency = 16, fl_model_timeout = 15 * second\<rparr>"

definition demo_world :: "unit insightd_world" where
  "demo_world =
     \<lparr>iw_quote = id, iw_getenv = (\<lambda>_. []), iw_files = demo_files, iw_input = Inr ([''x''], None),
      iw_decode = (\<lambda>text. Inr (demo_event ''1'' ''a'' (61 * second))), iw_cancelled = (\<lambda>_. None),
      iw_primary = (\<lambda>p. model_analyze refusing_json (\<lambda>request m. (m, Inl ''down'')) (\<lambda>_. None)), iw_now = 300 * second\<rparr>"

lemma demo_events: "events_of_lines (iw_decode demo_world) [''x''] = [demo_event ''1'' ''a'' (61 * second)]"
  by (simp add: demo_world_def trim_space_ascii ascii_def byte_def is_space_def)

lemma demo_events_in:
  "events_in (60 * second) ref [demo_event ''1'' ''a'' (61 * second)] =
     (if ref = demo_window ''a'' then [demo_event ''1'' ''a'' (61 * second)] else [])"
  using demo_add [of "''a''"] by (auto simp: events_in_def) (simp_all add: demo_event_def)

lemma demo_start_fields:
  "fl_web_dir demo_flags = []" "fl_window demo_flags = 60 * second" "fl_lateness demo_flags = second"
  "fl_workers demo_flags = 2" "fl_job_capacity demo_flags = 128" "fl_model demo_flags = ''fake''"
  "fl_model_concurrency demo_flags = 16" "fl_model_timeout demo_flags = 15 * second"
  "iw_now demo_world = 300 * second" "iw_input demo_world = Inr ([''x''], None)"
  "iw_primary demo_world = (\<lambda>p. model_analyze refusing_json (\<lambda>request m. (m, Inl ''down'')) (\<lambda>_. None))"
  by (simp_all add: demo_flags_def demo_world_def)

lemma demo_start: "\<exists>site. insightd_start demo_world demo_flags () = Inr site"
proof -
  let ?c = "\<lparr>sc_window_size = 60 * second, sc_lateness = second, sc_max_events = 0\<rparr>"
  let ?e = "demo_event ''1'' ''a'' (61 * second)"
  let ?s0 = "final store_step (adds 0 [?e]) (new_store ?c)"
  have e: "validate_event ?e = None" using demo_add [of "''a''"] by simp
  have ingest: "ingest 0 ?e (new_store ?c) = (?s0, None)"
    using ingest_result [OF e, of "new_store ?c" 0] by (simp add: adds_def new_store_def)
  have "trim_space ''x'' \<noteq> []" by (simp add: trim_space_ascii ascii_def byte_def is_space_def)
  then have source: "run_source (iw_cancelled demo_world) (iw_decode demo_world) (ingest 0) ([''x''], None) (new_store ?c) = (?s0, None)"
    using ingest e by (simp add: run_source_def demo_world_def)
  have "due_refs (300 * second) ?s0 \<subseteq> {demo_window ''a''}"
    using demo_add [of "''a''"] unfolding due_after_adds
    by (auto simp: new_store_def) (simp add: demo_event_def)
  moreover have "wr_start (demo_window ''a'') \<noteq> 0" by (simp add: demo_window_def)
  ultimately have "\<forall>ref \<in> due_refs (300 * second) (px_store \<lparr>px_store = ?s0, px_repo = new_repo\<rparr>). ref_fits ref"
    using run_refs_fit [of _ "300 * second" "adds 0 [?e]" ?c] by fastforce
  note fits = this
  have json: "decodes_text refusing_json" by (simp add: decodes_text_def refusing_json_def)
  have ok: "\<forall>w r. Inr r \<in> model_answers refusing_json w \<longrightarrow> ok_answer w r" using model_answer_ok json by blast
  have now: "300 * second \<noteq> (0 :: int)" by simp
  obtain m1 st1 s1 where "process_due (model_analyze refusing_json (\<lambda>request m. (m, Inl ''down'')) (\<lambda>_. None)) (rule_fallback None)
      (300 * second) ((), \<lparr>px_store = ?s0, px_repo = new_repo\<rparr>) = ((m1, st1), s1, None)"
    by (rule due_round [where m = "()", OF round_inv_start now fits model_answers_all ok rule_fallback_ok])
  note round = this
  have "check_flags demo_flags = None" by (simp add: check_flags_def demo_start_fields)
  moreover have "\<exists>p. create_primary (iw_quote demo_world) (iw_getenv demo_world) (fl_model demo_flags)
      (fl_model_concurrency demo_flags) (fl_model_timeout demo_flags) = Inr p"
    by (simp add: create_primary_def new_guarded_model_def demo_start_fields)
  moreover have "\<exists>config. new_processor True True True True
      \<lparr>pc_workers = fl_workers demo_flags, pc_job_capacity = fl_job_capacity demo_flags\<rparr> = Inr config"
    by (simp add: new_processor_def demo_start_fields)
  ultimately show ?thesis using source round
    by (auto simp: insightd_start_def with_static_def demo_start_fields)
qed


end
