(* ===== verification/Benchmark.thy ===== *)
theory Benchmark
  imports Replay
begin

text \<open>
  The benchmark of the insight service, \<open>v11/insight/internal/benchmark/run.go\<close>, and the command
  around it, \<open>cmd/insightbench/main.go\<close>: it ingests four messages for every room, drains the
  processor over the guarded fake model, and reads every room back over HTTP. The context never ends,
  as in the command; the times and interruptions of the model's calls are parameters, and windows are
  processed one after the other. The test server and its client are the handler itself.
\<close>

section \<open>Configuration\<close>

record bench_config =
  bc_rooms :: int
  bc_workers :: int
  bc_model_concurrency :: int
  bc_timeout :: duration
  bc_scenario :: string

record bench_report =
  br_rooms :: int
  br_total_windows :: int
  br_normal :: int
  br_degraded :: int
  br_failed :: int
  br_http_verified :: int
  br_model_calls :: int
  br_model_max_in_flight :: int
  br_model_p50 :: duration
  br_model_p95 :: duration
  br_model_p99 :: duration
  br_process_duration :: duration
  br_end_to_end_duration :: duration
  br_scenario :: string

definition scenario_normal :: string where "scenario_normal = ''normal''"
definition scenario_mixed :: string where "scenario_mixed = ''mixed''"
definition scenario_timeout :: string where "scenario_timeout = ''timeout''"
definition scenario_malformed :: string where "scenario_malformed = ''malformed''"
definition scenario_unavailable :: string where "scenario_unavailable = ''unavailable''"

definition normalize_config :: "bench_config \<Rightarrow> bench_config" where
  "normalize_config c =
     \<lparr>bc_rooms = (if bc_rooms c \<le> 0 then 100 else bc_rooms c),
      bc_workers = (if bc_workers c \<le> 0 then 16 else bc_workers c),
      bc_model_concurrency = (if bc_model_concurrency c \<le> 0 then 16 else bc_model_concurrency c),
      bc_timeout = (if bc_timeout c \<le> 0 then 50 * millisecond else bc_timeout c),
      bc_scenario = (if bc_scenario c = [] then scenario_normal else bc_scenario c)\<rparr>"

definition percentile :: "duration list \<Rightarrow> nat \<Rightarrow> duration" where
  "percentile values p =
     (if values = [] then 0
      else sort values ! ((length values * p + 99) div 100 - 1))"

section \<open>Messages\<close>

definition event_time :: time where
  \<comment> \<open>\<open>benchmarkEventTime\<close>: August 5, 2026, noon\<close>
  "event_time = (739832 * 24 + 12) * 3600 * second"

definition due_time :: time where
  "due_time = event_time + 2 * minute"

definition benchmark_message :: "nat \<Rightarrow> string" where
  \<comment> \<open>in UTF-8: a question, when it will start; and that the show is not bad\<close>
  "benchmark_message message =
     (if message = 3
      then
     [CHR 0xE8, CHR 0xAF, CHR 0xB7, CHR 0xE9, CHR 0x97, CHR 0xAE, CHR 0xE4, CHR 0xBB, CHR 0x80, CHR
      0xE4, CHR 0xB9, CHR 0x88, CHR 0xE6, CHR 0x97, CHR 0xB6, CHR 0xE5, CHR 0x80, CHR 0x99, CHR 0xE5,
      CHR 0xBC, CHR 0x80, CHR 0xE5, CHR 0xA7, CHR 0x8B, CHR 0xEF, CHR 0xBC, CHR 0x9F]
      else
     [CHR 0xE7, CHR 0x9B, CHR 0xB4, CHR 0xE6, CHR 0x92, CHR 0xAD, CHR 0xE5, CHR 0x86, CHR 0x85, CHR
      0xE5, CHR 0xAE, CHR 0xB9, CHR 0xE4, CHR 0xB8, CHR 0x8D, CHR 0xE9, CHR 0x94, CHR 0x99])"

definition bench_room :: "nat \<Rightarrow> string" where
  "bench_room room = ''room-'' @ padded_number 3 room"

definition bench_event :: "nat \<Rightarrow> nat \<Rightarrow> message_event" where
  "bench_event room message =
     \<lparr>ev_id = bench_room room @ ''-event-'' @ digits 10 message, ev_room = bench_room room,
      ev_user = ''user-'' @ digits 10 message, ev_username = ''viewer'', ev_content = benchmark_message message,
      ev_at = event_time + int message * second, ev_schema_version = ''v1'', ev_source = ''benchmark''\<rparr>"

fun ingest_rooms :: "(nat \<times> message_event) list \<Rightarrow> window_store \<Rightarrow> window_store \<times> string option" where
  \<comment> \<open>the two loops, over the rooms with their messages in order\<close>
  "ingest_rooms [] s = (s, None)"
| "ingest_rooms ((room, e) # es) s =
     (case ingest event_time e s of
        (s, Some err) \<Rightarrow> (s, Some (''ingest room '' @ digits 10 room @ '': '' @ err))
      | (s, None) \<Rightarrow> ingest_rooms es s)"

definition bench_events :: "nat \<Rightarrow> (nat \<times> message_event) list" where
  "bench_events rooms = concat (map (\<lambda>room. map (\<lambda>message. (room, bench_event room message)) [0..<4]) [0..<rooms])"

section \<open>The model\<close>

definition scenario_delay :: "int \<Rightarrow> duration" where
  "scenario_delay call = (5 + call mod 4 * 5) * millisecond"

definition new_scenario_model :: "bench_config \<Rightarrow> fake_model" where
  \<comment> \<open>calls are numbered from 1, so \<open>%\<close> is \<open>mod\<close>\<close>
  "new_scenario_model c =
     (let m = \<lparr>fk_provider = [], fk_model = [], fk_input_tokens = 0, fk_output_tokens = 0, fk_latency = 0,
            fk_response = [], fk_err = None, fk_delay = 0, fk_invalid_json = False, fk_failure = None,
            fk_delay_for = Some scenario_delay, fk_invalid_json_for = None, fk_calls = 0, fk_active = 0,
            fk_max_active = 0, fk_latencies = []\<rparr>
      in if bc_scenario c = scenario_unavailable
         then m\<lparr>fk_failure := Some (\<lambda>call. Some ''simulated upstream unavailable'')\<rparr>
         else if bc_scenario c = scenario_malformed then m\<lparr>fk_invalid_json_for := Some (\<lambda>call. True)\<rparr>
         else if bc_scenario c = scenario_timeout then m\<lparr>fk_delay_for := Some (\<lambda>call. bc_timeout c * 2)\<rparr>
         else if bc_scenario c = scenario_mixed then
           m\<lparr>fk_failure := Some (\<lambda>call. if call mod 20 = 0 then Some ''simulated 429'' else None),
             fk_invalid_json_for := Some (\<lambda>call. call mod 25 = 0),
             fk_delay_for := Some (\<lambda>call. if call mod 33 = 0 then bc_timeout c * 2 else scenario_delay call)\<rparr>
         else m)"

record call_env =
  ce_checks :: "nat \<Rightarrow> string option"
    \<comment> \<open>what the checks of the context in the analyzer find\<close>
  ce_before :: time
  ce_waited :: "string option"
  ce_after :: time
  ce_started :: "string option"
  ce_interrupted :: "string option"
    \<comment> \<open>the timeout of the guard, if it comes before the delay is over\<close>
  ce_elapsed :: duration
  ce_took :: duration

definition bench_primary ::
  "semantic_json \<Rightarrow> (string list \<Rightarrow> string) \<Rightarrow> (nat \<Rightarrow> call_env) \<Rightarrow> insight_window \<Rightarrow>
   nat \<times> guarded_model \<times> fake_model \<Rightarrow> (nat \<times> guarded_model \<times> fake_model) \<times> answer" where
  \<comment> \<open>\<open>eino.NewAnalyzer\<close> over the guard over the fake model, and the number of the call\<close>
  "bench_primary js enc env window ngm =
     (let e = env (fst ngm);
          ask = guarded_complete (\<lambda>timeout. fake_complete enc (ce_started e) (ce_interrupted e) (ce_elapsed e) (ce_took e))
                  (ce_before e) (ce_waited e) (ce_after e)
      in apfst (Pair (fst ngm + 1)) (model_analyze js ask (ce_checks e) window (snd ngm)))"

section \<open>Verification over HTTP\<close>

definition verify_room :: "insight_repo \<Rightarrow> nat \<Rightarrow> string option" where
  \<comment> \<open>one job of a worker; what is not an insight decodes to one without a status\<close>
  "verify_room repo room =
     (let path = ''/api/v1/rooms/'' @ bench_room room @ ''/insights/latest'';
          failed = (\<lambda>status. Some (''verify room '' @ digits 10 room @ '': status='' @ show_int status @ '' decode=<nil>''))
      in (case api_handler repo \<lparr>aq_method = ''GET'', aq_path = path, aq_escaped_path = path, aq_limit = None\<rparr> of
            Json status body \<Rightarrow>
              (case body of
                 One_insight insight \<Rightarrow>
                   if status \<noteq> 200 \<or> ri_status insight \<noteq> insight_status_normal \<and> ri_status insight \<noteq> insight_status_degraded
                   then failed status else None
               | _ \<Rightarrow> failed status)
          | Moved location \<Rightarrow> failed 301))"

definition verify_http :: "insight_repo \<Rightarrow> nat \<Rightarrow> nat \<times> string option" where
  \<comment> \<open>the first error in the order of the rooms\<close>
  "verify_http repo rooms =
     (length (filter (\<lambda>room. verify_room repo room = None) [0..<rooms]), first_error (verify_room repo) [0..<rooms])"

section \<open>The run\<close>

definition bench_store_config :: store_config where
  "bench_store_config = \<lparr>sc_window_size = minute, sc_lateness = second, sc_max_events = 20\<rparr>"

definition make_report ::
  "bench_config \<Rightarrow> (nat \<Rightarrow> time) \<Rightarrow> summary \<Rightarrow> nat \<Rightarrow> fake_snapshot \<Rightarrow> bench_report" where
  \<comment> \<open>\<open>clock\<close>: the readings of the clock, in order\<close>
  "make_report c clock tot verified snapshot =
     \<lparr>br_rooms = bc_rooms c, br_total_windows = sy_completed tot + sy_degraded tot + sy_failed tot,
      br_normal = sy_completed tot, br_degraded = sy_degraded tot, br_failed = sy_failed tot,
      br_http_verified = int verified, br_model_calls = fs_calls snapshot,
      br_model_max_in_flight = fs_max_in_flight snapshot,
      br_model_p50 = percentile (fs_latencies snapshot) 50, br_model_p95 = percentile (fs_latencies snapshot) 95,
      br_model_p99 = percentile (fs_latencies snapshot) 99,
      br_process_duration = time_sub (clock 2) (clock 1), br_end_to_end_duration = time_sub (clock 3) (clock 0),
      br_scenario = bc_scenario c\<rparr>"

definition bench_run ::
  "semantic_json \<Rightarrow> (string list \<Rightarrow> string) \<Rightarrow> (nat \<Rightarrow> call_env) \<Rightarrow> (nat \<Rightarrow> time) \<Rightarrow> bench_config \<Rightarrow>
   (string + bench_report) option" where
  \<comment> \<open>\<open>None\<close>: it never returns\<close>
  "bench_run js enc env clock config =
     (let c = normalize_config config;
          (store, err) = ingest_rooms (bench_events (nat (bc_rooms c))) (new_store bench_store_config)
      in (case err of
            Some err \<Rightarrow> Some (Inl err)
          | None \<Rightarrow>
         (case new_guarded_model True \<lparr>gc_max_in_flight = bc_model_concurrency c, gc_timeout = bc_timeout c,
                gc_failure_threshold = 5, gc_open_for = 200 * millisecond\<rparr> of
            Inl err \<Rightarrow> Some (Inl err)
          | Inr guarded \<Rightarrow>
         (case new_processor True True True True \<lparr>pc_workers = bc_workers c, pc_job_capacity = bc_rooms c\<rparr> of
            Inl err \<Rightarrow> Some (Inl err)
          | Inr config \<Rightarrow>
         (case drain (bench_primary js enc env) (rule_fallback None) due_time
                ((0, guarded, new_scenario_model c), \<lparr>px_store = store, px_repo = new_repo\<rparr>) no_summary of
            None \<Rightarrow> None
          | Some (ms, Inl err) \<Rightarrow> Some (Inl err)
          | Some (ms, Inr tot) \<Rightarrow>
         (case verify_http (px_repo (snd ms)) (nat (bc_rooms c)) of
            (verified, Some err) \<Rightarrow> Some (Inl err)
          | (verified, None) \<Rightarrow>
              Some (Inr (make_report c clock tot verified (fake_snapshot_of (snd (snd (fst ms))))))))))))"

section \<open>The command\<close>

definition scan_decimal :: "string \<Rightarrow> int option" where
  \<comment> \<open>\<open>fmt.Sscanf\<close> with the verb \<open>%d\<close> and one operand: what follows the digits is ignored\<close>
  "scan_decimal s =
     (let ds = takeWhile (\<lambda>c. 48 \<le> byte c \<and> byte c \<le> 57)
      in (case s of
            [] \<Rightarrow> None
          | c # r \<Rightarrow> if c = CHR ''-'' \<or> c = CHR ''+'' then atoi (c # ds r) else atoi (ds s)))"

fun parse_items :: "(string \<Rightarrow> string) \<Rightarrow> string list \<Rightarrow> string + int list" where
  "parse_items quote [] = Inr []"
| "parse_items quote (item # items) =
     (case scan_decimal (trim_space item) of
        None \<Rightarrow> Inl (''invalid room count '' @ quote item)
      | Some n \<Rightarrow>
          if n \<le> 0 then Inl (''invalid room count '' @ quote item)
          else map_sum id (Cons n) (parse_items quote items))"

definition parse_rooms :: "(string \<Rightarrow> string) \<Rightarrow> string \<Rightarrow> string + int list" where
  "parse_rooms quote raw =
     (case parse_items quote (split_char CHR '','' raw) of
        Inl err \<Rightarrow> Inl err
      | Inr values \<Rightarrow> if values = [] then Inl ''at least one room count is required'' else Inr values)"

fun bench_each :: "(int \<Rightarrow> (string + bench_report) option) \<Rightarrow> int list \<Rightarrow> (bench_report list \<times> string option) option" where
  \<comment> \<open>the loop of \<open>main\<close>: the reports it prints, and the error it ends with\<close>
  "bench_each run [] = Some ([], None)"
| "bench_each run (rooms # counts) =
     (case run rooms of
        None \<Rightarrow> None
      | Some (Inl err) \<Rightarrow> Some ([], Some err)
      | Some (Inr report) \<Rightarrow> map_option (apfst (Cons report)) (bench_each run counts))"

definition insightbench ::
  "(string \<Rightarrow> string) \<Rightarrow> (bench_config \<Rightarrow> (string + bench_report) option) \<Rightarrow> string \<Rightarrow> string \<Rightarrow> int \<Rightarrow> int \<Rightarrow>
   (bench_report list \<times> string option) option" where
  "insightbench quote run rooms scenario workers concurrency =
     (case parse_rooms quote rooms of
        Inl err \<Rightarrow> Some ([], Some err)
      | Inr selected \<Rightarrow>
          bench_each (\<lambda>room_count. run
            \<lparr>bc_rooms = room_count, bc_workers = workers, bc_model_concurrency = concurrency, bc_timeout = 0,
             bc_scenario = scenario\<rparr>) selected)"

section \<open>Lemmas\<close>

lemma filter_sorted_length: "length (filter P (sort xs)) = length (filter P xs)"
  by (metis mset_filter mset_sort size_mset)

lemma sorted_counts:
  fixes xs :: "'a :: linorder list"
  assumes "sorted xs" "i < length xs"
  shows "i < length (filter (\<lambda>v. v \<le> xs ! i) xs)" "length (filter (\<lambda>v. v < xs ! i) xs) \<le> i"
proof -
  have "v \<le> xs ! i" if "v \<in> set (take (Suc i) xs)" for v
    using that assms by (fastforce simp: in_set_conv_nth intro: sorted_nth_mono)
  then have "filter (\<lambda>v. v \<le> xs ! i) (take (Suc i) xs) = take (Suc i) xs" by simp
  moreover have "length (filter (\<lambda>v. v \<le> xs ! i) (take (Suc i) xs)) \<le> length (filter (\<lambda>v. v \<le> xs ! i) xs)"
    by (metis append_take_drop_id filter_append le_add1 length_append)
  ultimately show "i < length (filter (\<lambda>v. v \<le> xs ! i) xs)" using assms(2) by simp
  have "xs ! i \<le> v" if "v \<in> set (drop i xs)" for v
    using that assms by (fastforce simp: in_set_conv_nth intro: sorted_nth_mono)
  then have "filter (\<lambda>v. v < xs ! i) (drop i xs) = []" by (auto simp: filter_empty_conv leD)
  then have "filter (\<lambda>v. v < xs ! i) xs = filter (\<lambda>v. v < xs ! i) (take i xs)"
    by (metis append.right_neutral append_take_drop_id filter_append)
  then show "length (filter (\<lambda>v. v < xs ! i) xs) \<le> i"
    using length_filter_le [of _ "take i xs"] by simp
qed

lemma decimal_show:
  assumes "0 \<le> n"
  shows "decimal (show_int n)" "show_int n \<noteq> []"
proof -
  show "decimal (show_int n)" using assms decimal_padded [of 0 "nat n"] by (simp add: show_int_def padded_number_def zero_padded_def)
  have "digits 10 (nat n) \<noteq> []" by (subst digits.simps) simp
  then show "show_int n \<noteq> []" using assms by (simp add: show_int_def)
qed

lemma decimal_text:
  assumes "decimal s" "s \<noteq> []"
  shows "trim_space s = s" "CHR '','' \<notin> set s" "scan_decimal s = atoi s"
proof -
  have byte: "48 \<le> byte c \<and> byte c \<le> 57" if "c \<in> set s" for c using assms(1) that by (simp add: decimal_def)
  then have a: "ascii s" "\<forall>c \<in> set s. \<not> is_space (byte c)" by (fastforce simp: ascii_def byte_def is_space_def)+
  have keep: "dropWhile (is_space \<circ> byte) t = t" if "set t \<subseteq> set s" for t
    using a(2) that by (cases t) auto
  show "trim_space s = s" by (simp add: trim_space_ascii [OF a(1)] keep)
  show "CHR '','' \<notin> set s" using byte [of "CHR '',''"] by (auto simp: byte_def)
  obtain c r where c: "s = c # r" using assms(2) by (cases s) auto
  then have "c \<noteq> CHR ''-''" "c \<noteq> CHR ''+''" using byte [of c] by (auto simp: byte_def)
  moreover have "takeWhile (\<lambda>c. 48 \<le> byte c \<and> byte c \<le> 57) s = s" using byte by (simp add: takeWhile_eq_all_conv)
  ultimately show "scan_decimal s = atoi s" unfolding scan_decimal_def c by simp
qed

lemma parse_items_positive: "parse_items quote items = Inr ns \<Longrightarrow> length ns = length items \<and> (\<forall>n \<in> set ns. 0 < n)"
  by (induction items arbitrary: ns) (auto split: option.splits if_splits sum.splits simp: map_sum_def)

section \<open>The events of a run\<close>

lemma ascii_texts: "ascii (digits 10 n)" "ascii (padded_number w n)"
  using ascii_padded ascii_digits by (simp_all add: padded_number_def)

lemma bench_room_text: "trim_space (bench_room room) = bench_room room" "bench_room room \<noteq> []"
proof -
  have a: "ascii (bench_room room)" by (simp add: bench_room_def ascii_texts byte_def)
  have "padded_number 3 room \<noteq> []" by (subst padded_number_def, subst zero_padded_def, subst digits.simps) simp
  then obtain ds d where d: "padded_number 3 room = ds @ [d]" by (metis rev_exhaust)
  then have "48 \<le> byte d \<and> byte d \<le> 57" using decimal_padded [of 3 room] by (simp add: decimal_def)
  then have "\<not> is_space (byte d)" "\<not> is_space (byte CHR ''r'')" by (auto simp: is_space_def byte_def)
  then show "trim_space (bench_room room) = bench_room room"
    by (simp add: trim_space_ascii [OF a]) (simp add: bench_room_def d)
qed (simp add: bench_room_def)

lemma runes_three:
  "snd (decode_rune (map byte (a # b # c # s))) = 3 \<Longrightarrow>
   runes (a # b # c # s) = (fst (decode_rune (map byte (a # b # c # s))), [a, b, c]) # runes s"
  by (subst runes.simps) (simp add: split_beta numeral_3_eq_3)

lemma benchmark_message_runes:
  "\<exists>r rest. runes (benchmark_message k) = r # rest \<and> length rest \<le> 8 \<and> \<not> is_space (fst r) \<and> (\<forall>r' \<in> set rest. \<not> is_space (fst r')) \<and>
     (\<forall>(r, bs) \<in> set (runes (benchmark_message k)). length bs = 3)"
  by (cases "k = 3") (simp_all add: benchmark_message_def runes_three byte_def second_range_def continuation_def is_space_def)

lemma benchmark_message_ok:
  "trim_space (benchmark_message k) \<noteq> []" "valid_string (benchmark_message k)" "rune_count (benchmark_message k) \<le> 500"
proof -
  obtain r rest where r: "runes (benchmark_message k) = r # rest" "length rest \<le> 8" "\<not> is_space (fst r)"
    "\<forall>r' \<in> set rest. \<not> is_space (fst r')" "\<forall>(r, bs) \<in> set (runes (benchmark_message k)). length bs = 3"
    using benchmark_message_runes by blast
  have keep: "dropWhile (is_space \<circ> fst) xs = xs" if "set xs \<subseteq> set (r # rest)" for xs
    using r(3,4) that by (cases xs) auto
  then have "trim_space (benchmark_message k) = concat (map snd (r # rest))"
    by (simp add: trim_space_def r(1) del: dropWhile.simps)
  then show "trim_space (benchmark_message k) \<noteq> []" using r(1,5) by auto
  show "valid_string (benchmark_message k)" using r(5) by (fastforce simp: valid_string_def)
  show "rune_count (benchmark_message k) \<le> 500" using r(1,2) by (simp add: rune_count_def)
qed

lemma bench_event_valid: "validate_event (bench_event room k) = None"
proof -
  have "ascii (bench_room room @ ''-event-'' @ digits 10 k)" "ascii (''user-'' @ digits 10 k)"
    by (simp_all add: bench_room_def ascii_texts byte_def)
  then have "trim_space (bench_room room @ ''-event-'' @ digits 10 k) \<noteq> []" "trim_space (''user-'' @ digits 10 k) \<noteq> []"
    using trim_space_ascii_nonempty [of "bench_room room @ ''-event-'' @ digits 10 k" "CHR ''-''"]
      trim_space_ascii_nonempty [of "''user-'' @ digits 10 k" "CHR ''-''"]
    by (simp_all add: is_space_def byte_def)
  then show ?thesis using benchmark_message_ok [of k] bench_room_text [of room]
    by (simp add: validate_event_None bench_event_def is_zero_def event_time_def)
qed

definition bench_ref :: "nat \<Rightarrow> window_ref" where
  "bench_ref room = \<lparr>wr_room = bench_room room, wr_start = event_time, wr_end = event_time + minute\<rparr>"

lemma bench_event_ref:
  assumes "k < 4"
  shows "new_window_ref (ev_room (bench_event room k)) (ev_at (bench_event room k)) minute = Inr (bench_ref room)"
proof -
  consider "k = 0" | "k = 1" | "k = 2" | "k = 3" using assms by linarith
  then have "time_truncate (ev_at (bench_event room k)) minute = event_time"
    by cases (simp_all add: time_truncate_def bench_event_def event_time_def)
  then show ?thesis using bench_room_text [of room] by (simp add: new_window_ref_Inr bench_ref_def bench_event_def)
qed

lemma ingest_rooms_adds:
  "\<forall>(room, e) \<in> set es. validate_event e = None \<Longrightarrow> 0 < sc_window_size (st_config s) \<Longrightarrow>
   ingest_rooms es s = (final store_step (adds event_time (map snd es)) s, None)"
proof (induction es arbitrary: s)
  case (Cons x es)
  then show ?case using ingest_result [of "snd x" s event_time] by (cases x) (simp add: adds_def del: store_step.simps)
qed (simp add: adds_def)

lemma bench_events_in:
  "(room, e) \<in> set (bench_events rooms) \<longleftrightarrow> room < rooms \<and> (\<exists>k < 4. e = bench_event room k)"
  by (force simp: bench_events_def image_iff)

lemma bench_due:
  "due_refs due_time (final store_step (adds event_time (map snd (bench_events rooms))) (new_store bench_store_config)) =
     bench_ref ` {..<rooms}"
proof -
  have c: "st_config (new_store bench_store_config) = bench_store_config" by (simp add: new_store_def bench_store_config_def)
  have "ref \<in> {ref. wr_end ref + second \<le> due_time \<and> (\<exists>e \<in> set (map snd (bench_events rooms)). validate_event e = None \<and>
        new_window_ref (ev_room e) (ev_at e) minute = Inr ref)} \<longleftrightarrow> ref \<in> bench_ref ` {..<rooms}" (is "?l \<longleftrightarrow> ?r") for ref
  proof
    assume ?l
    then obtain room k where "room < rooms" "k < 4" "new_window_ref (ev_room (bench_event room k)) (ev_at (bench_event room k)) minute = Inr ref"
      by (auto simp: bench_events_in)
    then show ?r using bench_event_ref [of k room] by auto
  next
    assume ?r
    then obtain room where room: "room < rooms" "ref = bench_ref room" by auto
    then have "(room, bench_event room 0) \<in> set (bench_events rooms)" unfolding bench_events_in by (auto intro: exI [of _ 0])
    then have "bench_event room 0 \<in> set (map snd (bench_events rooms))" by (metis in_set_zipE list.set_map rev_image_eqI snd_conv)
    moreover have "wr_end ref + second \<le> due_time" by (simp add: room bench_ref_def due_time_def)
    ultimately show ?l using bench_event_valid [of room 0] bench_event_ref [of 0 room] room(2)
      by (intro CollectI conjI bexI [of _ "bench_event room 0"]) simp_all
  qed
  then show ?thesis unfolding due_after_adds c by (auto simp: bench_store_config_def)
qed

lemma bench_ref_inj: "inj bench_ref"
  by (rule injI) (simp add: bench_ref_def bench_room_def padded_number_inj)

section \<open>The rooms over HTTP\<close>

definition plain :: "char \<Rightarrow> bool" where
  "plain c \<longleftrightarrow> c \<noteq> CHR ''%'' \<and> c \<noteq> CHR ''/''"

lemma bench_request:
  "\<lparr>aq_method = ''GET'', aq_path = ''/api/v1/rooms/'' @ bench_room room @ ''/insights/latest'',
    aq_escaped_path = ''/api/v1/rooms/'' @ bench_room room @ ''/insights/latest'', aq_limit = None\<rparr> =
   api_get plain (bench_room room) ''latest'' None"
proof -
  have "byte c \<ge> 48" if "c \<in> set (padded_number 3 room)" for c
    using decimal_padded [of 3 room] that by (simp add: decimal_def)
  then have "plain c" if "c \<in> set (padded_number 3 room)" for c
    using that by (fastforce simp: plain_def byte_def)
  then have "\<forall>c \<in> set (bench_room room). plain c" by (auto simp: bench_room_def plain_def)
  moreover have "\<forall>c \<in> set s. plain c \<Longrightarrow> percent_encode plain s = s" for s
    by (induction s) (simp_all add: percent_encode_def)
  ultimately have "percent_encode plain (bench_room room) = bench_room room" by blast
  then show ?thesis by (simp add: api_get_def room_path_def)
qed

lemma verify_saved:
  assumes "i \<in> set (found_in (bench_room room) (final save_insight is new_repo))"
  shows "verify_room (final save_insight is new_repo) room = None"
proof -
  let ?repo = "final save_insight is new_repo"
  have "found_in (bench_room room) ?repo \<noteq> []" using assms by force
  then have "sort_key age (found_in (bench_room room) ?repo) \<noteq> []" by (metis set_empty set_sort)
  then have "list_insights (bench_room room) 1 ?repo \<noteq> []" by (simp add: list_insights_found bench_room_text(1))
  then obtain j rest where list: "list_insights (bench_room room) 1 ?repo = j # rest"
    by (cases "list_insights (bench_room room) 1 ?repo") auto
  then have latest: "latest_insight (bench_room room) ?repo = Some j" using latest_listed [OF saved_wf, of 1] by simp
  have "validate_insight j = None" using listed_saved [of j "bench_room room" 1 "is"] list by simp
  then have "ri_status j = insight_status_normal \<or> ri_status j = insight_status_degraded"
    by (auto simp: validate_insight_def split: if_splits)
  moreover have "trim_space (bench_room room) \<noteq> []" using bench_room_text [of room] by simp
  then have "api_handler ?repo (api_get plain (bench_room room) ''latest'' None) = Json 200 (One_insight j)"
    using api_get_handled(1) [of plain "bench_room room" ?repo None] latest by (simp add: plain_def)
  ultimately show ?thesis unfolding verify_room_def Let_def bench_request by simp
qed

section \<open>Properties\<close>

lemma bench_drain:
  fixes rooms
  defines "s0 \<equiv> final store_step (adds event_time (map snd (bench_events rooms))) (new_store bench_store_config)"
  assumes json: "decodes_text js"
  obtains m' st' tot where "drain (bench_primary js enc env) (rule_fallback None) due_time
      (m, \<lparr>px_store = s0, px_repo = new_repo\<rparr>) no_summary = Some ((m', st'), Inr tot)"
    "sy_failed tot = 0" "sy_completed tot + sy_degraded tot = int rooms"
    "\<And>room. room < rooms \<Longrightarrow> verify_room (px_repo st') room = None"
proof -
  have ok: "\<forall>w r. Inr r \<in> model_answers js w \<longrightarrow> ok_answer w r" using model_answer_ok json by blast
  have ans: "\<And>w m. snd (bench_primary js enc env w m) \<in> model_answers js w"
    using model_answers_all by (simp add: bench_primary_def Let_def)
  have "ref_fits ref" if "ref \<in> due_refs due_time s0" for ref
    using that unfolding s0_def
  proof (rule run_refs_fit)
    show "wr_start ref \<noteq> 0" using that unfolding s0_def bench_due by (auto simp: bench_ref_def event_time_def)
  qed
  then have fits: "\<forall>ref \<in> due_refs due_time (px_store \<lparr>px_store = s0, px_repo = new_repo\<rparr>). ref_fits ref" by simp
  have now: "due_time \<noteq> 0" by (simp add: due_time_def event_time_def)
  have inv: "round_inv due_time s0 \<lparr>px_store = s0, px_repo = new_repo\<rparr>" unfolding s0_def by (rule round_inv_start)
  obtain m' st' tot where d: "drain (bench_primary js enc env) (rule_fallback None) due_time
      (m, \<lparr>px_store = s0, px_repo = new_repo\<rparr>) no_summary = Some ((m', st'), Inr tot)"
    "sy_failed tot = sy_failed no_summary"
    "sy_completed tot + sy_degraded tot = sy_completed no_summary + sy_degraded no_summary + int (card (due_refs due_time s0))"
    "\<forall>ref \<in> due_refs due_time s0. \<exists>i. served due_time s0 st' ref i"
    using drain_ends [where m = m and sofar = no_summary and primary = "bench_primary js enc env",
      OF now ans ok rule_fallback_ok inv fits] by auto
  obtain "is" where repo: "px_repo st' = final save_insight is new_repo" using drain_saves [OF d(1)] by auto
  have due: "due_refs due_time s0 = bench_ref ` {..<rooms}" unfolding s0_def bench_due by auto
  then have "card (due_refs due_time s0) = rooms" using bench_ref_inj by (simp add: card_image inj_on_def inj_def)
  moreover have "verify_room (px_repo st') room = None" if room: "room < rooms" for room
  proof -
    obtain i where "served due_time s0 st' (bench_ref room) i" using d(4) room by (auto simp: due)
    then have "map_of (px_repo st') (idempotency_key i) = Some i" "ri_room i = bench_room room"
      by (auto simp: served_def good_insight_def bench_ref_def)
    then have "i \<in> set (found_in (bench_room room) (px_repo st'))" by (force simp: found_in_def dest: map_of_SomeD)
    then show ?thesis unfolding repo by (rule verify_saved)
  qed
  ultimately show thesis using that d(1-3) by (simp add: no_summary_def)
qed



text \<open>The percentiles of the report are nearest-rank percentiles: the value is one of the latencies, at
  least p percent of them are not above it, and fewer than p percent are below it.\<close>

theorem percentile_is_nearest_rank:
  assumes "xs \<noteq> []" "1 \<le> p" "p \<le> 100"
  shows "percentile xs p \<in> set xs \<and>
    length xs * p \<le> 100 * length (filter (\<lambda>v. v \<le> percentile xs p) xs) \<and>
    100 * length (filter (\<lambda>v. v < percentile xs p) xs) < length xs * p"
proof -
  let ?n = "length xs" and ?i = "(length xs * p + 99) div 100 - 1"
  have n: "0 < ?n * p" "?n * p \<le> ?n * 100" using assms by simp_all
  have nearest: "(k + 99) div 100 - 1 < n \<and> 100 * ((k + 99) div 100 - 1) < k \<and> k \<le> 100 * Suc ((k + 99) div 100 - 1)"
    if k: "0 < k" "k \<le> n * 100" for k n :: nat
  proof -
    obtain q where q: "(k + 99) div 100 = q" by blast
    then have "100 * q \<le> k + 99" "k + 99 < 100 * q + 100" by linarith+
    moreover from this obtain q' where "q = Suc q'" using k(1) by (cases q) auto
    ultimately show ?thesis using k(2) by (simp add: q)
  qed
  note i = nearest [OF n, THEN conjunct1] nearest [OF n, THEN conjunct2, THEN conjunct1]
    nearest [OF n, THEN conjunct2, THEN conjunct2]
  have v: "percentile xs p = sort xs ! ?i" using assms(1) by (simp add: percentile_def)
  have "?i < length (sort xs)" using i by simp
  note counts = sorted_counts [OF sorted_sort this, unfolded filter_sorted_length]
  have "sort xs ! ?i \<in> set xs" using i(1) by (metis length_sort nth_mem set_sort)
  moreover have "?n * p \<le> 100 * length (filter (\<lambda>v. v \<le> sort xs ! ?i) xs)" using counts(1) i(3) by linarith
  moreover have "100 * length (filter (\<lambda>v. v < sort xs ! ?i) xs) < ?n * p" using counts(2) i(2) by linarith
  ultimately show ?thesis unfolding v by blast
qed

theorem percentile_is_nearest_rank_witness: "percentile [30, 10, 20, 40] 50 = 20 \<and> percentile [30, 10, 20, 40] 95 \<in> {30, 10, 20, 40}"
  using percentile_is_nearest_rank [of "[30, 10, 20, 40]" 95] by (simp add: percentile_def)

text \<open>The room counts of the command line are read back as they were written: a list of positive numbers
  with commas is parsed into the same numbers, and whatever is accepted gives one positive count for
  every item.\<close>

theorem room_counts_roundtrip:
  assumes "ns \<noteq> []" "\<forall>n \<in> set ns. 0 < n \<and> n \<le> max_int64"
  shows "parse_rooms quote (join '','' (map show_int ns)) = Inr ns \<and>
    (\<forall>raw vs. parse_rooms quote raw = Inr vs \<longrightarrow>
       length vs = length (split_char CHR '','' raw) \<and> (\<forall>n \<in> set vs. 0 < n))"
proof -
  have dec: "decimal (show_int n)" "show_int n \<noteq> []" if "n \<in> set ns" for n
    using assms(2) that decimal_show [of n] by auto
  have "split_char CHR '','' (join '','' (map show_int ns)) = map show_int ns"
    using assms(1) decimal_text(2) dec by (intro split_join) auto
  moreover have "\<forall>n \<in> set ks. 0 < n \<and> n \<le> max_int64 \<Longrightarrow> parse_items quote (map show_int ks) = Inr ks" for ks
  proof (induction ks)
    case (Cons n ks)
    then have "scan_decimal (trim_space (show_int n)) = Some n"
      using decimal_text [OF decimal_show, of n] atoi_show_int [of n] by simp
    then show ?case using Cons by simp
  qed simp
  ultimately have "parse_rooms quote (join '','' (map show_int ns)) = Inr ns"
    using assms by (simp add: parse_rooms_def)
  moreover have "length vs = length (split_char CHR '','' raw) \<and> (\<forall>n \<in> set vs. 0 < n)"
    if "parse_rooms quote raw = Inr vs" for raw vs
    using that parse_items_positive by (fastforce simp: parse_rooms_def split: sum.splits if_splits)
  ultimately show ?thesis by blast
qed

theorem room_counts_roundtrip_witness: "parse_rooms id (join '','' (map show_int [100, 300, 500])) = Inr [100, 300, 500]"
  using room_counts_roundtrip [of "[100, 300, 500]" id] by (simp add: max_int64_def)

lemma trailing_text_ignored: "parse_rooms quote ''1k'' = Inr [1]"
proof -
  have "trim_space ''1k'' = ''1k''" by (simp add: trim_space_ascii ascii_def byte_def is_space_def)
  then show ?thesis
    by (simp add: parse_rooms_def scan_decimal_def atoi_def decimal_def byte_def max_int64_def min_int64_def digits_value_def char_digit_def)
qed

end
