(* ===== verification/Dataset.thy ===== *)
theory Dataset
  imports Insight Rule_Analyzer
begin

text \<open>
  The cleaner of the public danmaku dataset, \<open>v11/insight/cmd/datasetclean/main.go\<close>: it keeps the
  harmless comments of a video, picks the same number from every video, spread over the video, and
  writes them as message events of one minute per room. Walking the directory, decoding and writing
  the JSON texts are left out; SHA-256 is a parameter. Times in the source are doubles.
\<close>

section \<open>Loading\<close>

record raw_event =
  re_time :: real
  re_text :: string

definition looks_sensitive :: "string \<Rightarrow> bool" where
  "looks_sensitive text \<longleftrightarrow> contains text ''@'' \<or> contains text ''http://'' \<or> contains text ''https://''"

definition clean_event :: "raw_event \<Rightarrow> raw_event option" where
  \<comment> \<open>one round of the loop of \<open>loadEvents\<close>\<close>
  "clean_event e =
     (let text = join '' '' (Go_Strings.fields (re_text e))
      in if re_time e < 0 \<or> text = [] \<or> \<not> valid_string text \<or> rune_count text > 500 \<or> looks_sensitive text
         then None
         else Some \<lparr>re_time = re_time e, re_text = text\<rparr>)"

definition load_events :: "string + raw_event list \<Rightarrow> string + raw_event list" where
  \<comment> \<open>of the decoded file, or the error; Go leaves the order of equal times open, here it is kept\<close>
  "load_events source =
     (case source of
        Inl err \<Rightarrow> Inl err
      | Inr events \<Rightarrow> Inr (sort_key re_time (List.map_filter clean_event events)))"

section \<open>Selecting\<close>

definition uniform :: "raw_event list \<Rightarrow> int \<Rightarrow> raw_event list option" where
  \<comment> \<open>\<open>None\<close>: a panic, by a negative capacity, an index out of range or a division by zero\<close>
  "uniform events limit =
     (if int (length events) = limit then Some events
      else if limit < 0 \<or> events = [] \<or> limit = 1 then None
      else
        (let max_time = re_time (last events);
             min_time = re_time (hd events)
         in Some (map (\<lambda>i.
               (let event = events ! nat (int i * (int (length events) - 1) div (limit - 1))
                in if max_time > min_time
                   then event\<lparr>re_time := fmul (fdiv (fsub (re_time event) min_time) (fsub max_time min_time)) 59\<rparr>
                   else event)) [0..<nat limit])))"

definition truncate_real :: "real \<Rightarrow> int" where
  \<comment> \<open>the conversion of a double to an integer, for values in the range of integers\<close>
  "truncate_real x = (if x < 0 then - \<lfloor>- x\<rfloor> else \<lfloor>x\<rfloor>)"

definition anonymous_id :: "(string \<Rightarrow> nat list) \<Rightarrow> string \<Rightarrow> nat \<Rightarrow> string" where
  "anonymous_id sha256 room index =
     ''anon-'' @ concat (map (\<lambda>b. [digit_char (b div 16), digit_char (b mod 16)])
       (take 4 (sha256 (room @ '':'' @ digits 10 (index mod 100)))))"

definition base_time :: time where
  \<comment> \<open>August 5, 2026, noon\<close>
  "base_time = (739832 * 24 + 12) * 3600 * second"

definition clean_message :: "(string \<Rightarrow> nat list) \<Rightarrow> string \<Rightarrow> nat \<Rightarrow> raw_event \<Rightarrow> message_event" where
  "clean_message sha256 room index event =
     \<lparr>ev_id = room @ ''-event-'' @ padded_number 3 (index + 1), ev_room = room,
      ev_user = anonymous_id sha256 room index, ev_username = ''anonymous'', ev_content = re_text event,
      ev_at = base_time + truncate_real (fmul (re_time event) (10 ^ 9)),
      ev_schema_version = ''v1'', ev_source = ''danmaku-tpp''\<rparr>"

section \<open>Cleaning\<close>

definition room_name :: "nat \<Rightarrow> string" where
  "room_name selected = ''dataset-room-'' @ padded_number 2 (selected + 1)"

definition clean_video ::
  "(string \<Rightarrow> nat list) \<Rightarrow> string \<Rightarrow> raw_event list \<Rightarrow> message_event list \<times> string option" where
  \<comment> \<open>what is written of a video's selected events, and the error that stops it\<close>
  "clean_video sha256 room events =
     (let messages = map (\<lambda>(i, e). clean_message sha256 room i e) (enumerate 0 events);
          valid = takeWhile (\<lambda>m. validate_event m = None) messages
      in (valid,
          if length valid < length messages
          then map_option (\<lambda>err. ''validate cleaned event: '' @ err) (validate_event (messages ! length valid))
          else None))"

fun clean_videos ::
  "(string \<Rightarrow> nat list) \<Rightarrow> nat \<Rightarrow> int \<Rightarrow> (string + raw_event list) list \<Rightarrow> nat \<Rightarrow>
   (message_event list \<times> (string + nat)) option" where
  \<comment> \<open>the loop over the sorted paths: what it writes, and the error or the number of rooms it found\<close>
  "clean_videos sha256 rooms per_room [] selected = Some ([], Inr selected)"
| "clean_videos sha256 rooms per_room (source # sources) selected =
     (case load_events source of
        Inl err \<Rightarrow> clean_videos sha256 rooms per_room sources selected
      | Inr events \<Rightarrow>
          if int (length events) < per_room then clean_videos sha256 rooms per_room sources selected
          else
            (case uniform events per_room of
               None \<Rightarrow> None
             | Some chosen \<Rightarrow>
                 (case clean_video sha256 (room_name selected) chosen of
                    (written, Some err) \<Rightarrow> Some (written, Inl err)
                  | (written, None) \<Rightarrow>
                      if selected + 1 = rooms then Some (written, Inr (selected + 1))
                      else map_option (map_prod ((@) written) id)
                             (clean_videos sha256 rooms per_room sources (selected + 1)))))"

definition clean_dataset ::
  "(string \<Rightarrow> nat list) \<Rightarrow> (string + raw_event list) list \<Rightarrow> int \<Rightarrow> int \<Rightarrow>
   (message_event list \<times> string option) option" where
  "clean_dataset sha256 sources rooms per_room =
     (if rooms \<le> 0 \<or> per_room \<le> 0 then Some ([], Some ''rooms and events-per-room must be positive'')
      else
        (case clean_videos sha256 (nat rooms) per_room sources 0 of
           None \<Rightarrow> None
         | Some (written, Inl err) \<Rightarrow> Some (written, Some err)
         | Some (written, Inr selected) \<Rightarrow>
             Some (written,
               if int selected \<noteq> rooms
               then Some (''only found '' @ digits 10 selected @ '' source videos with '' @ show_int per_room @
                          '' clean events, want '' @ show_int rooms)
               else None)))"

section \<open>Times\<close>

lemma base_time_civil:
  "base_time = ((days_before_year 2026 + int (sum_list (take 7 (month_lengths 2026))) + 4) * 24 + 12) * 3600 * second"
  by (simp add: base_time_def days_before_year_def month_lengths_def leap_year_def)

lemma scaled_time:
  assumes "lo \<le> t" "t \<le> hi"
  defines "x \<equiv> fmul (fdiv (fsub t lo) (fsub hi lo)) 59"
  shows "0 \<le> truncate_real (fmul x (10 ^ 9)) \<and> truncate_real (fmul x (10 ^ 9)) \<le> 59 * second"
proof -
  let ?a = "fsub t lo" and ?b = "fsub hi lo"
  have ab: "0 \<le> ?a" "?a \<le> ?b" using assms(1,2) by (auto simp: fsub_def intro!: rnd64_mono)
  then have "0 \<le> ?a / ?b" "?a / ?b \<le> 1" by (auto simp: divide_le_eq_1)
  then have q: "0 \<le> fdiv ?a ?b" "fdiv ?a ?b \<le> 1"
    using rnd64_mono [of "?a / ?b" 1] rnd64_nat [of 1] by (simp_all add: fdiv_def)
  then have x: "0 \<le> x" "x \<le> 59"
    using rnd64_mono [of "fdiv ?a ?b * 59" 59] rnd64_nat [of 59] by (simp_all add: x_def fmul_def)
  then have "0 \<le> fmul x (10 ^ 9)" "fmul x (10 ^ 9) \<le> 59 * 10 ^ 9"
    using rnd64_mono [of "x * 10 ^ 9" "59 * 10 ^ 9"] rnd64_nat [of "59 * 10 ^ 9"] by (simp_all add: fmul_def)
  then show ?thesis by (simp add: truncate_real_def floor_le_iff)
qed

lemma sorted_between:
  assumes "sorted (map re_time es)" "e \<in> set es"
  shows "re_time (hd es) \<le> re_time e \<and> re_time e \<le> re_time (last es)"
proof -
  obtain i where i: "i < length es" "e = es ! i" using assms(2) by (auto simp: in_set_conv_nth)
  have "es \<noteq> []" using i by auto
  moreover from this have "map re_time es ! 0 \<le> map re_time es ! i" "map re_time es ! i \<le> map re_time es ! (length es - 1)"
    using i sorted_nth_mono [OF assms(1), of 0 i] sorted_nth_mono [OF assms(1), of i "length es - 1"] by simp_all
  ultimately show ?thesis using i by (simp add: hd_conv_nth last_conv_nth)
qed

lemma uniform_indices:
  assumes "i < nat limit" "1 < limit" "limit < int n"
  shows "nat (int i * (int n - 1) div (limit - 1)) < n"
proof -
  have "int i * (int n - 1) \<le> (limit - 1) * (int n - 1)" using assms by (intro mult_right_mono) auto
  then have "int i * (int n - 1) div (limit - 1) \<le> int n - 1"
    using assms zdiv_mono1 [of "int i * (int n - 1)" "(limit - 1) * (int n - 1)" "limit - 1"] by simp
  then show ?thesis using assms by (auto simp: nat_less_iff intro!: pos_imp_zdiv_nonneg_iff [THEN iffD2])
qed

lemma uniform_length: "uniform events limit = Some chosen \<Longrightarrow> 0 \<le> limit \<Longrightarrow> length chosen = nat limit"
  by (auto simp: uniform_def Let_def split: if_splits)

lemma uniform_texts:
  assumes "uniform events limit = Some chosen" "limit \<le> int (length events)" "e \<in> set chosen"
  shows "\<exists>e' \<in> set events. re_text e = re_text e'"
proof (cases "int (length events) = limit")
  case True
  then show ?thesis using assms(1,3) by (auto simp: uniform_def)
next
  case False
  let ?index = "\<lambda>i. nat (int i * (int (length events) - 1) div (limit - 1))"
  obtain i where i: "i < nat limit" "re_text e = re_text (events ! ?index i)" "limit \<noteq> 1"
    using assms(1,3) False by (auto simp: uniform_def Let_def split: if_splits)
  then have "1 < limit" by auto
  then have "?index i < length events" using uniform_indices [OF i(1)] assms(2) False by simp
  then show ?thesis using i(2) nth_mem by blast
qed

lemma uniform_scaled:
  assumes "sorted (map re_time events)" "limit < int (length events)" "1 < limit" "re_time (hd events) < re_time (last events)"
    "uniform events limit = Some chosen" "e \<in> set chosen"
  shows "0 \<le> truncate_real (fmul (re_time e) (10 ^ 9)) \<and> truncate_real (fmul (re_time e) (10 ^ 9)) \<le> 59 * second"
proof -
  let ?index = "\<lambda>i. nat (int i * (int (length events) - 1) div (limit - 1))"
  obtain i where i: "i < nat limit" "re_time e = fmul (fdiv (fsub (re_time (events ! ?index i)) (re_time (hd events)))
      (fsub (re_time (last events)) (re_time (hd events)))) 59"
    using assms by (auto simp: uniform_def Let_def split: if_splits)
  have "?index i < length events" using uniform_indices [OF i(1) assms(3,2)] .
  then have "events ! ?index i \<in> set events" by simp
  from scaled_time [OF conjunct1 conjunct2, OF sorted_between sorted_between, OF assms(1) this assms(1) this]
  show ?thesis unfolding i(2) .
qed

lemma uniform_same_time:
  assumes "sorted (map re_time events)" "limit < int (length events)" "1 < limit" "\<not> re_time (hd events) < re_time (last events)"
    "uniform events limit = Some chosen" "e \<in> set chosen"
  shows "re_time e = re_time (hd events)"
proof -
  let ?index = "\<lambda>i. nat (int i * (int (length events) - 1) div (limit - 1))"
  obtain i where i: "i < nat limit" "e = events ! ?index i"
    using assms by (auto simp: uniform_def Let_def split: if_splits)
  have "?index i < length events" using uniform_indices [OF i(1) assms(3,2)] .
  then have "e \<in> set events" using i(2) by simp
  then show ?thesis using sorted_between [OF assms(1)] assms(4) by force
qed

lemma loaded_sorted: "load_events source = Inr events \<Longrightarrow> sorted (map re_time events)"
  by (auto simp: load_events_def split: sum.splits)

lemma loaded_texts:
  assumes "load_events source = Inr events" "e \<in> set events"
  shows "\<not> looks_sensitive (re_text e) \<and> valid_string (re_text e) \<and> rune_count (re_text e) \<le> 500"
  using assms by (auto simp: load_events_def map_filter_def clean_event_def Let_def split: sum.splits if_splits)

section \<open>What is written\<close>

definition clean_id :: "message_event \<Rightarrow> bool" where
  "clean_id m \<longleftrightarrow> (\<exists>i. ev_id m = ev_room m @ ''-event-'' @ padded_number 3 i)"

lemma dashes_in_number: "count_list (padded_number w n) CHR ''-'' = 0"
  using decimal_no [OF decimal_padded, of "CHR ''-''" w n] by (simp add: byte_def)

lemma id_parts:
  "a @ ''-event-'' @ padded_number 3 i = b @ ''-event-'' @ padded_number 3 j \<longleftrightarrow> a = b \<and> i = j"
proof
  assume "a @ ''-event-'' @ padded_number 3 i = b @ ''-event-'' @ padded_number 3 j"
  then have "(a @ ''-event'') @ CHR ''-'' # padded_number 3 i = (b @ ''-event'') @ CHR ''-'' # padded_number 3 j" by simp
  from last_sep_inj [OF this] show "a = b \<and> i = j" by (simp add: dashes_in_number padded_number_inj)
qed simp

lemma room_name_inj: "room_name a = room_name b \<longleftrightarrow> a = b"
  by (simp add: room_name_def padded_number_inj)

lemma clean_video_written:
  assumes "clean_video sha256 room chosen = (written, err)"
  shows "\<forall>m \<in> set written. validate_event m = None \<and> ev_room m = room \<and> clean_id m \<and> ev_username m = ''anonymous'' \<and>
      (\<exists>e \<in> set chosen. ev_content m = re_text e \<and> ev_at m = base_time + truncate_real (fmul (re_time e) (10 ^ 9)))"
    "distinct (map ev_id written)" "err = None \<Longrightarrow> length written = length chosen"
proof -
  define messages where "messages = map (\<lambda>(i, e). clean_message sha256 room i e) (enumerate 0 chosen)"
  have w: "written = takeWhile (\<lambda>m. validate_event m = None) messages"
    using assms by (simp add: clean_video_def Let_def messages_def)
  have fields: "ev_room m = room \<and> clean_id m \<and> ev_username m = ''anonymous'' \<and> (\<exists>e \<in> set chosen. ev_content m = re_text e \<and> ev_at m = base_time + truncate_real (fmul (re_time e) (10 ^ 9)))"
    if "m \<in> set messages" for m
    using that by (auto simp: messages_def clean_message_def clean_id_def in_set_enumerate_eq)
  show "\<forall>m \<in> set written. validate_event m = None \<and> ev_room m = room \<and> clean_id m \<and> ev_username m = ''anonymous'' \<and>
      (\<exists>e \<in> set chosen. ev_content m = re_text e \<and> ev_at m = base_time + truncate_real (fmul (re_time e) (10 ^ 9)))"
    unfolding w using fields set_takeWhileD by fast
  have "map ev_id messages = map (\<lambda>i. room @ ''-event-'' @ padded_number 3 (i + 1)) [0..<length chosen]"
    by (rule nth_equalityI) (simp_all add: messages_def clean_message_def nth_enumerate_eq)
  then have "distinct (map ev_id messages)" by (simp add: distinct_map inj_on_def padded_number_inj)
  then show "distinct (map ev_id written)" unfolding w using distinct_takeWhile [of "map ev_id messages" "\<lambda>_. True"]
    by (metis distinct_append map_append takeWhile_dropWhile_id)
  show "length written = length chosen" if "err = None"
  proof (rule ccontr)
    assume "length written \<noteq> length chosen"
    moreover have "length messages = length chosen" by (simp add: messages_def)
    ultimately have less: "length written < length messages"
      using length_takeWhile_le [of "\<lambda>m. validate_event m = None" messages] w by simp
    then have "validate_event (messages ! length written) \<noteq> None" using nth_length_takeWhile w by blast
    then show False using assms that less w by (auto simp: clean_video_def Let_def messages_def)
  qed
qed

lemma base_time_minute: "time_truncate (base_time + t) (60 * second) = base_time + time_truncate t (60 * second)"
proof -
  have "base_time mod (60 * second) = 0" by (simp add: base_time_def)
  then have "(base_time + t) mod (60 * second) = t mod (60 * second)" by (metis add_0 mod_add_left_eq)
  then show ?thesis by (simp add: time_truncate_def)
qed

definition harmless :: "message_event \<Rightarrow> bool" where
  "harmless m \<longleftrightarrow> validate_event m = None \<and> \<not> looks_sensitive (ev_content m) \<and> ev_username m = ''anonymous''"

lemma clean_videos_written:
  assumes "clean_videos sha256 rooms per_room sources selected = Some (written, res)" "0 < per_room" "selected < rooms"
  shows "(\<forall>m \<in> set written. harmless m \<and> clean_id m \<and> (\<exists>k \<ge> selected. ev_room m = room_name k)) \<and>
    distinct (map ev_id written) \<and>
    (case res of Inl err \<Rightarrow> True
     | Inr n \<Rightarrow> selected \<le> n \<and> n \<le> rooms \<and> length written = (n - selected) * nat per_room)"
  using assms
proof (induction sources arbitrary: selected written)
  case (Cons source sources)
  show ?case
  proof (cases "\<exists>events. load_events source = Inr events \<and> per_room \<le> int (length events)")
    case False
    then have "clean_videos sha256 rooms per_room sources selected = Some (written, res)"
      using Cons.prems(1) by (auto split: sum.splits if_splits)
    then show ?thesis using Cons.IH Cons.prems(2,3) by blast
  next
    case True
    then obtain events where ev: "load_events source = Inr events" "per_room \<le> int (length events)" by blast
    then obtain chosen where chosen: "uniform events per_room = Some chosen"
      using Cons.prems(1) by (auto split: option.splits)
    obtain out err where video: "clean_video sha256 (room_name selected) chosen = (out, err)" by fastforce
    note v = clean_video_written [OF video]
    have "\<not> looks_sensitive (re_text e)" if "e \<in> set chosen" for e
      using uniform_texts [OF chosen ev(2) that] loaded_texts [OF ev(1)] by metis
    then have good: "\<forall>m \<in> set out. harmless m \<and> clean_id m \<and> ev_room m = room_name selected"
      using v(1) by (fastforce simp: harmless_def)
    have len: "err = None \<Longrightarrow> length out = nat per_room"
      using v(3) uniform_length [OF chosen] Cons.prems(2) by simp
    show ?thesis
    proof (cases err)
      case (Some e)
      then show ?thesis using Cons.prems(1) ev chosen video good v(2) by auto
    next
      case None
      show ?thesis
      proof (cases "selected + 1 = rooms")
        case True
        then show ?thesis using Cons.prems(1) ev chosen video good v(2) len None by auto
      next
        case False
        then obtain more' where rest: "clean_videos sha256 rooms per_room sources (selected + 1) = Some (more', res)"
          "written = out @ more'"
          using Cons.prems(1) ev chosen video None by auto
        have "selected + 1 < rooms" using Cons.prems(3) False by simp
        note ih = Cons.IH [OF rest(1) Cons.prems(2) this]
        have "ev_id m \<noteq> ev_id m'" if mm: "m \<in> set out" "m' \<in> set more'" for m m'
        proof -
          obtain k where "k \<ge> selected + 1" "ev_room m' = room_name k" using ih mm(2) by blast
          moreover have "ev_room m = room_name selected" using good mm(1) by blast
          moreover have "clean_id m" "clean_id m'" using good ih mm by blast+
          ultimately show ?thesis using id_parts [of "room_name k" _ "room_name selected"]
            unfolding clean_id_def by (metis Suc_eq_plus1 not_less_eq_eq order_refl room_name_inj)
        qed
        then have "distinct (map ev_id written)" using ih v(2) rest(2) by auto
        moreover have "\<forall>m \<in> set written. harmless m \<and> clean_id m \<and> (\<exists>k \<ge> selected. ev_room m = room_name k)"
        proof
          fix m assume "m \<in> set written"
          then consider "m \<in> set out" | "m \<in> set more'" using rest(2) by auto
          then show "harmless m \<and> clean_id m \<and> (\<exists>k \<ge> selected. ev_room m = room_name k)"
          proof cases
            case 2
            then obtain k where "harmless m" "clean_id m" "selected + 1 \<le> k" "ev_room m = room_name k" using ih by blast
            then show ?thesis by (intro conjI exI [of _ k]) auto
          qed (use good in blast)
        qed
        moreover have "case res of Inl err \<Rightarrow> True
           | Inr n \<Rightarrow> selected \<le> n \<and> n \<le> rooms \<and> length written = (n - selected) * nat per_room"
        proof (cases res)
          case (Inr n)
          then have "Suc selected \<le> n" "n \<le> rooms" "length more' = (n - Suc selected) * nat per_room" using ih by auto
          moreover have "n - selected = Suc (n - Suc selected)" using \<open>Suc selected \<le> n\<close> by simp
          ultimately show ?thesis using Inr rest(2) len None by simp
        qed simp
        ultimately show ?thesis by blast
      qed
    qed
  qed
qed auto

section \<open>Properties\<close>

lemma one_event_per_room_panics:
  assumes "load_events source = Inr events" "1 < length events" "0 < rooms"
  shows "clean_dataset sha256 (source # sources) rooms 1 = None"
  using assms by (auto simp: clean_dataset_def uniform_def)

lemma unscaled_when_exact:
  assumes "load_events source = Inr events" "int (length events) = per_room" "0 < per_room"
  shows "clean_videos sha256 1 per_room [source] 0 =
     Some (map_prod id (case_option (Inr 1) Inl) (clean_video sha256 (room_name 0) events))"
  using assms by (simp add: uniform_def split: prod.split option.split)



text \<open>A room of the cleaned dataset fills exactly one minute window: when a video has more harmless
  comments than are wanted, however long it is, the times of the chosen ones are scaled (or all equal),
  so that all messages of the room fall into the same one-minute window and are analyzed together.\<close>

theorem dataset_room_fits_one_window:
  assumes "load_events source = Inr events" "1 < limit" "limit < int (length events)"
    "uniform events limit = Some chosen" "clean_video sha256 room chosen = (written, err)" "trim_space room \<noteq> []"
  shows "\<exists>ref. \<forall>m \<in> set written. new_window_ref (ev_room m) (ev_at m) (60 * second) = Inr ref"
proof -
  let ?offset = "\<lambda>e. truncate_real (fmul (re_time e) (10 ^ 9))"
  note so = loaded_sorted [OF assms(1)]
  have "\<exists>t. \<forall>e \<in> set chosen. time_truncate (?offset e) (60 * second) = t"
  proof (cases "re_time (hd events) < re_time (last events)")
    case True
    have "time_truncate (?offset e) (60 * second) = 0" if "e \<in> set chosen" for e
      using uniform_scaled [OF so assms(3,2) True assms(4) that] by (simp add: time_truncate_def)
    then show ?thesis by blast
  next
    case False
    then show ?thesis using uniform_same_time [OF so assms(3,2) False assms(4)] by simp
  qed
  then obtain t where t: "\<forall>e \<in> set chosen. time_truncate (?offset e) (60 * second) = t" by blast
  have "new_window_ref (ev_room m) (ev_at m) (60 * second) =
      Inr \<lparr>wr_room = trim_space room, wr_start = base_time + t, wr_end = base_time + t + 60 * second\<rparr>"
    if m: "m \<in> set written" for m
  proof -
    obtain e where e: "e \<in> set chosen" "ev_at m = base_time + ?offset e" "ev_room m = room"
      using bspec [OF clean_video_written(1) [OF assms(5)] m] by auto
    then have "time_truncate (ev_at m) (60 * second) = base_time + t" using t base_time_minute [of "?offset e"] by metis
    then show ?thesis using assms(6) e(3) unfolding new_window_ref_Inr by (intro conjI) (simp_all only:, simp_all)
  qed
  then show ?thesis by blast
qed

theorem dataset_room_fits_one_window_witness:
  "\<exists>ref. \<forall>m \<in> set (fst (clean_video (\<lambda>_. [0, 0, 0, 0]) ''r'' (map (\<lambda>t. \<lparr>re_time = t, re_text = ''hi''\<rparr>) [7, 7]))).
     new_window_ref (ev_room m) (ev_at m) (60 * second) = Inr ref"
proof -
  let ?e = "\<lparr>re_time = 7, re_text = ''hi''\<rparr>"
  have "Go_Strings.fields ''hi'' = [''hi'']" "valid_string ''hi''" "rune_count ''hi'' = 2"
    by (simp_all add: Go_Strings.fields_def runes_ascii_map valid_string_ascii rune_count_ascii ascii_def byte_def is_space_def)
  then have loaded: "load_events (Inr [?e, ?e, ?e]) = Inr [?e, ?e, ?e]"
    by (simp add: load_events_def map_filter_def clean_event_def looks_sensitive_def has_prefix_def)
  have chosen: "uniform [?e, ?e, ?e] 2 = Some [?e, ?e]" by (simp add: uniform_def upt_rec)
  have room: "trim_space ''r'' \<noteq> []" by (simp add: trim_space_ascii ascii_def byte_def is_space_def)
  show ?thesis
    by (rule dataset_room_fits_one_window [OF loaded, of 2, OF _ _ _ prod.collapse [symmetric] room]) (simp_all add: chosen)
qed

end
