(* ===== verification/Proto_Consumer.thy ===== *)
theory Proto_Consumer
  imports Model "HOL-Library.Multiset"
begin

text \<open>
  The Kafka consumer of the original service at the root of the repository,
  \<open>internal/consumer/handler.go\<close>: claims put the danmaku they read into one channel and mark them
  at once; a database worker of the session collects them into batches. The goroutines are steps of
  one run, in any order; a consumer group runs its sessions one after the other. The database
  (\<open>internal/repo/message_repo.go\<close>) is a parameter. The commented-out first version in the file is
  not modelled.
\<close>

section \<open>Messages and the repository\<close>

record proto_danmaku =
  pd_id :: u64
  pd_room_id :: string
  pd_user_id :: u64
  pd_content :: string
  pd_send_time :: zoned_time

type_synonym 'd bulk_insert = "proto_danmaku option list \<Rightarrow> nat \<Rightarrow> 'd \<Rightarrow> 'd \<times> string option"
  \<comment> \<open>\<open>db.CreateInBatches\<close>: pointers to rows, which may be nil, and the size of a batch\<close>

definition create_in_batches :: "'d bulk_insert \<Rightarrow> proto_danmaku option list \<Rightarrow> 'd \<Rightarrow> 'd \<times> string option" where
  "create_in_batches db msgs d = (if length msgs = 0 then (d, None) else db msgs (length msgs) d)"

record playback_query =
  pq_room :: string
  pq_since :: "time option"
  pq_limit :: int
  \<comment> \<open>the messages of a room from a time on, oldest first\<close>

definition get_playback_danmaku ::
  "(playback_query \<Rightarrow> 'd \<Rightarrow> string + proto_danmaku list) \<Rightarrow> string \<Rightarrow> time \<Rightarrow> int \<Rightarrow> 'd \<Rightarrow> string + proto_danmaku list" where
  "get_playback_danmaku query room query_time limit d =
     query \<lparr>pq_room = room, pq_since = (if is_zero query_time then None else Some query_time), pq_limit = limit\<rparr> d"

definition service_playback ::
  "(playback_query \<Rightarrow> 'd \<Rightarrow> string + proto_danmaku list) \<Rightarrow> string \<Rightarrow> time \<Rightarrow> 'd \<Rightarrow> string + proto_danmaku list" where
  \<comment> \<open>\<open>ChatService.GetPlaybackDanmaku\<close>\<close>
  "service_playback query room start d = get_playback_danmaku query room start 100 d"

section \<open>The handler\<close>

definition max_db_retries :: nat where "max_db_retries = 3"
definition channel_buffer_size :: nat where "channel_buffer_size = 2000"

record parser =
  pa_packet :: "string \<Rightarrow> packet option"
  pa_danmaku :: "string \<Rightarrow> proto_danmaku option"
    \<comment> \<open>\<open>json.Unmarshal\<close>; \<open>None\<close>: an error\<close>

definition proto_parse :: "parser \<Rightarrow> string \<Rightarrow> proto_danmaku option option" where
  \<comment> \<open>\<open>parseMessage\<close>: \<open>None\<close> an error, \<open>Some None\<close> nil without an error\<close>
  "proto_parse pa payload =
     (case pa_packet pa payload of
        None \<Rightarrow> None
      | Some packet \<Rightarrow>
          if packet_type packet \<noteq> type_danmaku then Some None
          else (case pa_danmaku pa (packet_data packet) of None \<Rightarrow> None | Some danmaku \<Rightarrow> Some (Some danmaku)))"

fun insert_attempts :: "'d bulk_insert \<Rightarrow> (nat \<Rightarrow> bool) \<Rightarrow> proto_danmaku option list \<Rightarrow> nat \<Rightarrow> 'd \<Rightarrow> 'd \<times> bool" where
  \<comment> \<open>the loop of \<open>flushBuffer\<close> with so many attempts left, and whether the batch was saved;
    \<open>interrupted\<close>: the context ends in the pause after an attempt\<close>
  "insert_attempts db interrupted batch 0 d = (d, False)"
| "insert_attempts db interrupted batch (Suc n) d =
     (case create_in_batches db batch d of
        (d, None) \<Rightarrow> (d, True)
      | (d, Some err) \<Rightarrow> if interrupted n then (d, False) else insert_attempts db interrupted batch n d)"

datatype phase = No_session | In_session | Closing

record 'd proto_consumer =
  pr_batch_size :: nat
  pr_queue :: "proto_danmaku option list"
    \<comment> \<open>\<open>msgChan\<close>\<close>
  pr_closed :: bool
  pr_worker :: "proto_danmaku option list option"
    \<comment> \<open>the buffer of the database worker, while it runs\<close>
  pr_phase :: phase
  pr_cancelled :: bool
    \<comment> \<open>the context of the session\<close>
  pr_panicked :: bool
  pr_db :: 'd
  pr_sent :: "proto_danmaku option list"
    \<comment> \<open>everything that was put into the channel and marked, in order\<close>
  pr_flushed :: "(proto_danmaku option list \<times> bool) list"
    \<comment> \<open>the batches of the worker, and whether they were saved\<close>

definition new_proto_consumer :: "nat \<Rightarrow> 'd \<Rightarrow> 'd proto_consumer" where
  "new_proto_consumer batch_size d =
     \<lparr>pr_batch_size = batch_size, pr_queue = [], pr_closed = False, pr_worker = None, pr_phase = No_session,
      pr_cancelled = False, pr_panicked = False, pr_db = d, pr_sent = [], pr_flushed = []\<rparr>"

definition flush_buffer ::
  "'d bulk_insert \<Rightarrow> (nat \<Rightarrow> bool) \<Rightarrow> proto_danmaku option list \<Rightarrow> 'd proto_consumer \<Rightarrow> 'd proto_consumer" where
  "flush_buffer db interrupted batch c =
     (if length batch = 0 then c
      else
        (case insert_attempts db interrupted batch max_db_retries (pr_db c) of
           (d, saved) \<Rightarrow> c\<lparr>pr_db := d, pr_flushed := pr_flushed c @ [(batch, saved)]\<rparr>))"

definition setup_session :: "'d proto_consumer \<Rightarrow> 'd proto_consumer" where
  "setup_session c = c\<lparr>pr_worker := Some [], pr_phase := In_session, pr_cancelled := False\<rparr>"

definition take_message :: "parser \<Rightarrow> string \<Rightarrow> 'd proto_consumer \<Rightarrow> 'd proto_consumer" where
  \<comment> \<open>a message of a claim that is marked in the end; sending on a closed channel panics\<close>
  "take_message pa payload c =
     (case proto_parse pa payload of
        None \<Rightarrow> c
      | Some danmaku \<Rightarrow>
          if pr_closed c then c\<lparr>pr_panicked := True\<rparr>
          else c\<lparr>pr_queue := pr_queue c @ [danmaku], pr_sent := pr_sent c @ [danmaku]\<rparr>)"

definition close_channel :: "'d proto_consumer \<Rightarrow> 'd proto_consumer" where
  \<comment> \<open>the start of \<open>Cleanup\<close>; closing a closed channel panics\<close>
  "close_channel c =
     (if pr_closed c then c\<lparr>pr_panicked := True\<rparr> else c\<lparr>pr_closed := True, pr_phase := Closing\<rparr>)"

definition worker_receive ::
  "'d bulk_insert \<Rightarrow> (nat \<Rightarrow> bool) \<Rightarrow> proto_danmaku option \<Rightarrow> proto_danmaku option list \<Rightarrow> proto_danmaku option list \<Rightarrow>
   'd proto_consumer \<Rightarrow> 'd proto_consumer" where
  \<comment> \<open>a message from the channel, and what stays in it; the worker's buffer\<close>
  "worker_receive db interrupted msg rest buffer c =
     (let c = c\<lparr>pr_queue := rest\<rparr>; buffer = buffer @ [msg]
      in if length buffer \<ge> pr_batch_size c
         then (flush_buffer db interrupted buffer c)\<lparr>pr_worker := Some []\<rparr>
         else c\<lparr>pr_worker := Some buffer\<rparr>)"

definition worker_tick ::
  "'d bulk_insert \<Rightarrow> (nat \<Rightarrow> bool) \<Rightarrow> proto_danmaku option list \<Rightarrow> 'd proto_consumer \<Rightarrow> 'd proto_consumer" where
  "worker_tick db interrupted buffer c =
     (if length buffer > 0 then (flush_buffer db interrupted buffer c)\<lparr>pr_worker := Some []\<rparr> else c)"

definition worker_exit ::
  "'d bulk_insert \<Rightarrow> (nat \<Rightarrow> bool) \<Rightarrow> proto_danmaku option list \<Rightarrow> 'd proto_consumer \<Rightarrow> 'd proto_consumer" where
  \<comment> \<open>the channel is closed and empty, or the context ended: a last flush\<close>
  "worker_exit db interrupted buffer c = (flush_buffer db interrupted buffer c)\<lparr>pr_worker := None\<rparr>"

inductive proto_step :: "parser \<Rightarrow> 'd bulk_insert \<Rightarrow> 'd proto_consumer \<Rightarrow> 'd proto_consumer \<Rightarrow> bool"
  for pa :: parser and db :: "'d bulk_insert" where
  session_starts: "\<not> pr_panicked c \<Longrightarrow> pr_phase c = No_session \<Longrightarrow> proto_step pa db c (setup_session c)"
| message_read: "\<not> pr_panicked c \<Longrightarrow> pr_phase c = In_session \<Longrightarrow>
    proto_parse pa payload = None \<or> pr_closed c \<or> length (pr_queue c) < channel_buffer_size \<Longrightarrow>
    proto_step pa db c (take_message pa payload c)"
| session_cancelled: "\<not> pr_panicked c \<Longrightarrow> pr_phase c = In_session \<Longrightarrow> proto_step pa db c (c\<lparr>pr_cancelled := True\<rparr>)"
| cleanup_starts: "\<not> pr_panicked c \<Longrightarrow> pr_phase c = In_session \<Longrightarrow> proto_step pa db c (close_channel c)"
| cleanup_ends: "\<not> pr_panicked c \<Longrightarrow> pr_phase c = Closing \<Longrightarrow> pr_worker c = None \<Longrightarrow>
    proto_step pa db c (c\<lparr>pr_phase := No_session\<rparr>)"
| received: "\<not> pr_panicked c \<Longrightarrow> pr_worker c = Some buffer \<Longrightarrow> pr_queue c = msg # rest \<Longrightarrow>
    proto_step pa db c (worker_receive db interrupted msg rest buffer c)"
| channel_closed: "\<not> pr_panicked c \<Longrightarrow> pr_worker c = Some buffer \<Longrightarrow> pr_queue c = [] \<Longrightarrow> pr_closed c \<Longrightarrow>
    proto_step pa db c (worker_exit db interrupted buffer c)"
| ticked: "\<not> pr_panicked c \<Longrightarrow> pr_worker c = Some buffer \<Longrightarrow> proto_step pa db c (worker_tick db interrupted buffer c)"
| context_done: "\<not> pr_panicked c \<Longrightarrow> pr_worker c = Some buffer \<Longrightarrow> pr_cancelled c \<Longrightarrow>
    proto_step pa db c (worker_exit db (\<lambda>_. False) buffer c)"

inductive_cases proto_stepE: "proto_step pa db c c'"

section \<open>Invariants\<close>

definition buffered :: "'d proto_consumer \<Rightarrow> proto_danmaku option list" where
  "buffered c = (case pr_worker c of None \<Rightarrow> [] | Some buffer \<Rightarrow> buffer)"

definition in_order :: "'d proto_consumer \<Rightarrow> bool" where
  \<comment> \<open>what was sent is in the batches of the worker, in its buffer and in the channel, in this order\<close>
  "in_order c \<longleftrightarrow> pr_sent c = concat (map fst (pr_flushed c)) @ buffered c @ pr_queue c"

definition bounded :: "'d proto_consumer \<Rightarrow> bool" where
  "bounded c \<longleftrightarrow> length (pr_queue c) \<le> channel_buffer_size \<and>
     (0 < pr_batch_size c \<longrightarrow> length (buffered c) < pr_batch_size c \<and>
        (\<forall>(batch, saved) \<in> set (pr_flushed c). 0 < length batch \<and> length batch \<le> pr_batch_size c)) \<and>
     (pr_phase c = No_session \<longrightarrow> pr_worker c = None)"

lemma flush_frame [simp]:
  "pr_batch_size (flush_buffer db i b c) = pr_batch_size c" "pr_queue (flush_buffer db i b c) = pr_queue c"
  "pr_closed (flush_buffer db i b c) = pr_closed c" "pr_phase (flush_buffer db i b c) = pr_phase c"
  "pr_sent (flush_buffer db i b c) = pr_sent c" "pr_panicked (flush_buffer db i b c) = pr_panicked c"
  by (simp_all add: flush_buffer_def split: prod.split)

lemma flushed_batch [simp]: "concat (map fst (pr_flushed (flush_buffer db i b c))) = concat (map fst (pr_flushed c)) @ b"
  by (simp add: flush_buffer_def split: prod.split)

lemma flushed_sizes:
  "(batch, saved) \<in> set (pr_flushed (flush_buffer db i b c)) \<Longrightarrow> (batch, saved) \<in> set (pr_flushed c) \<or> batch = b \<and> b \<noteq> []"
  by (auto simp: flush_buffer_def split: prod.splits if_splits)

lemmas proto_defs = setup_session_def take_message_def close_channel_def worker_receive_def worker_tick_def worker_exit_def

lemma step_in_order: "proto_step pa db c c' \<Longrightarrow> in_order c \<Longrightarrow> bounded c \<Longrightarrow> in_order c'"
  by (erule proto_stepE) (auto simp: in_order_def bounded_def buffered_def proto_defs Let_def split: option.splits)

lemma step_bounded: "proto_step pa db c c' \<Longrightarrow> bounded c \<Longrightarrow> bounded c'"
  by (erule proto_stepE)
    (auto simp: bounded_def buffered_def proto_defs Let_def split: option.splits dest!: flushed_sizes)

lemma run_invariants:
  "(proto_step pa db)\<^sup>*\<^sup>* (new_proto_consumer n d) c \<Longrightarrow> in_order c \<and> bounded c"
proof (induction rule: rtranclp_induct)
  case base
  show ?case by (simp add: in_order_def bounded_def buffered_def new_proto_consumer_def)
next
  case (step c c')
  then show ?case using step_in_order step_bounded by blast
qed

lemma step_batch_size: "proto_step pa db c c' \<Longrightarrow> pr_batch_size c' = pr_batch_size c"
  by (erule proto_stepE) (auto simp: proto_defs Let_def split: option.splits)

lemma run_batch_size: "(proto_step pa db)\<^sup>*\<^sup>* (new_proto_consumer n d) c \<Longrightarrow> pr_batch_size c = n"
  by (induction rule: rtranclp_induct) (auto simp: step_batch_size new_proto_consumer_def)

lemma step_closed: "proto_step pa db c c' \<Longrightarrow> pr_closed c \<Longrightarrow> pr_closed c' \<and> pr_sent c' = pr_sent c"
  by (erule proto_stepE) (auto simp: proto_defs Let_def split: option.splits)

lemma run_closed: "(proto_step pa db)\<^sup>*\<^sup>* c c' \<Longrightarrow> pr_closed c \<Longrightarrow> pr_closed c' \<and> pr_sent c' = pr_sent c"
  by (induction rule: rtranclp_induct) (auto dest: step_closed)

lemma insert_refused:
  assumes "\<forall>n d. snd (db batch n d) \<noteq> None" "batch \<noteq> []"
  shows "\<not> snd (insert_attempts db interrupted batch k d)"
  using assms
proof (induction k arbitrary: d)
  case (Suc k)
  obtain d' e where "db batch (length batch) d = (d', Some e)"
    using assms(1) by (metis not_None_eq prod.exhaust_sel)
  then show ?case using Suc by (simp add: create_in_batches_def)
qed simp

definition nil_dropped :: "(proto_danmaku option list \<times> bool) list \<Rightarrow> bool" where
  "nil_dropped flushed \<longleftrightarrow> (\<forall>(batch, saved) \<in> set flushed. None \<in> set batch \<longrightarrow> \<not> saved)"

lemma flush_refused:
  assumes "\<forall>batch n d. None \<in> set batch \<longrightarrow> snd (db batch n d) \<noteq> None" "nil_dropped (pr_flushed c)"
  shows "nil_dropped (pr_flushed (flush_buffer db i b c))"
proof -
  obtain d' saved where ins: "insert_attempts db i b max_db_retries (pr_db c) = (d', saved)" by fastforce
  moreover have "b \<noteq> []" if "None \<in> set b" using that by auto
  ultimately have "None \<in> set b \<longrightarrow> \<not> saved"
    using insert_refused [of db b i max_db_retries "pr_db c"] assms(1) by auto
  then show ?thesis using assms(2) by (auto simp: flush_buffer_def ins nil_dropped_def)
qed

lemma step_refused:
  "proto_step pa db c c' \<Longrightarrow> \<forall>batch n d. None \<in> set batch \<longrightarrow> snd (db batch n d) \<noteq> None \<Longrightarrow>
   nil_dropped (pr_flushed c) \<Longrightarrow> nil_dropped (pr_flushed c')"
  by (elim proto_stepE) (simp_all add: proto_defs Let_def flush_refused split: option.split)

section \<open>Properties\<close>

text \<open>C18: The prototype's consumer keeps the order and stays bounded: in every reachable state, whatever the
  order of claims, worker, timer and cancellation, the danmaku it has marked are, in order, those of the
  batches it has written or dropped, then its buffer, then its channel; nothing is written twice or
  skipped, the channel holds at most 2000 and a batch at most the batch size.\<close>

theorem proto_marks_in_order:
  assumes "(proto_step pa db)\<^sup>*\<^sup>* (new_proto_consumer n d) c" "0 < n"
  shows "pr_sent c = concat (map fst (pr_flushed c)) @ (case pr_worker c of None \<Rightarrow> [] | Some buffer \<Rightarrow> buffer) @ pr_queue c \<and>
    length (pr_queue c) \<le> 2000 \<and> (\<forall>buffer. pr_worker c = Some buffer \<longrightarrow> length buffer < n) \<and>
    (\<forall>(batch, saved) \<in> set (pr_flushed c). 0 < length batch \<and> length batch \<le> n)"
  using run_invariants [OF assms(1)] run_batch_size [OF assms(1)] assms(2)
  by (auto simp: in_order_def bounded_def buffered_def channel_buffer_size_def)

definition demo_danmaku :: proto_danmaku where
  "demo_danmaku = \<lparr>pd_id = 0, pd_room_id = ''r'', pd_user_id = 1, pd_content = ''hi'', pd_send_time = \<lparr>instant = 1, utc_offset = 0\<rparr>\<rparr>"

definition demo_parser :: parser where
  \<comment> \<open>reads the text d as a danmaku, anything else as a packet of another type\<close>
  "demo_parser =
     \<lparr>pa_packet = (\<lambda>text. Some \<lparr>packet_type = (if text = ''d'' then 101 else 102), packet_room_id = ''r'', packet_data = text\<rparr>),
      pa_danmaku = (\<lambda>text. Some demo_danmaku)\<rparr>"

definition demo_db :: "nat bulk_insert" where
  \<comment> \<open>refuses a batch with nil, else counts the rows\<close>
  "demo_db batch n d = (if None \<in> set batch then (d, Some ''slice data is invalid'') else (d + length batch, None))"

definition demo_start :: "nat proto_consumer" where
  "demo_start = setup_session (new_proto_consumer 2 0)"

definition demo_cut :: "nat proto_consumer" where
  \<comment> \<open>a danmaku is read, the session is cancelled, the worker ends, the session ends\<close>
  "demo_cut =
     (close_channel (worker_exit demo_db (\<lambda>_. False) [] ((take_message demo_parser ''d'' demo_start)\<lparr>pr_cancelled := True\<rparr>)))
     \<lparr>pr_phase := No_session\<rparr>"

lemmas demo_eval = demo_start_def demo_cut_def proto_defs new_proto_consumer_def proto_parse_def demo_parser_def type_danmaku_def
  flush_buffer_def

lemma demo_cut_run: "(proto_step demo_parser demo_db)\<^sup>*\<^sup>* (new_proto_consumer 2 0) demo_cut"
proof -
  let ?s1 = "take_message demo_parser ''d'' demo_start"
  let ?s2 = "?s1\<lparr>pr_cancelled := True\<rparr>"
  let ?s3 = "worker_exit demo_db (\<lambda>_. False) [] ?s2"
  have "proto_step demo_parser demo_db (new_proto_consumer 2 0) demo_start"
    unfolding demo_start_def by (rule session_starts) (simp_all add: new_proto_consumer_def)
  moreover have "proto_step demo_parser demo_db demo_start ?s1"
    by (rule message_read) (simp_all add: demo_eval channel_buffer_size_def)
  moreover have "proto_step demo_parser demo_db ?s1 ?s2" by (rule session_cancelled) (simp_all add: demo_eval)
  moreover have "proto_step demo_parser demo_db ?s2 ?s3" by (rule context_done) (simp_all add: demo_eval)
  moreover have "proto_step demo_parser demo_db ?s3 (close_channel ?s3)" by (rule cleanup_starts) (simp_all add: demo_eval)
  moreover have "proto_step demo_parser demo_db (close_channel ?s3) demo_cut"
    unfolding demo_cut_def by (rule cleanup_ends) (simp_all add: demo_eval)
  ultimately show ?thesis by (meson converse_rtranclp_into_rtranclp rtranclp.rtrancl_refl)
qed

theorem proto_marks_in_order_witness:
  "pr_sent demo_cut = [Some demo_danmaku] \<and> length (pr_queue demo_cut) \<le> 2000"
  using proto_marks_in_order [OF demo_cut_run] by (simp add: demo_eval)



text \<open>A danmaku can be marked and lost without a failure of the database: the worker of a cancelled
  session ends while the channel still holds it.\<close>

lemma proto_loses_marked_danmaku:
  "(proto_step demo_parser demo_db)\<^sup>*\<^sup>* (new_proto_consumer 2 0) demo_cut \<and> pr_sent demo_cut = [Some demo_danmaku] \<and>
   pr_flushed demo_cut = [] \<and> pr_worker demo_cut = None \<and> pr_phase demo_cut = No_session \<and> pr_db demo_cut = 0"
  using demo_cut_run by (simp add: demo_eval)

text \<open>A packet that is no danmaku spoils the batch it falls into: it is put into the channel as nil, and as
  the database refuses a batch with a nil row, no batch with one is ever saved; every danmaku in it is
  dropped, though it is marked.\<close>

theorem proto_nil_spoils_batch:
  assumes "(proto_step pa db)\<^sup>*\<^sup>* (new_proto_consumer n d) c"
    "\<forall>batch k d. None \<in> set batch \<longrightarrow> snd (db batch k d) \<noteq> None"
  shows "(\<forall>(batch, saved) \<in> set (pr_flushed c). None \<in> set batch \<longrightarrow> \<not> saved) \<and>
    (\<forall>payload packet. pa_packet pa payload = Some packet \<and> packet_type packet \<noteq> type_danmaku \<and> \<not> pr_closed c \<longrightarrow>
       pr_sent (take_message pa payload c) = pr_sent c @ [None])"
proof -
  have "nil_dropped (pr_flushed c)"
    using assms(1)
  proof (induction rule: rtranclp_induct)
    case base
    show ?case by (simp add: new_proto_consumer_def nil_dropped_def)
  next
    case (step c c')
    show ?case by (rule step_refused [OF step.hyps(2) assms(2) step.IH])
  qed
  then show ?thesis by (auto simp: nil_dropped_def take_message_def proto_parse_def)
qed

definition demo_mixed :: "nat proto_consumer" where
  "demo_mixed =
     worker_receive demo_db (\<lambda>_. False) None [] [Some demo_danmaku]
       (take_message demo_parser ''x'' (worker_receive demo_db (\<lambda>_. False) (Some demo_danmaku) [] []
          (take_message demo_parser ''d'' demo_start)))"

lemma demo_mixed_state:
  "pr_flushed demo_mixed = [([Some demo_danmaku, None], False)] \<and> pr_sent demo_mixed = [Some demo_danmaku, None]"
  by (simp add: demo_mixed_def demo_eval Let_def demo_db_def create_in_batches_def max_db_retries_def numeral_3_eq_3)

theorem proto_nil_spoils_batch_witness:
  "pr_flushed demo_mixed = [([Some demo_danmaku, None], False)] \<and>
   (\<forall>(batch, saved) \<in> set (pr_flushed demo_mixed). None \<in> set batch \<longrightarrow> \<not> saved)"
proof -
  let ?s1 = "take_message demo_parser ''d'' demo_start"
  let ?s2 = "worker_receive demo_db (\<lambda>_. False) (Some demo_danmaku) [] [] ?s1"
  let ?s3 = "take_message demo_parser ''x'' ?s2"
  have "proto_step demo_parser demo_db (new_proto_consumer 2 0) demo_start"
    unfolding demo_start_def by (rule session_starts) (simp_all add: new_proto_consumer_def)
  moreover have "proto_step demo_parser demo_db demo_start ?s1"
    by (rule message_read) (simp_all add: demo_eval channel_buffer_size_def)
  moreover have "proto_step demo_parser demo_db ?s1 ?s2" by (rule received) (simp_all add: demo_eval)
  moreover have "proto_step demo_parser demo_db ?s2 ?s3"
    by (rule message_read) (simp_all add: demo_eval channel_buffer_size_def Let_def)
  moreover have "proto_step demo_parser demo_db ?s3 demo_mixed"
    unfolding demo_mixed_def by (rule received) (simp_all add: demo_eval Let_def)
  ultimately have run: "(proto_step demo_parser demo_db)\<^sup>*\<^sup>* (new_proto_consumer 2 0) demo_mixed"
    by (meson converse_rtranclp_into_rtranclp rtranclp.rtrancl_refl)
  have "\<forall>batch k d. None \<in> set batch \<longrightarrow> snd (demo_db batch k d) \<noteq> None" by (simp add: demo_db_def)
  from proto_nil_spoils_batch [OF run this] demo_mixed_state show ?thesis by blast
qed

end
