(* ===== verification/Proto_Hub.thy ===== *)
theory Proto_Hub
  imports Proto_Consumer Redis
begin

text \<open>
  The realtime server of the original service at the root of the repository: the manager
  (\<open>internal/ws/manager.go\<close>), its clients and message handlers (\<open>client.go\<close>, \<open>dispatcher.go\<close>,
  \<open>router.go\<close>), the upgrade handler (\<open>internal/api/chat_handler.go\<close>) and the Redis and Kafka calls
  (\<open>internal/infra\<close>). Every channel operation and every section under a lock is one step; the loop of the
  manager, the broadcast workers, the subscriptions, the pumps and the statistics interleave. The pool of
  client slices only saves allocations and is left out.
\<close>

section \<open>Redis\<close>

definition proto_channel :: "string \<Rightarrow> string" where
  "proto_channel room = ''room:'' @ room @ '':pubsub''"

definition proto_likes_key :: "string \<Rightarrow> string" where
  "proto_likes_key room = ''room:'' @ room @ '':likes''"

definition proto_server_online_key :: "string \<Rightarrow> string \<Rightarrow> string" where
  "proto_server_online_key room server = ''room:'' @ room @ '':online:'' @ server"

definition proto_servers_key :: "string \<Rightarrow> string" where
  "proto_servers_key room = ''room:'' @ room @ '':servers''"

text \<open>Errors of these calls are logged and forgotten.\<close>

definition proto_publish :: "('r, 'x) redis_ops \<Rightarrow> string \<Rightarrow> string \<Rightarrow> 'r \<Rightarrow> 'r" where
  "proto_publish ops room payload r = fst (rd_publish ops (proto_channel room) payload r)"

definition proto_incr_likes :: "('r, 'x) redis_ops \<Rightarrow> string \<Rightarrow> u64 \<Rightarrow> 'r \<Rightarrow> 'r" where
  "proto_incr_likes ops room n r = fst (rd_incr_by ops (proto_likes_key room) (sint n) r)"

definition proto_update_online :: "('r, 'x) redis_ops \<Rightarrow> string \<Rightarrow> string \<Rightarrow> int \<Rightarrow> duration \<Rightarrow> 'r \<Rightarrow> 'r" where
  "proto_update_online ops room server n ttl r =
     fst (rd_pipeline ops
       [Cmd_set (proto_server_online_key room server) (show_int n) ttl, Cmd_sadd (proto_servers_key room) server] r)"

fun proto_sum_online :: "('r, 'x) redis_ops \<Rightarrow> string \<Rightarrow> (string \<times> mget_value) list \<Rightarrow> u64 \<Rightarrow> 'r \<Rightarrow> 'r \<times> u64" where
  "proto_sum_online ops key [] acc r = (r, acc)"
| "proto_sum_online ops key ((server, value) # rest) acc r =
     (case value of
        Mget_nil \<Rightarrow> proto_sum_online ops key rest acc (fst (rd_srem ops key server r))
      | Mget_other \<Rightarrow> proto_sum_online ops key rest acc r
      | Mget_string s \<Rightarrow>
          proto_sum_online ops key rest (case parse_uint s of None \<Rightarrow> acc | Some n \<Rightarrow> acc + n) r)"

definition proto_total_online :: "('r, 'x) redis_ops \<Rightarrow> string \<Rightarrow> 'r \<Rightarrow> 'r \<times> u64" where
  "proto_total_online ops room r =
     (case rd_smembers ops (proto_servers_key room) r of
        (r, Inl x) \<Rightarrow> (r, 0)
      | (r, Inr servers) \<Rightarrow>
          if servers = [] then (r, 0)
          else
            (case rd_mget ops (map (proto_server_online_key room) servers) r of
               (r, Inl x) \<Rightarrow> (r, 0)
             | (r, Inr values) \<Rightarrow> proto_sum_online ops (proto_servers_key room) (zip servers values) 0 r))"

definition saturating_uint :: "string \<Rightarrow> u64" where
  \<comment> \<open>the value that \<open>strconv.ParseUint\<close> gives beside its error: the largest one when out of range\<close>
  "saturating_uint s =
     (if s = [] \<or> \<not> list_all (\<lambda>c. c \<in> set ''0123456789'') s then 0
      else if digits_value 10 s < 2 ^ 64 then of_nat (digits_value 10 s) else -1)"

definition proto_room_likes :: "('r, 'x) redis_ops \<Rightarrow> string \<Rightarrow> 'r \<Rightarrow> 'r \<times> u64" where
  "proto_room_likes ops room r =
     (case rd_get ops (proto_likes_key room) r of
        (r, Inl x) \<Rightarrow> (r, 0)
      | (r, Inr None) \<Rightarrow> (r, 0)
      | (r, Inr (Some value)) \<Rightarrow> (r, saturating_uint value))"

section \<open>Clients and the manager\<close>

definition send_chan_size :: nat where "send_chan_size = 4096"
definition broadcast_chan_size :: nat where "broadcast_chan_size = 1024"
definition broadcast_job_chan_size :: nat where "broadcast_job_chan_size = 1000"
definition broadcast_interval :: duration where "broadcast_interval = 3 * second"

record proto_client =
  pc_user :: u64
  pc_name :: string
  pc_room :: string
  pc_send :: "string chan"
  pc_done :: bool

definition new_proto_client :: "u64 \<Rightarrow> string \<Rightarrow> string \<Rightarrow> proto_client" where
  "new_proto_client u name room =
     \<lparr>pc_user = u, pc_name = name, pc_room = room, pc_send = make_chan send_chan_size, pc_done = False\<rparr>"

definition proto_close :: "proto_client \<Rightarrow> proto_client" where
  \<comment> \<open>\<open>once.Do\<close>: the channel \<open>done\<close> is closed, \<open>Send\<close> is not\<close>
  "proto_close c = c\<lparr>pc_done := True\<rparr>"

record ('r, 'k) proto_manager =
  pm_server_id :: string
  pm_client_at :: "nat \<Rightarrow> proto_client"
  pm_broadcast :: "packet chan"
  pm_rooms :: "(string, nat list) gomap"
  pm_cancel_sub :: "(string, nat) gomap"
  pm_next_context :: nat
  pm_cancelled :: "nat list"
  pm_subscribers :: "(nat \<times> string) list"
    \<comment> \<open>the goroutines of \<open>subscribeToRoom\<close>, with their contexts\<close>
  pm_jobs :: "(nat list \<times> string) chan"
  pm_working :: "(nat list \<times> string) list"
    \<comment> \<open>what the broadcast workers still have to send\<close>
  pm_local_likes :: "(string, u64) gomap"
  pm_reports :: "((string, u64) gomap \<times> (string \<times> int) list) list"
    \<comment> \<open>the running \<open>broadcastStats\<close>: the drained likes, and the rooms still to report\<close>
  pm_increments :: "(string \<times> u64) list"
    \<comment> \<open>the goroutines of \<open>IncrRoomLikes\<close> that were started\<close>
  pm_redis :: 'r
  pm_kafka :: 'k

record ('r, 'x, 'k) proto_ports =
  pp_redis :: "('r, 'x) redis_ops"
  pp_push :: "string \<Rightarrow> string \<Rightarrow> 'k \<Rightarrow> 'k"
    \<comment> \<open>\<open>producer.Input() <- msg\<close>: topic and value\<close>
  pp_parser :: parser
  pp_like :: "string \<Rightarrow> u64 option"
  pp_enc_packet :: "packet \<Rightarrow> string option"
  pp_enc_danmaku :: "proto_danmaku \<Rightarrow> string option"
  pp_enc_stats :: "stats_data \<Rightarrow> string option"

definition new_proto_manager :: "string \<Rightarrow> nat \<Rightarrow> 'r \<Rightarrow> 'k \<Rightarrow> ('r, 'k) proto_manager" where
  \<comment> \<open>the host name and the random number of the server's id\<close>
  "new_proto_manager hostname random r k =
     \<lparr>pm_server_id = hostname @ ''-'' @ digits 10 (random mod 100000), pm_client_at = (\<lambda>_. new_proto_client 0 [] []),
      pm_broadcast = make_chan broadcast_chan_size, pm_rooms = [], pm_cancel_sub = [], pm_next_context = 0,
      pm_cancelled = [], pm_subscribers = [], pm_jobs = make_chan broadcast_job_chan_size, pm_working = [], pm_local_likes = [],
      pm_reports = [], pm_increments = [], pm_redis = r, pm_kafka = k\<rparr>"

definition client_update :: "nat \<Rightarrow> (proto_client \<Rightarrow> proto_client) \<Rightarrow> ('r, 'k) proto_manager \<Rightarrow> ('r, 'k) proto_manager" where
  "client_update a f m = m\<lparr>pm_client_at := (pm_client_at m)(a := f (pm_client_at m a))\<rparr>"

definition proto_safe_send :: "nat \<Rightarrow> string \<Rightarrow> ('r, 'k) proto_manager \<Rightarrow> ('r, 'k) proto_manager" where
  "proto_safe_send a payload m =
     (case try_send (pc_send (pm_client_at m a)) payload of
        Some ch \<Rightarrow> client_update a (\<lambda>c. c\<lparr>pc_send := ch\<rparr>) m
      | None \<Rightarrow> m)"

definition proto_register :: "nat \<Rightarrow> ('r, 'k) proto_manager \<Rightarrow> ('r, 'k) proto_manager" where
  "proto_register a m =
     (let room = pc_room (pm_client_at m a);
          m = (if gm_has (pm_rooms m) room then m
               else m\<lparr>pm_rooms := AList.update room [] (pm_rooms m),
                      pm_cancel_sub := AList.update room (pm_next_context m) (pm_cancel_sub m),
                      pm_subscribers := (pm_next_context m, room) # pm_subscribers m,
                      pm_next_context := pm_next_context m + 1\<rparr>)
      in m\<lparr>pm_rooms := AList.update room (List.insert a (gm_get [] (pm_rooms m) room)) (pm_rooms m)\<rparr>)"

definition proto_unregister :: "nat \<Rightarrow> ('r, 'k) proto_manager \<Rightarrow> ('r, 'k) proto_manager" where
  "proto_unregister a m =
     (let room = pc_room (pm_client_at m a)
      in (case map_of (pm_rooms m) room of
            None \<Rightarrow> m
          | Some clients \<Rightarrow>
              if a \<notin> set clients then m
              else
                (let left = remove1 a clients;
                     m = client_update a proto_close (m\<lparr>pm_rooms := AList.update room left (pm_rooms m)\<rparr>)
                 in if left = []
                    then m\<lparr>pm_rooms := AList.delete room (pm_rooms m),
                           pm_cancelled := (case map_of (pm_cancel_sub m) room of
                               None \<Rightarrow> pm_cancelled m | Some ctx \<Rightarrow> ctx # pm_cancelled m),
                           pm_cancel_sub := AList.delete room (pm_cancel_sub m)\<rparr>
                    else m)))"

definition proto_local_broadcast :: "string \<Rightarrow> string \<Rightarrow> ('r, 'k) proto_manager \<Rightarrow> ('r, 'k) proto_manager" where
  \<comment> \<open>\<open>broadcastToLocalClients\<close>, in one of the orders of the room's map\<close>
  "proto_local_broadcast room payload m =
     (case map_of (pm_rooms m) room of
        None \<Rightarrow> m
      | Some clients \<Rightarrow>
          (case try_send (pm_jobs m) (clients, payload) of
             Some ch \<Rightarrow> m\<lparr>pm_jobs := ch\<rparr>
           | None \<Rightarrow> m))"

definition danmaku_save_topic :: string where "danmaku_save_topic = ''danmaku_save_topic''"

definition proto_process_danmaku ::
  "('r, 'x, 'k) proto_ports \<Rightarrow> string \<Rightarrow> string \<Rightarrow> ('r, 'k) proto_manager \<Rightarrow> ('r, 'k) proto_manager" where
  "proto_process_danmaku pp room data m =
     m\<lparr>pm_kafka := pp_push pp danmaku_save_topic data (pm_kafka m),
       pm_redis := proto_publish (pp_redis pp) room data (pm_redis m)\<rparr>"

definition proto_handle_broadcast ::
  "('r, 'x, 'k) proto_ports \<Rightarrow> packet \<Rightarrow> ('r, 'k) proto_manager \<Rightarrow> ('r, 'k) proto_manager" where
  "proto_handle_broadcast pp p m =
     (case pp_enc_packet pp p of
        None \<Rightarrow> m
      | Some payload \<Rightarrow>
          if packet_type p = type_danmaku then proto_process_danmaku pp (packet_room_id p) payload m
          else if packet_type p = action_like then m
          else if packet_type p = type_stats then proto_local_broadcast (packet_room_id p) payload m
          else m)"

definition proto_write_next :: "nat \<Rightarrow> ('r, 'k) proto_manager \<Rightarrow> ('r, 'k) proto_manager option" where
  \<comment> \<open>one round of \<open>WritePump\<close>: the message it writes leaves the client's channel\<close>
  "proto_write_next a m =
     (case chan_recv (pc_send (pm_client_at m a)) of
        None \<Rightarrow> None
      | Some (message, ch) \<Rightarrow> Some (client_update a (\<lambda>c. c\<lparr>pc_send := ch\<rparr>) m))"

section \<open>Statistics\<close>

definition proto_begin_stats :: "('r, 'k) proto_manager \<Rightarrow> ('r, 'k) proto_manager" where
  "proto_begin_stats m =
     m\<lparr>pm_reports := pm_reports m @ [(pm_local_likes m, map (\<lambda>(room, clients). (room, int (length clients))) (pm_rooms m))],
       pm_local_likes := []\<rparr>"

definition proto_report_room ::
  "('r, 'x, 'k) proto_ports \<Rightarrow> (string, u64) gomap \<Rightarrow> string \<Rightarrow> int \<Rightarrow> ('r, 'k) proto_manager \<Rightarrow> ('r, 'k) proto_manager" where
  \<comment> \<open>one round of the loop of \<open>broadcastStats\<close>\<close>
  "proto_report_room pp likes room n m =
     (let ops = pp_redis pp;
          r = proto_update_online ops room (pm_server_id m) n (broadcast_interval * 2 + second) (pm_redis m);
          (r, online) = proto_total_online ops room r;
          (r, total_likes) = proto_room_likes ops room r;
          m = m\<lparr>pm_redis := r,
                pm_increments := (if gm_has likes room \<and> gm_get 0 likes room > 0
                  then pm_increments m @ [(room, gm_get 0 likes room)] else pm_increments m)\<rparr>;
          data = (case pp_enc_stats pp \<lparr>stats_online = online, stats_likes = total_likes\<rparr> of None \<Rightarrow> [] | Some d \<Rightarrow> d)
      in (case pp_enc_packet pp \<lparr>packet_type = type_stats, packet_room_id = room, packet_data = data\<rparr> of
            None \<Rightarrow> m
          | Some payload \<Rightarrow> proto_local_broadcast room payload m))"

section \<open>Messages of clients\<close>

datatype proto_action =
    Broadcast_packet packet
  | Add_likes string u64
  | Ignored

definition danmaku_action :: "('r, 'x, 'k) proto_ports \<Rightarrow> proto_client \<Rightarrow> zoned_time \<Rightarrow> string \<Rightarrow> proto_action" where
  \<comment> \<open>the handler registered for \<open>TypeDanmaku\<close>\<close>
  "danmaku_action pp c now data =
     (case pa_danmaku (pp_parser pp) data of
        None \<Rightarrow> Ignored
      | Some input \<Rightarrow>
          (let full = \<lparr>pd_id = 0, pd_room_id = pc_room c, pd_user_id = pc_user c, pd_content = pd_content input, pd_send_time = now\<rparr>
           in Broadcast_packet
                \<lparr>packet_type = type_danmaku, packet_room_id = pc_room c,
                 packet_data = (case pp_enc_danmaku pp full of None \<Rightarrow> [] | Some d \<Rightarrow> d)\<rparr>))"

definition like_action :: "('r, 'x, 'k) proto_ports \<Rightarrow> proto_client \<Rightarrow> string \<Rightarrow> proto_action" where
  \<comment> \<open>the handler registered for \<open>ActionLike\<close>\<close>
  "like_action pp c data =
     (let n = (case pp_like pp data of None \<Rightarrow> 1 | Some n \<Rightarrow> n)
      in Add_likes (pc_room c) (if n = 0 then 1 else n))"

definition dispatch :: "('r, 'x, 'k) proto_ports \<Rightarrow> proto_client \<Rightarrow> zoned_time \<Rightarrow> packet \<Rightarrow> proto_action" where
  "dispatch pp c now p =
     (if packet_type p = type_danmaku then danmaku_action pp c now (packet_data p)
      else if packet_type p = action_like then like_action pp c (packet_data p)
      else Ignored)"

definition proto_read :: "('r, 'x, 'k) proto_ports \<Rightarrow> proto_client \<Rightarrow> zoned_time \<Rightarrow> string \<Rightarrow> proto_action" where
  \<comment> \<open>one message in \<open>ReadPump\<close>\<close>
  "proto_read pp c now text =
     (case pa_packet (pp_parser pp) text of
        None \<Rightarrow> Ignored
      | Some p \<Rightarrow> dispatch pp c now p)"

definition perform :: "proto_action \<Rightarrow> ('r, 'k) proto_manager \<Rightarrow> ('r, 'k) proto_manager option" where
  \<comment> \<open>what a handler does to the manager; \<open>None\<close>: it waits for the broadcast channel\<close>
  "perform action m =
     (case action of
        Ignored \<Rightarrow> Some m
      | Add_likes room n \<Rightarrow>
          Some (m\<lparr>pm_local_likes := AList.update room (gm_get 0 (pm_local_likes m) room + n) (pm_local_likes m)\<rparr>)
      | Broadcast_packet p \<Rightarrow> map_option (\<lambda>ch. m\<lparr>pm_broadcast := ch\<rparr>) (try_send (pm_broadcast m) p))"

datatype upgrade_answer =
    Bad_request string
  | Not_upgraded
  | Connected proto_client

definition connect_websocket :: "string \<Rightarrow> string \<Rightarrow> string \<Rightarrow> bool \<Rightarrow> upgrade_answer" where
  \<comment> \<open>the query's uid, name and room, and whether the upgrade succeeds\<close>
  "connect_websocket uid_text name room upgraded =
     (if uid_text = [] \<or> room = [] then Bad_request ''Missing uid or room''
      else
        (case parse_uint uid_text of
           None \<Rightarrow> Bad_request ''Invalid uid format, must be numeric''
         | Some u \<Rightarrow> if upgraded then Connected (new_proto_client u name room) else Not_upgraded))"

section \<open>The system\<close>

definition seated :: "nat \<Rightarrow> ('r, 'k) proto_manager \<Rightarrow> bool" where
  \<comment> \<open>the client is in a room\<close>
  "seated a m \<longleftrightarrow> (\<exists>(room, clients) \<in> set (pm_rooms m). a \<in> set clients)"

definition in_flight :: "nat \<Rightarrow> ('r, 'k) proto_manager \<Rightarrow> bool" where
  \<comment> \<open>a job or a worker still has the client\<close>
  "in_flight a m \<longleftrightarrow> (\<exists>(clients, payload) \<in> set (chan_buf (pm_jobs m)) \<union> set (pm_working m). a \<in> set clients)"

inductive proto_hub_step ::
  "('r, 'x, 'k) proto_ports \<Rightarrow> ('r, 'k) proto_manager \<Rightarrow> ('r, 'k) proto_manager \<Rightarrow> bool" for pp where
  joins: "\<not> seated a m \<Longrightarrow> \<not> in_flight a m \<Longrightarrow> connect_websocket uid_text name room True = Connected c \<Longrightarrow>
    proto_hub_step pp m (proto_register a (client_update a (\<lambda>_. c) m))"
| leaves: "proto_hub_step pp m (proto_unregister a m)"
| reads: "seated a m \<Longrightarrow> perform (proto_read pp (pm_client_at m a) now text) m = Some m' \<Longrightarrow> proto_hub_step pp m m'"
| broadcasts: "chan_recv (pm_broadcast m) = Some (p, q) \<Longrightarrow>
    proto_hub_step pp m (proto_handle_broadcast pp p (m\<lparr>pm_broadcast := q\<rparr>))"
| receives: "(ctx, room) \<in> set (pm_subscribers m) \<Longrightarrow> proto_hub_step pp m (proto_local_broadcast room payload m)"
| unsubscribes: "pm_subscribers m = before @ (ctx, room) # after \<Longrightarrow> ctx \<in> set (pm_cancelled m) \<Longrightarrow>
    proto_hub_step pp m (m\<lparr>pm_subscribers := before @ after\<rparr>)"
| takes_job: "chan_recv (pm_jobs m) = Some (job, q) \<Longrightarrow> proto_hub_step pp m (m\<lparr>pm_jobs := q, pm_working := job # pm_working m\<rparr>)"
| sends: "pm_working m = before @ (a # clients, payload) # after \<Longrightarrow>
    proto_hub_step pp m ((proto_safe_send a payload m)\<lparr>pm_working := before @ (clients, payload) # after\<rparr>)"
| finishes_job: "pm_working m = before @ ([], payload) # after \<Longrightarrow> proto_hub_step pp m (m\<lparr>pm_working := before @ after\<rparr>)"
| writes: "proto_write_next a m = Some m' \<Longrightarrow> proto_hub_step pp m m'"
| ticks: "proto_hub_step pp m (proto_begin_stats m)"
| reports: "pm_reports m = before @ (likes, (room, n) # rest) # after \<Longrightarrow>
    proto_hub_step pp m ((proto_report_room pp likes room n m)\<lparr>pm_reports := before @ (likes, rest) # after\<rparr>)"
| reported: "pm_reports m = before @ (likes, []) # after \<Longrightarrow> proto_hub_step pp m (m\<lparr>pm_reports := before @ after\<rparr>)"
| increments: "pm_increments m = before @ (room, n) # after \<Longrightarrow>
    proto_hub_step pp m (m\<lparr>pm_increments := before @ after, pm_redis := proto_incr_likes (pp_redis pp) room n (pm_redis m)\<rparr>)"

inductive_cases proto_hub_stepE: "proto_hub_step pp m m'"

section \<open>Rooms\<close>

definition proto_topology where
  "proto_topology m =
     (pm_rooms m, pm_cancel_sub m, pm_next_context m, pm_cancelled m, pm_subscribers m,
      \<lambda>a. (pc_room (pm_client_at m a), pc_done (pm_client_at m a)))"

definition seats_ok :: "('r, 'k) proto_manager \<Rightarrow> bool" where
  "seats_ok m \<longleftrightarrow>
     gm_wf (pm_rooms m) \<and>
     (\<forall>room clients. map_of (pm_rooms m) room = Some clients \<longrightarrow>
        clients \<noteq> [] \<and> distinct clients \<and>
        (\<forall>a \<in> set clients. pc_room (pm_client_at m a) = room \<and> \<not> pc_done (pm_client_at m a)))"

definition subs_ok :: "('r, 'k) proto_manager \<Rightarrow> bool" where
  "subs_ok m \<longleftrightarrow>
     (\<forall>room ctx. map_of (pm_cancel_sub m) room = Some ctx \<longleftrightarrow>
        (ctx, room) \<in> set (pm_subscribers m) \<and> ctx \<notin> set (pm_cancelled m)) \<and>
     inj_on fst (set (pm_subscribers m)) \<and>
     (\<forall>ctx \<in> set (pm_cancelled m) \<union> fst ` set (pm_subscribers m). ctx < pm_next_context m)"

definition subscribed :: "('r, 'k) proto_manager \<Rightarrow> bool" where
  "subscribed m \<longleftrightarrow> (\<forall>room. (map_of (pm_cancel_sub m) room = None) = (map_of (pm_rooms m) room = None))"

definition proto_rooms_inv :: "('r, 'k) proto_manager \<Rightarrow> bool" where
  "proto_rooms_inv m \<longleftrightarrow> seats_ok m \<and> subs_ok m \<and> subscribed m"

lemma subs_ok_frame:
  "pm_cancel_sub m' = pm_cancel_sub m \<Longrightarrow> pm_subscribers m' = pm_subscribers m \<Longrightarrow> pm_cancelled m' = pm_cancelled m \<Longrightarrow>
   pm_next_context m' = pm_next_context m \<Longrightarrow> subs_ok m' = subs_ok m"
  by (simp only: subs_ok_def)

lemma subs_okI:
  assumes "\<And>room ctx. map_of (pm_cancel_sub m) room = Some ctx \<longleftrightarrow>
      (ctx, room) \<in> set (pm_subscribers m) \<and> ctx \<notin> set (pm_cancelled m)"
    "inj_on fst (set (pm_subscribers m))" "\<forall>ctx \<in> set (pm_cancelled m) \<union> fst ` set (pm_subscribers m). ctx < pm_next_context m"
  shows "subs_ok m"
  unfolding subs_ok_def using assms by blast

lemma proto_rooms_inv_topology:
  assumes "proto_topology m' = proto_topology m" "proto_rooms_inv m"
  shows "proto_rooms_inv m'"
proof -
  have same: "pm_rooms m' = pm_rooms m" "pm_cancel_sub m' = pm_cancel_sub m" "pm_next_context m' = pm_next_context m"
    "pm_cancelled m' = pm_cancelled m" "pm_subscribers m' = pm_subscribers m"
    and client: "(\<lambda>a. (pc_room (pm_client_at m' a), pc_done (pm_client_at m' a))) = (\<lambda>a. (pc_room (pm_client_at m a), pc_done (pm_client_at m a)))"
    using assms(1) by (simp_all add: proto_topology_def)
  have "pc_room (pm_client_at m' a) = pc_room (pm_client_at m a)" "pc_done (pm_client_at m' a) = pc_done (pm_client_at m a)" for a
    using fun_cong [OF client, of a] by simp_all
  then have "seats_ok m' = seats_ok m" "subscribed m' = subscribed m" by (simp_all add: seats_ok_def subscribed_def same)
  then show ?thesis using assms(2) subs_ok_frame [OF same(2,5,4,3)] by (simp add: proto_rooms_inv_def)
qed

lemma topology_send: "proto_topology (proto_safe_send a payload m) = proto_topology m"
  by (simp add: proto_safe_send_def client_update_def proto_topology_def fun_eq_iff split: option.split)

lemma topology_local_broadcast: "proto_topology (proto_local_broadcast room payload m) = proto_topology m"
  by (simp add: proto_local_broadcast_def proto_topology_def split: option.split)

lemma topology_frames:
  "proto_topology (m\<lparr>pm_broadcast := bq\<rparr>) = proto_topology m" "proto_topology (m\<lparr>pm_jobs := jq\<rparr>) = proto_topology m"
  "proto_topology (m\<lparr>pm_working := w\<rparr>) = proto_topology m" "proto_topology (m\<lparr>pm_local_likes := l\<rparr>) = proto_topology m"
  "proto_topology (m\<lparr>pm_reports := r\<rparr>) = proto_topology m" "proto_topology (m\<lparr>pm_increments := i\<rparr>) = proto_topology m"
  "proto_topology (m\<lparr>pm_redis := rd\<rparr>) = proto_topology m" "proto_topology (m\<lparr>pm_kafka := k\<rparr>) = proto_topology m"
  by (simp_all add: proto_topology_def)

lemma topology_handle_broadcast: "proto_topology (proto_handle_broadcast pp p m) = proto_topology m"
  by (simp add: proto_handle_broadcast_def proto_process_danmaku_def topology_local_broadcast topology_frames split: option.split)

lemma topology_report: "proto_topology (proto_report_room pp likes room n m) = proto_topology m"
  by (simp add: proto_report_room_def Let_def topology_local_broadcast topology_frames split: option.split prod.split)

lemma topology_perform: "perform action m = Some m' \<Longrightarrow> proto_topology m' = proto_topology m"
  by (auto simp: perform_def topology_frames split: proto_action.splits)

lemma topology_write: "proto_write_next a m = Some m' \<Longrightarrow> proto_topology m' = proto_topology m"
  by (auto simp: proto_write_next_def client_update_def proto_topology_def fun_eq_iff split: option.splits if_splits)

lemma proto_rooms_inv_register:
  assumes "proto_rooms_inv m" "\<not> pc_done (pm_client_at m a)"
  shows "proto_rooms_inv (proto_register a m)"
proof -
  define room where "room = pc_room (pm_client_at m a)"
  have m: "seats_ok m" "subs_ok m" "subscribed m" using assms(1) by (simp_all add: proto_rooms_inv_def)
  show ?thesis
  proof (cases "map_of (pm_rooms m) room")
    case (Some clients)
    then have reg: "proto_register a m = m\<lparr>pm_rooms := AList.update room (List.insert a clients) (pm_rooms m)\<rparr>"
      by (simp add: proto_register_def Let_def gm_has_def gm_get_def room_def)
    have "List.insert a clients \<noteq> []" by (auto simp: List.insert_def)
    then have "seats_ok (proto_register a m)"
      using m(1) Some assms(2) by (auto simp: reg seats_ok_def update_conv' room_def)
    moreover have "subs_ok (proto_register a m)" using m(2) subs_ok_frame [of "proto_register a m" m] by (simp add: reg)
    moreover have "subscribed (proto_register a m)" using m(3) Some by (auto simp: reg subscribed_def update_conv')
    ultimately show ?thesis by (simp add: proto_rooms_inv_def)
  next
    case None
    define ctx where "ctx = pm_next_context m"
    have reg: "proto_register a m =
        m\<lparr>pm_rooms := AList.update room [a] (AList.update room [] (pm_rooms m)),
          pm_cancel_sub := AList.update room ctx (pm_cancel_sub m), pm_subscribers := (ctx, room) # pm_subscribers m,
          pm_next_context := ctx + 1\<rparr>"
      using None by (simp add: proto_register_def Let_def room_def [symmetric] ctx_def [symmetric] gm_get_update gm_has_def)
    have "seats_ok (proto_register a m)"
      using m(1) assms(2) by (auto simp: reg seats_ok_def update_conv' room_def)
    moreover have "subscribed (proto_register a m)" using m(3) by (simp add: reg subscribed_def update_conv')
    moreover have "subs_ok (proto_register a m)"
    proof -
      have no_sub: "map_of (pm_cancel_sub m) room = None" using m(3) None by (simp add: subscribed_def)
      have "ctx \<notin> set (pm_cancelled m) \<union> fst ` set (pm_subscribers m)"
        using m(2) less_irrefl unfolding subs_ok_def ctx_def by metis
      then have fresh: "ctx \<notin> set (pm_cancelled m)" "(ctx, r) \<notin> set (pm_subscribers m)" for r by force+
      have "\<forall>c \<in> set (pm_cancelled m) \<union> fst ` set (pm_subscribers m). c < ctx + 1"
        using m(2) by (auto simp: subs_ok_def ctx_def less_Suc_eq)
      moreover have "c \<in> set (pm_cancelled m)" if "(c, room) \<in> set (pm_subscribers m)" for c
        using m(2) no_sub that by (metis option.distinct(1) subs_ok_def)
      moreover have "inj_on fst (set ((ctx, room) # pm_subscribers m))"
        using m(2) fresh by (auto simp: subs_ok_def image_iff)
      moreover have "(if r = room then Some ctx else map_of (pm_cancel_sub m) r) = Some c \<longleftrightarrow>
          (c, r) \<in> set ((ctx, room) # pm_subscribers m) \<and> c \<notin> set (pm_cancelled m)" for r c
        using m(2) fresh calculation(2) by (auto simp: subs_ok_def)
      ultimately show ?thesis unfolding reg subs_ok_def by (simp add: update_conv')
    qed
    ultimately show ?thesis by (simp add: proto_rooms_inv_def)
  qed
qed

lemma subs_ok_cancel:
  assumes ok: "subs_ok m" and ctx: "map_of (pm_cancel_sub m) room = Some ctx"
    and m': "pm_cancel_sub m' = AList.delete room (pm_cancel_sub m)" "pm_cancelled m' = ctx # pm_cancelled m"
      "pm_subscribers m' = pm_subscribers m" "pm_next_context m' = pm_next_context m"
  shows "subs_ok m'"
proof -
  have sub: "(ctx, room) \<in> set (pm_subscribers m)" using ok ctx by (simp add: subs_ok_def)
  then have "ctx < pm_next_context m" using ok by (force simp: subs_ok_def)
  moreover have only: "r = room" if "(ctx, r) \<in> set (pm_subscribers m)" for r
    using inj_onD [of fst "set (pm_subscribers m)" "(ctx, r)" "(ctx, room)"] ok sub that by (simp add: subs_ok_def)
  ultimately have bound: "\<forall>c \<in> set (ctx # pm_cancelled m) \<union> fst ` set (pm_subscribers m). c < pm_next_context m"
    using ok by (simp add: subs_ok_def)
  have one: "c = ctx" if "(c, room) \<in> set (pm_subscribers m)" "c \<notin> set (pm_cancelled m)" for c
    using that ctx ok by (metis option.inject subs_ok_def)
  have iff: "((map_of (pm_cancel_sub m))(room := None)) r = Some c \<longleftrightarrow>
      (c, r) \<in> set (pm_subscribers m) \<and> c \<notin> set (ctx # pm_cancelled m)" for r c
  proof (cases "r = room")
    case True
    then show ?thesis using one [of c] by auto
  next
    case False
    have "map_of (pm_cancel_sub m) r = Some c \<longleftrightarrow> (c, r) \<in> set (pm_subscribers m) \<and> c \<notin> set (pm_cancelled m)"
      using ok by (simp only: subs_ok_def)
    then show ?thesis using False only [of r] by auto
  qed
  show ?thesis
  proof (rule subs_okI)
    show "inj_on fst (set (pm_subscribers m'))" using ok by (simp add: m' subs_ok_def)
  qed (unfold m' delete_conv', use iff bound in simp_all)
qed

lemma proto_rooms_inv_unregister:
  assumes "proto_rooms_inv m"
  shows "proto_rooms_inv (proto_unregister a m)"
proof -
  define room where "room = pc_room (pm_client_at m a)"
  have m: "seats_ok m" "subs_ok m" "subscribed m" using assms(1) by (simp_all add: proto_rooms_inv_def)
  show ?thesis
  proof (cases "\<exists>clients. map_of (pm_rooms m) room = Some clients \<and> a \<in> set clients")
    case False
    then have "proto_unregister a m = m"
      unfolding proto_unregister_def Let_def room_def [symmetric] by (auto split: option.split)
    then show ?thesis using assms by simp
  next
    case True
    then obtain clients where cs: "map_of (pm_rooms m) room = Some clients" "a \<in> set clients" by blast
    have d: "distinct clients" using m(1) cs(1) by (simp add: seats_ok_def)
    have others: "a \<notin> set cs'" if "map_of (pm_rooms m) r = Some cs'" "r \<noteq> room" for r cs'
      using m(1) that by (auto simp: seats_ok_def room_def)
    show ?thesis
    proof (cases "remove1 a clients = []")
      case False
      have un: "proto_unregister a m =
          client_update a proto_close (m\<lparr>pm_rooms := AList.update room (remove1 a clients) (pm_rooms m)\<rparr>)"
        using cs False by (simp add: proto_unregister_def room_def [symmetric] Let_def)
      have "seats_ok (proto_unregister a m)" using m(1) cs d False others
        by (auto simp: un seats_ok_def client_update_def proto_close_def update_conv' dest: in_set_remove1 [THEN iffD1])
      moreover have "subs_ok (proto_unregister a m)" using m(2) subs_ok_frame [of "proto_unregister a m" m]
        by (simp add: un client_update_def)
      moreover have "subscribed (proto_unregister a m)" using m(3) cs(1) by (auto simp: un subscribed_def client_update_def update_conv')
      ultimately show ?thesis by (simp add: proto_rooms_inv_def)
    next
      case empty: True
      obtain ctx where ctx: "map_of (pm_cancel_sub m) room = Some ctx"
        using m(3) cs(1) by (metis not_Some_eq option.distinct(1) subscribed_def)
      have un: "proto_unregister a m =
          (client_update a proto_close m)
          \<lparr>pm_rooms := AList.delete room (AList.update room (remove1 a clients) (pm_rooms m)),
           pm_cancelled := ctx # pm_cancelled m, pm_cancel_sub := AList.delete room (pm_cancel_sub m)\<rparr>"
        using cs ctx empty by (simp add: proto_unregister_def room_def [symmetric] Let_def client_update_def)
      have "seats_ok (proto_unregister a m)" using m(1) others
        by (auto simp: un seats_ok_def client_update_def proto_close_def update_conv' delete_conv')
      moreover have "subscribed (proto_unregister a m)" using m(3)
        by (auto simp: un subscribed_def client_update_def update_conv' delete_conv')
      moreover have "subs_ok (proto_unregister a m)"
        by (rule subs_ok_cancel [OF m(2) ctx]) (simp_all add: un client_update_def)
      ultimately show ?thesis by (simp add: proto_rooms_inv_def)
    qed
  qed
qed

lemma proto_rooms_inv_step:
  assumes "proto_hub_step pp m m'" "proto_rooms_inv m"
  shows "proto_rooms_inv m'"
proof -
  have same: "proto_topology m' = proto_topology m \<Longrightarrow> ?thesis" using proto_rooms_inv_topology assms(2) by blast
  show ?thesis using assms(1)
  proof cases
    case (joins a uid_text name room c)
    have "a \<notin> set clients" if "map_of (pm_rooms m) r = Some clients" for r clients
      using joins(2) that by (auto simp: seated_def dest!: map_of_SomeD)
    then have "seats_ok (client_update a (\<lambda>_. c) m)" "subscribed (client_update a (\<lambda>_. c) m)"
      using assms(2) by (auto simp: proto_rooms_inv_def seats_ok_def subscribed_def client_update_def)
    moreover have "subs_ok (client_update a (\<lambda>_. c) m)"
      using assms(2) subs_ok_frame [of "client_update a (\<lambda>_. c) m" m] by (simp add: proto_rooms_inv_def client_update_def)
    moreover have "\<not> pc_done c"
      using joins(4) by (auto simp: connect_websocket_def new_proto_client_def split: if_splits option.splits)
    ultimately show ?thesis unfolding joins(1)
      by (intro proto_rooms_inv_register) (simp_all add: proto_rooms_inv_def client_update_def)
  next
    case (leaves a)
    then show ?thesis using proto_rooms_inv_unregister [OF assms(2)] by simp
  next
    case (reads a now message)
    then show ?thesis using same topology_perform by blast
  next
    case (unsubscribes before ctx room after)
    have m: "seats_ok m" "subs_ok m" "subscribed m" using assms(2) by (simp_all add: proto_rooms_inv_def)
    have f: "pm_cancel_sub m' = pm_cancel_sub m" "pm_cancelled m' = pm_cancelled m"
      "pm_subscribers m' = before @ after" "pm_next_context m' = pm_next_context m"
      using unsubscribes by simp_all
    have "subs_ok m'"
    proof (rule subs_okI)
      have "inj_on fst (set (pm_subscribers m))" using m(2) by (simp only: subs_ok_def)
      then show "inj_on fst (set (pm_subscribers m'))"
        unfolding f unsubscribes(2) by (rule inj_on_subset) auto
      show "map_of (pm_cancel_sub m') r = Some c \<longleftrightarrow> (c, r) \<in> set (pm_subscribers m') \<and> c \<notin> set (pm_cancelled m')" for r c
        using m(2) unsubscribes(3) unfolding f subs_ok_def unsubscribes(2) by auto
      show "\<forall>c \<in> set (pm_cancelled m') \<union> fst ` set (pm_subscribers m'). c < pm_next_context m'"
        using m(2) unfolding f subs_ok_def unsubscribes(2) by auto
    qed
    moreover have "seats_ok m'" "subscribed m'" using m(1,3) unsubscribes(1) by (simp_all add: seats_ok_def subscribed_def)
    ultimately show ?thesis by (simp add: proto_rooms_inv_def)
  next
    case (writes a)
    then show ?thesis using same topology_write by blast
  next
    case ticks
    then show ?thesis by (intro same) (simp add: proto_begin_stats_def proto_topology_def)
  qed (rule same; simp add: topology_frames topology_local_broadcast topology_handle_broadcast topology_report topology_send)+
qed

lemma proto_rooms_inv_new: "proto_rooms_inv (new_proto_manager hostname random r k)"
  by (simp add: proto_rooms_inv_def seats_ok_def subs_ok_def subscribed_def new_proto_manager_def)

section \<open>Queues\<close>

definition chan_ok :: "nat \<Rightarrow> 'a chan \<Rightarrow> bool" where
  "chan_ok n ch \<longleftrightarrow> chan_wf ch \<and> chan_cap ch = n"

lemma chan_ok_send: "chan_ok n ch \<Longrightarrow> try_send ch x = Some ch' \<Longrightarrow> chan_ok n ch'"
  by (auto simp: chan_ok_def chan_wf_def try_send_Some)

lemma chan_ok_recv: "chan_ok n ch \<Longrightarrow> chan_recv ch = Some (x, ch') \<Longrightarrow> chan_ok n ch'"
  by (auto simp: chan_ok_def chan_wf_def split: list.splits)

lemma chan_ok_length: "chan_ok n ch \<Longrightarrow> length (chan_buf ch) \<le> n"
  by (simp add: chan_ok_def chan_wf_def)

lemma chan_ok_make [simp]: "chan_ok n (make_chan n)"
  by (simp add: chan_ok_def make_chan_def chan_wf_def)

definition queues_ok :: "('r, 'k) proto_manager \<Rightarrow> bool" where
  "queues_ok m \<longleftrightarrow>
     chan_ok broadcast_chan_size (pm_broadcast m) \<and> chan_ok broadcast_job_chan_size (pm_jobs m) \<and>
     (\<forall>a. chan_ok send_chan_size (pc_send (pm_client_at m a)))"

lemma queues_send: "queues_ok m \<Longrightarrow> queues_ok (proto_safe_send a payload m)"
  by (auto simp: queues_ok_def proto_safe_send_def client_update_def intro: chan_ok_send split: option.splits)

lemma queues_local_broadcast: "queues_ok m \<Longrightarrow> queues_ok (proto_local_broadcast room payload m)"
  by (auto simp: queues_ok_def proto_local_broadcast_def intro: chan_ok_send split: option.splits)

lemma queues_frames:
  "queues_ok (m\<lparr>pm_working := w\<rparr>) = queues_ok m" "queues_ok (m\<lparr>pm_local_likes := l\<rparr>) = queues_ok m"
  "queues_ok (m\<lparr>pm_reports := r\<rparr>) = queues_ok m" "queues_ok (m\<lparr>pm_increments := i\<rparr>) = queues_ok m"
  "queues_ok (m\<lparr>pm_redis := rd\<rparr>) = queues_ok m" "queues_ok (m\<lparr>pm_kafka := k\<rparr>) = queues_ok m"
  "queues_ok (m\<lparr>pm_subscribers := s\<rparr>) = queues_ok m"
  by (simp_all add: queues_ok_def)

lemma queues_recv:
  "chan_recv (pm_broadcast m) = Some (x, q) \<Longrightarrow> queues_ok m \<Longrightarrow> queues_ok (m\<lparr>pm_broadcast := q\<rparr>)"
  "chan_recv (pm_jobs m) = Some (y, q') \<Longrightarrow> queues_ok m \<Longrightarrow> queues_ok (m\<lparr>pm_jobs := q'\<rparr>)"
  "chan_recv (pc_send (pm_client_at m a)) = Some (z, q'') \<Longrightarrow> queues_ok m \<Longrightarrow>
     queues_ok (client_update a (\<lambda>c. c\<lparr>pc_send := q''\<rparr>) m)"
  by (auto simp: queues_ok_def client_update_def simp del: chan_recv.simps intro: chan_ok_recv)

lemma queues_step:
  assumes "proto_hub_step pp m m'" "queues_ok m"
  shows "queues_ok m'"
  using assms(1)
proof cases
  case (joins a uid_text name room c)
  then show ?thesis using assms(2)
    by (auto simp: queues_ok_def connect_websocket_def new_proto_client_def client_update_def proto_register_def Let_def
        split: if_splits option.splits)
next
  case (leaves a)
  then show ?thesis using assms(2)
    by (auto simp: queues_ok_def proto_unregister_def client_update_def proto_close_def Let_def split: option.splits)
next
  case (reads a now message)
  then show ?thesis using assms(2)
    by (auto simp: perform_def queues_ok_def intro: chan_ok_send split: proto_action.splits)
next
  case (broadcasts p q)
  then show ?thesis using queues_recv(1) [OF broadcasts(2) assms(2)]
    by (simp add: proto_handle_broadcast_def proto_process_danmaku_def queues_local_broadcast queues_frames split: option.split)
next
  case (takes_job job q)
  then show ?thesis using queues_recv(2) [OF takes_job(2) assms(2)] queues_frames(1) [where m = "m\<lparr>pm_jobs := q\<rparr>"] by simp
next
  case (writes a)
  then show ?thesis using queues_recv(3) [OF _ assms(2)]
    by (auto simp: proto_write_next_def simp del: chan_recv.simps split: option.splits)
next
  case ticks
  then show ?thesis using assms(2) by (simp add: queues_ok_def proto_begin_stats_def)
next
  case (reports before likes room n rest after)
  then show ?thesis using assms(2)
    by (simp add: proto_report_room_def Let_def queues_frames queues_local_broadcast split: option.split prod.split)
qed (use assms(2) in \<open>simp_all add: queues_frames queues_local_broadcast queues_send\<close>)

lemma proto_hub_invariants:
  "(proto_hub_step pp)\<^sup>*\<^sup>* (new_proto_manager hostname random r k) m \<Longrightarrow> proto_rooms_inv m \<and> queues_ok m"
proof (induction rule: rtranclp_induct)
  case base
  have "queues_ok (new_proto_manager hostname random r k)"
    by (simp add: queues_ok_def new_proto_manager_def new_proto_client_def)
  then show ?case by (simp add: proto_rooms_inv_new)
next
  case (step m m')
  then show ?case using proto_rooms_inv_step queues_step by blast
qed

section \<open>Records\<close>

definition proto_codec_laws :: "('r, 'x, 'k) proto_ports \<Rightarrow> bool" where
  \<comment> \<open>what \<open>encoding/json\<close> keeps: the user of a danmaku (the texts may be made valid UTF-8), the type of a
    packet and data that \<open>json.Marshal\<close> made; the clock is before the year 10000\<close>
  "proto_codec_laws pp \<longleftrightarrow>
     (\<forall>d. \<exists>s d'. pp_enc_danmaku pp d = Some s \<and> pa_danmaku (pp_parser pp) s = Some d' \<and> pd_user_id d' = pd_user_id d) \<and>
     (\<forall>p d s. packet_type p = type_danmaku \<and> pp_enc_danmaku pp d = Some (packet_data p) \<and> pp_enc_packet pp p = Some s \<longrightarrow>
        (\<exists>p'. pa_packet (pp_parser pp) s = Some p' \<and> packet_type p' = type_danmaku \<and> packet_data p' = packet_data p))"

definition server_packet :: "('r, 'x, 'k) proto_ports \<Rightarrow> packet \<Rightarrow> bool" where
  "server_packet pp p \<longleftrightarrow>
     packet_type p = type_danmaku \<and> (\<exists>d. pp_enc_danmaku pp d = Some (packet_data p) \<and> pd_room_id d = packet_room_id p)"

lemma read_packet:
  assumes "proto_codec_laws pp" "proto_read pp c now message = Broadcast_packet p"
  shows "server_packet pp p \<and> packet_room_id p = pc_room c \<and>
    (\<exists>d. pa_danmaku (pp_parser pp) (packet_data p) = Some d \<and> pd_user_id d = pc_user c)"
proof -
  obtain data where data: "danmaku_action pp c now data = Broadcast_packet p"
    using assms(2) by (auto simp: proto_read_def dispatch_def like_action_def Let_def split: option.splits if_splits)
  then obtain input where "pa_danmaku (pp_parser pp) data = Some input"
    by (auto simp: danmaku_action_def split: option.splits)
  then have p: "p = \<lparr>packet_type = type_danmaku, packet_room_id = pc_room c,
      packet_data = (case pp_enc_danmaku pp \<lparr>pd_id = 0, pd_room_id = pc_room c, pd_user_id = pc_user c,
        pd_content = pd_content input, pd_send_time = now\<rparr> of None \<Rightarrow> [] | Some d \<Rightarrow> d)\<rparr>"
    using data by (simp add: danmaku_action_def)
  obtain s d' where s: "pp_enc_danmaku pp \<lparr>pd_id = 0, pd_room_id = pc_room c, pd_user_id = pc_user c,
        pd_content = pd_content input, pd_send_time = now\<rparr> = Some s"
      "pa_danmaku (pp_parser pp) s = Some d'" "pd_user_id d' = pc_user c"
    using assms(1) unfolding proto_codec_laws_def by (metis proto_danmaku.select_convs(3))
  have "\<exists>d. pp_enc_danmaku pp d = Some s \<and> pd_room_id d = pc_room c" using s(1) by (metis proto_danmaku.select_convs(2))
  then show ?thesis using s by (simp add: p server_packet_def)
qed

definition records_ok :: "('r, 'x, 'k) proto_ports \<Rightarrow> ('k \<Rightarrow> (string \<times> string) list) \<Rightarrow> ('r, 'k) proto_manager \<Rightarrow> bool" where
  "records_ok pp recs m \<longleftrightarrow>
     (\<forall>p \<in> set (chan_buf (pm_broadcast m)). server_packet pp p) \<and>
     (\<forall>(t, v) \<in> set (recs (pm_kafka m)). t = danmaku_save_topic \<and> (\<exists>d. proto_parse (pp_parser pp) v = Some (Some d)))"

lemma records_frame:
  "pm_broadcast m' = pm_broadcast m \<Longrightarrow> pm_kafka m' = pm_kafka m \<Longrightarrow> records_ok pp recs m \<Longrightarrow> records_ok pp recs m'"
  by (simp add: records_ok_def)

lemma local_broadcast_frame:
  "pm_broadcast (proto_local_broadcast room payload m) = pm_broadcast m"
  "pm_kafka (proto_local_broadcast room payload m) = pm_kafka m"
  by (simp_all add: proto_local_broadcast_def split: option.split)

lemma records_step:
  assumes "proto_hub_step pp m m'" "records_ok pp recs m" "proto_codec_laws pp"
    "\<forall>t v k. recs (pp_push pp t v k) = recs k @ [(t, v)]"
  shows "records_ok pp recs m'"
proof -
  have same: "pm_broadcast m' = pm_broadcast m \<Longrightarrow> pm_kafka m' = pm_kafka m \<Longrightarrow> ?thesis" using records_frame assms(2) by blast
  show ?thesis using assms(1)
  proof cases
    case (leaves a)
    then show ?thesis by (intro same) (auto simp: proto_unregister_def client_update_def Let_def split: option.split)
  next
    case (reads a now message)
    show ?thesis
    proof (cases "\<exists>p. proto_read pp (pm_client_at m a) now message = Broadcast_packet p")
      case True
      then obtain p where p: "proto_read pp (pm_client_at m a) now message = Broadcast_packet p" by blast
      then have "m' = m\<lparr>pm_broadcast := (pm_broadcast m)\<lparr>chan_buf := chan_buf (pm_broadcast m) @ [p]\<rparr>\<rparr>"
        using reads(2) by (auto simp: perform_def try_send_Some)
      then show ?thesis using assms(2) read_packet [OF assms(3) p] by (simp add: records_ok_def)
    next
      case False
      then show ?thesis using reads(2) by (intro same) (auto simp: perform_def split: proto_action.splits)
    qed
  next
    case (writes a)
    then show ?thesis by (intro same) (auto simp: proto_write_next_def client_update_def split: option.splits)
  next
    case (broadcasts p q)
    have q: "set (chan_buf (pm_broadcast m)) = insert p (set (chan_buf q))"
      using broadcasts(2) by (auto split: list.splits)
    then obtain d where d: "packet_type p = type_danmaku" "pp_enc_danmaku pp d = Some (packet_data p)"
      using assms(2) by (auto simp: records_ok_def server_packet_def)
    have rest: "records_ok pp recs (m\<lparr>pm_broadcast := q\<rparr>)" using assms(2) q by (simp add: records_ok_def)
    show ?thesis
    proof (cases "pp_enc_packet pp p")
      case None
      then show ?thesis using rest broadcasts(1) by (simp add: proto_handle_broadcast_def)
    next
      case (Some payload)
      then obtain p' where "pa_packet (pp_parser pp) payload = Some p'" "packet_type p' = type_danmaku" "packet_data p' = packet_data p"
        using assms(3) d unfolding proto_codec_laws_def by blast
      moreover obtain d' where "pa_danmaku (pp_parser pp) (packet_data p) = Some d'"
        using assms(3) d(2) unfolding proto_codec_laws_def by (metis option.inject)
      ultimately have "\<exists>d. proto_parse (pp_parser pp) payload = Some (Some d)" by (simp add: proto_parse_def)
      then show ?thesis using rest broadcasts(1) Some d(1) assms(4)
        by (simp add: proto_handle_broadcast_def proto_process_danmaku_def records_ok_def)
    qed
  qed (rule same; simp add: proto_register_def client_update_def proto_safe_send_def proto_begin_stats_def proto_report_room_def
        Let_def local_broadcast_frame split: option.split prod.split)+
qed

lemma records_run:
  assumes "(proto_hub_step pp)\<^sup>*\<^sup>* (new_proto_manager hostname random r k) m" "proto_codec_laws pp"
    "\<forall>t v k. recs (pp_push pp t v k) = recs k @ [(t, v)]" "recs k = []"
  shows "records_ok pp recs m"
  using assms(1)
proof (induction rule: rtranclp_induct)
  case base
  show ?case using assms(4) by (simp add: records_ok_def new_proto_manager_def make_chan_def)
next
  case (step m m')
  show ?case by (rule records_step [OF step.hyps(2) step.IH assms(2,3)])
qed

section \<open>Properties\<close>

text \<open>The prototype's rooms, subscriptions and queues: in every state that an interleaving of clients,
  workers, subscriptions and statistics reaches, every room has clients, all open and each once, and
  exactly one subscription that is not cancelled; no other room has one; and the queues stay within
  their capacities.\<close>

theorem proto_rooms_and_queues:
  assumes "(proto_hub_step pp)\<^sup>*\<^sup>* (new_proto_manager hostname random r k) m"
  shows "(\<forall>room. (\<exists>!ctx. (ctx, room) \<in> set (pm_subscribers m) \<and> ctx \<notin> set (pm_cancelled m)) \<or>
        gm_get [] (pm_rooms m) room = [] \<and> (\<forall>ctx. (ctx, room) \<in> set (pm_subscribers m) \<longrightarrow> ctx \<in> set (pm_cancelled m))) \<and>
    (\<forall>(room, clients) \<in> set (pm_rooms m). clients \<noteq> [] \<and> distinct clients \<and>
        (\<forall>a \<in> set clients. pc_room (pm_client_at m a) = room \<and> \<not> pc_done (pm_client_at m a))) \<and>
    length (chan_buf (pm_broadcast m)) \<le> 1024 \<and> length (chan_buf (pm_jobs m)) \<le> 1000 \<and>
    (\<forall>a. length (chan_buf (pc_send (pm_client_at m a))) \<le> 4096)"
proof -
  have m: "seats_ok m" "subs_ok m" "subscribed m" "queues_ok m"
    using proto_hub_invariants [OF assms] by (simp_all add: proto_rooms_inv_def)
  have sub: "map_of (pm_cancel_sub m) room = Some ctx \<longleftrightarrow> (ctx, room) \<in> set (pm_subscribers m) \<and> ctx \<notin> set (pm_cancelled m)"
    for room ctx using m(2) by (simp only: subs_ok_def)
  have "(\<exists>!ctx. (ctx, room) \<in> set (pm_subscribers m) \<and> ctx \<notin> set (pm_cancelled m)) \<or>
      gm_get [] (pm_rooms m) room = [] \<and> (\<forall>ctx. (ctx, room) \<in> set (pm_subscribers m) \<longrightarrow> ctx \<in> set (pm_cancelled m))" for room
  proof (cases "map_of (pm_cancel_sub m) room")
    case None
    then have "map_of (pm_rooms m) room = None" using m(3) by (simp add: subscribed_def)
    then show ?thesis using None sub [of room] by (simp add: gm_get_def)
  next
    case (Some ctx)
    then show ?thesis unfolding sub [symmetric] by simp
  qed
  moreover have "clients \<noteq> [] \<and> distinct clients \<and>
      (\<forall>a \<in> set clients. pc_room (pm_client_at m a) = room \<and> \<not> pc_done (pm_client_at m a))"
    if "(room, clients) \<in> set (pm_rooms m)" for room clients
    using m(1) that map_of_is_SomeI [of "pm_rooms m" room clients] by (auto simp: seats_ok_def gm_wf_def)
  moreover have "length (chan_buf (pm_broadcast m)) \<le> 1024" "length (chan_buf (pm_jobs m)) \<le> 1000"
    "length (chan_buf (pc_send (pm_client_at m a))) \<le> 4096" for a
    using m(4) chan_ok_length [of send_chan_size "pc_send (pm_client_at m a)"]
    by (auto simp: queues_ok_def broadcast_chan_size_def broadcast_job_chan_size_def send_chan_size_def dest!: chan_ok_length)
  ultimately show ?thesis by blast
qed

definition user_codec_ports :: "(unit, unit, (string \<times> string) list) proto_ports" where
  \<comment> \<open>a codec that writes a danmaku as its user's number and a packet as its data\<close>
  "user_codec_ports =
     \<lparr>pp_redis = \<lparr>rd_publish = \<lambda>_ _ r. (r, None), rd_incr_by = \<lambda>_ _ r. (r, None), rd_get = \<lambda>_ r. (r, Inr None),
        rd_pipeline = \<lambda>_ r. (r, None), rd_smembers = \<lambda>_ r. (r, Inr []), rd_mget = \<lambda>_ r. (r, Inr []),
        rd_srem = \<lambda>_ _ r. (r, None), rd_parse_error = \<lambda>_. ()\<rparr>,
      pp_push = (\<lambda>t v k. k @ [(t, v)]),
      pp_parser = \<lparr>pa_packet = (\<lambda>s. Some \<lparr>packet_type = type_danmaku, packet_room_id = [], packet_data = s\<rparr>),
        pa_danmaku = (\<lambda>s. Some (demo_danmaku\<lparr>pd_user_id := of_nat (digits_value 10 s)\<rparr>))\<rparr>,
      pp_like = (\<lambda>_. None), pp_enc_packet = (\<lambda>p. Some (packet_data p)),
      pp_enc_danmaku = (\<lambda>d. Some (digits 10 (unat (pd_user_id d)))), pp_enc_stats = (\<lambda>_. None)\<rparr>"

definition demo_hub :: "(unit, (string \<times> string) list) proto_manager" where
  \<comment> \<open>user 7 has joined a room and sent one danmaku\<close>
  "demo_hub =
     (let m = proto_register 0 (client_update 0 (\<lambda>_. new_proto_client 7 [] ''r'') (new_proto_manager ''h'' 0 () []))
      in m\<lparr>pm_kafka := [(danmaku_save_topic, digits 10 7)]\<rparr>)"

lemma demo_hub_run: "(proto_hub_step user_codec_ports)\<^sup>*\<^sup>* (new_proto_manager ''h'' 0 () []) demo_hub"
proof -
  define m0 where "m0 = new_proto_manager ''h'' 0 () ([] :: (string \<times> string) list)"
  define m1 where "m1 = proto_register 0 (client_update 0 (\<lambda>_. new_proto_client 7 [] ''r'') m0)"
  define p where "p = \<lparr>packet_type = type_danmaku, packet_room_id = ''r'', packet_data = digits 10 7\<rparr>"
  define m2 where "m2 = m1\<lparr>pm_broadcast := (pm_broadcast m1)\<lparr>chan_buf := [p]\<rparr>\<rparr>"
  define m3 where "m3 = m2\<lparr>pm_broadcast := (pm_broadcast m1)\<lparr>chan_buf := []\<rparr>\<rparr>"
  have c: "pm_client_at m1 0 = new_proto_client 7 [] ''r''" "pm_rooms m1 = [(''r'', [0])]" "chan_buf (pm_broadcast m1) = []"
      "chan_cap (pm_broadcast m1) = broadcast_chan_size"
    by (simp_all add: m1_def m0_def proto_register_def client_update_def new_proto_client_def new_proto_manager_def
        make_chan_def Let_def gm_get_def List.insert_def)
  have "parse_uint ''7'' = Some 7" by (simp add: parse_uint_def digits_value_def char_digit_def byte_def)
  then have "proto_hub_step user_codec_ports m0 m1"
    unfolding m1_def by (intro joins [of _ _ "''7''" "[]" "''r''"])
      (simp_all add: m0_def seated_def in_flight_def new_proto_manager_def make_chan_def connect_websocket_def)
  moreover have "proto_hub_step user_codec_ports m1 m2"
  proof (rule reads [of 0 _ _ "\<lparr>instant = 0, utc_offset = 0\<rparr>" "[]"])
    show "seated 0 m1" by (simp add: seated_def c)
    have "proto_read user_codec_ports (new_proto_client 7 [] ''r'') \<lparr>instant = 0, utc_offset = 0\<rparr> [] = Broadcast_packet p"
      by (simp add: proto_read_def user_codec_ports_def dispatch_def danmaku_action_def new_proto_client_def p_def)
    then show "perform (proto_read user_codec_ports (pm_client_at m1 0) \<lparr>instant = 0, utc_offset = 0\<rparr> []) m1 = Some m2"
      using c(3,4) unfolding c(1) by (simp add: perform_def try_send_def broadcast_chan_size_def m2_def)
  qed
  moreover have "proto_hub_step user_codec_ports m2 (proto_handle_broadcast user_codec_ports p m3)"
    unfolding m3_def by (rule broadcasts) (simp add: m2_def)
  moreover have "proto_handle_broadcast user_codec_ports p m3 = demo_hub"
    by (simp add: proto_handle_broadcast_def user_codec_ports_def proto_process_danmaku_def proto_publish_def demo_hub_def Let_def
        p_def m3_def m2_def m1_def m0_def proto_register_def client_update_def new_proto_manager_def make_chan_def)
  ultimately show ?thesis unfolding m0_def [symmetric]
    by (metis converse_rtranclp_into_rtranclp rtranclp.rtrancl_refl)
qed

theorem proto_rooms_and_queues_witness:
  "pm_rooms demo_hub = [(''r'', [0])] \<and> length (chan_buf (pm_broadcast demo_hub)) \<le> 1024"
proof -
  have "pm_rooms demo_hub = [(''r'', [0])]"
    by (simp add: demo_hub_def Let_def proto_register_def client_update_def new_proto_client_def new_proto_manager_def
        List.insert_def gm_get_def)
  then show ?thesis using proto_rooms_and_queues [OF demo_hub_run] by blast
qed



text \<open>A single like message can take likes away: the count of a client is not bounded, and a count of
  \<open>2\<^sup>6\<^sup>3\<close> or more, reported by the next statistics of the room, reaches Redis as a negative increment.\<close>

theorem proto_like_can_subtract:
  assumes "pa_packet (pp_parser pp) message = Some p" "packet_type p = action_like" "pp_like pp (packet_data p) = Some n"
    "2 ^ 63 \<le> uint n" "perform (proto_read pp c now message) m = Some m'" "gm_get 0 (pm_local_likes m) (pc_room c) = 0"
  shows "\<exists>likes counts. pm_reports (proto_begin_stats m') = pm_reports m @ [(likes, counts)] \<and>
    (pc_room c, n) \<in> set (pm_increments (proto_report_room pp likes (pc_room c) k (proto_begin_stats m'))) \<and>
    proto_incr_likes (pp_redis pp) (pc_room c) n r =
      fst (rd_incr_by (pp_redis pp) (proto_likes_key (pc_room c)) (uint n - 2 ^ 64) r) \<and> uint n - 2 ^ 64 < 0"
proof -
  have "0 < n" using assms(4) by (simp add: word_less_def)
  then have n: "n \<noteq> 0" by auto
  have "proto_read pp c now message = Add_likes (pc_room c) n"
    using assms(1-3) n by (simp add: proto_read_def dispatch_def like_action_def action_like_def type_danmaku_def)
  then have m': "m' = m\<lparr>pm_local_likes := AList.update (pc_room c) n (pm_local_likes m)\<rparr>"
    using assms(5,6) by (simp add: perform_def)
  let ?likes = "AList.update (pc_room c) n (pm_local_likes m)"
  have "gm_has ?likes (pc_room c)" "gm_get 0 ?likes (pc_room c) = n" by (simp_all add: go_map_simps)
  then have "(pc_room c, n) \<in> set (pm_increments (proto_report_room pp ?likes (pc_room c) k (proto_begin_stats m')))"
    using \<open>0 < n\<close> by (simp add: proto_report_room_def Let_def proto_local_broadcast_def split: option.split prod.split)
  moreover have lt: "uint n < 2 ^ 64" using uint_lt2p [of n] by simp
  moreover have "sint n = (uint n + 2 ^ 63) mod 2 ^ 64 - 2 ^ 63"
    by (simp add: sint_uint signed_take_bit_eq_take_bit_shift take_bit_eq_mod)
  moreover have "(uint n + 2 ^ 63) mod 2 ^ 64 = uint n - 2 ^ 63"
    using mod_add_self2 [of "uint n - 2 ^ 63" "2 ^ 64"] assms(4) lt by (simp add: mod_pos_pos_trivial add.commute)
  ultimately show ?thesis
    by (intro exI [of _ ?likes] exI conjI) (simp_all add: m' proto_begin_stats_def proto_incr_likes_def)
qed

definition many_likes_ports :: "(unit, unit, (string \<times> string) list) proto_ports" where
  "many_likes_ports =
     user_codec_ports\<lparr>pp_parser := (pp_parser user_codec_ports)\<lparr>pa_packet := \<lambda>s. Some \<lparr>packet_type = action_like,
       packet_room_id = [], packet_data = s\<rparr>\<rparr>, pp_like := \<lambda>_. Some (2 ^ 63)\<rparr>"

theorem proto_like_can_subtract_witness:
  "\<exists>likes counts m'. perform (proto_read many_likes_ports (new_proto_client 7 [] ''r'') \<lparr>instant = 0, utc_offset = 0\<rparr> [])
       (new_proto_manager ''h'' 0 () []) = Some m' \<and>
     pm_reports (proto_begin_stats m') = [(likes, counts)] \<and>
     (''r'', 2 ^ 63) \<in> set (pm_increments (proto_report_room many_likes_ports likes ''r'' 1 (proto_begin_stats m')))"
proof -
  let ?c = "new_proto_client 7 [] ''r''" and ?m = "new_proto_manager ''h'' 0 () ([] :: (string \<times> string) list)"
  let ?read = "proto_read many_likes_ports ?c \<lparr>instant = 0, utc_offset = 0\<rparr> []"
  have likes: "pa_packet (pp_parser many_likes_ports) [] = Some \<lparr>packet_type = action_like, packet_room_id = [], packet_data = []\<rparr>"
    "pp_like many_likes_ports [] = Some (2 ^ 63)" "uint (2 ^ 63 :: u64) = 2 ^ 63"
    by (simp_all add: many_likes_ports_def)
  have "?read = Add_likes ''r'' (2 ^ 63)"
    using likes by (simp add: proto_read_def dispatch_def like_action_def action_like_def type_danmaku_def new_proto_client_def)
  then obtain m' where m': "perform ?read ?m = Some m'" by (simp add: perform_def)
  have "gm_get 0 (pm_local_likes ?m) (pc_room ?c) = 0" by (simp add: new_proto_manager_def)
  from proto_like_can_subtract [OF likes(1) _ _ _ m' this, of "2 ^ 63" 1 "()"] likes m' show ?thesis
    by (fastforce simp: new_proto_client_def new_proto_manager_def)
qed

end
