(* ===== verification/Commands.thy ===== *)
theory Commands
  imports Auth
begin

text \<open>
  The commands beside the server: \<open>v10/cmd/migrate/main.go\<close> with the schema and the seed account of
  \<open>v10/internal/infra/db.go\<close>, and \<open>v10/cmd/query/main.go\<close>. Opening the connection, GORM and bcrypt are
  parameters; the login of \<open>Auth\<close> reads the same table of users.
\<close>

section \<open>The table of users\<close>

record ('d, 'x) user_db =
  ud_first :: "string \<Rightarrow> string \<Rightarrow> 'd \<Rightarrow> user + 'x"
    \<comment> \<open>\<open>Where(column = value).First\<close>\<close>
  ud_create :: "user \<Rightarrow> 'd \<Rightarrow> 'd \<times> 'x option"
  ud_not_found :: 'x
    \<comment> \<open>\<open>gorm.ErrRecordNotFound\<close>\<close>
  ud_hash :: "string \<Rightarrow> 'x + string"
    \<comment> \<open>\<open>bcrypt.GenerateFromPassword\<close> with the default cost\<close>
  ud_auto_migrate :: "string \<Rightarrow> 'd \<Rightarrow> 'd \<times> 'x option"
    \<comment> \<open>\<open>AutoMigrate\<close> of the table of a type\<close>

datatype 'x seed_error =
    Seed_fields_required
  | Find_seed_user 'x
  | Hash_seed_password 'x
  | Create_seed_user 'x

definition seed_user ::
  "('d, 'x) user_db \<Rightarrow> string \<Rightarrow> string \<Rightarrow> string \<Rightarrow> string \<Rightarrow> 'd \<Rightarrow> 'd \<times> 'x seed_error option" where
  "seed_user ud i name password r d =
     (let i = trim_space i; name = trim_space name
      in if i = [] \<or> name = [] \<or> password = [] then (d, Some Seed_fields_required)
         else
           (let r = (if r = [] then ''viewer'' else r)
            in (case ud_first ud ''username'' name d of
                  Inl existing \<Rightarrow> (d, None)
                | Inr err \<Rightarrow>
                    if err \<noteq> ud_not_found ud then (d, Some (Find_seed_user err))
                    else
                      (case ud_hash ud password of
                         Inl err \<Rightarrow> (d, Some (Hash_seed_password err))
                       | Inr hash \<Rightarrow>
                           (case user_create (ud_create ud)
                                   \<lparr>uid = i, uname = name, password_hash = hash, role = r, status = user_status_active,
                                    created_at = 0, updated_at = 0\<rparr> d of
                              (d, err) \<Rightarrow> (d, map_option Create_seed_user err))))))"

lemma seed_creates:
  "fst (seed_user ud i name password r d) = d \<or> (\<exists>new. fst (seed_user ud i name password r d) = fst (ud_create ud new d))"
proof -
  have "fst (case ud_create ud new d of (d, err) \<Rightarrow> (d, map_option Create_seed_user err)) = fst (ud_create ud new d)" for new
    by (simp add: split_def)
  then show ?thesis by (auto simp: seed_user_def Let_def user_create_def split: sum.split)
qed

section \<open>The migration\<close>

datatype 'x migrate_error =
    Open_failed 'x
  | Migrate_danmaku 'x
  | Migrate_user 'x
  | Seed_failed "'x seed_error"

definition migrate_tables :: "('d, 'x) user_db \<Rightarrow> 'd \<Rightarrow> 'd \<times> 'x migrate_error option" where
  "migrate_tables ud d =
     (case ud_auto_migrate ud ''Danmaku'' d of
        (d, Some err) \<Rightarrow> (d, Some (Migrate_danmaku err))
      | (d, None) \<Rightarrow>
          (case ud_auto_migrate ud ''User'' d of
             (d, Some err) \<Rightarrow> (d, Some (Migrate_user err))
           | (d, None) \<Rightarrow> (d, None)))"

record seed_flags =
  sd_user_id :: string
  sd_username :: string
  sd_password :: string
  sd_role :: string

definition migrate_command :: "('d, 'x) user_db \<Rightarrow> 'x + 'd \<Rightarrow> seed_flags \<Rightarrow> 'd option \<times> 'x migrate_error option" where
  \<comment> \<open>the opened database, and the error the command dies of; no database when it cannot be opened\<close>
  "migrate_command ud opened fl =
     (case opened of
        Inl err \<Rightarrow> (None, Some (Open_failed err))
      | Inr d \<Rightarrow>
          (case migrate_tables ud d of
             (d, Some err) \<Rightarrow> (Some d, Some err)
           | (d, None) \<Rightarrow>
               if trim_space (sd_username fl) \<noteq> []
               then
                 (case seed_user ud (sd_user_id fl) (sd_username fl) (sd_password fl) (sd_role fl) d of
                    (d, err) \<Rightarrow> (Some d, map_option Seed_failed err))
               else (Some d, None)))"

section \<open>The query\<close>

record query_output =
  qo_room :: string
  qo_count :: int
  qo_messages :: "danmaku list"

datatype 'x query_error = Query_open 'x | Query_list 'x | Query_count 'x

definition query_command ::
  "(string \<Rightarrow> int \<Rightarrow> 'd \<Rightarrow> danmaku list \<times> 'x option) \<Rightarrow> (string \<Rightarrow> 'd \<Rightarrow> int \<times> 'x option) \<Rightarrow> 'x + 'd \<Rightarrow>
   string \<Rightarrow> int \<Rightarrow> 'x query_error + query_output" where
  "query_command recent rows_of opened room limit =
     (case opened of
        Inl err \<Rightarrow> Inl (Query_open err)
      | Inr d \<Rightarrow>
          (case list_recent_by_room recent room limit d of
             (messages, Some err) \<Rightarrow> Inl (Query_list err)
           | (messages, None) \<Rightarrow>
               (case count_by_room rows_of room d of
                  (n, Some err) \<Rightarrow> Inl (Query_count err)
                | (n, None) \<Rightarrow> Inr \<lparr>qo_room = room, qo_count = n, qo_messages = messages\<rparr>)))"

definition getenv :: "(string \<Rightarrow> string) \<Rightarrow> string \<Rightarrow> string \<Rightarrow> string" where
  \<comment> \<open>\<open>env\<close>: \<open>os.Getenv\<close>\<close>
  "getenv env key fallback = (let v = env key in if v = [] then fallback else v)"

section \<open>What the table promises\<close>

text \<open>A row found by a unique column is found after any \<open>Create\<close>, and a row that was created without an error is found by
  its name with the columns it was given.\<close>

definition user_table :: "('d, 'x) user_db \<Rightarrow> bool" where
  "user_table ud \<longleftrightarrow>
     (\<forall>column v d u new. column \<in> {''username'', ''id''} \<longrightarrow> ud_first ud column v d = Inl u \<longrightarrow>
        ud_first ud column v (fst (ud_create ud new d)) = Inl u) \<and>
     (\<forall>new d d'. ud_create ud new d = (d', None) \<longrightarrow>
        (\<exists>c t. ud_first ud ''username'' (uname new) d' = Inl (new\<lparr>created_at := c, updated_at := t\<rparr>)))"

lemma seed_keeps_rows:
  assumes "user_table ud" "column \<in> {''username'', ''id''}" "ud_first ud column v d = Inl u"
  shows "ud_first ud column v (fst (seed_user ud i name password r d)) = Inl u"
proof -
  have "ud_first ud column v (fst (ud_create ud new d)) = Inl u" for new
    using assms unfolding user_table_def by blast
  then show ?thesis using seed_creates [of ud i name password r d] assms(3) by (elim disjE exE) (simp_all only:)
qed

lemma seed_finds:
  assumes "user_table ud" "seed_user ud i name password r d = (d', None)"
  shows "(\<exists>u. ud_first ud ''username'' (trim_space name) d = Inl u \<and> d' = d) \<or>
    (\<exists>c t hash. ud_first ud ''username'' (trim_space name) d = Inr (ud_not_found ud) \<and> ud_hash ud password = Inr hash \<and>
       ud_first ud ''username'' (trim_space name) d' =
         Inl \<lparr>uid = trim_space i, uname = trim_space name, password_hash = hash,
              role = (if r = [] then ''viewer'' else r), status = user_status_active, created_at = c, updated_at = t\<rparr>)"
proof -
  have created: "\<exists>c t. ud_first ud ''username'' (uname new) d' = Inl (new\<lparr>created_at := c, updated_at := t\<rparr>)"
    if "ud_create ud new d = (d', None)" for new
    using assms(1) that unfolding user_table_def by blast
  show ?thesis
    using assms(2) created
    by (fastforce simp: seed_user_def Let_def user_create_def split: sum.splits prod.splits if_splits)
qed

section \<open>A small table\<close>

definition column_of :: "string \<Rightarrow> user \<Rightarrow> string" where
  "column_of column u = (if column = ''username'' then uname u else uid u)"

definition demo_table :: "(user list, unit option) user_db" where
  \<comment> \<open>rows in the order of their creation; a name that is taken is refused; the hash of a password is h\<close>
  "demo_table =
     \<lparr>ud_first = (\<lambda>column v d. case find (\<lambda>u. column_of column u = v) d of
         Some u \<Rightarrow> Inl u | None \<Rightarrow> Inr None),
      ud_create = (\<lambda>u d. if uname u \<in> uname ` set d \<or> uid u \<in> uid ` set d then (d, Some (Some ())) else (d @ [u], None)),
      ud_not_found = None, ud_hash = (\<lambda>p. if p = ''pw'' then Inr ''h'' else Inl (Some ())),
      ud_auto_migrate = (\<lambda>t d. (d, None))\<rparr>"

lemma find_append: "find P (xs @ ys) = (case find P xs of None \<Rightarrow> find P ys | Some x \<Rightarrow> Some x)"
  by (induction xs) auto

lemma demo_users: "user_table demo_table"
  unfolding user_table_def
proof (intro conjI allI impI)
  fix column v d u new
  assume "ud_first demo_table column v d = Inl u"
  then have "find (\<lambda>u. column_of column u = v) d = Some u" by (simp add: demo_table_def split: option.splits)
  then show "ud_first demo_table column v (fst (ud_create demo_table new d)) = Inl u"
    by (simp add: demo_table_def find_append)
next
  fix new d d'
  assume "ud_create demo_table new d = (d', None)"
  then have d: "d' = d @ [new]" "\<forall>u \<in> set d. uname u \<noteq> uname new"
    by (auto simp: demo_table_def image_iff split: if_splits)
  then have "find (\<lambda>u. uname u = uname new) d = None" by (auto simp: find_None_iff)
  then have "ud_first demo_table ''username'' (uname new) d' = Inl (new\<lparr>created_at := created_at new, updated_at := updated_at new\<rparr>)"
    by (simp add: d demo_table_def find_append column_of_def)
  then show "\<exists>c t. ud_first demo_table ''username'' (uname new) d' = Inl (new\<lparr>created_at := c, updated_at := t\<rparr>)" by blast
qed

section \<open>Properties\<close>

definition login_on :: "'x auth_ports \<Rightarrow> ('d, 'x) user_db \<Rightarrow> 'd \<Rightarrow> 'x auth_ports" where
  \<comment> \<open>the login service reads its users from the table\<close>
  "login_on ap ud d = ap\<lparr>ap_users := \<lambda>name. case find_by_username (ud_first ud) name d of Inl u \<Rightarrow> Inr (Some u) | Inr x \<Rightarrow> Inl x\<rparr>"

lemma login_on_row:
  "ud_first ud ''username'' (trim_space name) d = Inl u \<Longrightarrow> ud_first ud ''username'' (trim_space name) d' = Inl u \<Longrightarrow>
   login (login_on ap ud d') s now name password = login (login_on ap ud d) s now name password"
  by (simp add: login_def login_on_def find_by_username_def)

text \<open>C40: Seeding is safe to rerun and its account works: whatever the outcome, every account that was there
  logs in exactly as before, whatever password the seed gives; after a success another run changes
  nothing; and a success with a new name makes an account that logs in with the seed's password,
  with its id, its name and its role (viewer when none is given).\<close>

theorem seeded_account_logs_in:
  assumes "user_table ud" "\<forall>p h. ud_hash ud p = Inr h \<longrightarrow> ap_compare ap h p" "\<forall>m c k. \<exists>t. ap_sign ap m c k = Inr t"
    "seed_user ud i name password r d = (d', err)"
  shows "(\<forall>n u pw. ud_first ud ''username'' (trim_space n) d = Inl u \<longrightarrow>
        login (login_on ap ud d') s now n pw = login (login_on ap ud d) s now n pw) \<and>
    (err = None \<longrightarrow> seed_user ud i name password r d' = (d', None) \<and>
       (ud_first ud ''username'' (trim_space name) d = Inr (ud_not_found ud) \<longrightarrow>
          (\<exists>t c. login (login_on ap ud d') s now name password = Inr (t, c) \<and> cm_user_id c = trim_space i \<and>
             cm_username c = trim_space name \<and> cm_role c = (if r = [] then ''viewer'' else r))))"
proof (intro conjI allI impI)
  fix n u pw
  assume "ud_first ud ''username'' (trim_space n) d = Inl u"
  then show "login (login_on ap ud d') s now n pw = login (login_on ap ud d) s now n pw"
    using seed_keeps_rows [OF assms(1), of "''username''" "trim_space n" d u i name password r] assms(4)
    by (intro login_on_row) simp_all
next
  assume err: "err = None"
  note found = seed_finds [OF assms(1) assms(4) [unfolded err]]
  have "\<not> (trim_space i = [] \<or> trim_space name = [] \<or> password = [])" using assms(4) err by (auto simp: seed_user_def Let_def)
  moreover have "\<exists>u. ud_first ud ''username'' (trim_space name) d' = Inl u" using found by auto
  ultimately show "seed_user ud i name password r d' = (d', None)" by (auto simp: seed_user_def Let_def)
  assume new: "ud_first ud ''username'' (trim_space name) d = Inr (ud_not_found ud)"
  obtain t where "ap_sign ap ''HS256'' \<lparr>cm_user_id = trim_space i, cm_username = trim_space name,
      cm_role = (if r = [] then ''viewer'' else r), cm_issuer = sv_issuer s, cm_subject = trim_space i,
      cm_issued_at = ap_numeric_date ap now, cm_not_before = ap_numeric_date ap now,
      cm_expires_at = ap_numeric_date ap (now + sv_access_ttl s)\<rparr> (sv_secret s) = Inr t"
    using assms(3) by blast
  then show "\<exists>t c. login (login_on ap ud d') s now name password = Inr (t, c) \<and> cm_user_id c = trim_space i \<and>
      cm_username c = trim_space name \<and> cm_role c = (if r = [] then ''viewer'' else r)"
    using found new assms(2) by (auto simp: login_def login_on_def find_by_username_def)
qed

definition demo_login_ports :: "unit option auth_ports" where
  "demo_login_ports = \<lparr>ap_users = (\<lambda>_. Inl None), ap_compare = (\<lambda>h p. h = ''h'' \<and> p = ''pw''), ap_numeric_date = (\<lambda>t. t),
     ap_sign = (\<lambda>m c k. Inr ''t''), ap_parse = (\<lambda>t kf now. None), ap_dec_login = (\<lambda>limit body. None), ap_enc_login = (\<lambda>l. [])\<rparr>"

theorem seeded_account_logs_in_witness:
  "\<exists>t c. login (login_on demo_login_ports demo_table (fst (seed_user demo_table ''u2'' ''bob'' ''pw'' [] [demo_user])))
       demo_service 0 ''bob'' ''pw'' = Inr (t, c) \<and> cm_user_id c = ''u2'' \<and> cm_role c = ''viewer''"
proof -
  have trim: "trim_space ''u2'' = ''u2''" "trim_space ''bob'' = ''bob''"
    by (simp_all add: trim_space_ascii ascii_def byte_def is_space_def)
  have seed: "seed_user demo_table ''u2'' ''bob'' ''pw'' [] [demo_user] = (fst (seed_user demo_table ''u2'' ''bob'' ''pw'' [] [demo_user]), None)"
    by (simp add: seed_user_def Let_def trim user_create_def demo_table_def demo_user_def)
  have new: "ud_first demo_table ''username'' (trim_space ''bob'') [demo_user] = Inr (ud_not_found demo_table)"
    by (simp add: trim demo_table_def column_of_def demo_user_def)
  have hash: "\<forall>p h. ud_hash demo_table p = Inr h \<longrightarrow> ap_compare demo_login_ports h p"
    by (simp add: demo_table_def demo_login_ports_def)
  have sign: "\<forall>m c k. \<exists>t. ap_sign demo_login_ports m c k = Inr t" by (simp add: demo_login_ports_def)
  obtain t c where "login (login_on demo_login_ports demo_table (fst (seed_user demo_table ''u2'' ''bob'' ''pw'' [] [demo_user])))
      demo_service 0 ''bob'' ''pw'' = Inr (t, c)" "cm_user_id c = trim_space ''u2''" "cm_role c = ''viewer''"
    using seeded_account_logs_in [OF demo_users hash sign seed, of demo_service 0] new by auto
  then show ?thesis using trim by auto
qed

end
