(* ===== verification/Server.thy ===== *)
theory Server
  imports Client Commands Insight_Api
begin

text \<open>
  The server process, \<open>v10/cmd/server/main.go\<close>, with the broker list of \<open>v10/internal/infra/kafka.go\<close> and
  the web application of \<open>v10/internal/webapp/handler.go\<close>: what it starts from its flags, the routes of
  its mux and the metrics page. Opening connections, the file system and the clock are parameters;
  logging, signals and the shutdown are left out.
\<close>

section \<open>Brokers\<close>

definition default_kafka_brokers :: string where "default_kafka_brokers = ''127.0.0.1:9099''"

definition parse_brokers :: "string \<Rightarrow> string list" where
  "parse_brokers raw =
     (let raw = (if raw = [] then default_kafka_brokers else raw)
      in filter (\<lambda>part. part \<noteq> []) (map trim_space (split_char CHR '','' raw)))"

section \<open>The web application\<close>

record web_files =
  wf_abs :: "string \<Rightarrow> string + string list"
    \<comment> \<open>\<open>filepath.Abs\<close>: the elements of the path\<close>
  wf_regular :: "string list \<Rightarrow> string + bool"
    \<comment> \<open>\<open>os.Stat\<close>, and whether the file is regular\<close>
  wf_opens :: "string list \<Rightarrow> bool"

record web_handler =
  wh_root :: "string list"
  wh_index :: "string list"

definition new_web_handler :: "web_files \<Rightarrow> string \<Rightarrow> string + web_handler" where
  "new_web_handler fs web_dir =
     (case wf_abs fs web_dir of
        Inl err \<Rightarrow> Inl (''resolve web root: '' @ err)
      | Inr absolute_root \<Rightarrow>
          (let index = absolute_root @ [''index.html'']
           in (case wf_regular fs index of
                 Inl err \<Rightarrow> Inl (''stat web index: '' @ err)
               | Inr regular \<Rightarrow>
                   if \<not> regular then Inl (''web index is not a regular file: /'' @ join ''/'' index)
                   else Inr \<lparr>wh_root = absolute_root, wh_index = index\<rparr>)))"

definition inside_root :: "web_handler \<Rightarrow> string list \<Rightarrow> bool" where
  "inside_root h candidate \<longleftrightarrow>
     (let relative = relative_path (wh_root h) candidate in relative = [] \<or> hd relative \<noteq> ''..'')"

datatype web_answer = Web_file "string list" | Web_error http_response

definition serve_file :: "web_files \<Rightarrow> string list \<Rightarrow> web_answer" where
  "serve_file fs f =
     (if wf_opens fs f then Web_file f else Web_error (http_error ''web application unavailable'' 500))"

definition serve_web :: "web_files \<Rightarrow> web_handler \<Rightarrow> string \<Rightarrow> string \<Rightarrow> web_answer" where
  \<comment> \<open>method and \<open>URL.Path\<close>\<close>
  "serve_web fs h m path =
     (if m \<noteq> ''GET'' \<and> m \<noteq> ''HEAD'' then Web_error (method_not_allowed ''GET, HEAD'')
      else
        (let candidate = wh_root h @ path_components (''/'' @ path)
         in if inside_root h candidate \<and> wf_regular fs candidate = Inr True then serve_file fs candidate
            else
              (case wf_regular fs (wh_index h) of
                 Inl err \<Rightarrow> Web_error (http_error ''web application unavailable'' 500)
               | Inr regular \<Rightarrow> serve_file fs (wh_index h))))"

section \<open>Metrics\<close>

record server_metrics =
  sm_websocket :: manager_metrics
  sm_kafka :: "publisher_metrics option"
  sm_queue_status :: string
  sm_redis_status :: string
  sm_redis_circuit :: string

fun publisher_status_text :: "publisher_status \<Rightarrow> string" where
  "publisher_status_text Publisher_healthy = ''healthy''"
| "publisher_status_text Publisher_degraded = ''degraded''"

fun cb_state_text :: "cb_state \<Rightarrow> string" where
  "cb_state_text StateClosed = ''closed''"
| "cb_state_text StateOpen = ''open''"
| "cb_state_text StateHalfOpen = ''half_open''"

definition build_metrics ::
  "runtime_stats \<Rightarrow> ('p, 'r) manager \<Rightarrow> kafka_publisher option \<Rightarrow> bool \<Rightarrow> bool \<Rightarrow> server_metrics" where
  "build_metrics rt m publisher kafka_enabled redis_enabled =
     (let mm = metrics_of rt m;
          km = map_option kafka_metrics publisher
      in \<lparr>sm_websocket = mm, sm_kafka = km,
          sm_queue_status =
            (if kafka_enabled \<and> km = None then ''unavailable''
             else (case km of Some k \<Rightarrow> publisher_status_text (hs_status (pm_health k)) | None \<Rightarrow> ''disabled'')),
          sm_redis_status =
            (if redis_enabled
             then (case mm_redis_circuit mm of
                     Some c \<Rightarrow> if snap_state c \<noteq> StateClosed then ''degraded'' else ''healthy''
                   | None \<Rightarrow> ''healthy'')
             else ''disabled''),
          sm_redis_circuit =
            (case mm_redis_circuit mm of Some c \<Rightarrow> cb_state_text (snap_state c) | None \<Rightarrow> ''disabled'')\<rparr>)"

section \<open>Starting\<close>

record server_flags =
  sf_web_dir :: string
  sf_auth :: bool
  sf_auth_required :: bool
  sf_auth_config :: auth_config
  sf_workers :: int
  sf_redis_workers :: int
  sf_kafka :: bool
  sf_redis :: bool
  sf_brokers :: string
  sf_topic :: string
  sf_traffic :: rl_config
  sf_breaker :: cb_config

record ('r, 'x, 'y) server_world =
  wd_ports :: "(kafka_publisher, 'r, 'x) ports"
  wd_auth :: "'y auth_ports"
    \<comment> \<open>the token library, with the users of the database\<close>
  wd_open_db :: "string option"
    \<comment> \<open>the error of opening MySQL\<close>
  wd_init_producer :: "string list \<Rightarrow> string + producer_message chan"
  wd_redis :: 'r
  wd_hostname :: string
  wd_nanos :: int
  wd_random :: "string option"
  wd_files :: web_files
  wd_enc_metrics :: "server_metrics \<Rightarrow> string"

datatype 'y server_failure =
    Auth_database_failed string
  | Auth_service_failed "'y auth_error"
  | Auth_required_needs_auth
  | Kafka_producer_failed string
  | No_random_bytes
    \<comment> \<open>the panic of the id generator\<close>

record ('r, 'y) server =
  sr_auth :: "('y auth_ports \<times> service) option"
  sr_auth_required :: bool
  sr_kafka :: bool
  sr_redis :: bool
  sr_web :: "web_handler option"
  sr_manager :: "(kafka_publisher, 'r) manager"

definition start_auth :: "('r, 'x, 'y) server_world \<Rightarrow> server_flags \<Rightarrow> 'y server_failure + ('y auth_ports \<times> service) option" where
  "start_auth world fl =
     (if sf_auth fl
      then
        (case wd_open_db world of
           Some err \<Rightarrow> Inl (Auth_database_failed err)
         | None \<Rightarrow>
             (case new_service True (sf_auth_config fl) of
                Inl err \<Rightarrow> Inl (Auth_service_failed err)
              | Inr s \<Rightarrow> Inr (Some (wd_auth world, s))))
      else if sf_auth_required fl then Inl Auth_required_needs_auth
      else Inr None)"

definition start_publisher :: "('r, 'x, 'y) server_world \<Rightarrow> server_flags \<Rightarrow> 'y server_failure + kafka_publisher option" where
  "start_publisher world fl =
     (if sf_kafka fl
      then
        (case wd_init_producer world (parse_brokers (sf_brokers fl)) of
           Inl err \<Rightarrow> Inl (Kafka_producer_failed err)
         | Inr producer \<Rightarrow> Inr (Some (new_kafka_publisher producer (sf_topic fl))))
      else Inr None)"

definition start_manager ::
  "('r, 'x, 'y) server_world \<Rightarrow> server_flags \<Rightarrow> kafka_publisher option \<Rightarrow> (kafka_publisher, 'r) manager option" where
  "start_manager world fl publisher =
     new_manager_with_config (wd_ports world) (wd_hostname world) (wd_nanos world) (wd_random world)
       \<lparr>mc_worker_count = sf_workers fl, mc_redis_worker_count = sf_redis_workers fl, mc_persister = publisher,
        mc_redis_client = sf_redis fl, mc_redis = wd_redis world,
        mc_redis_breaker = (if sf_redis fl then Some (new_circuit_breaker (sf_breaker fl)) else None),
        mc_traffic = Some (new_controller (sf_traffic fl))\<rparr>"

definition register_web_frontend :: "web_files \<Rightarrow> string \<Rightarrow> string + web_handler option" where
  \<comment> \<open>the handler that is registered for \<open>/\<close>, if any\<close>
  "register_web_frontend fs web_dir =
     (if trim_space web_dir = [] then Inr None
      else (case new_web_handler fs web_dir of Inl err \<Rightarrow> Inl err | Inr h \<Rightarrow> Inr (Some h)))"

definition start_server :: "('r, 'x, 'y) server_world \<Rightarrow> server_flags \<Rightarrow> 'y server_failure + ('r, 'y) server" where
  "start_server world fl =
     (case start_auth world fl of
        Inl err \<Rightarrow> Inl err
      | Inr auth \<Rightarrow>
          (case start_publisher world fl of
             Inl err \<Rightarrow> Inl err
           | Inr publisher \<Rightarrow>
               (case start_manager world fl publisher of
                  None \<Rightarrow> Inl No_random_bytes
                | Some m \<Rightarrow>
                    Inr \<lparr>sr_auth = auth, sr_auth_required = sf_auth_required fl, sr_kafka = sf_kafka fl,
                         sr_redis = sf_redis fl,
                         sr_web = (case register_web_frontend (wd_files world) (sf_web_dir fl) of
                                     Inl err \<Rightarrow> None | Inr h \<Rightarrow> h),
                         sr_manager = m\<rparr>)))"

section \<open>Requests\<close>

datatype server_answer =
    Response http_response
  | Upgraded
    \<comment> \<open>the upgrader has answered\<close>
  | Moved_to string
  | Web web_answer

definition mux_segments :: "string \<Rightarrow> string list" where
  \<comment> \<open>as the mux matches a path: by its unescaped segments\<close>
  "mux_segments path = map (\<lambda>s. case path_unescape s of None \<Rightarrow> s | Some t \<Rightarrow> t) (split_char CHR ''/'' path)"

definition url_path :: "http_request \<Rightarrow> string" where
  \<comment> \<open>\<open>URL.Path\<close>; \<open>rq_path\<close> is \<open>URL.EscapedPath()\<close>\<close>
  "url_path r = (case path_unescape (rq_path r) of None \<Rightarrow> rq_path r | Some p \<Rightarrow> p)"

definition metrics_response :: "('r, 'x, 'y) server_world \<Rightarrow> runtime_stats \<Rightarrow> ('r, 'y) server \<Rightarrow> http_response" where
  "metrics_response world rt s =
     \<lparr>rs_status = 200, rs_headers = [(''Content-Type'', ''application/json'')], rs_cookies = [],
      rs_body = wd_enc_metrics world
        (build_metrics rt (sr_manager s) (persister (sr_manager s)) (sr_kafka s) (sr_redis s))\<rparr>"

definition serve ::
  "('r, 'x, 'y) server_world \<Rightarrow> runtime_stats \<Rightarrow> time \<Rightarrow> http_request \<Rightarrow> bool \<Rightarrow> nat \<Rightarrow> (kafka_publisher, 'r) ws_input list \<Rightarrow>
   ('r, 'y) server \<Rightarrow> ('r, 'y) server \<times> server_answer" where
  \<comment> \<open>one request to the mux; the last arguments are those of a WebSocket session\<close>
  "serve world rt now r upgraded a inputs s =
     (let segs = mux_segments (rq_path r)
      in if rq_method r \<noteq> ''CONNECT'' \<and> clean_path (rq_path r) \<noteq> rq_path r then (s, Moved_to (clean_path (rq_path r)))
         else if segs = [[], ''ws'']
         then
           (case serve_ws_with_auth (wd_ports world) (sr_auth s) (sr_auth_required s) now r upgraded a inputs (sr_manager s) of
              (m, answer) \<Rightarrow> (s\<lparr>sr_manager := m\<rparr>, case answer of None \<Rightarrow> Upgraded | Some x \<Rightarrow> Response x))
         else if segs = [[], ''auth'', ''login'']
         then (s, Response (case sr_auth s of
                  Some (ap, sv) \<Rightarrow> login_handler ap sv now r
                | None \<Rightarrow> http_error ''authentication disabled'' 404))
         else if segs = [[], ''auth'', ''logout''] \<and> sr_auth s \<noteq> None
         then (s, Response (logout_handler (snd (the (sr_auth s))) r))
         else if segs = [[], ''health'']
         then (s, Response \<lparr>rs_status = 200, rs_headers = [], rs_cookies = [], rs_body = ''ok'' @ [CHR 0x0A]\<rparr>)
         else if segs = [[], ''metrics'']
         then (s, Response (case sr_auth s of
                  Some (ap, sv) \<Rightarrow>
                    if sr_auth_required s then require_claims ap sv now (\<lambda>c r. metrics_response world rt s) r
                    else metrics_response world rt s
                | None \<Rightarrow> metrics_response world rt s))
         else
           (case sr_web s of
              Some h \<Rightarrow> (s, Web (serve_web (wd_files world) h (rq_method r) (url_path r)))
            | None \<Rightarrow> (s, Response (http_error ''404 page not found'' 404))))"

section \<open>Lemmas\<close>

lemma parse_brokers_clean:
  "b \<in> set (parse_brokers raw) \<Longrightarrow> b \<noteq> [] \<and> trim_space b = b \<and> CHR '','' \<notin> set b"
  using split_char_parts [of "CHR '',''"] set_trim_space by (fastforce simp: parse_brokers_def Let_def)

lemma parse_brokers_join:
  assumes "bs \<noteq> []" "\<forall>b \<in> set bs. b \<noteq> [] \<and> trim_space b = b \<and> CHR '','' \<notin> set b"
  shows "parse_brokers (join '','' bs) = bs"
proof -
  have "join '','' bs \<noteq> []" using assms by (cases bs rule: remdups_adj.cases) auto
  moreover have "map trim_space bs = bs" using assms(2) by (simp add: map_idI)
  moreover have "filter (\<lambda>b. b \<noteq> []) bs = bs" using assms(2) by (simp add: filter_True)
  ultimately show ?thesis using assms split_join [of bs "CHR '',''"] by (simp add: parse_brokers_def)
qed

lemma relative_below: "relative_path base (base @ rest) = rest"
  by (induction base) simp_all

lemma components_no_dots: "''..'' \<notin> set (path_components p)"
proof -
  have "''..'' \<notin> set (fold (\<lambda>c acc. if c = [] \<or> c = ''.'' then acc else if c = ''..'' then drop 1 acc else c # acc) cs acc)"
    if "''..'' \<notin> set acc" for cs acc
    using that by (induction cs arbitrary: acc) (auto dest: in_set_dropD)
  then show ?thesis by (simp add: path_components_def)
qed

lemma candidate_inside: "inside_root h (wh_root h @ path_components p)"
proof -
  have "hd (path_components p) \<noteq> ''..''" if "path_components p \<noteq> []"
    using hd_in_set [OF that] components_no_dots [of p] by metis
  then show ?thesis by (auto simp: inside_root_def relative_below Let_def)
qed

lemma started_auth:
  fixes world :: "('r, 'x, 'y) server_world"
  assumes "start_server world fl = Inr s"
  shows "(if sf_auth fl then \<exists>sv. (new_service True (sf_auth_config fl) :: 'y auth_error + service) = Inr sv \<and> sr_auth s = Some (wd_auth world, sv)
      else sr_auth s = None \<and> \<not> sf_auth_required fl) \<and> sr_auth_required s = sf_auth_required fl"
  using assms by (auto simp: start_server_def start_auth_def split: sum.splits option.splits if_splits)

lemma refused_session:
  assumes "claims_from_request ap sv now r = Inl e"
  shows "serve_ws_with_auth pt (Some (ap, sv)) True now r upgraded a inputs m = (m, Some (http_error ''unauthorized'' 401))"
  using assms by (simp add: serve_ws_with_auth_def ws_identity_def)

lemma serve_frame:
  "mux_segments (rq_path r) \<noteq> [[], ''ws''] \<Longrightarrow> fst (serve world rt now r upgraded a inputs s) = s"
  by (simp add: serve_def Let_def split: option.split)

lemma started_metrics:
  \<comment> \<open>the page of a server that has just started: nothing is unavailable, and Redis has a circuit when enabled\<close>
  assumes "start_server world fl = Inr s" "pt_publisher (wd_ports world) = None"
  defines "page \<equiv> \<lambda>rt. build_metrics rt (sr_manager s) (persister (sr_manager s)) (sr_kafka s) (sr_redis s)"
  shows "sm_queue_status (page rt) = (if sf_kafka fl then ''healthy'' else ''disabled'') \<and>
    sm_redis_status (page rt) = (if sf_redis fl then ''healthy'' else ''disabled'') \<and>
    sm_redis_circuit (page rt) = (if sf_redis fl then ''closed'' else ''disabled'')"
proof -
  obtain publisher where pub: "start_publisher world fl = Inr publisher" "start_manager world fl publisher = Some (sr_manager s)"
    and flags: "sr_kafka s = sf_kafka fl" "sr_redis s = sf_redis fl"
    using assms(1) by (auto simp: start_server_def split: sum.splits option.splits)
  have queue: "publisher = None \<longleftrightarrow> \<not> sf_kafka fl" "\<forall>p. publisher = Some p \<longrightarrow> ph_status (Publisher.health p) = Publisher_healthy"
    using pub(1) by (auto simp: start_publisher_def new_kafka_publisher_def new_publisher_health_def Let_def
        split: if_splits sum.splits)
  have made: "persister m = publisher \<and>
      redis_breaker m = (if sf_redis fl then Some (new_circuit_breaker (sf_breaker fl)) else None)"
    if "start_manager world fl publisher = Some m" for m
    using that assms(2) by (auto simp: start_manager_def new_manager_with_config_def Let_def)
  have m: "persister (sr_manager s) = publisher"
    "redis_breaker (sr_manager s) = (if sf_redis fl then Some (new_circuit_breaker (sf_breaker fl)) else None)"
    using made [OF pub(2)] by simp_all
  have "cb_state (new_circuit_breaker (sf_breaker fl)) = StateClosed" by (simp add: new_circuit_breaker_def Let_def)
  then show ?thesis
    using queue by (cases publisher)
      (simp_all add: page_def flags build_metrics_def Let_def m metrics_of_def cb_snapshot_of_def kafka_metrics_def
        health_snapshot_of_def)
qed

section \<open>Properties\<close>

text \<open>C38: With required authentication nobody gets in without a token: a server with that flag only starts
  with a login service, whose secret has 32 bytes or more; and as long as it runs, a request without a
  valid token leaves it as it is, is never upgraded to a session, and is answered 401 on the WebSocket and
  metrics paths, however the path is spelled.\<close>

theorem required_auth_guards_server:
  fixes world :: "('r, 'x, 'y) server_world"
  assumes "start_server world fl = Inr s0" "sf_auth_required fl"
  shows "sf_auth fl \<and> (\<exists>sv. sr_auth s0 = Some (wd_auth world, sv) \<and> sv_secret sv = ac_secret (sf_auth_config fl) \<and>
    32 \<le> length (sv_secret sv) \<and>
    (\<forall>rt now r upgraded a inputs m s answer.
       (\<exists>e. claims_from_request (wd_auth world) sv now r = Inl e) \<and>
       serve world rt now r upgraded a inputs (s0\<lparr>sr_manager := m\<rparr>) = (s, answer) \<longrightarrow>
       s = s0\<lparr>sr_manager := m\<rparr> \<and> answer \<noteq> Upgraded \<and>
       (mux_segments (rq_path r) \<in> {[[], ''ws''], [[], ''metrics'']} \<longrightarrow>
          answer = Response (http_error ''unauthorized'' 401) \<or> answer = Moved_to (clean_path (rq_path r)))))"
proof -
  obtain sv where sv: "sf_auth fl" "(new_service True (sf_auth_config fl) :: 'y auth_error + service) = Inr sv" "sr_auth s0 = Some (wd_auth world, sv)"
    and required: "sr_auth_required s0"
    using started_auth [OF assms(1)] assms(2) by (auto split: if_splits)
  have secret: "sv_secret sv = ac_secret (sf_auth_config fl)" "32 \<le> length (sv_secret sv)"
    using sv(2) by (auto simp: new_service_def split: if_splits)
  have "s = s0\<lparr>sr_manager := m\<rparr> \<and> answer \<noteq> Upgraded \<and>
       (mux_segments (rq_path r) \<in> {[[], ''ws''], [[], ''metrics'']} \<longrightarrow>
          answer = Response (http_error ''unauthorized'' 401) \<or> answer = Moved_to (clean_path (rq_path r)))"
    if "claims_from_request (wd_auth world) sv now r = Inl e"
      "serve world rt now r upgraded a inputs (s0\<lparr>sr_manager := m\<rparr>) = (s, answer)"
    for rt now r upgraded a inputs m s answer e
    using that sv(3) required
    by (auto simp: serve_def Let_def refused_session require_claims_def split: if_splits option.splits)
  then show ?thesis using sv secret by blast
qed

text \<open>The web application serves its own files and falls back to its page: what is served is, for GET and
  HEAD only, a regular file at the cleaned path below the root, or else the index page; a file that is
  there is served itself; the check of the handler never refuses a path that was cleaned.\<close>

theorem web_application_serves_its_files:
  assumes "new_web_handler files web_dir = Inr h"
  shows "\<exists>site. wf_abs files web_dir = Inr site \<and>
    (\<forall>fs m path. let candidate = site @ path_components (''/'' @ path) in
       ''..'' \<notin> set (path_components (''/'' @ path)) \<and>
       (case serve_web fs h m path of
          Web_file f \<Rightarrow> (m = ''GET'' \<or> m = ''HEAD'') \<and> wf_opens fs f \<and>
            (f = candidate \<and> wf_regular fs f = Inr True \<or> f = site @ [''index.html''] \<and> wf_regular fs candidate \<noteq> Inr True)
        | Web_error e \<Rightarrow> m \<noteq> ''GET'' \<and> m \<noteq> ''HEAD'' \<and> rs_status e = 405 \<or>
            rs_status e = 500 \<and>
            (if wf_regular fs candidate = Inr True then \<not> wf_opens fs candidate
             else (\<exists>err. wf_regular fs (site @ [''index.html'']) = Inl err) \<or> \<not> wf_opens fs (site @ [''index.html'']))))"
proof -
  obtain site where site: "wf_abs files web_dir = Inr site" "wh_root h = site" "wh_index h = site @ [''index.html'']"
    using assms by (auto simp: new_web_handler_def Let_def split: sum.splits if_splits)
  have "let candidate = site @ path_components (''/'' @ path) in
       ''..'' \<notin> set (path_components (''/'' @ path)) \<and>
       (case serve_web fs h m path of
          Web_file f \<Rightarrow> (m = ''GET'' \<or> m = ''HEAD'') \<and> wf_opens fs f \<and>
            (f = candidate \<and> wf_regular fs f = Inr True \<or> f = site @ [''index.html''] \<and> wf_regular fs candidate \<noteq> Inr True)
        | Web_error e \<Rightarrow> m \<noteq> ''GET'' \<and> m \<noteq> ''HEAD'' \<and> rs_status e = 405 \<or>
            rs_status e = 500 \<and>
            (if wf_regular fs candidate = Inr True then \<not> wf_opens fs candidate
             else (\<exists>err. wf_regular fs (site @ [''index.html'']) = Inl err) \<or> \<not> wf_opens fs (site @ [''index.html''])))"
    for fs m path
    using candidate_inside [of h "''/'' @ path"] components_no_dots [of "''/'' @ path"] site(2,3)
    by (auto simp: serve_web_def serve_file_def Let_def method_not_allowed_def http_error_def split: sum.split)
  then show ?thesis using site(1) by blast
qed

definition demo_site :: web_files where
  "demo_site = \<lparr>wf_abs = (\<lambda>p. Inr [p]), wf_regular = (\<lambda>f. if f = [''web'', ''index.html''] then Inr True else Inl ''missing''),
     wf_opens = (\<lambda>f. True)\<rparr>"

theorem web_application_serves_its_files_witness:
  "serve_web demo_site \<lparr>wh_root = [''web''], wh_index = [''web'', ''index.html'']\<rparr> ''GET'' ''/room'' = Web_file [''web'', ''index.html''] \<and>
   ''..'' \<notin> set (path_components ''//room'')"
proof -
  have start: "new_web_handler demo_site ''web'' = Inr \<lparr>wh_root = [''web''], wh_index = [''web'', ''index.html'']\<rparr>"
    by (simp add: new_web_handler_def demo_site_def)
  have served: "serve_web demo_site \<lparr>wh_root = [''web''], wh_index = [''web'', ''index.html'']\<rparr> ''GET'' ''/room'' =
      Web_file [''web'', ''index.html'']"
    by (simp add: serve_web_def serve_file_def demo_site_def path_components_def)
  obtain site where "let candidate = site @ path_components (''/'' @ ''/room'') in
       ''..'' \<notin> set (path_components (''/'' @ ''/room'')) \<and>
       (case serve_web demo_site \<lparr>wh_root = [''web''], wh_index = [''web'', ''index.html'']\<rparr> ''GET'' ''/room'' of
          Web_file f \<Rightarrow> (''GET'' = ''GET'' \<or> ''GET'' = ''HEAD'') \<and> wf_opens demo_site f \<and>
            (f = candidate \<and> wf_regular demo_site f = Inr True \<or> f = site @ [''index.html''] \<and> wf_regular demo_site candidate \<noteq> Inr True)
        | Web_error e \<Rightarrow> ''GET'' \<noteq> ''GET'' \<and> ''GET'' \<noteq> ''HEAD'' \<and> rs_status e = 405 \<or>
            rs_status e = 500 \<and>
            (if wf_regular demo_site candidate = Inr True then \<not> wf_opens demo_site candidate
             else (\<exists>err. wf_regular demo_site (site @ [''index.html'']) = Inl err) \<or> \<not> wf_opens demo_site (site @ [''index.html''])))"
    using web_application_serves_its_files [OF start] by blast
  then show ?thesis using served by (simp add: Let_def)
qed

definition demo_server_world :: "(nat, string, unit) server_world" where
  "demo_server_world = \<lparr>wd_ports = session_ports, wd_auth = demo_auth, wd_open_db = None,
     wd_init_producer = (\<lambda>brokers. Inl ''unreachable''), wd_redis = 0, wd_hostname = ''h'', wd_nanos = 1,
     wd_random = Some ''12345678'', wd_files = demo_site, wd_enc_metrics = (\<lambda>_. ''{}'')\<rparr>"

definition demo_server_flags :: server_flags where
  "demo_server_flags = \<lparr>sf_web_dir = [], sf_auth = True, sf_auth_required = True,
     sf_auth_config = \<lparr>ac_secret = sv_secret demo_service, ac_issuer = ''v10'', ac_access_ttl = 15 * minute,
       ac_cookie_name = ''v10_access_token'', ac_secure_cookie = True\<rparr>,
     sf_workers = 0, sf_redis_workers = 0, sf_kafka = False, sf_redis = False, sf_brokers = [], sf_topic = ''t'',
     sf_traffic = default_rl_config, sf_breaker = default_cb_config\<rparr>"

definition demo_metrics_request :: http_request where
  "demo_metrics_request = \<lparr>rq_method = ''GET'', rq_path = ''/%6Detrics'', rq_remote_addr = [], rq_header = (\<lambda>_. []),
     rq_cookies = [], rq_query = (\<lambda>_. []), rq_body = []\<rparr>"

theorem required_auth_guards_server_witness:
  "\<exists>s. start_server demo_server_world demo_server_flags = Inr s \<and>
     (\<forall>rt. snd (serve demo_server_world rt 0 demo_metrics_request False 7 [] s) \<in> {Response (http_error ''unauthorized'' 401), Moved_to ''/%6Detrics''})"
proof -
  have "trim_space ''v10'' = ''v10''" by (simp add: trim_space_ascii ascii_def byte_def is_space_def)
  then obtain s where s: "start_server demo_server_world demo_server_flags = Inr s"
    by (auto simp: start_server_def start_auth_def start_publisher_def start_manager_def new_manager_with_config_def
        new_generator_def demo_server_world_def demo_server_flags_def new_service_def demo_service_def register_web_frontend_def Let_def)
  have none: "claims_from_request ap sv now demo_metrics_request = Inl Missing_token" for ap sv now
    by (simp add: claims_from_request_def demo_metrics_request_def request_cookie_def bearer_token_def Go_Strings.fields_def)
  have "char_of (109 :: nat) = CHR ''m''" by code_simp
  then have path: "mux_segments (rq_path demo_metrics_request) = [[], ''metrics'']"
    by (simp add: mux_segments_def demo_metrics_request_def hex_value_def byte_def)
  have clean: "clean_path (rq_path demo_metrics_request) = ''/%6Detrics''"
    by (simp add: clean_path_def path_components_def demo_metrics_request_def)
  have required: "sf_auth_required demo_server_flags" by (simp add: demo_server_flags_def)
  have "snd (serve demo_server_world rt 0 demo_metrics_request False 7 [] s) \<in>
      {Response (http_error ''unauthorized'' 401), Moved_to ''/%6Detrics''}" for rt
  proof -
    obtain s' answer where serve: "serve demo_server_world rt 0 demo_metrics_request False 7 [] (s\<lparr>sr_manager := sr_manager s\<rparr>) = (s', answer)"
      by fastforce
    have "answer = Response (http_error ''unauthorized'' 401) \<or> answer = Moved_to (clean_path (rq_path demo_metrics_request))"
      using required_auth_guards_server [OF s required] serve none path by blast
    then show ?thesis using serve clean by auto
  qed
  then show ?thesis using s by blast
qed

end
