(* ===== verification/Load_Bench.thy ===== *)
theory Load_Bench
  imports Model Float64
begin

text \<open>
  The load generator, \<open>v10/cmd/benchmark/main.go\<close>: the histogram of the latencies and its percentiles, what
  a bot reads and sends, and the bots with their counters as interleaved steps. The socket, the random
  numbers and the JSON texts are parameters; the counters of \<open>atomic.Int64\<close> stay far below their width and
  are integers.
\<close>

section \<open>Latencies\<close>

definition latency_bucket_width :: duration where "latency_bucket_width = 10 * 1000"
definition latency_max :: duration where "latency_max = 10 * second"

definition latency_bucket_count :: nat where
  "latency_bucket_count = nat (latency_max div latency_bucket_width) + 1"

record latency_stats =
  lt_count :: u64
  lt_buckets :: "nat \<Rightarrow> u64"
    \<comment> \<open>the array, by an index below \<open>latency_bucket_count\<close>\<close>

definition new_latency_stats :: latency_stats where
  "new_latency_stats = \<lparr>lt_count = 0, lt_buckets = (\<lambda>_. 0)\<rparr>"

record latency_summary =
  su_count :: int
  su_p50 :: duration
  su_p95 :: duration
  su_p99 :: duration

definition record_latency :: "duration \<Rightarrow> latency_stats \<Rightarrow> latency_stats" where
  "record_latency latency s =
     (if latency < 0 then s
      else
        (let index = nat ((latency + latency_bucket_width - 1) div latency_bucket_width);
             index = (if index \<ge> latency_bucket_count then latency_bucket_count - 1 else index)
         in s\<lparr>lt_buckets := (lt_buckets s)(index := lt_buckets s index + 1), lt_count := lt_count s + 1\<rparr>))"

fun seek_rank :: "(nat \<Rightarrow> u64) \<Rightarrow> u64 \<Rightarrow> u64 \<Rightarrow> nat list \<Rightarrow> duration" where
  \<comment> \<open>the loop of \<open>percentile\<close>: what was seen, and the indices to come\<close>
  "seek_rank buckets rank seen [] = latency_max"
| "seek_rank buckets rank seen (index # rest) =
     (let seen = seen + buckets index
      in if seen \<ge> rank then int index * latency_bucket_width else seek_rank buckets rank seen rest)"

definition latency_rank :: "u64 \<Rightarrow> real \<Rightarrow> u64" where
  "latency_rank n p = of_int \<lceil>fmul (float64_of_int (uint n)) p\<rceil>"

definition latency_percentile :: "latency_stats \<Rightarrow> u64 \<Rightarrow> real \<Rightarrow> duration" where
  "latency_percentile s n p = seek_rank (lt_buckets s) (latency_rank n p) 0 [0..<latency_bucket_count]"

definition double_constant :: "nat \<Rightarrow> real" where
  \<comment> \<open>the constant \<open>0.xx\<close> of so many hundredths, as a \<open>float64\<close>\<close>
  "double_constant hundredths = rnd64 (real hundredths / 100)"

definition summary :: "latency_stats \<Rightarrow> latency_summary" where
  "summary s =
     (let n = lt_count s
      in if n = 0 then \<lparr>su_count = 0, su_p50 = 0, su_p95 = 0, su_p99 = 0\<rparr>
         else \<lparr>su_count = sint n, su_p50 = latency_percentile s n (double_constant 50),
               su_p95 = latency_percentile s n (double_constant 95), su_p99 = latency_percentile s n (double_constant 99)\<rparr>)"

section \<open>Bots\<close>

record load_counters =
  bk_connected :: int
  bk_total_connected :: int
  bk_sent :: int
  bk_received :: int
  bk_rate_limited :: int
  bk_overloaded :: int
  bk_errors :: int

definition no_load :: load_counters where
  "no_load = \<lparr>bk_connected = 0, bk_total_connected = 0, bk_sent = 0, bk_received = 0, bk_rate_limited = 0,
     bk_overloaded = 0, bk_errors = 0\<rparr>"

definition bot_reads ::
  "codec \<Rightarrow> (string \<Rightarrow> control_data option) \<Rightarrow> int \<Rightarrow> string \<Rightarrow> load_counters \<times> latency_stats \<Rightarrow> load_counters \<times> latency_stats" where
  \<comment> \<open>one message in \<open>readLoop\<close>; the clock counts nanoseconds of the Unix epoch\<close>
  "bot_reads cd dec_control now raw kl =
     (case kl of (k, latencies) \<Rightarrow>
        (case dec_packet cd raw of
           None \<Rightarrow> (k, latencies)
         | Some packet \<Rightarrow>
             if packet_type packet = type_danmaku
             then (k\<lparr>bk_received := bk_received k + 1\<rparr>,
                   case dec_danmaku cd (packet_data packet) of
                     None \<Rightarrow> latencies
                   | Some d \<Rightarrow>
                       if client_sent_at_unix_nano d > 0
                       then record_latency (now - client_sent_at_unix_nano d) latencies else latencies)
             else if packet_type packet = type_control
             then (case dec_control (packet_data packet) of
                     None \<Rightarrow> (k, latencies)
                   | Some control \<Rightarrow>
                       (if ctl_code control = ''rate_limited'' then k\<lparr>bk_rate_limited := bk_rate_limited k + 1\<rparr>
                        else if ctl_code control = ''server_overloaded'' then k\<lparr>bk_overloaded := bk_overloaded k + 1\<rparr>
                        else k, latencies))
             else (k, latencies)))"

definition bot_message :: "codec \<Rightarrow> int \<Rightarrow> string \<Rightarrow> packet option" where
  \<comment> \<open>\<open>sendDanmaku\<close>: the packet that is written\<close>
  "bot_message cd now text =
     map_option (\<lambda>payload. \<lparr>packet_type = type_danmaku, packet_room_id = [], packet_data = payload\<rparr>)
       (enc_danmaku cd
          \<lparr>db_id = 0, message_id = [], room_id = [], user_id = [], username = [], content = text,
           send_time = \<lparr>instant = 0, utc_offset = 0\<rparr>, client_sent_at_unix_nano = now\<rparr>)"

datatype bot_phase = Not_launched | Dialing | Passive | Active | Gone

record load =
  ld_counters :: load_counters
  ld_latencies :: latency_stats
  ld_bot :: "nat \<Rightarrow> bot_phase"
  ld_reading :: "nat \<Rightarrow> bool"
    \<comment> \<open>the bot's \<open>readLoop\<close> runs\<close>
  ld_launched :: nat
  ld_over :: bool
    \<comment> \<open>the context is done\<close>

definition start_load :: load where
  "start_load = \<lparr>ld_counters = no_load, ld_latencies = new_latency_stats, ld_bot = (\<lambda>_. Not_launched),
     ld_reading = (\<lambda>_. False), ld_launched = 0, ld_over = False\<rparr>"

definition online :: "bot_phase \<Rightarrow> bool" where
  "online phase \<longleftrightarrow> phase = Passive \<or> phase = Active"

definition hang_up :: "nat \<Rightarrow> load \<Rightarrow> load" where
  \<comment> \<open>the deferred end of \<open>runBot\<close>\<close>
  "hang_up i l = l\<lparr>ld_bot := (ld_bot l)(i := Gone),
     ld_counters := (ld_counters l)\<lparr>bk_connected := bk_connected (ld_counters l) - 1\<rparr>\<rparr>"

definition count_error :: "load \<Rightarrow> load" where
  "count_error l = l\<lparr>ld_counters := (ld_counters l)\<lparr>bk_errors := bk_errors (ld_counters l) + 1\<rparr>\<rparr>"

inductive load_step :: "nat \<Rightarrow> codec \<Rightarrow> (string \<Rightarrow> control_data option) \<Rightarrow> load \<Rightarrow> load \<Rightarrow> bool"
  for clients :: nat and cd dec_control where
  launches: "ld_launched l < clients \<Longrightarrow>
    load_step clients cd dec_control l (l\<lparr>ld_bot := (ld_bot l)(ld_launched l := Dialing), ld_launched := ld_launched l + 1\<rparr>)"
| dial_fails: "ld_bot l i = Dialing \<Longrightarrow>
    load_step clients cd dec_control l (count_error (l\<lparr>ld_bot := (ld_bot l)(i := Gone)\<rparr>))"
| dials: "ld_bot l i = Dialing \<Longrightarrow> online phase \<Longrightarrow>
    load_step clients cd dec_control l
      (l\<lparr>ld_bot := (ld_bot l)(i := phase), ld_reading := (ld_reading l)(i := True),
         ld_counters := (ld_counters l)\<lparr>bk_connected := bk_connected (ld_counters l) + 1,
           bk_total_connected := bk_total_connected (ld_counters l) + 1\<rparr>\<rparr>)"
| reads: "ld_reading l i \<Longrightarrow> bot_reads cd dec_control now raw (ld_counters l, ld_latencies l) = (k, latencies) \<Longrightarrow>
    load_step clients cd dec_control l (l\<lparr>ld_counters := k, ld_latencies := latencies\<rparr>)"
| read_fails: "ld_reading l i \<Longrightarrow>
    load_step clients cd dec_control l
      ((if ld_over l then l else count_error l)\<lparr>ld_reading := (ld_reading l)(i := False)\<rparr>)"
| sends: "ld_bot l i = Active \<Longrightarrow>
    load_step clients cd dec_control l
      (l\<lparr>ld_counters := (ld_counters l)\<lparr>bk_sent := bk_sent (ld_counters l) + 1\<rparr>\<rparr>)"
| send_fails: "ld_bot l i = Active \<Longrightarrow> load_step clients cd dec_control l (hang_up i (count_error l))"
| leaves: "online (ld_bot l i) \<Longrightarrow> ld_over l \<or> \<not> ld_reading l i \<Longrightarrow> load_step clients cd dec_control l (hang_up i l)"
| ends: "load_step clients cd dec_control l (l\<lparr>ld_over := True\<rparr>)"

inductive_cases load_stepE: "load_step clients cd dec_control l l'"

fun report_rates :: "int \<Rightarrow> int \<Rightarrow> (int \<times> int) list \<Rightarrow> (int \<times> int) list" where
  \<comment> \<open>the rates that \<open>report\<close> logs: what was sent and received at each tick, less the last tick's\<close>
  "report_rates last_sent last_received [] = []"
| "report_rates last_sent last_received ((sent, received) # rest) =
     (sent - last_sent, received - last_received) # report_rates sent received rest"

lemma report_rates_add_up:
  "xs \<noteq> [] \<Longrightarrow> sum_list (map fst (report_rates s r xs)) = fst (last xs) - s \<and>
     sum_list (map snd (report_rates s r xs)) = snd (last xs) - r"
  by (induction s r xs rule: report_rates.induct) (auto split: if_splits)

section \<open>Rounded ranks\<close>

lemma rank_bound: "h \<le> 100 \<Longrightarrow> (n * h + 99) div 100 \<le> (n :: nat)"
proof -
  assume "h \<le> 100"
  then have "(n * h + 99) div 100 \<le> (n * 100 + 99) div 100" by (intro div_le_mono) simp
  then show ?thesis by simp
qed

lemma rounded_rank:
  assumes d: "real h / 100 - 1 / 2 ^ 52 \<le> d" "d \<le> real h / 100" "0 < h" "h \<le> 100" and n: "0 < n" "n < 2 ^ 40"
  shows "\<lceil>rnd64 (real n * d)\<rceil> = int ((n * h + 99) div 100)"
proof (rule ceiling_unique)
  define x q m where "x = real n * d" and "q = real n * (real h / 100)" and "m = (n * h + 99) div 100"
  have m: "n * h \<le> 100 * m" "100 * m \<le> n * h + 99" by (simp_all add: m_def)
  have "m < 2 ^ 53" using rank_bound [OF d(4), of n] n(2) by (simp add: m_def)
  then have m_fits: "rnd64 (real m) = real m" by (rule rnd64_nat)
  have qm: "q \<le> real m" "real m - 99 / 100 \<le> q"
    using of_nat_mono [OF m(1), where 'a = real] of_nat_mono [OF m(2), where 'a = real] by (simp_all add: q_def)
  have "1 * (1 / 200) \<le> real n * d" using n(1) d(1,3) by (intro mult_mono) simp_all
  then have x: "1 / 200 \<le> x" by (simp add: x_def)
  have xq: "x \<le> q" unfolding x_def q_def using d(2) by (intro mult_left_mono) simp_all
  have "real n * (real h / 100 - 1 / 2 ^ 52) \<le> x" unfolding x_def using d(1) by (intro mult_left_mono) simp_all
  moreover have "real n * (1 / 2 ^ 52) \<le> 2 ^ 40 * (1 / 2 ^ 52)" using n(2) by (intro mult_right_mono) simp_all
  ultimately have qx: "q - 1 / 2 ^ 12 \<le> x" by (simp add: q_def right_diff_distrib)
  have "rnd64 x \<le> rnd64 (real m)" using x xq qm(1) by (intro rnd64_mono) simp_all
  then show "rnd64 (real n * d) \<le> of_int (int ((n * h + 99) div 100))" by (simp flip: x_def m_def add: m_fits)
  have "- 8 \<le> ilog2 x"
    using ilog2_mono [of "2 powi (- 8)" x] ilog2_unique [of "2 powi (- 8)" "- 8"] x by (simp add: power_int_minus)
  then have "x - x * 2 powi (- 53) \<le> rnd64 x" using x by (intro rnd64_error) simp_all
  moreover have "x * 2 powi (- 53) \<le> 1 / 2 ^ 13"
  proof -
    have "q \<le> real n * 1" unfolding q_def using d(4) by (intro mult_left_mono) simp_all
    moreover have "real n \<le> 2 ^ 40" using n(2) by simp
    ultimately have "x \<le> 2 ^ 40" using xq by linarith
    then show ?thesis by (simp add: power_int_minus)
  qed
  ultimately have "real m - 1 < rnd64 x" using qx qm(2) by simp
  then show "of_int (int ((n * h + 99) div 100)) - 1 < rnd64 (real n * d)" by (simp add: x_def m_def)
qed

lemma double_constants:
  assumes "h \<in> {50, 95, 99}"
  shows "real h / 100 - 1 / 2 ^ 52 \<le> double_constant h" "double_constant h \<le> real h / 100"
proof -
  have "2 powi (- 1) \<le> real h / 100" "real h / 100 < 2 powi (- 1 + 1)" using assms by auto
  then have "ilog2 (real h / 100) = - 1" using assms by (intro ilog2_unique) auto
  then have "double_constant h = of_int (round_even (real h / 100 * 2 ^ 53)) / 2 ^ 53"
    using assms by (auto simp: double_constant_def rnd64_pos ulp_exp_def power_int_minus field_simps)
  moreover have "round_even (real h / 100 * 2 ^ 53) = \<lfloor>real h / 100 * 2 ^ 53\<rfloor>"
    using assms by (auto simp: round_even_def Let_def)
  ultimately have "double_constant h = of_int \<lfloor>real h / 100 * 2 ^ 53\<rfloor> / 2 ^ 53" by simp
  then show "real h / 100 - 1 / 2 ^ 52 \<le> double_constant h" "double_constant h \<le> real h / 100"
    using of_int_floor_le [of "real h / 100 * 2 ^ 53"] floor_correct [of "real h / 100 * 2 ^ 53"]
    by (simp_all add: field_simps)
qed

section \<open>The histogram\<close>

definition bucket_of :: "duration \<Rightarrow> nat" where
  "bucket_of v = min (latency_bucket_count - 1) (nat ((v + latency_bucket_width - 1) div latency_bucket_width))"

lemma bucket_mono: "v \<le> w \<Longrightarrow> bucket_of v \<le> bucket_of w"
  unfolding bucket_of_def by (intro min.mono nat_mono zdiv_mono1) (simp_all add: latency_bucket_width_def)

lemma bucket_bound: "bucket_of v < latency_bucket_count"
  by (simp add: bucket_of_def latency_bucket_count_def)

lemma record_latency_bucket:
  "record_latency v s = (if v < 0 then s
     else s\<lparr>lt_buckets := (lt_buckets s)(bucket_of v := lt_buckets s (bucket_of v) + 1), lt_count := lt_count s + 1\<rparr>)"
proof -
  have "(if index \<ge> latency_bucket_count then latency_bucket_count - 1 else index) = min (latency_bucket_count - 1) index" for index
    using bucket_bound [of 0] by (auto simp: min_def)
  then show ?thesis by (simp add: record_latency_def bucket_of_def Let_def)
qed

lemma recorded:
  "lt_count (fold record_latency ls s) = lt_count s + of_nat (length (filter (\<lambda>v. 0 \<le> v) ls)) \<and>
   lt_buckets (fold record_latency ls s) i = lt_buckets s i + of_nat (length (filter (\<lambda>v. 0 \<le> v \<and> bucket_of v = i) ls))"
  by (induction ls arbitrary: s) (simp_all add: record_latency_bucket not_less)

lemma counts_add_up:
  "(\<Sum>k < m. length (filter (\<lambda>v. P v \<and> f v = k) xs)) = length (filter (\<lambda>v. P v \<and> f v < (m :: nat)) xs)"
proof (induction m)
  case (Suc m)
  have "length (filter (\<lambda>v. P v \<and> f v < m) xs) + length (filter (\<lambda>v. P v \<and> f v = m) xs) =
      length (filter (\<lambda>v. P v \<and> f v < Suc m) xs)"
    by (induction xs) auto
  then show ?case by (simp add: Suc.IH)
qed simp

lemma unat_small: "n < 2 ^ 64 \<Longrightarrow> unat (of_nat n :: u64) = n"
  by (simp add: unat_of_nat take_bit_nat_eq_self)

lemma seek_rank_first:
  assumes "i \<le> t" "t < m" "\<forall>k. buckets k = of_nat (b k)" "(\<Sum>k < m. b k) < 2 ^ 64"
    "rank \<le> (\<Sum>k < Suc t. b k)" "\<forall>k < t. (\<Sum>j < Suc k. b j) < rank"
  shows "seek_rank buckets (of_nat rank) (of_nat (\<Sum>k < i. b k)) [i..<m] = int t * latency_bucket_width"
  using assms(1)
proof (induction "t - i" arbitrary: i)
  case 0
  then have i: "i = t" by simp
  have "(\<Sum>k < Suc t. b k) \<le> (\<Sum>k < m. b k)" using assms(2) by (intro sum_mono2) auto
  then have "of_nat rank \<le> (of_nat (\<Sum>k < Suc t. b k) :: u64)"
    using assms(4,5) by (simp add: word_le_nat_alt unat_small del: sum.lessThan_Suc of_nat_sum)
  then show ?case using i assms(2,3) by (simp add: upt_rec [of t m] Let_def)
next
  case (Suc n)
  then have i: "i < t" by simp
  have "(\<Sum>k < Suc i. b k) \<le> (\<Sum>k < m. b k)" "(\<Sum>k < Suc t. b k) \<le> (\<Sum>k < m. b k)"
    using assms(2) i by (intro sum_mono2; auto)+
  then have small: "(\<Sum>k < Suc i. b k) < 2 ^ 64" "rank < 2 ^ 64" using assms(4,5) by linarith+
  then have "\<not> of_nat rank \<le> (of_nat (\<Sum>k < Suc i. b k) :: u64)"
    using assms(6) i by (simp add: word_le_nat_alt unat_small not_le del: sum.lessThan_Suc of_nat_sum)
  moreover have "seek_rank buckets (of_nat rank) (of_nat (\<Sum>k < Suc i. b k)) [Suc i..<m] = int t * latency_bucket_width"
    using Suc.hyps(2) i by (intro Suc.hyps(1)) simp_all
  ultimately show ?case using i assms(2,3) by (simp add: upt_rec [of i m] Let_def)
qed

lemma sorted_rank:
  assumes "sorted ys" "0 < r" "r \<le> length ys"
  shows "r \<le> length (filter (\<lambda>y. y < j) ys) \<longleftrightarrow> ys ! (r - 1) < (j :: nat)"
  using assms
proof (induction ys arbitrary: r)
  case (Cons y ys)
  show ?case
  proof (cases "y < j")
    case True
    then show ?thesis
      using Cons.prems Cons.IH [of "r - 1"] by (cases "r = 1") (auto simp: nth_Cons' numeral_2_eq_2 le_diff_conv Suc_le_eq)
  next
    case False
    have "z \<in> set (y # ys) \<Longrightarrow> \<not> z < j" for z using Cons.prems(1) False by auto
    then have "filter (\<lambda>y. y < j) (y # ys) = []" "\<not> (y # ys) ! (r - 1) < j"
      using Cons.prems(2,3) nth_mem [of "r - 1" "y # ys"] by (auto simp: filter_empty_conv)
    then show ?thesis using Cons.prems(2) by simp
  qed
qed simp

lemma percentile_bucket:
  fixes ls defines "xs \<equiv> sort (filter (\<lambda>v. 0 \<le> v) ls)"
  assumes "0 < r" "r \<le> length xs" "length xs < 2 ^ 64"
  shows "seek_rank (lt_buckets (fold record_latency ls new_latency_stats)) (of_nat r) 0 [0..<latency_bucket_count] =
    int (bucket_of (xs ! (r - 1))) * latency_bucket_width"
proof -
  let ?b = "\<lambda>k. length (filter (\<lambda>v. 0 \<le> v \<and> bucket_of v = k) ls)"
  have sums: "(\<Sum>k < m. ?b k) = length (filter (\<lambda>y. y < m) (map bucket_of xs))" for m
  proof -
    have "mset (filter (\<lambda>y. y < m) (map bucket_of xs)) = mset (map bucket_of (filter (\<lambda>v. 0 \<le> v \<and> bucket_of v < m) ls))"
      by (simp add: xs_def filter_mset_image_mset filter_filter_mset conj_commute)
    then have "length (filter (\<lambda>y. y < m) (map bucket_of xs)) = length (map bucket_of (filter (\<lambda>v. 0 \<le> v \<and> bucket_of v < m) ls))"
      by (rule mset_eq_length)
    then show ?thesis by (simp only: counts_add_up length_map)
  qed
  have sorted: "sorted (map bucket_of xs)"
    unfolding sorted_map by (rule sorted_wrt_mono_rel [of _ "(\<le>)"]) (simp_all add: bucket_mono xs_def)
  have rank: "r \<le> (\<Sum>k < j. ?b k) \<longleftrightarrow> bucket_of (xs ! (r - 1)) < j" for j
    using sorted_rank [OF sorted assms(2), of j] assms(2,3) by (simp only: sums) simp
  have "(\<Sum>k < latency_bucket_count. ?b k) < 2 ^ 64"
    using assms(4) order.strict_trans1 [OF length_filter_le [of "\<lambda>y. y < latency_bucket_count" "map bucket_of xs"]]
    by (simp only: sums length_map)
  moreover have "\<forall>k. lt_buckets (fold record_latency ls new_latency_stats) k = of_nat (?b k)"
    using recorded [of ls new_latency_stats] by (simp add: new_latency_stats_def)
  moreover have "r \<le> (\<Sum>k < Suc (bucket_of (xs ! (r - 1))). ?b k)" by (simp only: rank lessI)
  moreover have "\<forall>j < bucket_of (xs ! (r - 1)). (\<Sum>k < Suc j. ?b k) < r"
    using rank by (simp add: not_le [symmetric] del: sum.lessThan_Suc)
  ultimately have "seek_rank (lt_buckets (fold record_latency ls new_latency_stats)) (of_nat r) (of_nat (\<Sum>k < 0. ?b k))
      [0..<latency_bucket_count] = int (bucket_of (xs ! (r - 1))) * latency_bucket_width"
    using bucket_bound by (intro seek_rank_first [of 0]) simp_all
  then show ?thesis by simp
qed

lemma bucket_value:
  assumes "0 \<le> v"
  shows "if v \<le> 10 * second then v \<le> int (bucket_of v) * 10000 \<and> int (bucket_of v) * 10000 < v + 10000
    else int (bucket_of v) * 10000 = 10 * second"
proof -
  have "int (bucket_of v) = min 1000000 ((v + 9999) div 10000)"
    using assms by (simp add: bucket_of_def latency_bucket_count_def latency_bucket_width_def latency_max_def of_nat_min add.commute)
  then show ?thesis by (auto simp: min_def)
qed

section \<open>Properties\<close>

text \<open>C36: The load generator's histogram gives nearest-rank percentiles: whatever was recorded in whatever
  order, fewer than \<open>2\<^sup>4\<^sup>0\<close> latencies, the summary has the number of those that are not negative, and its
  50th, 95th and 99th percentiles are the latencies of exactly that rank in sorted order, in spite of
  the rank's rounding in floating point, rounded up by less than ten microseconds (a latency of
  more than ten seconds counts as ten).\<close>

theorem histogram_percentiles_are_nearest_rank:
  fixes ls defines "xs \<equiv> sort (filter (\<lambda>v. 0 \<le> v) ls)"
  defines "ranked \<equiv> \<lambda>h. xs ! ((length xs * h + 99) div 100 - 1)"
  assumes "0 < length xs" "length xs < 2 ^ 40"
  shows "\<exists>p50 p95 p99. summary (fold record_latency ls new_latency_stats) =
      \<lparr>su_count = int (length xs), su_p50 = p50, su_p95 = p95, su_p99 = p99\<rparr> \<and>
    (\<forall>(p, h) \<in> {(p50, 50), (p95, 95), (p99, 99)}.
       if ranked h \<le> 10 * second then ranked h \<le> p \<and> p < ranked h + 10000 \<and> p mod 10000 = 0 else p = 10 * second) \<and>
    p50 \<le> p95 \<and> p95 \<le> p99"
proof -
  let ?s = "fold record_latency ls new_latency_stats" and ?n = "length xs"
  define p where "p h = int (bucket_of (ranked h)) * latency_bucket_width" for h
  have n: "lt_count ?s = of_nat ?n" using recorded [of ls new_latency_stats] by (simp add: new_latency_stats_def xs_def)
  have fits: "uint (of_nat ?n :: u64) = int ?n" "(of_nat ?n :: u64) \<noteq> 0"
    using unat_small [of ?n] assms(3,4) by (auto simp flip: unat_eq_0) (simp add: uint_nat)
  have percentile: "latency_percentile ?s (of_nat ?n) (double_constant h) = p h" if h: "h \<in> {50, 95, 99}" for h
  proof -
    have "latency_rank (of_nat ?n) (double_constant h) = of_nat ((?n * h + 99) div 100)"
      using rounded_rank [OF double_constants [OF h], of ?n] h assms(3,4)
      by (auto simp: latency_rank_def fits fmul_def float64_of_int_nat)
    moreover have "0 < (?n * h + 99) div 100"
      using div_le_mono [of 100 "?n * h + 99" 100] mult_le_mono [of 1 ?n 50 h] h assms(3) by auto
    moreover have "(?n * h + 99) div 100 \<le> ?n" using h by (intro rank_bound) auto
    ultimately show ?thesis
      using percentile_bucket [of "(?n * h + 99) div 100" ls] assms(4)
      by (simp add: latency_percentile_def p_def ranked_def xs_def)
  qed
  have summary: "summary ?s = \<lparr>su_count = int ?n, su_p50 = p 50, su_p95 = p 95, su_p99 = p 99\<rparr>"
  proof -
    have "sint (of_nat ?n :: u64) = int ?n" using assms(4) by (simp add: signed_of_nat signed_take_bit_int_eq_self)
    then show ?thesis
      using percentile [of 50] percentile [of 95] percentile [of 99] fits(2) by (simp add: summary_def Let_def n)
  qed
  have sorted: "sorted xs" by (simp add: xs_def)
  have "0 \<le> ranked h" if "h \<le> 100" for h
  proof -
    have "(?n * h + 99) div 100 - 1 < ?n" using rank_bound [OF that, of ?n] assms(3) by linarith
    then have "ranked h \<in> set xs" by (simp add: ranked_def)
    then show ?thesis by (simp add: xs_def)
  qed
  then have bounds: "if ranked h \<le> 10 * second then ranked h \<le> p h \<and> p h < ranked h + 10000 \<and> p h mod 10000 = 0
      else p h = 10 * second" if "h \<le> 100" for h
    using bucket_value [of "ranked h"] that by (simp add: p_def latency_bucket_width_def split: if_splits)
  have "p h \<le> p k" if "h \<le> k" "k \<le> 100" for h k
  proof -
    have "(?n * h + 99) div 100 - 1 \<le> (?n * k + 99) div 100 - 1"
      using that(1) by (intro diff_le_mono div_le_mono add_le_mono1 mult_le_mono2)
    moreover have "(?n * k + 99) div 100 - 1 < ?n" using rank_bound [OF that(2), of ?n] assms(3) by linarith
    ultimately have "ranked h \<le> ranked k" using sorted by (simp add: ranked_def sorted_nth_mono)
    then show ?thesis using bucket_mono [of "ranked h" "ranked k"] by (simp add: p_def latency_bucket_width_def)
  qed
  then have "p 50 \<le> p 95" "p 95 \<le> p 99" by simp_all
  then show ?thesis using summary bounds [of 50] bounds [of 95] bounds [of 99]
    by (intro exI [of _ "p 50"] exI [of _ "p 95"] exI [of _ "p 99"]) simp
qed

lemma between_multiples:
  assumes "k * 10000 - 10000 < p" "p < k * 10000 + 10000" "p mod 10000 = (0 :: int)"
  shows "p = k * 10000"
proof -
  obtain q where q: "p = 10000 * q" using assms(3) by auto
  then have "k - 1 < q" "q < k + 1" using assms(1,2) by linarith+
  then show ?thesis using q by simp
qed

theorem histogram_percentiles_are_nearest_rank_witness:
  "\<exists>p99. summary (fold record_latency [25001, - 5, 10000] new_latency_stats) =
      \<lparr>su_count = 2, su_p50 = 10000, su_p95 = 30000, su_p99 = p99\<rparr>"
proof -
  have sorted: "sort (filter (\<lambda>v. 0 \<le> v) [25001, - 5, 10000 :: int]) = [10000, 25001]" by simp
  have "\<exists>a b c. summary (fold record_latency [25001, - 5, 10000] new_latency_stats) =
      \<lparr>su_count = 2, su_p50 = a, su_p95 = b, su_p99 = c\<rparr> \<and>
      10000 \<le> a \<and> a < 20000 \<and> a mod 10000 = 0 \<and> 25001 \<le> b \<and> b < 35001 \<and> b mod 10000 = 0 \<and>
      25001 \<le> c \<and> c < 35001 \<and> c mod 10000 = 0 \<and> a \<le> b \<and> b \<le> c"
    using histogram_percentiles_are_nearest_rank [of "[25001, - 5, 10000]", unfolded sorted] by simp
  then show ?thesis
  proof (elim exE conjE)
    fix a b c :: int
    assume s: "summary (fold record_latency [25001, - 5, 10000] new_latency_stats) =
        \<lparr>su_count = 2, su_p50 = a, su_p95 = b, su_p99 = c\<rparr>"
      and a: "10000 \<le> a" "a < 20000" "a mod 10000 = 0" and b: "25001 \<le> b" "b < 35001" "b mod 10000 = 0"
    have "a = 10000" using between_multiples [of 1 a] a by simp
    moreover have "b = 30000" using between_multiples [of 3 b] b by simp
    ultimately show ?thesis using s by simp
  qed
qed

section \<open>Counters\<close>

definition tally :: "(bot_phase \<Rightarrow> bool \<Rightarrow> int) \<Rightarrow> load \<Rightarrow> int" where
  "tally f l = (\<Sum>i < ld_launched l. f (ld_bot l i) (ld_reading l i))"

definition is_up :: "bot_phase \<Rightarrow> bool \<Rightarrow> int" where "is_up phase reading = of_bool (online phase)"
definition is_dialing :: "bot_phase \<Rightarrow> bool \<Rightarrow> int" where "is_dialing phase reading = of_bool (phase = Dialing)"

definition errors_left :: "bot_phase \<Rightarrow> bool \<Rightarrow> int" where
  \<comment> \<open>how many errors a bot can still cause\<close>
  "errors_left phase reading = 2 * of_bool (phase = Dialing) + of_bool (online phase) + of_bool reading"

definition load_inv :: "nat \<Rightarrow> load \<Rightarrow> bool" where
  "load_inv clients l \<longleftrightarrow>
     ld_launched l \<le> clients \<and> (\<forall>i. ld_bot l i = Not_launched \<longleftrightarrow> ld_launched l \<le> i) \<and>
     (\<forall>i. ld_reading l i \<longrightarrow> ld_bot l i \<noteq> Dialing \<and> ld_bot l i \<noteq> Not_launched) \<and>
     bk_connected (ld_counters l) = tally is_up l \<and>
     bk_total_connected (ld_counters l) + tally is_dialing l \<le> int (ld_launched l) \<and>
     bk_connected (ld_counters l) \<le> bk_total_connected (ld_counters l) \<and>
     bk_errors (ld_counters l) + tally errors_left l \<le> 2 * int (ld_launched l)"

lemmas load_tallies = is_up_def is_dialing_def errors_left_def online_def

lemma tally_one:
  assumes "i < ld_launched l" "ld_launched l' = ld_launched l"
    "\<And>j. j \<noteq> i \<Longrightarrow> ld_bot l' j = ld_bot l j \<and> ld_reading l' j = ld_reading l j"
  shows "tally f l' = tally f l - f (ld_bot l i) (ld_reading l i) + f (ld_bot l' i) (ld_reading l' i)"
proof -
  have "(\<Sum>j \<in> {..<ld_launched l} - {i}. f (ld_bot l' j) (ld_reading l' j)) = (\<Sum>j \<in> {..<ld_launched l} - {i}. f (ld_bot l j) (ld_reading l j))"
    using assms(3) by (intro sum.cong) auto
  then show ?thesis
    using sum.remove [of "{..<ld_launched l}" i "\<lambda>j. f (ld_bot l j) (ld_reading l j)"]
      sum.remove [of "{..<ld_launched l}" i "\<lambda>j. f (ld_bot l' j) (ld_reading l' j)"] assms(1,2)
    by (simp add: tally_def)
qed

lemma tally_same:
  "ld_launched l' = ld_launched l \<Longrightarrow> ld_bot l' = ld_bot l \<Longrightarrow> ld_reading l' = ld_reading l \<Longrightarrow> tally f l' = tally f l"
  by (simp add: tally_def)

lemma tally_launch:
  assumes "\<not> ld_reading l (ld_launched l)"
  shows "tally f (l\<lparr>ld_bot := (ld_bot l)(ld_launched l := Dialing), ld_launched := Suc (ld_launched l)\<rparr>) = tally f l + f Dialing False"
proof -
  have "(\<Sum>i < ld_launched l. f (((ld_bot l)(ld_launched l := Dialing)) i) (ld_reading l i)) = tally f l"
    unfolding tally_def by (intro sum.cong) auto
  then show ?thesis using assms by (simp add: tally_def)
qed

lemma bot_reads_frame:
  "bot_reads cd dec_control now raw (k, s) = (k', s') \<Longrightarrow>
     bk_connected k' = bk_connected k \<and> bk_total_connected k' = bk_total_connected k \<and> bk_errors k' = bk_errors k"
  by (auto simp: bot_reads_def split: option.splits if_splits)

lemma load_inv_one:
  assumes "load_inv clients l" "ld_bot l i \<noteq> Not_launched" "ld_launched l' = ld_launched l"
    "\<And>j. j \<noteq> i \<Longrightarrow> ld_bot l' j = ld_bot l j \<and> ld_reading l' j = ld_reading l j" "ld_bot l' i \<noteq> Not_launched"
    "ld_reading l' i \<longrightarrow> ld_bot l' i \<noteq> Dialing"
    "bk_connected (ld_counters l') - bk_connected (ld_counters l) = is_up (ld_bot l' i) r' - is_up (ld_bot l i) r"
    "bk_total_connected (ld_counters l') - bk_total_connected (ld_counters l) \<le> is_dialing (ld_bot l i) r - is_dialing (ld_bot l' i) r'"
    "bk_connected (ld_counters l') - bk_connected (ld_counters l) \<le> bk_total_connected (ld_counters l') - bk_total_connected (ld_counters l)"
    "bk_errors (ld_counters l') - bk_errors (ld_counters l) \<le>
       errors_left (ld_bot l i) (ld_reading l i) - errors_left (ld_bot l' i) (ld_reading l' i)"
  shows "load_inv clients l'"
proof -
  have inv: "ld_launched l \<le> clients" "\<And>j. ld_bot l j = Not_launched \<longleftrightarrow> ld_launched l \<le> j"
      "\<And>j. ld_reading l j \<longrightarrow> ld_bot l j \<noteq> Dialing \<and> ld_bot l j \<noteq> Not_launched"
    and nums: "bk_connected (ld_counters l) = tally is_up l"
      "bk_total_connected (ld_counters l) + tally is_dialing l \<le> int (ld_launched l)"
      "bk_connected (ld_counters l) \<le> bk_total_connected (ld_counters l)"
      "bk_errors (ld_counters l) + tally errors_left l \<le> 2 * int (ld_launched l)"
    using assms(1) unfolding load_inv_def by blast+
  have i: "i < ld_launched l" using inv(2) [of i] assms(2) by simp
  have tally: "tally f l' = tally f l - f (ld_bot l i) (ld_reading l i) + f (ld_bot l' i) (ld_reading l' i)" for f
    by (rule tally_one [OF i assms(3)]) (rule assms(4))
  have bots: "(ld_bot l' j = Not_launched) = (ld_launched l' \<le> j)" for j
    using inv(2) [of j] i assms(3,5) assms(4) [of j] by (cases "j = i") simp_all
  have reading: "ld_reading l' j \<longrightarrow> ld_bot l' j \<noteq> Dialing \<and> ld_bot l' j \<noteq> Not_launched" for j
    using inv(3) [of j] assms(5,6) assms(4) [of j] by (cases "j = i") simp_all
  have up: "tally is_up l' = tally is_up l - is_up (ld_bot l i) r + is_up (ld_bot l' i) r'"
    using tally [of is_up] by (simp only: is_up_def)
  have dialing: "tally is_dialing l' = tally is_dialing l - is_dialing (ld_bot l i) r + is_dialing (ld_bot l' i) r'"
    using tally [of is_dialing] by (simp only: is_dialing_def)
  have "bk_connected (ld_counters l') = tally is_up l'" using up nums(1) assms(7) by linarith
  moreover have "bk_total_connected (ld_counters l') + tally is_dialing l' \<le> int (ld_launched l')"
    using dialing nums(2) assms(3,8) by linarith
  moreover have "bk_connected (ld_counters l') \<le> bk_total_connected (ld_counters l')" using nums(3) assms(9) by linarith
  moreover have "bk_errors (ld_counters l') + tally errors_left l' \<le> 2 * int (ld_launched l')"
    using tally [of errors_left] nums(4) assms(3,10) by linarith
  ultimately show ?thesis unfolding load_inv_def using inv(1) assms(3) bots reading by metis
qed

lemma load_inv_same:
  assumes "load_inv clients l" "ld_launched l' = ld_launched l" "ld_bot l' = ld_bot l" "ld_reading l' = ld_reading l"
    "bk_connected (ld_counters l') = bk_connected (ld_counters l)"
    "bk_total_connected (ld_counters l') = bk_total_connected (ld_counters l)" "bk_errors (ld_counters l') = bk_errors (ld_counters l)"
  shows "load_inv clients l'"
  unfolding load_inv_def assms(2-) tally_same [OF assms(2-4)] using assms(1) [unfolded load_inv_def] .

lemma load_inv_step:
  assumes "load_step clients cd dec_control l l'" "load_inv clients l"
  shows "load_inv clients l'"
  using assms(1)
proof (cases rule: load_step.cases)
  case launches
  then have "\<not> ld_reading l (ld_launched l)" using assms(2) by (auto simp: load_inv_def)
  then show ?thesis using assms(2) launches by (auto simp: load_inv_def tally_launch load_tallies)
next
  case (dial_fails i)
  then show ?thesis using assms(2)
    by (intro load_inv_one [OF assms(2), of i]) (auto simp: count_error_def load_tallies load_inv_def)
next
  case (dials i phase)
  then show ?thesis using assms(2)
    by (intro load_inv_one [OF assms(2), of i]) (auto simp: load_tallies load_inv_def)
next
  case (reads i now raw k s)
  then show ?thesis using bot_reads_frame [OF reads(3)] by (intro load_inv_same [OF assms(2)]) auto
next
  case (read_fails i)
  then show ?thesis using assms(2)
    by (intro load_inv_one [OF assms(2), of i]) (auto simp: count_error_def load_tallies load_inv_def)
next
  case (sends i)
  then show ?thesis by (intro load_inv_same [OF assms(2)]) auto
next
  case (send_fails i)
  then show ?thesis using assms(2)
    by (intro load_inv_one [OF assms(2), of i]) (auto simp: count_error_def hang_up_def load_tallies load_inv_def)
next
  case (leaves i)
  then have "ld_bot l i \<noteq> Not_launched" by (auto simp: online_def)
  then show ?thesis using leaves
    by (intro load_inv_one [OF assms(2), of i]) (auto simp: hang_up_def load_tallies)
next
  case ends
  then show ?thesis by (intro load_inv_same [OF assms(2)]) auto
qed

lemma load_inv_start: "load_inv clients start_load"
  by (simp add: load_inv_def start_load_def no_load_def tally_def)

text \<open>The counters account for the bots: whatever dialing, reading, sending and the end of the run do in
  whatever order, the number connected is that of the bots that are online, it is at most the total,
  which is at most the number of clients, and no bot counts more than two errors.\<close>

theorem load_counters_account:
  assumes "(load_step clients cd dec_control)\<^sup>*\<^sup>* start_load l"
  shows "bk_connected (ld_counters l) = int (card {i. online (ld_bot l i)}) \<and>
    bk_connected (ld_counters l) \<le> bk_total_connected (ld_counters l) \<and> bk_total_connected (ld_counters l) \<le> int clients \<and>
    bk_errors (ld_counters l) \<le> 2 * int clients"
proof -
  have inv: "load_inv clients l"
    using assms by (induction rule: rtranclp_induct) (auto intro: load_inv_start load_inv_step)
  then have "ld_bot l i = Not_launched \<longleftrightarrow> ld_launched l \<le> i" for i unfolding load_inv_def by blast
  then have "online (ld_bot l i) \<Longrightarrow> i < ld_launched l" for i by (metis bot_phase.distinct(3,5) not_le online_def)
  then have "{i. online (ld_bot l i)} = {i \<in> {..<ld_launched l}. online (ld_bot l i)}" by blast
  then have "tally is_up l = int (card {i. online (ld_bot l i)})"
    by (simp add: tally_def is_up_def of_bool_def flip: sum.inter_filter)
  moreover have "0 \<le> tally is_dialing l" "0 \<le> tally errors_left l"
    by (auto simp: tally_def is_dialing_def errors_left_def intro!: sum_nonneg)
  ultimately show ?thesis using inv by (auto simp: load_inv_def)
qed

end
