(* ===== verification/V1_Hub.thy ===== *)
theory V1_Hub
  imports Model "HOL-Library.Sublist"
begin

text \<open>
  The first stage of the course, \<open>v1/internal/ws\<close>: one goroutine (\<open>Run\<close>) registers, unregisters and
  sends to every client of a room itself. The loop, the upgrade handlers and both pumps of every client
  interleave as steps of \<open>v1_step\<close>; an unbuffered channel is a rendezvous of two goroutines. The state
  records two traces: the packets that entered \<open>Broadcast\<close> and the frames written to each connection.
  Because nobody else sends, every client sees the messages of its room in the order of the channel.
\<close>

section \<open>Clients\<close>

definition v1_broadcast_buffer_size :: nat where "v1_broadcast_buffer_size = 128"
definition v1_send_buffer_size :: nat where "v1_send_buffer_size = 32"

record v1_danmaku =
  d1_room_id :: string
  d1_user_id :: string
  d1_username :: string
  d1_content :: string
  d1_send_time :: zoned_time

record v1_codec =
  c1_dec_packet :: "string \<Rightarrow> packet option"
  c1_dec_danmaku :: "string \<Rightarrow> v1_danmaku option"
  c1_enc_packet :: "packet \<Rightarrow> string option"
  c1_enc_danmaku :: "v1_danmaku \<Rightarrow> string option"

record v1_client =
  c1_user :: string
  c1_name :: string
  c1_room :: string
  c1_send :: "string chan"
  c1_done :: bool

definition v1_new_client :: "string \<Rightarrow> string \<Rightarrow> string \<Rightarrow> v1_client" where
  "v1_new_client u name room =
     \<lparr>c1_user = u, c1_name = name, c1_room = room, c1_send = make_chan v1_send_buffer_size, c1_done = False\<rparr>"

definition v1_close :: "v1_client \<Rightarrow> v1_client" where
  \<comment> \<open>\<open>once.Do\<close>: \<open>done\<close> and the socket are closed, \<open>Send\<close> is not\<close>
  "v1_close c = c\<lparr>c1_done := True\<rparr>"

definition v1_handle_danmaku :: "v1_codec \<Rightarrow> v1_client \<Rightarrow> zoned_time \<Rightarrow> string \<Rightarrow> packet option" where
  \<comment> \<open>the packet that is sent to \<open>Broadcast\<close>, if any\<close>
  "v1_handle_danmaku cd c now data =
     (case c1_dec_danmaku cd data of
        None \<Rightarrow> None
      | Some input \<Rightarrow>
          (let text = trim_space (d1_content input)
           in if text = [] then None
              else
                (case c1_enc_danmaku cd
                   \<lparr>d1_room_id = c1_room c, d1_user_id = c1_user c, d1_username = c1_name c,
                    d1_content = text, d1_send_time = now\<rparr> of
                   None \<Rightarrow> None
                 | Some payload \<Rightarrow>
                     Some \<lparr>packet_type = type_danmaku, packet_room_id = c1_room c, packet_data = payload\<rparr>)))"

definition v1_read :: "v1_codec \<Rightarrow> v1_client \<Rightarrow> zoned_time \<Rightarrow> string \<Rightarrow> packet option" where
  \<comment> \<open>one message in \<open>ReadPump\<close>\<close>
  "v1_read cd c now raw =
     (case c1_dec_packet cd raw of
        None \<Rightarrow> None
      | Some p \<Rightarrow> if packet_type p = type_danmaku then v1_handle_danmaku cd c now (packet_data p) else None)"

datatype v1_answer =
    V1_missing
  | V1_not_upgraded
  | V1_connected v1_client

definition v1_serve_ws :: "string \<Rightarrow> string \<Rightarrow> string \<Rightarrow> bool \<Rightarrow> v1_answer" where
  \<comment> \<open>the query's uid, name and room, and whether the upgrade succeeds\<close>
  "v1_serve_ws uid_text name_text room_text upgraded =
     (let user = trim_space uid_text; name = trim_space name_text; room = trim_space room_text
      in if user = [] \<or> room = [] then V1_missing
         else if upgraded then V1_connected (v1_new_client user (if name = [] then user else name) room)
         else V1_not_upgraded)"

section \<open>Rooms\<close>

text \<open>The map from rooms to sets of clients, and what registering and unregistering do to it.\<close>

definition join_room :: "nat \<Rightarrow> string \<Rightarrow> (string, nat list) gomap \<Rightarrow> (string, nat list) gomap" where
  "join_room a room rs = AList.update room (List.insert a (gm_get [] rs room)) rs"

definition leave_room :: "nat \<Rightarrow> string \<Rightarrow> (string, nat list) gomap \<Rightarrow> (string, nat list) gomap" where
  \<comment> \<open>the client is removed, and the room with its last client\<close>
  "leave_room a room rs =
     (let left = remove1 a (gm_get [] rs room)
      in if left = [] then AList.delete room rs else AList.update room left rs)"

definition rooms_wf :: "(string, nat list) gomap \<Rightarrow> bool" where
  "rooms_wf rs \<longleftrightarrow> gm_wf rs \<and> list_all (\<lambda>(room, clients). clients \<noteq> [] \<and> distinct clients) rs"

lemma rooms_wf_distinct: "rooms_wf rs \<Longrightarrow> distinct (gm_get [] rs room)"
  by (auto simp: rooms_wf_def gm_get_def list_all_iff split: option.split dest!: map_of_SomeD)

lemma set_update_subset: "set (AList.update k v m) \<subseteq> insert (k, v) (set m)"
  by (induction m) auto

lemma rooms_wf_Nil [simp]: "rooms_wf []"
  by (simp add: rooms_wf_def)

lemma rooms_wf_update: "rooms_wf rs \<Longrightarrow> clients \<noteq> [] \<Longrightarrow> distinct clients \<Longrightarrow> rooms_wf (AList.update room clients rs)"
  using set_update_subset [of room clients rs] by (fastforce simp: rooms_wf_def list_all_iff)

lemma set_delete_subset: "set (AList.delete k m) \<subseteq> set m"
  by (simp add: AList.delete_eq)

lemma rooms_wf_delete: "rooms_wf rs \<Longrightarrow> rooms_wf (AList.delete room rs)"
  using set_delete_subset [of room rs] by (auto simp: rooms_wf_def list_all_iff)

lemma rooms_wf_join: "rooms_wf rs \<Longrightarrow> rooms_wf (join_room a room rs)"
  using rooms_wf_distinct [of rs room]
  by (auto simp: join_room_def List.insert_def intro!: rooms_wf_update)

lemma rooms_wf_leave: "rooms_wf rs \<Longrightarrow> rooms_wf (leave_room a room rs)"
  using rooms_wf_distinct [of rs room]
  by (auto simp: leave_room_def Let_def intro!: rooms_wf_update rooms_wf_delete)

lemma members_join:
  "set (gm_get [] (join_room a room rs) r) = (if r = room then insert a (set (gm_get [] rs r)) else set (gm_get [] rs r))"
  by (simp add: join_room_def go_map_simps)

lemma members_leave:
  "rooms_wf rs \<Longrightarrow>
   set (gm_get [] (leave_room a room rs) r) = (if r = room then set (gm_get [] rs r) - {a} else set (gm_get [] rs r))"
  using set_remove1_eq [OF rooms_wf_distinct, of rs a room]
  by (cases "remove1 a (gm_get [] rs room) = []")
    (simp_all del: set_remove1_eq add: leave_room_def Let_def go_map_simps)

section \<open>The manager\<close>

datatype v1_phase =
    V1_absent
  | V1_joining
    \<comment> \<open>at \<open>manager.Register <- client\<close>\<close>
  | V1_reading
  | V1_posting packet
    \<comment> \<open>at \<open>manager.Broadcast <- packet\<close>\<close>
  | V1_leaving
    \<comment> \<open>at \<open>manager.Unregister <- c\<close>\<close>
  | V1_closing
  | V1_left

record v1_hub =
  h1_client :: "nat \<Rightarrow> v1_client"
  h1_phase :: "nat \<Rightarrow> v1_phase"
  h1_writing :: "nat \<Rightarrow> bool"
    \<comment> \<open>the write pump runs\<close>
  h1_rooms :: "(string, nat list) gomap"
  h1_broadcast :: "packet chan"
  h1_sending :: "(nat list \<times> string) option"
    \<comment> \<open>the broadcast that \<open>Run\<close> is in: the clients still to send to\<close>
  h1_posted :: "packet list"
    \<comment> \<open>trace: what entered \<open>Broadcast\<close>\<close>
  h1_written :: "nat \<Rightarrow> string list"
    \<comment> \<open>trace: the frames handed to each connection\<close>

definition v1_new_manager :: v1_hub where
  "v1_new_manager =
     \<lparr>h1_client = (\<lambda>_. v1_new_client [] [] []), h1_phase = (\<lambda>_. V1_absent), h1_writing = (\<lambda>_. False),
      h1_rooms = [], h1_broadcast = make_chan v1_broadcast_buffer_size, h1_sending = None,
      h1_posted = [], h1_written = (\<lambda>_. [])\<rparr>"

definition v1_handle_register :: "nat \<Rightarrow> v1_hub \<Rightarrow> v1_hub" where
  "v1_handle_register a s = s\<lparr>h1_rooms := join_room a (c1_room (h1_client s a)) (h1_rooms s)\<rparr>"

definition v1_handle_unregister :: "nat \<Rightarrow> v1_hub \<Rightarrow> v1_hub" where
  "v1_handle_unregister a s =
     (let room = c1_room (h1_client s a)
      in (case map_of (h1_rooms s) room of
            None \<Rightarrow> s
          | Some clients \<Rightarrow>
              if a \<notin> set clients then s
              else s\<lparr>h1_client := (h1_client s)(a := v1_close (h1_client s a)),
                     h1_rooms := leave_room a room (h1_rooms s)\<rparr>))"

definition v1_snapshot :: "string \<Rightarrow> v1_hub \<Rightarrow> nat list" where
  "v1_snapshot room s = gm_get [] (h1_rooms s) room"

definition v1_handle_broadcast :: "v1_codec \<Rightarrow> packet \<Rightarrow> nat list \<Rightarrow> v1_hub \<Rightarrow> v1_hub" where
  \<comment> \<open>up to the loop over the clients, in the order the map gives them\<close>
  "v1_handle_broadcast cd p order s =
     (case c1_enc_packet cd p of
        None \<Rightarrow> s
      | Some payload \<Rightarrow> s\<lparr>h1_sending := Some (order, payload)\<rparr>)"

definition v1_safe_send :: "nat \<Rightarrow> string \<Rightarrow> v1_hub \<Rightarrow> v1_hub" where
  "v1_safe_send a payload s =
     (case try_send (c1_send (h1_client s a)) payload of
        Some ch \<Rightarrow> s\<lparr>h1_client := (h1_client s)(a := (h1_client s a)\<lparr>c1_send := ch\<rparr>)\<rparr>
      | None \<Rightarrow> s)"

definition v1_write :: "nat \<Rightarrow> bool \<Rightarrow> v1_hub \<Rightarrow> v1_hub option" where
  \<comment> \<open>one round of \<open>WritePump\<close> that takes a message; an error of the socket ends the pump\<close>
  "v1_write a ok s =
     (case chan_recv (c1_send (h1_client s a)) of
        None \<Rightarrow> None
      | Some (payload, ch) \<Rightarrow>
          (let c = (h1_client s a)\<lparr>c1_send := ch\<rparr>
           in Some (if ok
                then s\<lparr>h1_client := (h1_client s)(a := c),
                       h1_written := (h1_written s)(a := h1_written s a @ [payload])\<rparr>
                else s\<lparr>h1_client := (h1_client s)(a := v1_close c), h1_writing := (h1_writing s)(a := False)\<rparr>)))"

section \<open>The system\<close>

abbreviation v1_to :: "nat \<Rightarrow> v1_phase \<Rightarrow> v1_hub \<Rightarrow> v1_hub" where
  "v1_to a ph s \<equiv> s\<lparr>h1_phase := (h1_phase s)(a := ph)\<rparr>"

inductive v1_step :: "v1_codec \<Rightarrow> v1_hub \<Rightarrow> v1_hub \<Rightarrow> bool" for cd where
  connects: "h1_phase s a = V1_absent \<Longrightarrow> v1_serve_ws uid_text name_text room_text True = V1_connected c \<Longrightarrow>
    v1_step cd s (v1_to a V1_joining (s\<lparr>h1_client := (h1_client s)(a := c)\<rparr>))"
| registers: "h1_sending s = None \<Longrightarrow> h1_phase s a = V1_joining \<Longrightarrow>
    v1_step cd s (v1_to a V1_reading ((v1_handle_register a s)\<lparr>h1_writing := (h1_writing s)(a := True)\<rparr>))"
| reads: "h1_phase s a = V1_reading \<Longrightarrow> v1_read cd (h1_client s a) now raw = Some p \<Longrightarrow>
    v1_step cd s (v1_to a (V1_posting p) s)"
| posts: "h1_phase s a = V1_posting p \<Longrightarrow> try_send (h1_broadcast s) p = Some ch \<Longrightarrow>
    v1_step cd s (v1_to a V1_reading (s\<lparr>h1_broadcast := ch, h1_posted := h1_posted s @ [p]\<rparr>))"
| stops: "h1_phase s a = V1_reading \<Longrightarrow> v1_step cd s (v1_to a V1_leaving s)"
| unregisters: "h1_sending s = None \<Longrightarrow> h1_phase s a = V1_leaving \<Longrightarrow>
    v1_step cd s (v1_to a V1_closing (v1_handle_unregister a s))"
| closes: "h1_phase s a = V1_closing \<Longrightarrow>
    v1_step cd s (v1_to a V1_left (s\<lparr>h1_client := (h1_client s)(a := v1_close (h1_client s a))\<rparr>))"
| broadcasts: "h1_sending s = None \<Longrightarrow> chan_recv (h1_broadcast s) = Some (p, ch) \<Longrightarrow>
    mset order = mset (v1_snapshot (packet_room_id p) s) \<Longrightarrow>
    v1_step cd s (v1_handle_broadcast cd p order (s\<lparr>h1_broadcast := ch\<rparr>))"
| sends: "h1_sending s = Some (a # clients, payload) \<Longrightarrow>
    v1_step cd s ((v1_safe_send a payload s)\<lparr>h1_sending := Some (clients, payload)\<rparr>)"
| finishes: "h1_sending s = Some ([], payload) \<Longrightarrow> v1_step cd s (s\<lparr>h1_sending := None\<rparr>)"
| writes: "h1_writing s a \<Longrightarrow> v1_write a ok s = Some s' \<Longrightarrow> v1_step cd s s'"
| pump_ends: "h1_writing s a \<Longrightarrow> c1_done (h1_client s a) \<Longrightarrow>
    v1_step cd s (s\<lparr>h1_writing := (h1_writing s)(a := False)\<rparr>)"

abbreviation v1_reachable :: "v1_codec \<Rightarrow> v1_hub \<Rightarrow> bool" where
  "v1_reachable cd s \<equiv> (v1_step cd)\<^sup>*\<^sup>* v1_new_manager s"

section \<open>Order\<close>

fun v1_room_payloads :: "v1_codec \<Rightarrow> string \<Rightarrow> packet list \<Rightarrow> string list" where
  \<comment> \<open>the frames of a room among packets\<close>
  "v1_room_payloads cd room [] = []"
| "v1_room_payloads cd room (p # ps) =
     (if packet_room_id p = room
      then (case c1_enc_packet cd p of None \<Rightarrow> [] | Some payload \<Rightarrow> [payload]) else [])
     @ v1_room_payloads cd room ps"

lemma v1_room_payloads_append:
  "v1_room_payloads cd room (ps @ qs) = v1_room_payloads cd room ps @ v1_room_payloads cd room qs"
  by (induction ps) simp_all

definition v1_joined :: "v1_phase \<Rightarrow> bool" where
  \<comment> \<open>between registration and the end of the unregistration\<close>
  "v1_joined ph \<longleftrightarrow> ph = V1_reading \<or> ph = V1_leaving \<or> (\<exists>p. ph = V1_posting p)"

definition v1_rooms_ok :: "v1_hub \<Rightarrow> bool" where
  "v1_rooms_ok s \<longleftrightarrow> rooms_wf (h1_rooms s) \<and>
     (\<forall>room a. a \<in> set (v1_snapshot room s) \<longleftrightarrow> v1_joined (h1_phase s a) \<and> c1_room (h1_client s a) = room)"

definition v1_taken :: "v1_hub \<Rightarrow> packet list" where
  \<comment> \<open>the posted packets that \<open>Run\<close> took from the channel\<close>
  "v1_taken s = take (length (h1_posted s) - length (chan_buf (h1_broadcast s))) (h1_posted s)"

definition v1_unsent :: "v1_hub \<Rightarrow> nat \<Rightarrow> string list" where
  \<comment> \<open>what the broadcast in progress still has for a client\<close>
  "v1_unsent s a =
     (case h1_sending s of None \<Rightarrow> [] | Some (clients, payload) \<Rightarrow> if a \<in> set clients then [payload] else [])"

definition v1_seen :: "v1_hub \<Rightarrow> nat \<Rightarrow> string list" where
  "v1_seen s a = h1_written s a @ chan_buf (c1_send (h1_client s a))"

definition v1_queues_ok :: "v1_hub \<Rightarrow> bool" where
  "v1_queues_ok s \<longleftrightarrow> h1_posted s = v1_taken s @ chan_buf (h1_broadcast s) \<and>
     length (chan_buf (h1_broadcast s)) \<le> 128 \<and> chan_cap (h1_broadcast s) = 128 \<and>
     (\<forall>a. length (chan_buf (c1_send (h1_client s a))) \<le> 32 \<and> chan_cap (c1_send (h1_client s a)) = 32)"

definition v1_sending_ok :: "v1_hub \<Rightarrow> bool" where
  "v1_sending_ok s \<longleftrightarrow>
     (\<forall>clients payload. h1_sending s = Some (clients, payload) \<longrightarrow>
        distinct clients \<and> (\<forall>a \<in> set clients. v1_joined (h1_phase s a)))"

definition v1_fresh_ok :: "v1_hub \<Rightarrow> bool" where
  "v1_fresh_ok s \<longleftrightarrow> (\<forall>a. h1_phase s a = V1_absent \<or> h1_phase s a = V1_joining \<longrightarrow> v1_seen s a = [] \<and> \<not> h1_writing s a)"

definition v1_order_ok :: "v1_codec \<Rightarrow> v1_hub \<Rightarrow> bool" where
  "v1_order_ok cd s \<longleftrightarrow>
     (\<forall>a. subseq (v1_seen s a @ v1_unsent s a) (v1_room_payloads cd (c1_room (h1_client s a)) (v1_taken s)))"

text \<open>The five invariants, step by step.\<close>

lemma v1_taken_eq: "h1_posted s = ps @ chan_buf (h1_broadcast s) \<Longrightarrow> v1_taken s = ps"
  by (simp add: v1_taken_def)

lemma v1_joined_simps [simp]:
  "v1_joined V1_reading" "v1_joined V1_leaving" "v1_joined (V1_posting p)"
  "\<not> v1_joined V1_absent" "\<not> v1_joined V1_joining" "\<not> v1_joined V1_closing" "\<not> v1_joined V1_left"
  by (simp_all add: v1_joined_def)

lemma v1_connected:
  "v1_serve_ws uid_text name_text room_text up = V1_connected c \<Longrightarrow>
     c1_send c = make_chan 32 \<and> c1_done c = False"
  by (auto simp: v1_serve_ws_def Let_def v1_new_client_def v1_send_buffer_size_def split: if_splits)

lemma v1_topology_frames [frame_simps]:
  "h1_rooms (v1_safe_send a payload s) = h1_rooms s" "h1_phase (v1_safe_send a payload s) = h1_phase s"
  "h1_sending (v1_safe_send a payload s) = h1_sending s" "h1_posted (v1_safe_send a payload s) = h1_posted s"
  "h1_broadcast (v1_safe_send a payload s) = h1_broadcast s" "h1_writing (v1_safe_send a payload s) = h1_writing s"
  "h1_written (v1_safe_send a payload s) = h1_written s"
  "c1_room (h1_client (v1_safe_send a payload s) b) = c1_room (h1_client s b)"
  "h1_rooms (v1_handle_broadcast cd p order s) = h1_rooms s" "h1_phase (v1_handle_broadcast cd p order s) = h1_phase s"
  "h1_client (v1_handle_broadcast cd p order s) = h1_client s" "h1_posted (v1_handle_broadcast cd p order s) = h1_posted s"
  "h1_broadcast (v1_handle_broadcast cd p order s) = h1_broadcast s" "h1_writing (v1_handle_broadcast cd p order s) = h1_writing s"
  "h1_written (v1_handle_broadcast cd p order s) = h1_written s"
  by (auto simp: v1_safe_send_def v1_handle_broadcast_def split: option.split)

lemma v1_register_frames [frame_simps]:
  "h1_phase (v1_handle_register a s) = h1_phase s" "h1_sending (v1_handle_register a s) = h1_sending s"
  "h1_posted (v1_handle_register a s) = h1_posted s" "h1_broadcast (v1_handle_register a s) = h1_broadcast s"
  "h1_written (v1_handle_register a s) = h1_written s" "h1_client (v1_handle_register a s) = h1_client s"
  "h1_writing (v1_handle_register a s) = h1_writing s"
  "h1_phase (v1_handle_unregister a s) = h1_phase s" "h1_sending (v1_handle_unregister a s) = h1_sending s"
  "h1_posted (v1_handle_unregister a s) = h1_posted s" "h1_broadcast (v1_handle_unregister a s) = h1_broadcast s"
  "h1_written (v1_handle_unregister a s) = h1_written s" "h1_writing (v1_handle_unregister a s) = h1_writing s"
  "c1_room (h1_client (v1_handle_unregister a s) b) = c1_room (h1_client s b)"
  "c1_send (h1_client (v1_handle_unregister a s) b) = c1_send (h1_client s b)"
  by (auto simp: v1_handle_register_def v1_handle_unregister_def v1_close_def Let_def split: option.split)

lemma subseq_skip: "subseq (xs @ ys) (xs @ y # ys)"
  by (intro list_emb_append_mono) auto

lemma v1_write_frames:
  assumes "v1_write a ok s = Some s'"
  shows "h1_rooms s' = h1_rooms s" "h1_phase s' = h1_phase s" "h1_sending s' = h1_sending s"
    "h1_posted s' = h1_posted s" "h1_broadcast s' = h1_broadcast s"
    "c1_room (h1_client s' b) = c1_room (h1_client s b)"
    "chan_cap (c1_send (h1_client s' b)) = chan_cap (c1_send (h1_client s b))"
    "length (chan_buf (c1_send (h1_client s' b))) \<le> length (chan_buf (c1_send (h1_client s b)))"
    "h1_writing s' b \<Longrightarrow> h1_writing s b"
    "subseq (v1_seen s' b) (v1_seen s b)"
    "b \<noteq> a \<Longrightarrow> v1_seen s' b = v1_seen s b"
  using assms
  by (auto simp: v1_write_def v1_close_def v1_seen_def Let_def subseq_skip split: option.splits list.splits if_splits)

lemma v1_snapshot_unregister:
  assumes "v1_rooms_ok s"
  shows "set (v1_snapshot room (v1_handle_unregister a s)) =
     (if room = c1_room (h1_client s a) then set (v1_snapshot room s) - {a} else set (v1_snapshot room s))"
proof (cases "map_of (h1_rooms s) (c1_room (h1_client s a))")
  case None
  then have "gm_get [] (h1_rooms s) (c1_room (h1_client s a)) = []" by (simp add: gm_get_def)
  then show ?thesis using None by (simp add: v1_snapshot_def v1_handle_unregister_def Let_def)
next
  case (Some clients)
  then have "gm_get [] (h1_rooms s) (c1_room (h1_client s a)) = clients" by (simp add: gm_get_def)
  then show ?thesis using Some assms
    by (auto simp: v1_snapshot_def v1_handle_unregister_def Let_def v1_rooms_ok_def members_leave)
qed

lemma v1_wf_unregister: "v1_rooms_ok s \<Longrightarrow> rooms_wf (h1_rooms (v1_handle_unregister a s))"
  by (auto simp: v1_rooms_ok_def v1_handle_unregister_def Let_def rooms_wf_leave split: option.split)

lemma v1_snapshot_distinct: "v1_rooms_ok s \<Longrightarrow> distinct (v1_snapshot room s)"
  by (simp add: v1_rooms_ok_def v1_snapshot_def rooms_wf_distinct)

lemma v1_rooms_step: "v1_step cd s s' \<Longrightarrow> v1_rooms_ok s \<Longrightarrow> v1_rooms_ok s'"
proof (induction rule: v1_step.cases)
  case (registers s a)
  then show ?case
    by (auto simp: v1_rooms_ok_def v1_handle_register_def v1_snapshot_def members_join rooms_wf_join)
next
  case (unregisters s a)
  have "b \<in> set (v1_snapshot room (v1_handle_unregister a s)) \<longleftrightarrow>
      b \<noteq> a \<and> v1_joined (h1_phase s b) \<and> c1_room (h1_client s b) = room" for room b
    using unregisters by (auto simp: v1_snapshot_unregister v1_rooms_ok_def)
  moreover have "h1_rooms s' = h1_rooms (v1_handle_unregister a s)"
    "v1_snapshot room s' = v1_snapshot room (v1_handle_unregister a s)"
    "v1_joined (h1_phase s' b) \<longleftrightarrow> b \<noteq> a \<and> v1_joined (h1_phase s b)" "c1_room (h1_client s' b) = c1_room (h1_client s b)" for room b
    using unregisters by (simp_all add: v1_snapshot_def frame_simps)
  moreover have "rooms_wf (h1_rooms (v1_handle_unregister a s))" using unregisters v1_wf_unregister by blast
  ultimately show ?case unfolding v1_rooms_ok_def by simp
qed (auto simp: v1_rooms_ok_def v1_snapshot_def frame_simps v1_write_frames v1_close_def)

lemma v1_queues_step: "v1_step cd s s' \<Longrightarrow> v1_queues_ok s \<Longrightarrow> v1_queues_ok s'"
proof (induction rule: v1_step.cases)
  case (posts s a p ch)
  have "h1_posted s @ [p] = v1_taken s @ chan_buf ch"
    using posts by (auto simp: v1_queues_ok_def try_send_Some)
  then have "v1_taken s' = v1_taken s" using posts by (intro v1_taken_eq) simp
  then show ?case using posts by (auto simp: v1_queues_ok_def try_send_Some)
next
  case (broadcasts s p ch order)
  have "h1_posted s = (v1_taken s @ [p]) @ chan_buf ch"
    using broadcasts by (auto simp: v1_queues_ok_def split: list.splits)
  then have "v1_taken s' = v1_taken s @ [p]" using broadcasts by (intro v1_taken_eq) (simp add: frame_simps)
  then show ?case using broadcasts by (auto simp: v1_queues_ok_def frame_simps split: list.splits)
next
  case (connects s a)
  then show ?case by (auto simp: v1_queues_ok_def v1_taken_def make_chan_def dest: v1_connected)
next
  case (sends s a clients payload)
  then show ?case
    by (auto simp: v1_queues_ok_def v1_taken_def v1_safe_send_def try_send_Some split: option.split)
next
  case (writes s a ok)
  have "length (chan_buf (c1_send (h1_client s' b))) \<le> 32" for b
  proof -
    have "length (chan_buf (c1_send (h1_client s b))) \<le> 32" using writes by (simp add: v1_queues_ok_def)
    then show ?thesis using writes(2) v1_write_frames(8) [OF writes(4), of b] by simp
  qed
  then show ?case using writes by (auto simp: v1_queues_ok_def v1_taken_def v1_write_frames)
qed (auto simp: v1_queues_ok_def v1_taken_def frame_simps v1_close_def)

lemma v1_sending_joined:
  "v1_sending_ok s \<Longrightarrow> h1_sending s = Some (clients, payload) \<Longrightarrow> \<not> v1_joined (h1_phase s a) \<Longrightarrow> a \<notin> set clients"
  by (auto simp: v1_sending_ok_def)

lemma v1_sending_step:
  "v1_step cd s s' \<Longrightarrow> v1_rooms_ok s \<Longrightarrow> v1_sending_ok s \<Longrightarrow> v1_sending_ok s'"
proof (induction rule: v1_step.cases)
  case (broadcasts s p ch order)
  have "distinct order" "set order = set (v1_snapshot (packet_room_id p) s)"
    using broadcasts v1_snapshot_distinct [of s "packet_room_id p"] mset_eq_imp_distinct_iff mset_eq_setD by blast+
  then show ?case using broadcasts
    by (auto simp: v1_sending_ok_def v1_rooms_ok_def v1_handle_broadcast_def split: option.splits)
next
  case (connects s a)
  then show ?case using v1_sending_joined [of s _ _ a] by (auto simp: v1_sending_ok_def)
next
  case (closes s a)
  then show ?case using v1_sending_joined [of s _ _ a] by (auto simp: v1_sending_ok_def)
qed (auto simp: v1_sending_ok_def frame_simps v1_write_frames)

lemma v1_fresh_step: "v1_step cd s s' \<Longrightarrow> v1_sending_ok s \<Longrightarrow> v1_fresh_ok s \<Longrightarrow> v1_fresh_ok s'"
proof (induction rule: v1_step.cases)
  case (connects s a uid_text name_text room_text c)
  then have "h1_written s a = []" by (auto simp: v1_fresh_ok_def v1_seen_def)
  then show ?case using connects by (auto simp: v1_fresh_ok_def v1_seen_def make_chan_def dest: v1_connected)
next
  case (sends s a clients payload)
  then show ?case
    by (auto simp: v1_fresh_ok_def v1_seen_def v1_sending_ok_def v1_safe_send_def split: option.splits)
next
  case (writes s a ok)
  have "v1_seen s' b = [] \<and> \<not> h1_writing s' b" if "h1_phase s b = V1_absent \<or> h1_phase s b = V1_joining" for b
  proof -
    have "v1_seen s b = []" "\<not> h1_writing s b" using writes that by (auto simp: v1_fresh_ok_def)
    then show ?thesis using writes v1_write_frames(9,10) [OF writes(4), of b] by auto
  qed
  then show ?case using writes by (auto simp: v1_fresh_ok_def v1_write_frames)
qed (auto simp: v1_fresh_ok_def v1_seen_def frame_simps v1_close_def)

lemma subseq_snoc: "subseq xs ys \<Longrightarrow> subseq (xs @ [z]) (ys @ [z])"
  by (rule list_emb_append_mono) auto

lemma subseq_weaken: "subseq (xs @ zs) ys \<Longrightarrow> subseq xs ys"
  by (meson prefixI prefix_imp_subseq subseq_order.trans)

lemma v1_order_weaker:
  assumes "v1_order_ok cd s" "\<And>b. subseq (v1_seen s' b @ v1_unsent s' b) (v1_seen s b @ v1_unsent s b)"
    and "v1_taken s' = v1_taken s" "\<And>b. c1_room (h1_client s' b) = c1_room (h1_client s b)"
  shows "v1_order_ok cd s'"
  using assms subseq_order.trans unfolding v1_order_ok_def by metis

lemma v1_order_step:
  assumes "v1_step cd s s'" "v1_rooms_ok s" "v1_queues_ok s" "v1_sending_ok s" "v1_fresh_ok s" "v1_order_ok cd s"
  shows "v1_order_ok cd s'"
  using assms
proof (induction rule: v1_step.cases)
  case (connects s a uid_text name_text room_text c)
  have "v1_seen s a = []" using connects by (simp add: v1_fresh_ok_def)
  moreover have "c1_send (h1_client s' a) = make_chan 32" using connects v1_connected by simp
  ultimately have "v1_seen s' a = []" using connects by (simp add: v1_seen_def make_chan_def)
  moreover have "v1_unsent s a = []"
    using connects v1_sending_joined [of s _ _ a] by (cases "h1_sending s") (auto simp: v1_unsent_def)
  ultimately show ?case using connects
    by (auto simp: v1_order_ok_def v1_seen_def v1_unsent_def v1_taken_def)
next
  case (posts s a p ch)
  have "v1_taken s' = v1_taken s"
    using posts by (intro v1_taken_eq) (auto simp: v1_queues_ok_def try_send_Some)
  then show ?case using posts by (auto simp: v1_order_ok_def v1_seen_def v1_unsent_def)
next
  case (broadcasts s p ch order)
  have taken: "v1_taken s' = v1_taken s @ [p]"
    using broadcasts by (intro v1_taken_eq) (auto simp: v1_queues_ok_def frame_simps split: list.splits)
  have "set order = set (v1_snapshot (packet_room_id p) s)" using broadcasts mset_eq_setD by blast
  then have room: "a \<in> set order \<Longrightarrow> c1_room (h1_client s a) = packet_room_id p" for a
    using broadcasts by (auto simp: v1_rooms_ok_def)
  show ?case
    unfolding v1_order_ok_def
  proof
    fix a
    have old: "subseq (v1_seen s a) (v1_room_payloads cd (c1_room (h1_client s a)) (v1_taken s))"
      using broadcasts by (auto simp: v1_order_ok_def v1_unsent_def)
    have now: "v1_seen s' a = v1_seen s a" "c1_room (h1_client s' a) = c1_room (h1_client s a)"
      using broadcasts by (simp_all add: v1_seen_def frame_simps)
    have "v1_unsent s' a = [] \<or>
        (\<exists>payload. c1_enc_packet cd p = Some payload \<and> v1_unsent s' a = [payload] \<and> packet_room_id p = c1_room (h1_client s a))"
      using broadcasts room [of a] by (auto simp: v1_unsent_def v1_handle_broadcast_def split: option.splits)
    then show "subseq (v1_seen s' a @ v1_unsent s' a) (v1_room_payloads cd (c1_room (h1_client s' a)) (v1_taken s'))"
      using old by (auto simp: now taken v1_room_payloads_append subseq_snoc list_emb_append2)
  qed
next
  case (sends s a clients payload)
  have "subseq (v1_seen s' b @ v1_unsent s' b) (v1_seen s b @ v1_unsent s b)" for b
    using sends
    by (auto simp: v1_seen_def v1_unsent_def v1_sending_ok_def v1_safe_send_def try_send_Some split: option.split)
  then show ?case using sends by (intro v1_order_weaker [of cd s s']) (simp_all add: v1_taken_def frame_simps)
next
  case (finishes s payload)
  then show ?case by (auto simp: v1_order_ok_def v1_seen_def v1_unsent_def v1_taken_def)
next
  case (writes s a ok)
  have "subseq (v1_seen s' b @ v1_unsent s' b) (v1_seen s b @ v1_unsent s b)" for b
    using writes v1_write_frames(3,10) [OF writes(4)] by (simp add: v1_unsent_def)
  then show ?case using writes by (intro v1_order_weaker [of cd s s']) (simp_all add: v1_taken_def v1_write_frames)
qed (auto simp: v1_order_ok_def v1_seen_def v1_unsent_def v1_taken_def frame_simps v1_close_def)

definition v1_inv :: "v1_codec \<Rightarrow> v1_hub \<Rightarrow> bool" where
  "v1_inv cd s \<longleftrightarrow> v1_rooms_ok s \<and> v1_queues_ok s \<and> v1_sending_ok s \<and> v1_fresh_ok s \<and> v1_order_ok cd s"

lemma v1_reachable_inv:
  assumes "v1_reachable cd s"
  shows "v1_inv cd s"
  using assms
proof (induction rule: rtranclp_induct)
  case base
  then show ?case
    by (simp add: v1_inv_def v1_new_manager_def v1_rooms_ok_def v1_snapshot_def v1_queues_ok_def v1_taken_def
        make_chan_def v1_broadcast_buffer_size_def v1_send_buffer_size_def v1_new_client_def v1_sending_ok_def
        v1_fresh_ok_def v1_seen_def v1_order_ok_def v1_unsent_def)
next
  case (step s s')
  then show ?case
    using v1_rooms_step v1_queues_step v1_sending_step v1_fresh_step v1_order_step
    unfolding v1_inv_def by meson
qed

section \<open>Progress\<close>

text \<open>Nothing that \<open>Run\<close> does waits for a client, so it can always finish the broadcast it is in.\<close>

lemma v1_finish_broadcast:
  "\<exists>s'. (v1_step cd)\<^sup>*\<^sup>* s s' \<and> h1_sending s' = None \<and> h1_phase s' = h1_phase s \<and>
     h1_posted s' = h1_posted s \<and> h1_broadcast s' = h1_broadcast s"
proof (cases "h1_sending s")
  case None
  then show ?thesis by blast
next
  case (Some b)
  obtain clients payload where "h1_sending s = Some (clients, payload)" using Some by fastforce
  then show ?thesis
  proof (induction clients arbitrary: s)
    case Nil
    then have "v1_step cd s (s\<lparr>h1_sending := None\<rparr>)" by (rule v1_step.finishes)
    then show ?case by (intro exI [of _ "s\<lparr>h1_sending := None\<rparr>"]) auto
  next
    case (Cons a clients)
    define t where "t = (v1_safe_send a payload s)\<lparr>h1_sending := Some (clients, payload)\<rparr>"
    have "v1_step cd s t" unfolding t_def by (rule v1_step.sends [OF Cons.prems])
    moreover obtain s' where "(v1_step cd)\<^sup>*\<^sup>* t s'" "h1_sending s' = None" "h1_phase s' = h1_phase t"
      "h1_posted s' = h1_posted t" "h1_broadcast s' = h1_broadcast t"
      using Cons.IH [of t] by (auto simp: t_def)
    moreover have "h1_phase t = h1_phase s" "h1_posted t = h1_posted s" "h1_broadcast t = h1_broadcast s"
      by (simp_all add: t_def frame_simps)
    ultimately show ?case by (metis converse_rtranclp_into_rtranclp)
  qed
qed

lemma v1_make_room:
  assumes "chan_cap (h1_broadcast s) = 128" "length (chan_buf (h1_broadcast s)) \<le> 128"
  shows "\<exists>s'. (v1_step cd)\<^sup>*\<^sup>* s s' \<and> h1_phase s' = h1_phase s \<and> h1_posted s' = h1_posted s \<and>
     length (chan_buf (h1_broadcast s')) < chan_cap (h1_broadcast s')"
proof (cases "length (chan_buf (h1_broadcast s)) < 128")
  case True
  then show ?thesis using assms by (intro exI [of _ s]) auto
next
  case False
  obtain t where t: "(v1_step cd)\<^sup>*\<^sup>* s t" "h1_sending t = None" "h1_phase t = h1_phase s"
    "h1_posted t = h1_posted s" "h1_broadcast t = h1_broadcast s"
    using v1_finish_broadcast by blast
  then obtain p ps where buf: "chan_buf (h1_broadcast t) = p # ps"
    using False by (cases "chan_buf (h1_broadcast s)") auto
  define ch where "ch = (h1_broadcast t)\<lparr>chan_buf := ps\<rparr>"
  define s' where
    "s' = v1_handle_broadcast cd p (v1_snapshot (packet_room_id p) t) (t\<lparr>h1_broadcast := ch\<rparr>)"
  have "v1_step cd t s'" unfolding s'_def
    by (rule v1_step.broadcasts) (simp_all add: t(2) buf ch_def)
  then have "(v1_step cd)\<^sup>*\<^sup>* s s'" using t(1) by simp
  moreover have "length (chan_buf (h1_broadcast s')) < chan_cap (h1_broadcast s')"
    using assms t(5) buf by (simp add: s'_def ch_def frame_simps)
  ultimately show ?thesis using t by (intro exI [of _ s']) (simp add: s'_def frame_simps)
qed

section \<open>Properties\<close>

text \<open>C19: Every connection of the first stage gets its room's messages in the order in which they
  entered the manager's channel, each at most once: what is written to it is a subsequence of the
  encoded packets of its room, whatever the pumps and the loop interleave.\<close>

theorem v1_messages_in_order:
  assumes "v1_reachable cd s"
  shows "subseq (h1_written s a) (v1_room_payloads cd (c1_room (h1_client s a)) (h1_posted s))"
proof -
  have inv: "v1_queues_ok s" "v1_order_ok cd s" using v1_reachable_inv [OF assms] by (simp_all add: v1_inv_def)
  have "subseq (h1_written s a) (v1_room_payloads cd (c1_room (h1_client s a)) (v1_taken s))"
    using inv(2) subseq_weaken unfolding v1_order_ok_def v1_seen_def by (metis append.assoc)
  then show ?thesis
    using inv(1) unfolding v1_queues_ok_def by (metis v1_room_payloads_append list_emb_prefix)
qed

definition v1_plain :: v1_codec where
  \<comment> \<open>texts that are their own JSON\<close>
  "v1_plain =
     \<lparr>c1_dec_packet = (\<lambda>raw. Some \<lparr>packet_type = type_danmaku, packet_room_id = [], packet_data = raw\<rparr>),
      c1_dec_danmaku = (\<lambda>text. Some \<lparr>d1_room_id = [], d1_user_id = [], d1_username = [], d1_content = text,
        d1_send_time = \<lparr>instant = 0, utc_offset = 0\<rparr>\<rparr>),
      c1_enc_packet = (\<lambda>p. Some (packet_data p)), c1_enc_danmaku = (\<lambda>d. Some (d1_content d))\<rparr>"

text \<open>A run in which a client joins a room, posts two messages and gets both.\<close>

definition v1_example :: "string list \<Rightarrow> string list \<Rightarrow> v1_phase \<Rightarrow> packet list \<Rightarrow> (nat list \<times> string) option \<Rightarrow> packet list \<Rightarrow> v1_hub" where
  "v1_example written buffered ph queue sending posted =
     \<lparr>h1_client = (\<lambda>_. v1_new_client [] [] [])
        (0 := \<lparr>c1_user = ''u'', c1_name = ''n'', c1_room = ''r'', c1_send = \<lparr>chan_buf = buffered, chan_cap = 32\<rparr>,
           c1_done = False\<rparr>),
      h1_phase = (\<lambda>_. V1_absent)(0 := ph), h1_writing = (\<lambda>_. False)(0 := True), h1_rooms = [(''r'', [0])],
      h1_broadcast = \<lparr>chan_buf = queue, chan_cap = 128\<rparr>, h1_sending = sending, h1_posted = posted,
      h1_written = (\<lambda>_. [])(0 := written)\<rparr>"

abbreviation v1_note :: "string \<Rightarrow> packet" where
  "v1_note text \<equiv> \<lparr>packet_type = type_danmaku, packet_room_id = ''r'', packet_data = text\<rparr>"

lemma v1_example_joins: "v1_reachable v1_plain (v1_example [] [] V1_reading [] None [])"
proof -
  define c where "c = v1_new_client ''u'' ''n'' ''r''"
  define s where "s = v1_to 0 V1_joining (v1_new_manager\<lparr>h1_client := (h1_client v1_new_manager)(0 := c)\<rparr>)"
  have "v1_serve_ws ''u'' ''n'' ''r'' True = V1_connected c"
    by (simp add: v1_serve_ws_def c_def trim_space_ascii ascii_def byte_def is_space_def)
  then have "v1_step v1_plain v1_new_manager s"
    unfolding s_def by (intro v1_step.connects) (simp_all add: v1_new_manager_def)
  moreover have "v1_step v1_plain s
      (v1_to 0 V1_reading ((v1_handle_register 0 s)\<lparr>h1_writing := (h1_writing s)(0 := True)\<rparr>))"
    by (rule v1_step.registers) (simp_all add: s_def v1_new_manager_def)
  moreover have "v1_to 0 V1_reading ((v1_handle_register 0 s)\<lparr>h1_writing := (h1_writing s)(0 := True)\<rparr>) =
      v1_example [] [] V1_reading [] None []"
    by (simp add: v1_example_def s_def v1_handle_register_def join_room_def v1_new_manager_def make_chan_def c_def
        v1_new_client_def v1_broadcast_buffer_size_def v1_send_buffer_size_def fun_eq_iff)
  ultimately show ?thesis by (metis converse_rtranclp_into_rtranclp rtranclp.rtrancl_refl)
qed

lemma v1_example_posts:
  assumes "trim_space t = t" "t \<noteq> []" "length q < 128"
  shows "(v1_step v1_plain)\<^sup>*\<^sup>* (v1_example w b V1_reading q sending ps)
    (v1_example w b V1_reading (q @ [v1_note t]) sending (ps @ [v1_note t]))"
proof -
  have "v1_step v1_plain (v1_example w b V1_reading q sending ps)
      (v1_to 0 (V1_posting (v1_note t)) (v1_example w b V1_reading q sending ps))"
    by (rule v1_step.reads [where raw = t])
      (use assms in \<open>simp_all add: v1_example_def v1_read_def v1_handle_danmaku_def v1_plain_def Let_def type_danmaku_def\<close>)
  moreover have "v1_to 0 (V1_posting (v1_note t)) (v1_example w b V1_reading q sending ps) =
      v1_example w b (V1_posting (v1_note t)) q sending ps"
    by (simp add: v1_example_def)
  moreover have "v1_step v1_plain (v1_example w b (V1_posting (v1_note t)) q sending ps)
      (v1_to 0 V1_reading ((v1_example w b (V1_posting (v1_note t)) q sending ps)
        \<lparr>h1_broadcast := \<lparr>chan_buf = q @ [v1_note t], chan_cap = 128\<rparr>, h1_posted := ps @ [v1_note t]\<rparr>))"
    using v1_step.posts [of "v1_example w b (V1_posting (v1_note t)) q sending ps" 0 "v1_note t"] assms(3)
    by (simp add: v1_example_def try_send_def)
  moreover have "v1_to 0 V1_reading ((v1_example w b (V1_posting (v1_note t)) q sending ps)
        \<lparr>h1_broadcast := \<lparr>chan_buf = q @ [v1_note t], chan_cap = 128\<rparr>, h1_posted := ps @ [v1_note t]\<rparr>) =
      v1_example w b V1_reading (q @ [v1_note t]) sending (ps @ [v1_note t])"
    by (simp add: v1_example_def)
  ultimately show ?thesis by (metis converse_rtranclp_into_rtranclp rtranclp.rtrancl_refl)
qed

lemma v1_example_round:
  "(v1_step v1_plain)\<^sup>*\<^sup>* (v1_example w [] ph (v1_note t # q) None ps) (v1_example (w @ [t]) [] ph q None ps)"
proof -
  have "v1_step v1_plain (v1_example w [] ph (v1_note t # q) None ps) (v1_example w [] ph q (Some ([0], t)) ps)"
    using v1_step.broadcasts [of "v1_example w [] ph (v1_note t # q) None ps" "v1_note t" _ "[0]" v1_plain]
    by (simp add: v1_example_def v1_snapshot_def gm_get_def v1_handle_broadcast_def v1_plain_def)
  moreover have "v1_step v1_plain (v1_example w [] ph q (Some ([0], t)) ps) (v1_example w [t] ph q (Some ([], t)) ps)"
    using v1_step.sends [of "v1_example w [] ph q (Some ([0], t)) ps" 0 "[]" t v1_plain]
    by (simp add: v1_example_def v1_safe_send_def try_send_def)
  moreover have "v1_step v1_plain (v1_example w [t] ph q (Some ([], t)) ps) (v1_example w [t] ph q None ps)"
    using v1_step.finishes [of "v1_example w [t] ph q (Some ([], t)) ps" t v1_plain] by (simp add: v1_example_def)
  moreover have "v1_step v1_plain (v1_example w [t] ph q None ps) (v1_example (w @ [t]) [] ph q None ps)"
    by (rule v1_step.writes [where a = 0 and ok = True])
      (simp_all add: v1_example_def v1_write_def Let_def)
  ultimately show ?thesis by (metis converse_rtranclp_into_rtranclp rtranclp.rtrancl_refl)
qed

lemma v1_example_run:
  "v1_reachable v1_plain
     (v1_example [''hi'', ''yo''] [] V1_reading [] None [v1_note ''hi'', v1_note ''yo''])"
proof -
  have trimmed: "trim_space ''hi'' = ''hi''" "trim_space ''yo'' = ''yo''"
    by (simp_all add: trim_space_ascii ascii_def byte_def is_space_def)
  note post1 = v1_example_posts [of "''hi''" "[]" "[]" "[]" None "[]", unfolded append_Nil]
  note post2 = v1_example_posts [of "''yo''" "[v1_note ''hi'']" "[]" "[]" None "[v1_note ''hi'']", unfolded append_Cons append_Nil]
  note round1 = v1_example_round [of "[]" V1_reading "''hi''" "[v1_note ''yo'']", unfolded append_Nil]
  note round2 = v1_example_round [of "[''hi'']" V1_reading "''yo''" "[]", unfolded append_Cons append_Nil]
  show ?thesis
    by (intro rtranclp_trans [OF v1_example_joins] rtranclp_trans [OF post1] rtranclp_trans [OF post2]
        rtranclp_trans [OF round1] round2) (simp_all add: trimmed)
qed

theorem v1_messages_in_order_witness:
  "\<exists>s. v1_reachable v1_plain s \<and> h1_written s 0 = [''hi'', ''yo''] \<and>
     subseq [''hi'', ''yo''] (v1_room_payloads v1_plain ''r'' (h1_posted s))"
proof -
  define s where "s = v1_example [''hi'', ''yo''] [] V1_reading [] None [v1_note ''hi'', v1_note ''yo'']"
  have run: "v1_reachable v1_plain s" unfolding s_def by (rule v1_example_run)
  have "h1_written s 0 = [''hi'', ''yo'']" "c1_room (h1_client s 0) = ''r''" by (simp_all add: s_def v1_example_def)
  then show ?thesis using v1_messages_in_order [OF run, of 0] run by metis
qed

text \<open>In every reachable state of the first stage rooms have clients, each client is in at most its
  own room and only between registration and unregistration, the channels are within their capacities,
  and a client that has left is sent nothing more.\<close>

theorem v1_rooms_and_channels:
  assumes "v1_reachable cd s"
  shows "rooms_wf (h1_rooms s) \<and>
    (a \<in> set (v1_snapshot room s) \<longleftrightarrow> v1_joined (h1_phase s a) \<and> c1_room (h1_client s a) = room) \<and>
    length (chan_buf (h1_broadcast s)) \<le> 128 \<and> length (chan_buf (c1_send (h1_client s a))) \<le> 32 \<and>
    (v1_joined (h1_phase s a) \<or> v1_unsent s a = [])"
proof -
  have inv: "v1_rooms_ok s" "v1_queues_ok s" "v1_sending_ok s"
    using v1_reachable_inv [OF assms] by (simp_all add: v1_inv_def)
  have "v1_joined (h1_phase s a) \<or> v1_unsent s a = []"
    using v1_sending_joined [OF inv(3)] by (auto simp: v1_unsent_def split: option.split)
  then show ?thesis using inv by (auto simp: v1_rooms_ok_def v1_queues_ok_def)
qed

theorem v1_rooms_and_channels_witness:
  "\<exists>s. v1_reachable v1_plain s \<and> 0 \<in> set (v1_snapshot ''r'' s) \<and>
     rooms_wf (h1_rooms s)"
  using v1_rooms_and_channels [OF v1_example_run, of 0 "''r''"] v1_example_run
  by (auto simp: v1_example_def v1_snapshot_def gm_get_def)

text \<open>A client that waits to hand its message to the manager is never stuck: from every reachable
  state steps lead to the message in the channel, behind what was posted before, and nothing but the
  manager has to move.\<close>

theorem v1_post_goes_through:
  assumes "v1_reachable cd s" "h1_phase s a = V1_posting p"
  shows "\<exists>s'. (v1_step cd)\<^sup>*\<^sup>* s s' \<and> h1_phase s' = (h1_phase s)(a := V1_reading) \<and> h1_posted s' = h1_posted s @ [p]"
proof -
  have "v1_queues_ok s" using v1_reachable_inv [OF assms(1)] by (simp add: v1_inv_def)
  then have "chan_cap (h1_broadcast s) = 128" "length (chan_buf (h1_broadcast s)) \<le> 128"
    by (simp_all add: v1_queues_ok_def)
  then obtain t where t: "(v1_step cd)\<^sup>*\<^sup>* s t" "h1_phase t = h1_phase s" "h1_posted t = h1_posted s"
    "length (chan_buf (h1_broadcast t)) < chan_cap (h1_broadcast t)"
    using v1_make_room by blast
  define ch where "ch = (h1_broadcast t)\<lparr>chan_buf := chan_buf (h1_broadcast t) @ [p]\<rparr>"
  have "v1_step cd t (v1_to a V1_reading (t\<lparr>h1_broadcast := ch, h1_posted := h1_posted t @ [p]\<rparr>))"
    by (rule v1_step.posts) (use t assms in \<open>simp_all add: try_send_def ch_def\<close>)
  then have "(v1_step cd)\<^sup>*\<^sup>* s (v1_to a V1_reading (t\<lparr>h1_broadcast := ch, h1_posted := h1_posted t @ [p]\<rparr>))"
    using t(1) by simp
  then show ?thesis using t by (intro exI conjI) (assumption | simp)+
qed

end
