(* ===== verification/V2_Hub.thy ===== *)
theory V2_Hub
  imports V1_Hub
begin

text \<open>
  The second stage of the course, \<open>v2/internal/ws/manager.go\<close>: \<open>Run\<close> turns a packet into a job with a
  copy of the room's clients and a pool of workers does the sending; a full job queue or client buffer
  drops. The clients and pumps are those of the first stage with larger buffers. The counters account for
  every message; the price of the pool is the order, which only a single worker keeps.
\<close>

section \<open>The manager\<close>

definition v2_broadcast_buffer_size :: nat where "v2_broadcast_buffer_size = 256"
definition v2_job_buffer_size :: nat where "v2_job_buffer_size = 512"
definition v2_default_worker_count :: int where "v2_default_worker_count = 8"
definition v2_send_buffer_size :: nat where "v2_send_buffer_size = 64"

definition v2_new_client :: "string \<Rightarrow> string \<Rightarrow> string \<Rightarrow> v1_client" where
  "v2_new_client u name room =
     \<lparr>c1_user = u, c1_name = name, c1_room = room, c1_send = make_chan v2_send_buffer_size, c1_done = False\<rparr>"

record v2_job =
  j2_room :: string
  j2_clients :: "nat list"
  j2_payload :: string

record v2_metrics =
  m2_rooms :: nat
  m2_clients :: nat
  m2_worker_count :: nat
  m2_broadcast_packets :: u64
  m2_enqueued_jobs :: u64
  m2_dropped_jobs :: u64
  m2_delivered_messages :: u64
  m2_dropped_messages :: u64

record v2_hub =
  h2_client :: "nat \<Rightarrow> v1_client"
  h2_phase :: "nat \<Rightarrow> v1_phase"
  h2_writing :: "nat \<Rightarrow> bool"
  h2_rooms :: "(string, nat list) gomap"
  h2_broadcast :: "packet chan"
  h2_jobs :: "v2_job chan"
  h2_workers :: "v2_job option list"
    \<comment> \<open>what each worker is in, with the clients still to send to\<close>
  h2_broadcast_packets :: u64
  h2_enqueued_jobs :: u64
  h2_dropped_jobs :: u64
  h2_delivered_messages :: u64
  h2_dropped_messages :: u64
  h2_posted :: "packet list"
    \<comment> \<open>trace: what entered \<open>Broadcast\<close>\<close>
  h2_accepted :: "v2_job list"
    \<comment> \<open>trace: what entered the job queue\<close>
  h2_written :: "nat \<Rightarrow> string list"
    \<comment> \<open>trace: the frames handed to each connection\<close>

definition v2_new_manager :: "int \<Rightarrow> v2_hub" where
  "v2_new_manager worker_count =
     (let n = (if worker_count \<le> 0 then v2_default_worker_count else worker_count)
      in \<lparr>h2_client = (\<lambda>_. v2_new_client [] [] []), h2_phase = (\<lambda>_. V1_absent), h2_writing = (\<lambda>_. False),
          h2_rooms = [], h2_broadcast = make_chan v2_broadcast_buffer_size,
          h2_jobs = make_chan v2_job_buffer_size, h2_workers = replicate (nat n) None,
          h2_broadcast_packets = 0, h2_enqueued_jobs = 0, h2_dropped_jobs = 0,
          h2_delivered_messages = 0, h2_dropped_messages = 0,
          h2_posted = [], h2_accepted = [], h2_written = (\<lambda>_. [])\<rparr>)"

definition v2_handle_register :: "nat \<Rightarrow> v2_hub \<Rightarrow> v2_hub" where
  "v2_handle_register a s = s\<lparr>h2_rooms := join_room a (c1_room (h2_client s a)) (h2_rooms s)\<rparr>"

definition v2_handle_unregister :: "nat \<Rightarrow> v2_hub \<Rightarrow> v2_hub" where
  "v2_handle_unregister a s =
     (let room = c1_room (h2_client s a)
      in (case map_of (h2_rooms s) room of
            None \<Rightarrow> s
          | Some clients \<Rightarrow>
              if a \<notin> set clients then s
              else s\<lparr>h2_client := (h2_client s)(a := v1_close (h2_client s a)),
                     h2_rooms := leave_room a room (h2_rooms s)\<rparr>))"

definition v2_snapshot :: "string \<Rightarrow> v2_hub \<Rightarrow> nat list" where
  "v2_snapshot room s = gm_get [] (h2_rooms s) room"

definition v2_handle_broadcast :: "v1_codec \<Rightarrow> packet \<Rightarrow> nat list \<Rightarrow> v2_hub \<Rightarrow> v2_hub" where
  \<comment> \<open>with the order in which the map gives the clients\<close>
  "v2_handle_broadcast cd p order s =
     (case c1_enc_packet cd p of
        None \<Rightarrow> s
      | Some payload \<Rightarrow>
          if order = [] then s
          else
            (let s = s\<lparr>h2_broadcast_packets := h2_broadcast_packets s + 1\<rparr>;
                 job = \<lparr>j2_room = packet_room_id p, j2_clients = order, j2_payload = payload\<rparr>
             in (case try_send (h2_jobs s) job of
                   Some ch \<Rightarrow> s\<lparr>h2_jobs := ch, h2_enqueued_jobs := h2_enqueued_jobs s + 1,
                                h2_accepted := h2_accepted s @ [job]\<rparr>
                 | None \<Rightarrow> s\<lparr>h2_dropped_jobs := h2_dropped_jobs s + 1\<rparr>)))"

definition v2_safe_send :: "nat \<Rightarrow> string \<Rightarrow> v2_hub \<Rightarrow> v2_hub" where
  "v2_safe_send a payload s =
     (case try_send (c1_send (h2_client s a)) payload of
        Some ch \<Rightarrow> s\<lparr>h2_client := (h2_client s)(a := (h2_client s a)\<lparr>c1_send := ch\<rparr>),
                     h2_delivered_messages := h2_delivered_messages s + 1\<rparr>
      | None \<Rightarrow> s\<lparr>h2_dropped_messages := h2_dropped_messages s + 1\<rparr>)"

definition v2_metrics_of :: "v2_hub \<Rightarrow> v2_metrics" where
  "v2_metrics_of s =
     \<lparr>m2_rooms = length (h2_rooms s), m2_clients = sum_list (map (\<lambda>(room, clients). length clients) (h2_rooms s)),
      m2_worker_count = length (h2_workers s),
      m2_broadcast_packets = h2_broadcast_packets s, m2_enqueued_jobs = h2_enqueued_jobs s,
      m2_dropped_jobs = h2_dropped_jobs s, m2_delivered_messages = h2_delivered_messages s,
      m2_dropped_messages = h2_dropped_messages s\<rparr>"

definition v2_write :: "nat \<Rightarrow> bool \<Rightarrow> v2_hub \<Rightarrow> v2_hub option" where
  \<comment> \<open>one round of \<open>WritePump\<close> that takes a message; an error of the socket ends the pump\<close>
  "v2_write a ok s =
     (case chan_recv (c1_send (h2_client s a)) of
        None \<Rightarrow> None
      | Some (payload, ch) \<Rightarrow>
          (let c = (h2_client s a)\<lparr>c1_send := ch\<rparr>
           in Some (if ok
                then s\<lparr>h2_client := (h2_client s)(a := c),
                       h2_written := (h2_written s)(a := h2_written s a @ [payload])\<rparr>
                else s\<lparr>h2_client := (h2_client s)(a := v1_close c), h2_writing := (h2_writing s)(a := False)\<rparr>)))"

definition v2_take_job :: "nat \<Rightarrow> v2_hub \<Rightarrow> v2_hub option" where
  \<comment> \<open>worker \<open>w\<close> receives from \<open>broadcastJobs\<close>\<close>
  "v2_take_job w s =
     (case chan_recv (h2_jobs s) of
        None \<Rightarrow> None
      | Some (job, ch) \<Rightarrow> Some (s\<lparr>h2_jobs := ch, h2_workers := (h2_workers s)[w := Some job]\<rparr>))"

definition v2_work :: "nat \<Rightarrow> v2_hub \<Rightarrow> v2_hub option" where
  \<comment> \<open>worker \<open>w\<close> sends to the next client of its job, or is done with it\<close>
  "v2_work w s =
     (case h2_workers s ! w of
        None \<Rightarrow> None
      | Some job \<Rightarrow>
          (case j2_clients job of
             [] \<Rightarrow> Some (s\<lparr>h2_workers := (h2_workers s)[w := None]\<rparr>)
           | a # clients \<Rightarrow>
               Some ((v2_safe_send a (j2_payload job) s)
                 \<lparr>h2_workers := (h2_workers s)[w := Some (job\<lparr>j2_clients := clients\<rparr>)]\<rparr>)))"

section \<open>The system\<close>

abbreviation v2_to :: "nat \<Rightarrow> v1_phase \<Rightarrow> v2_hub \<Rightarrow> v2_hub" where
  "v2_to a ph s \<equiv> s\<lparr>h2_phase := (h2_phase s)(a := ph)\<rparr>"

inductive v2_step :: "v1_codec \<Rightarrow> v2_hub \<Rightarrow> v2_hub \<Rightarrow> bool" for cd where
  connects: "h2_phase s a = V1_absent \<Longrightarrow>
    v2_step cd s (v2_to a V1_joining (s\<lparr>h2_client := (h2_client s)(a := v2_new_client u name room)\<rparr>))"
| registers: "h2_phase s a = V1_joining \<Longrightarrow>
    v2_step cd s (v2_to a V1_reading ((v2_handle_register a s)\<lparr>h2_writing := (h2_writing s)(a := True)\<rparr>))"
| reads: "h2_phase s a = V1_reading \<Longrightarrow> v1_read cd (h2_client s a) now raw = Some p \<Longrightarrow>
    v2_step cd s (v2_to a (V1_posting p) s)"
| posts: "h2_phase s a = V1_posting p \<Longrightarrow> try_send (h2_broadcast s) p = Some ch \<Longrightarrow>
    v2_step cd s (v2_to a V1_reading (s\<lparr>h2_broadcast := ch, h2_posted := h2_posted s @ [p]\<rparr>))"
| stops: "h2_phase s a = V1_reading \<Longrightarrow> v2_step cd s (v2_to a V1_leaving s)"
| unregisters: "h2_phase s a = V1_leaving \<Longrightarrow> v2_step cd s (v2_to a V1_closing (v2_handle_unregister a s))"
| closes: "h2_phase s a = V1_closing \<Longrightarrow>
    v2_step cd s (v2_to a V1_left (s\<lparr>h2_client := (h2_client s)(a := v1_close (h2_client s a))\<rparr>))"
| broadcasts: "chan_recv (h2_broadcast s) = Some (p, ch) \<Longrightarrow>
    mset order = mset (v2_snapshot (packet_room_id p) s) \<Longrightarrow>
    v2_step cd s (v2_handle_broadcast cd p order (s\<lparr>h2_broadcast := ch\<rparr>))"
| takes_job: "w < length (h2_workers s) \<Longrightarrow> h2_workers s ! w = None \<Longrightarrow> v2_take_job w s = Some s' \<Longrightarrow> v2_step cd s s'"
| works: "w < length (h2_workers s) \<Longrightarrow> v2_work w s = Some s' \<Longrightarrow> v2_step cd s s'"
| writes: "h2_writing s a \<Longrightarrow> v2_write a ok s = Some s' \<Longrightarrow> v2_step cd s s'"
| pump_ends: "h2_writing s a \<Longrightarrow> c1_done (h2_client s a) \<Longrightarrow>
    v2_step cd s (s\<lparr>h2_writing := (h2_writing s)(a := False)\<rparr>)"

abbreviation v2_reachable :: "v1_codec \<Rightarrow> int \<Rightarrow> v2_hub \<Rightarrow> bool" where
  "v2_reachable cd worker_count s \<equiv> (v2_step cd)\<^sup>*\<^sup>* (v2_new_manager worker_count) s"

section \<open>What is under way\<close>

fun v2_in_hand :: "v2_job option list \<Rightarrow> v2_job list" where
  "v2_in_hand [] = []"
| "v2_in_hand (None # ws) = v2_in_hand ws"
| "v2_in_hand (Some job # ws) = job # v2_in_hand ws"

definition v2_outstanding :: "v2_hub \<Rightarrow> v2_job list" where
  \<comment> \<open>the jobs of the workers, then those of the queue\<close>
  "v2_outstanding s = v2_in_hand (h2_workers s) @ chan_buf (h2_jobs s)"

definition v2_for :: "nat \<Rightarrow> v2_job list \<Rightarrow> string list" where
  \<comment> \<open>what jobs still have for a client\<close>
  "v2_for a jobs = concat (map (\<lambda>job. if a \<in> set (j2_clients job) then [j2_payload job] else []) jobs)"

definition v2_slots :: "v2_job list \<Rightarrow> nat" where
  \<comment> \<open>the sends that jobs stand for\<close>
  "v2_slots jobs = sum_list (map (\<lambda>job. length (j2_clients job)) jobs)"

definition v2_seen :: "v2_hub \<Rightarrow> nat \<Rightarrow> string list" where
  "v2_seen s a = h2_written s a @ chan_buf (c1_send (h2_client s a))"

definition v2_taken :: "v2_hub \<Rightarrow> packet list" where
  "v2_taken s = take (length (h2_posted s) - length (chan_buf (h2_broadcast s))) (h2_posted s)"

definition v2_follows :: "nat \<Rightarrow> string list \<Rightarrow> string list \<Rightarrow> bool" where
  \<comment> \<open>in order with one worker, in any order with several; each at most once\<close>
  "v2_follows n xs ys \<longleftrightarrow> (if n = 1 then subseq xs ys else mset xs \<subseteq># mset ys)"

lemma v2_in_hand_append: "v2_in_hand (xs @ ys) = v2_in_hand xs @ v2_in_hand ys"
  by (induction xs rule: v2_in_hand.induct) simp_all

lemma v2_split_workers:
  assumes "w < length ws"
  obtains before after where "ws = before @ ws ! w # after" "\<And>x. ws[w := x] = before @ x # after"
    "length ws = Suc (length before + length after)"
proof
  show "ws = take w ws @ ws ! w # drop (Suc w) ws" using assms by (rule id_take_nth_drop)
  show "ws[w := x] = take w ws @ x # drop (Suc w) ws" for x using assms by (rule upd_conv_take_nth_drop)
  show "length ws = Suc (length (take w ws) + length (drop (Suc w) ws))" using assms by simp
qed

lemma v2_for_append [simp]: "v2_for a (xs @ ys) = v2_for a xs @ v2_for a ys"
  by (simp add: v2_for_def)

lemma v2_for_Cons [simp]:
  "v2_for a (job # jobs) = (if a \<in> set (j2_clients job) then [j2_payload job] else []) @ v2_for a jobs"
  by (simp add: v2_for_def)

lemma v2_for_Nil [simp]: "v2_for a [] = []"
  by (simp add: v2_for_def)

lemma v2_slots_simps [simp]:
  "v2_slots [] = 0" "v2_slots (job # jobs) = length (j2_clients job) + v2_slots jobs"
  "v2_slots (xs @ ys) = v2_slots xs + v2_slots ys"
  by (simp_all add: v2_slots_def)

lemma subseq_mset: "subseq xs ys \<Longrightarrow> mset xs \<subseteq># mset ys"
  by (induction rule: list_emb.induct) (auto intro: subset_mset.order_trans)

lemma v2_follows_subseq: "subseq xs ys \<Longrightarrow> v2_follows n xs ys"
  by (simp add: v2_follows_def subseq_mset)

lemma v2_follows_trans: "v2_follows n xs ys \<Longrightarrow> v2_follows n ys zs \<Longrightarrow> v2_follows n xs zs"
  by (auto simp: v2_follows_def split: if_splits intro: subset_mset.order_trans subseq_order.trans)

lemma v2_follows_snoc: "v2_follows n xs ys \<Longrightarrow> v2_follows n (xs @ [z]) (ys @ [z])"
  by (auto simp: v2_follows_def subseq_snoc split: if_splits)

lemma v2_follows_extend: "v2_follows n xs ys \<Longrightarrow> v2_follows n xs (ys @ zs)"
  by (auto simp: v2_follows_def list_emb_prefix split: if_splits intro: subset_mset.order_trans)

section \<open>Invariants\<close>

definition v2_rooms_ok :: "v2_hub \<Rightarrow> bool" where
  "v2_rooms_ok s \<longleftrightarrow> rooms_wf (h2_rooms s) \<and>
     (\<forall>room a. a \<in> set (v2_snapshot room s) \<longleftrightarrow> v1_joined (h2_phase s a) \<and> c1_room (h2_client s a) = room)"

definition v2_queues_ok :: "v2_hub \<Rightarrow> bool" where
  "v2_queues_ok s \<longleftrightarrow> h2_posted s = v2_taken s @ chan_buf (h2_broadcast s) \<and>
     length (chan_buf (h2_broadcast s)) \<le> 256 \<and> chan_cap (h2_broadcast s) = 256 \<and>
     length (chan_buf (h2_jobs s)) \<le> 512 \<and> chan_cap (h2_jobs s) = 512 \<and>
     (\<forall>a. length (chan_buf (c1_send (h2_client s a))) \<le> 64 \<and> chan_cap (c1_send (h2_client s a)) = 64)"

definition v2_started :: "v1_phase \<Rightarrow> bool" where
  "v2_started ph \<longleftrightarrow> ph \<noteq> V1_absent \<and> ph \<noteq> V1_joining"

definition v2_jobs_ok :: "v2_hub \<Rightarrow> bool" where
  "v2_jobs_ok s \<longleftrightarrow>
     (\<forall>job. job \<in> set (v2_outstanding s) \<longrightarrow> distinct (j2_clients job) \<and> (\<forall>a. \<not> v2_started (h2_phase s a) \<longrightarrow> a \<notin> set (j2_clients job)))"

definition v2_fresh_ok :: "v2_hub \<Rightarrow> bool" where
  "v2_fresh_ok s \<longleftrightarrow> (\<forall>a. \<not> v2_started (h2_phase s a) \<longrightarrow> v2_seen s a = [] \<and> \<not> h2_writing s a)"

definition v2_books_ok :: "v2_hub \<Rightarrow> bool" where
  "v2_books_ok s \<longleftrightarrow>
     h2_enqueued_jobs s = of_nat (length (h2_accepted s)) \<and>
     h2_broadcast_packets s = h2_enqueued_jobs s + h2_dropped_jobs s \<and>
     h2_delivered_messages s + h2_dropped_messages s + of_nat (v2_slots (v2_outstanding s)) =
       of_nat (v2_slots (h2_accepted s))"

definition v2_order_ok :: "v1_codec \<Rightarrow> v2_hub \<Rightarrow> bool" where
  "v2_order_ok cd s \<longleftrightarrow>
     (\<forall>a. v2_follows (length (h2_workers s)) (v2_seen s a @ v2_for a (v2_outstanding s))
        (v1_room_payloads cd (c1_room (h2_client s a)) (v2_taken s)))"

lemma v2_taken_eq: "h2_posted s = ps @ chan_buf (h2_broadcast s) \<Longrightarrow> v2_taken s = ps"
  by (simp add: v2_taken_def)

lemma v2_started_simps [simp]:
  "v2_started V1_reading" "v2_started V1_leaving" "v2_started (V1_posting p)" "v2_started V1_closing"
  "v2_started V1_left" "\<not> v2_started V1_absent" "\<not> v2_started V1_joining"
  by (simp_all add: v2_started_def)

lemma v1_joined_started: "v1_joined ph \<Longrightarrow> v2_started ph"
  by (auto simp: v1_joined_def)

lemma v2_safe_send_frames [frame_simps]:
  "h2_rooms (v2_safe_send a payload s) = h2_rooms s" "h2_phase (v2_safe_send a payload s) = h2_phase s"
  "h2_jobs (v2_safe_send a payload s) = h2_jobs s" "h2_workers (v2_safe_send a payload s) = h2_workers s"
  "h2_posted (v2_safe_send a payload s) = h2_posted s" "h2_accepted (v2_safe_send a payload s) = h2_accepted s"
  "h2_broadcast (v2_safe_send a payload s) = h2_broadcast s" "h2_writing (v2_safe_send a payload s) = h2_writing s"
  "h2_written (v2_safe_send a payload s) = h2_written s"
  "h2_enqueued_jobs (v2_safe_send a payload s) = h2_enqueued_jobs s"
  "h2_dropped_jobs (v2_safe_send a payload s) = h2_dropped_jobs s"
  "h2_broadcast_packets (v2_safe_send a payload s) = h2_broadcast_packets s"
  "c1_room (h2_client (v2_safe_send a payload s) b) = c1_room (h2_client s b)"
  "h2_delivered_messages (v2_safe_send a payload s) + h2_dropped_messages (v2_safe_send a payload s) =
     h2_delivered_messages s + h2_dropped_messages s + 1"
  by (auto simp: v2_safe_send_def split: option.split)

lemma v2_broadcast_frames [frame_simps]:
  "h2_rooms (v2_handle_broadcast cd p order s) = h2_rooms s" "h2_phase (v2_handle_broadcast cd p order s) = h2_phase s"
  "h2_client (v2_handle_broadcast cd p order s) = h2_client s" "h2_workers (v2_handle_broadcast cd p order s) = h2_workers s"
  "h2_posted (v2_handle_broadcast cd p order s) = h2_posted s"
  "h2_broadcast (v2_handle_broadcast cd p order s) = h2_broadcast s"
  "h2_writing (v2_handle_broadcast cd p order s) = h2_writing s" "h2_written (v2_handle_broadcast cd p order s) = h2_written s"
  "h2_delivered_messages (v2_handle_broadcast cd p order s) = h2_delivered_messages s"
  "h2_dropped_messages (v2_handle_broadcast cd p order s) = h2_dropped_messages s"
  by (auto simp: v2_handle_broadcast_def Let_def split: option.split)

lemma v2_register_frames [frame_simps]:
  "h2_phase (v2_handle_register a s) = h2_phase s" "h2_jobs (v2_handle_register a s) = h2_jobs s"
  "h2_workers (v2_handle_register a s) = h2_workers s" "h2_accepted (v2_handle_register a s) = h2_accepted s"
  "h2_posted (v2_handle_register a s) = h2_posted s" "h2_broadcast (v2_handle_register a s) = h2_broadcast s"
  "h2_written (v2_handle_register a s) = h2_written s" "h2_client (v2_handle_register a s) = h2_client s"
  "h2_writing (v2_handle_register a s) = h2_writing s"
  "h2_broadcast_packets (v2_handle_register a s) = h2_broadcast_packets s"
  "h2_enqueued_jobs (v2_handle_register a s) = h2_enqueued_jobs s"
  "h2_dropped_jobs (v2_handle_register a s) = h2_dropped_jobs s"
  "h2_delivered_messages (v2_handle_register a s) = h2_delivered_messages s"
  "h2_dropped_messages (v2_handle_register a s) = h2_dropped_messages s"
  by (auto simp: v2_handle_register_def Let_def)

lemma v2_unregister_frames [frame_simps]:
  "h2_phase (v2_handle_unregister a s) = h2_phase s" "h2_jobs (v2_handle_unregister a s) = h2_jobs s"
  "h2_workers (v2_handle_unregister a s) = h2_workers s" "h2_accepted (v2_handle_unregister a s) = h2_accepted s"
  "h2_posted (v2_handle_unregister a s) = h2_posted s" "h2_broadcast (v2_handle_unregister a s) = h2_broadcast s"
  "h2_written (v2_handle_unregister a s) = h2_written s" "h2_writing (v2_handle_unregister a s) = h2_writing s"
  "h2_broadcast_packets (v2_handle_unregister a s) = h2_broadcast_packets s"
  "h2_enqueued_jobs (v2_handle_unregister a s) = h2_enqueued_jobs s"
  "h2_dropped_jobs (v2_handle_unregister a s) = h2_dropped_jobs s"
  "h2_delivered_messages (v2_handle_unregister a s) = h2_delivered_messages s"
  "h2_dropped_messages (v2_handle_unregister a s) = h2_dropped_messages s"
  "c1_room (h2_client (v2_handle_unregister a s) b) = c1_room (h2_client s b)"
  "c1_send (h2_client (v2_handle_unregister a s) b) = c1_send (h2_client s b)"
  by (auto simp: v2_handle_unregister_def v1_close_def Let_def split: option.split)

lemma v2_write_frames:
  assumes "v2_write a ok s = Some s'"
  shows "h2_rooms s' = h2_rooms s" "h2_phase s' = h2_phase s" "h2_jobs s' = h2_jobs s" "h2_workers s' = h2_workers s"
    "h2_posted s' = h2_posted s" "h2_broadcast s' = h2_broadcast s" "h2_accepted s' = h2_accepted s"
    "h2_broadcast_packets s' = h2_broadcast_packets s" "h2_enqueued_jobs s' = h2_enqueued_jobs s"
    "h2_dropped_jobs s' = h2_dropped_jobs s" "h2_delivered_messages s' = h2_delivered_messages s"
    "h2_dropped_messages s' = h2_dropped_messages s"
    "c1_room (h2_client s' b) = c1_room (h2_client s b)"
    "chan_cap (c1_send (h2_client s' b)) = chan_cap (c1_send (h2_client s b))"
    "length (chan_buf (c1_send (h2_client s' b))) \<le> length (chan_buf (c1_send (h2_client s b)))"
    "h2_writing s' b \<Longrightarrow> h2_writing s b"
    "subseq (v2_seen s' b) (v2_seen s b)"
  using assms
  by (auto simp: v2_write_def v1_close_def v2_seen_def Let_def subseq_skip split: option.splits list.splits if_splits)

lemma v2_take_frames:
  assumes "v2_take_job w s = Some s'"
  shows "h2_rooms s' = h2_rooms s" "h2_phase s' = h2_phase s" "h2_client s' = h2_client s"
    "h2_posted s' = h2_posted s" "h2_broadcast s' = h2_broadcast s" "h2_accepted s' = h2_accepted s"
    "h2_broadcast_packets s' = h2_broadcast_packets s" "h2_enqueued_jobs s' = h2_enqueued_jobs s"
    "h2_dropped_jobs s' = h2_dropped_jobs s" "h2_delivered_messages s' = h2_delivered_messages s"
    "h2_dropped_messages s' = h2_dropped_messages s" "h2_writing s' = h2_writing s" "h2_written s' = h2_written s"
    "length (h2_workers s') = length (h2_workers s)" "chan_cap (h2_jobs s') = chan_cap (h2_jobs s)"
    "length (chan_buf (h2_jobs s')) \<le> length (chan_buf (h2_jobs s))"
  using assms by (auto simp: v2_take_job_def split: option.splits list.splits)

lemma v2_work_frames:
  assumes "v2_work w s = Some s'"
  shows "h2_rooms s' = h2_rooms s" "h2_phase s' = h2_phase s" "h2_jobs s' = h2_jobs s"
    "h2_posted s' = h2_posted s" "h2_broadcast s' = h2_broadcast s" "h2_accepted s' = h2_accepted s"
    "h2_broadcast_packets s' = h2_broadcast_packets s" "h2_enqueued_jobs s' = h2_enqueued_jobs s"
    "h2_dropped_jobs s' = h2_dropped_jobs s" "h2_writing s' = h2_writing s" "h2_written s' = h2_written s"
    "length (h2_workers s') = length (h2_workers s)" "c1_room (h2_client s' b) = c1_room (h2_client s b)"
    "chan_cap (c1_send (h2_client s' b)) = chan_cap (c1_send (h2_client s b))"
    "chan_cap (c1_send (h2_client s b)) = 64 \<Longrightarrow> length (chan_buf (c1_send (h2_client s b))) \<le> 64 \<Longrightarrow>
       length (chan_buf (c1_send (h2_client s' b))) \<le> 64"
  using assms
  by (auto simp: v2_work_def frame_simps v2_safe_send_def try_send_Some split: option.splits list.splits)

lemma v2_snapshot_unregister:
  assumes "v2_rooms_ok s"
  shows "set (v2_snapshot room (v2_handle_unregister a s)) =
     (if room = c1_room (h2_client s a) then set (v2_snapshot room s) - {a} else set (v2_snapshot room s))"
proof (cases "map_of (h2_rooms s) (c1_room (h2_client s a))")
  case None
  then have "gm_get [] (h2_rooms s) (c1_room (h2_client s a)) = []" by (simp add: gm_get_def)
  then show ?thesis using None by (simp add: v2_snapshot_def v2_handle_unregister_def Let_def)
next
  case (Some clients)
  then have "gm_get [] (h2_rooms s) (c1_room (h2_client s a)) = clients" by (simp add: gm_get_def)
  then show ?thesis using Some assms
    by (auto simp: v2_snapshot_def v2_handle_unregister_def Let_def v2_rooms_ok_def members_leave)
qed

lemma v2_wf_unregister: "v2_rooms_ok s \<Longrightarrow> rooms_wf (h2_rooms (v2_handle_unregister a s))"
  by (auto simp: v2_rooms_ok_def v2_handle_unregister_def Let_def rooms_wf_leave split: option.split)

lemma v2_snapshot_distinct: "v2_rooms_ok s \<Longrightarrow> distinct (v2_snapshot room s)"
  by (simp add: v2_rooms_ok_def v2_snapshot_def rooms_wf_distinct)

lemma v2_rooms_step: "v2_step cd s s' \<Longrightarrow> v2_rooms_ok s \<Longrightarrow> v2_rooms_ok s'"
proof (induction rule: v2_step.cases)
  case (registers s a)
  then show ?case
    by (auto simp: v2_rooms_ok_def v2_handle_register_def v2_snapshot_def members_join rooms_wf_join)
next
  case (unregisters s a)
  have "b \<in> set (v2_snapshot room (v2_handle_unregister a s)) \<longleftrightarrow>
      b \<noteq> a \<and> v1_joined (h2_phase s b) \<and> c1_room (h2_client s b) = room" for room b
    using unregisters by (auto simp: v2_snapshot_unregister v2_rooms_ok_def)
  moreover have "h2_rooms s' = h2_rooms (v2_handle_unregister a s)"
    "v2_snapshot room s' = v2_snapshot room (v2_handle_unregister a s)"
    "v1_joined (h2_phase s' b) \<longleftrightarrow> b \<noteq> a \<and> v1_joined (h2_phase s b)" "c1_room (h2_client s' b) = c1_room (h2_client s b)" for room b
    using unregisters by (simp_all add: v2_snapshot_def frame_simps)
  moreover have "rooms_wf (h2_rooms (v2_handle_unregister a s))" using unregisters v2_wf_unregister by blast
  ultimately show ?case unfolding v2_rooms_ok_def by simp
qed (auto simp: v2_rooms_ok_def v2_snapshot_def frame_simps v2_write_frames v2_work_frames v2_take_frames v1_close_def)

lemma v2_queues_step: "v2_step cd s s' \<Longrightarrow> v2_queues_ok s \<Longrightarrow> v2_queues_ok s'"
proof (induction rule: v2_step.cases)
  case (posts s a p ch)
  have "h2_posted s @ [p] = v2_taken s @ chan_buf ch"
    using posts by (auto simp: v2_queues_ok_def try_send_Some)
  then have "v2_taken s' = v2_taken s" using posts by (intro v2_taken_eq) simp
  then show ?case using posts by (auto simp: v2_queues_ok_def try_send_Some)
next
  case (broadcasts s p ch order)
  have "h2_posted s = (v2_taken s @ [p]) @ chan_buf ch"
    using broadcasts by (auto simp: v2_queues_ok_def split: list.splits)
  then have taken: "v2_taken s' = v2_taken s @ [p]" using broadcasts by (intro v2_taken_eq) (simp add: frame_simps)
  have "chan_cap (h2_jobs s') = 512 \<and> length (chan_buf (h2_jobs s')) \<le> 512"
    using broadcasts
    by (auto simp: v2_queues_ok_def v2_handle_broadcast_def Let_def try_send_Some split: option.split)
  then show ?case using broadcasts taken by (auto simp: v2_queues_ok_def frame_simps split: list.splits)
next
  case (writes s a ok)
  have "length (chan_buf (c1_send (h2_client s' b))) \<le> 64" for b
  proof -
    have "length (chan_buf (c1_send (h2_client s b))) \<le> 64" using writes by (simp add: v2_queues_ok_def)
    then show ?thesis using writes(2) v2_write_frames(15) [OF writes(4), of b] by simp
  qed
  then show ?case using writes by (auto simp: v2_queues_ok_def v2_taken_def v2_write_frames)
next
  case (takes_job w s s')
  then have "length (chan_buf (h2_jobs s)) \<le> 512" by (simp add: v2_queues_ok_def)
  then have "length (chan_buf (h2_jobs s')) \<le> 512" using v2_take_frames(16) [OF takes_job(5)] by linarith
  then show ?case using takes_job by (auto simp: v2_queues_ok_def v2_taken_def v2_take_frames)
next
  case (works w s s')
  then show ?case by (auto simp: v2_queues_ok_def v2_taken_def v2_work_frames)
qed (auto simp: v2_queues_ok_def v2_taken_def frame_simps v1_close_def v2_new_client_def v2_send_buffer_size_def make_chan_def)

lemma v2_take_jobs:
  assumes "w < length (h2_workers s)" "h2_workers s ! w = None" "v2_take_job w s = Some s'"
  shows "mset (v2_outstanding s') = mset (v2_outstanding s)"
    "length (h2_workers s) = 1 \<Longrightarrow> v2_outstanding s' = v2_outstanding s"
proof -
  obtain before after where ws: "h2_workers s = before @ None # after"
    "\<And>x. (h2_workers s)[w := x] = before @ x # after" "length (h2_workers s) = Suc (length before + length after)"
    using v2_split_workers [OF assms(1)] assms(2) by metis
  obtain job ch where job: "chan_buf (h2_jobs s) = job # ch"
      "s' = s\<lparr>h2_jobs := (h2_jobs s)\<lparr>chan_buf := ch\<rparr>, h2_workers := (h2_workers s)[w := Some job]\<rparr>"
    using assms(3) by (auto simp: v2_take_job_def split: option.splits list.splits)
  have new: "h2_workers s' = before @ Some job # after" "chan_buf (h2_jobs s') = ch" using job(2) ws(2) by simp_all
  show "mset (v2_outstanding s') = mset (v2_outstanding s)"
    by (simp add: v2_outstanding_def new ws(1) v2_in_hand_append job(1))
  show "length (h2_workers s) = 1 \<Longrightarrow> v2_outstanding s' = v2_outstanding s"
    using ws(3) by (simp add: v2_outstanding_def new ws(1) v2_in_hand_append job(1))
qed

lemma v2_work_cases:
  assumes "w < length (h2_workers s)" "v2_work w s = Some s'"
  obtains (finished) job before after where
      "v2_outstanding s = before @ job # after" "v2_outstanding s' = before @ after" "j2_clients job = []"
      "h2_client s' = h2_client s" "h2_written s' = h2_written s"
      "h2_delivered_messages s' = h2_delivered_messages s" "h2_dropped_messages s' = h2_dropped_messages s"
  | (sent) job a clients before after where "j2_clients job = a # clients"
      "v2_outstanding s = before @ job # after" "v2_outstanding s' = before @ job\<lparr>j2_clients := clients\<rparr> # after"
      "h2_client s' = h2_client (v2_safe_send a (j2_payload job) s)" "h2_written s' = h2_written s"
      "h2_delivered_messages s' = h2_delivered_messages (v2_safe_send a (j2_payload job) s)"
      "h2_dropped_messages s' = h2_dropped_messages (v2_safe_send a (j2_payload job) s)"
      "length (h2_workers s) = 1 \<Longrightarrow> before = []"
proof -
  obtain bs as where ws: "h2_workers s = bs @ h2_workers s ! w # as" "\<And>x. (h2_workers s)[w := x] = bs @ x # as"
    "length (h2_workers s) = Suc (length bs + length as)"
    using v2_split_workers [OF assms(1)] by metis
  obtain job where job: "h2_workers s ! w = Some job" using assms(2) by (auto simp: v2_work_def split: option.splits)
  have out: "v2_outstanding s = v2_in_hand bs @ job # v2_in_hand as @ chan_buf (h2_jobs s)"
    unfolding v2_outstanding_def by (subst ws(1)) (simp add: v2_in_hand_append job)
  show thesis
  proof (cases "j2_clients job")
    case Nil
    then have "s' = s\<lparr>h2_workers := (h2_workers s)[w := None]\<rparr>" using assms(2) job by (simp add: v2_work_def)
    moreover from this have "v2_outstanding s' = v2_in_hand bs @ v2_in_hand as @ chan_buf (h2_jobs s)"
      by (simp add: v2_outstanding_def ws(2) v2_in_hand_append)
    ultimately show ?thesis by (intro finished [OF out _ Nil]) simp_all
  next
    case (Cons a clients)
    then have s': "s' = (v2_safe_send a (j2_payload job) s)\<lparr>h2_workers := (h2_workers s)[w := Some (job\<lparr>j2_clients := clients\<rparr>)]\<rparr>"
      using assms(2) job by (simp add: v2_work_def)
    then have "v2_outstanding s' = v2_in_hand bs @ job\<lparr>j2_clients := clients\<rparr> # v2_in_hand as @ chan_buf (h2_jobs s)"
      by (simp add: v2_outstanding_def ws(2) v2_in_hand_append frame_simps)
    then show ?thesis using s' ws(3) by (intro sent [OF Cons out]) (simp_all add: frame_simps)
  qed
qed

lemma v2_broadcast_cases:
  obtains (silent) "v2_outstanding (v2_handle_broadcast cd p order s) = v2_outstanding s"
      "h2_accepted (v2_handle_broadcast cd p order s) = h2_accepted s"
      "h2_enqueued_jobs (v2_handle_broadcast cd p order s) = h2_enqueued_jobs s"
      "h2_broadcast_packets (v2_handle_broadcast cd p order s) - h2_dropped_jobs (v2_handle_broadcast cd p order s) =
         h2_broadcast_packets s - h2_dropped_jobs s"
  | (queued) payload where "c1_enc_packet cd p = Some payload"
      "v2_outstanding (v2_handle_broadcast cd p order s) =
         v2_outstanding s @ [\<lparr>j2_room = packet_room_id p, j2_clients = order, j2_payload = payload\<rparr>]"
      "h2_accepted (v2_handle_broadcast cd p order s) =
         h2_accepted s @ [\<lparr>j2_room = packet_room_id p, j2_clients = order, j2_payload = payload\<rparr>]"
      "h2_enqueued_jobs (v2_handle_broadcast cd p order s) = h2_enqueued_jobs s + 1"
      "h2_broadcast_packets (v2_handle_broadcast cd p order s) - h2_dropped_jobs (v2_handle_broadcast cd p order s) =
         h2_broadcast_packets s - h2_dropped_jobs s + 1"
proof (cases "c1_enc_packet cd p")
  case None
  then show ?thesis by (intro silent) (simp_all add: v2_handle_broadcast_def)
next
  case (Some payload)
  show ?thesis
  proof (cases "order = []")
    case True
    then show ?thesis using Some by (intro silent) (simp_all add: v2_handle_broadcast_def)
  next
    case False
    define job where "job = \<lparr>j2_room = packet_room_id p, j2_clients = order, j2_payload = payload\<rparr>"
    show ?thesis
    proof (cases "try_send (h2_jobs s) job")
      case None
      then show ?thesis using Some False
        by (intro silent) (simp_all add: v2_handle_broadcast_def Let_def job_def v2_outstanding_def)
    next
      case (Some ch)
      then have "chan_buf ch = chan_buf (h2_jobs s) @ [job]" by (auto simp: try_send_Some)
      then show ?thesis using Some False \<open>c1_enc_packet cd p = Some payload\<close>
        by (intro queued) (simp_all add: v2_handle_broadcast_def Let_def job_def v2_outstanding_def)
    qed
  qed
qed

lemma v2_jobs_step:
  assumes "v2_step cd s s'" "v2_rooms_ok s" "v2_jobs_ok s"
  shows "v2_jobs_ok s'"
  using assms
proof (induction rule: v2_step.cases)
  case (broadcasts s p ch order)
  have "distinct order" "set order = set (v2_snapshot (packet_room_id p) s)"
    using broadcasts v2_snapshot_distinct [of s "packet_room_id p"] mset_eq_imp_distinct_iff mset_eq_setD by blast+
  then have order: "distinct order" "\<And>a. \<not> v2_started (h2_phase s a) \<Longrightarrow> a \<notin> set order"
    using broadcasts v1_joined_started by (auto simp: v2_rooms_ok_def)
  have same: "v2_outstanding (s\<lparr>h2_broadcast := ch\<rparr>) = v2_outstanding s" by (simp add: v2_outstanding_def)
  show ?case
    by (rule v2_broadcast_cases [of cd p order "s\<lparr>h2_broadcast := ch\<rparr>"])
      (use broadcasts order in \<open>auto simp: v2_jobs_ok_def frame_simps same\<close>)
next
  case (takes_job w s s')
  have "set (v2_outstanding s') = set (v2_outstanding s)"
    using v2_take_jobs(1) [OF takes_job(3-5)] mset_eq_setD by blast
  then show ?case using takes_job by (simp add: v2_jobs_ok_def v2_take_frames)
next
  case (works w s s')
  show ?case
    by (rule v2_work_cases [OF works(3,4)])
      (use works in \<open>auto simp: v2_jobs_ok_def v2_work_frames\<close>)
qed (auto simp: v2_jobs_ok_def v2_outstanding_def frame_simps v2_write_frames)

lemma v2_fresh_step: "v2_step cd s s' \<Longrightarrow> v2_jobs_ok s \<Longrightarrow> v2_fresh_ok s \<Longrightarrow> v2_fresh_ok s'"
proof (induction rule: v2_step.cases)
  case (connects s a u name room)
  then have "h2_written s a = []" by (auto simp: v2_fresh_ok_def v2_seen_def)
  then show ?case using connects by (auto simp: v2_fresh_ok_def v2_seen_def make_chan_def v2_new_client_def)
next
  case (works w s s')
  show ?case
  proof (rule v2_work_cases [OF works(3,4)])
    fix job a clients before after
    assume job: "j2_clients job = a # clients" "v2_outstanding s = before @ job # after"
      and now: "h2_client s' = h2_client (v2_safe_send a (j2_payload job) s)" "h2_written s' = h2_written s"
    then have "job \<in> set (v2_outstanding s)" by simp
    then have "\<forall>b. \<not> v2_started (h2_phase s b) \<longrightarrow> b \<notin> set (j2_clients job)"
      using works(1,5) unfolding v2_jobs_ok_def by blast
    then have "b \<noteq> a" if "\<not> v2_started (h2_phase s b)" for b using that job(1) by auto
    then show ?case using works(1,2,4,6) now
      by (auto simp: v2_fresh_ok_def v2_seen_def v2_work_frames v2_safe_send_def split: option.split)
  qed (use works in \<open>auto simp: v2_fresh_ok_def v2_seen_def v2_work_frames\<close>)
next
  case (writes s a ok)
  have "v2_seen s' b = [] \<and> \<not> h2_writing s' b" if "\<not> v2_started (h2_phase s b)" for b
  proof -
    have "v2_seen s b = []" "\<not> h2_writing s b" using writes that by (auto simp: v2_fresh_ok_def)
    then show ?thesis using writes v2_write_frames(16,17) [OF writes(4), of b] by auto
  qed
  then show ?case using writes by (auto simp: v2_fresh_ok_def v2_write_frames)
qed (auto simp: v2_fresh_ok_def v2_seen_def frame_simps v2_take_frames v1_close_def)

lemma v2_books_step: "v2_step cd s s' \<Longrightarrow> v2_books_ok s \<Longrightarrow> v2_books_ok s'"
proof (induction rule: v2_step.cases)
  case (broadcasts s p ch order)
  have same: "v2_outstanding (s\<lparr>h2_broadcast := ch\<rparr>) = v2_outstanding s" by (simp add: v2_outstanding_def)
  show ?case
    by (rule v2_broadcast_cases [of cd p order "s\<lparr>h2_broadcast := ch\<rparr>"])
      (use broadcasts in \<open>simp_all add: v2_books_ok_def frame_simps same algebra_simps\<close>)
next
  case (takes_job w s s')
  have "v2_slots (v2_outstanding s') = v2_slots (v2_outstanding s)"
    using v2_take_jobs(1) [OF takes_job(3-5)] by (metis mset_map sum_mset_sum_list v2_slots_def)
  then show ?case using takes_job by (simp add: v2_books_ok_def v2_take_frames)
next
  case (works w s s')
  show ?case
    by (rule v2_work_cases [OF works(3,4)])
      (use works in \<open>auto simp: v2_books_ok_def v2_work_frames frame_simps algebra_simps\<close>)
qed (auto simp: v2_books_ok_def v2_outstanding_def frame_simps v2_write_frames)

lemma mset_v2_for:
  "mset (v2_for a jobs) = (\<Sum>job\<in>#mset jobs. if a \<in> set (j2_clients job) then {#j2_payload job#} else {#})"
  by (induction jobs) auto

lemma v2_follows_mset:
  "v2_follows n (xs @ v2_for a js) ys \<Longrightarrow> mset js' = mset js \<Longrightarrow> (n = 1 \<Longrightarrow> js' = js) \<Longrightarrow>
   v2_follows n (xs @ v2_for a js') ys"
proof -
  assume follows: "v2_follows n (xs @ v2_for a js) ys" and same: "mset js' = mset js" "n = 1 \<Longrightarrow> js' = js"
  have "mset (v2_for a js') = mset (v2_for a js)"
    using same(1) by (simp add: mset_v2_for)
  then show ?thesis using follows same(2) by (auto simp: v2_follows_def split: if_splits)
qed

lemma v2_order_weaker:
  assumes "v2_order_ok cd s" "length (h2_workers s') = length (h2_workers s)" "v2_taken s' = v2_taken s"
    and "\<And>b. v2_follows (length (h2_workers s)) (v2_seen s' b @ v2_for b (v2_outstanding s')) (v2_seen s b @ v2_for b (v2_outstanding s))"
    and "\<And>b. c1_room (h2_client s' b) = c1_room (h2_client s b)"
  shows "v2_order_ok cd s'"
  using assms v2_follows_trans unfolding v2_order_ok_def by metis

lemma v2_sent_follows:
  assumes "j2_clients job = a # clients" "distinct (a # clients)" "n = 1 \<Longrightarrow> before = []"
    and "sent = [] \<or> (b = a \<and> sent = [j2_payload job])"
  shows "v2_follows n ((xs @ sent) @ v2_for b (before @ job\<lparr>j2_clients := clients\<rparr> # after))
     (xs @ v2_for b (before @ job # after))"
proof (cases "n = 1")
  case True
  then show ?thesis using assms by (auto simp: v2_follows_def intro!: subseq_append'[THEN iffD2])
next
  case False
  then show ?thesis using assms by (auto simp: v2_follows_def)
qed

lemma v2_order_broadcast:
  assumes inv: "v2_rooms_ok s" "v2_queues_ok s" "v2_order_ok cd s"
    and recv: "chan_recv (h2_broadcast s) = Some (p, ch)" and order: "mset order = mset (v2_snapshot (packet_room_id p) s)"
  defines "s' \<equiv> v2_handle_broadcast cd p order (s\<lparr>h2_broadcast := ch\<rparr>)"
  shows "v2_order_ok cd s'"
proof -
  have taken: "v2_taken s' = v2_taken s @ [p]" unfolding s'_def
    using inv(2) recv by (intro v2_taken_eq) (auto simp: v2_queues_ok_def frame_simps split: list.splits)
  have "set order = set (v2_snapshot (packet_room_id p) s)" using order mset_eq_setD by blast
  then have room: "a \<in> set order \<Longrightarrow> c1_room (h2_client s a) = packet_room_id p" for a
    using inv(1) by (auto simp: v2_rooms_ok_def)
  have same: "v2_outstanding (s\<lparr>h2_broadcast := ch\<rparr>) = v2_outstanding s" by (simp add: v2_outstanding_def)
  show ?thesis
    unfolding v2_order_ok_def
  proof
    fix a
    have old: "v2_follows (length (h2_workers s)) (v2_seen s a @ v2_for a (v2_outstanding s))
        (v1_room_payloads cd (c1_room (h2_client s a)) (v2_taken s))"
      using inv(3) by (auto simp: v2_order_ok_def)
    have now: "v2_seen s' a = v2_seen s a" "h2_client s' = h2_client s" "h2_workers s' = h2_workers s"
      by (simp_all add: s'_def v2_seen_def frame_simps)
    have "v2_for a (v2_outstanding s') = v2_for a (v2_outstanding s) \<or>
        (\<exists>payload. c1_enc_packet cd p = Some payload \<and> packet_room_id p = c1_room (h2_client s a) \<and>
           v2_for a (v2_outstanding s') = v2_for a (v2_outstanding s) @ [payload])"
      by (rule v2_broadcast_cases [of cd p order "s\<lparr>h2_broadcast := ch\<rparr>"])
        (use room [of a] in \<open>auto simp: s'_def same\<close>)
    then show "v2_follows (length (h2_workers s')) (v2_seen s' a @ v2_for a (v2_outstanding s'))
        (v1_room_payloads cd (c1_room (h2_client s' a)) (v2_taken s'))"
      using old v2_follows_extend [OF old] v2_follows_snoc [OF old]
      by (auto simp: now taken v1_room_payloads_append)
  qed
qed

lemma v2_order_work:
  assumes "v2_jobs_ok s" "w < length (h2_workers s)" "v2_work w s = Some s'"
  shows "v2_follows (length (h2_workers s)) (v2_seen s' b @ v2_for b (v2_outstanding s'))
    (v2_seen s b @ v2_for b (v2_outstanding s))"
proof (rule v2_work_cases [OF assms(2,3)])
  fix job before after
  assume "v2_outstanding s = before @ job # after" "v2_outstanding s' = before @ after" "j2_clients job = []"
    "h2_client s' = h2_client s" "h2_written s' = h2_written s"
  then show ?thesis by (simp add: v2_seen_def v2_follows_subseq)
next
  fix job a clients before after
  assume job: "j2_clients job = a # clients" "v2_outstanding s = before @ job # after"
      "v2_outstanding s' = before @ job\<lparr>j2_clients := clients\<rparr> # after" "length (h2_workers s) = 1 \<Longrightarrow> before = []"
    and now: "h2_client s' = h2_client (v2_safe_send a (j2_payload job) s)" "h2_written s' = h2_written s"
  have "job \<in> set (v2_outstanding s)" by (simp add: job)
  then have d: "distinct (a # clients)" using assms(1) job(1) unfolding v2_jobs_ok_def by metis
  define sent where "sent = (if b = a \<and> length (chan_buf (c1_send (h2_client s a))) < chan_cap (c1_send (h2_client s a))
    then [j2_payload job] else [])"
  have "v2_seen s' b = v2_seen s b @ sent" using now
    by (auto simp: v2_seen_def v2_safe_send_def try_send_def sent_def)
  moreover have "sent = [] \<or> (b = a \<and> sent = [j2_payload job])" by (simp add: sent_def)
  ultimately show ?thesis using v2_sent_follows [OF job(1) d job(4)] by (simp add: job(2,3))
qed

lemma v2_order_step:
  assumes "v2_step cd s s'" "v2_rooms_ok s" "v2_queues_ok s" "v2_jobs_ok s" "v2_fresh_ok s" "v2_order_ok cd s"
  shows "v2_order_ok cd s'"
  using assms
proof (induction rule: v2_step.cases)
  case (connects s a u name room)
  have "v2_seen s a = []" using connects by (simp add: v2_fresh_ok_def)
  then have "v2_seen s' a = []" using connects by (simp add: v2_seen_def make_chan_def v2_new_client_def)
  moreover have "v2_for a (v2_outstanding s) = []"
    using connects by (auto simp: v2_for_def v2_jobs_ok_def)
  ultimately show ?case using connects
    by (auto simp: v2_order_ok_def v2_seen_def v2_outstanding_def v2_taken_def v2_follows_def)
next
  case (posts s a p ch)
  have "v2_taken s' = v2_taken s"
    using posts by (intro v2_taken_eq) (auto simp: v2_queues_ok_def try_send_Some)
  then show ?case using posts by (auto simp: v2_order_ok_def v2_seen_def v2_outstanding_def)
next
  case (broadcasts s p ch order)
  show ?case using broadcasts v2_order_broadcast by blast
next
  case (takes_job w s s')
  have "v2_follows (length (h2_workers s)) (v2_seen s b @ v2_for b (v2_outstanding s'))
      (v2_seen s b @ v2_for b (v2_outstanding s))" for b
    using v2_take_jobs [OF takes_job(3-5)] by (intro v2_follows_mset [OF v2_follows_subseq]) simp_all
  then have "v2_order_ok cd s'" using takes_job
    by (intro v2_order_weaker [of cd s s']) (simp_all add: v2_taken_def v2_take_frames v2_seen_def)
  then show ?case using takes_job(2) by simp
next
  case (works w s s')
  have "v2_order_ok cd s'" using works v2_order_work [OF works(7) [unfolded works(1)] works(3,4)]
    by (intro v2_order_weaker [of cd s s']) (simp_all add: v2_taken_def v2_work_frames)
  then show ?case using works(2) by simp
next
  case (writes s a ok)
  have "v2_follows (length (h2_workers s)) (v2_seen s' b @ v2_for b (v2_outstanding s'))
      (v2_seen s b @ v2_for b (v2_outstanding s))" for b
    using writes v2_write_frames(3,4,17) [OF writes(4)] by (simp add: v2_outstanding_def v2_follows_subseq)
  then show ?case using writes
    by (intro v2_order_weaker [of cd s s']) (simp_all add: v2_taken_def v2_write_frames)
qed (auto simp: v2_order_ok_def v2_seen_def v2_outstanding_def v2_taken_def frame_simps v1_close_def)

lemma v2_workers_step: "v2_step cd s s' \<Longrightarrow> length (h2_workers s') = length (h2_workers s)"
  by (induction rule: v2_step.induct) (simp_all add: frame_simps v2_write_frames v2_work_frames v2_take_frames)

lemma v2_reachable_inv:
  assumes "v2_reachable cd n s"
  shows "v2_rooms_ok s \<and> v2_queues_ok s \<and> v2_jobs_ok s \<and> v2_fresh_ok s \<and> v2_books_ok s \<and> v2_order_ok cd s \<and>
    length (h2_workers s) = length (h2_workers (v2_new_manager n))"
  using assms
proof (induction rule: rtranclp_induct)
  case base
  have idle: "v2_in_hand (replicate k None) = []" for k by (induction k) simp_all
  show ?case
    by (simp add: v2_new_manager_def Let_def v2_rooms_ok_def v2_snapshot_def v2_queues_ok_def v2_taken_def
        make_chan_def v2_broadcast_buffer_size_def v2_job_buffer_size_def v2_send_buffer_size_def v2_new_client_def
        v2_jobs_ok_def v2_fresh_ok_def v2_seen_def v2_order_ok_def v2_books_ok_def v2_outstanding_def
        idle v2_follows_def)
next
  case (step s s')
  then show ?case
    using v2_rooms_step v2_queues_step v2_jobs_step v2_fresh_step v2_books_step v2_order_step v2_workers_step
    by metis
qed

section \<open>Properties\<close>

text \<open>The counters of the second stage account for every broadcast and every message: a packet for a
  room with clients is an enqueued or a dropped job, and each client of each enqueued job is a delivered
  or a dropped message or still under way; the queues are within their capacities.\<close>

theorem v2_counters_account:
  assumes "v2_reachable cd n s"
  shows "m2_broadcast_packets (v2_metrics_of s) = m2_enqueued_jobs (v2_metrics_of s) + m2_dropped_jobs (v2_metrics_of s) \<and>
    m2_enqueued_jobs (v2_metrics_of s) = of_nat (length (h2_accepted s)) \<and>
    m2_delivered_messages (v2_metrics_of s) + m2_dropped_messages (v2_metrics_of s) + of_nat (v2_slots (v2_outstanding s)) =
      of_nat (v2_slots (h2_accepted s)) \<and>
    length (chan_buf (h2_broadcast s)) \<le> 256 \<and> length (chan_buf (h2_jobs s)) \<le> 512 \<and>
    length (chan_buf (c1_send (h2_client s a))) \<le> 64"
  using v2_reachable_inv [OF assms] by (simp add: v2_metrics_of_def v2_books_ok_def v2_queues_ok_def)

definition v2_keeps_order :: "v1_codec \<Rightarrow> int \<Rightarrow> bool" where
  \<comment> \<open>every connection gets a subsequence of what its room posted\<close>
  "v2_keeps_order cd n \<longleftrightarrow>
     (\<forall>s a. v2_reachable cd n s \<longrightarrow> subseq (h2_written s a) (v1_room_payloads cd (c1_room (h2_client s a)) (h2_posted s)))"

lemma v2_posted_follows:
  assumes "v2_reachable cd n s"
  shows "v2_follows (length (h2_workers s)) (h2_written s a) (v1_room_payloads cd (c1_room (h2_client s a)) (h2_posted s))"
proof -
  have inv: "v2_queues_ok s" "v2_order_ok cd s" using v2_reachable_inv [OF assms] by simp_all
  have "subseq (h2_written s a) (v2_seen s a @ v2_for a (v2_outstanding s))"
    unfolding v2_seen_def by (simp add: prefix_imp_subseq)
  then have "v2_follows (length (h2_workers s)) (h2_written s a) (v1_room_payloads cd (c1_room (h2_client s a)) (v2_taken s))"
    using inv(2) v2_follows_trans v2_follows_subseq unfolding v2_order_ok_def by blast
  then show ?thesis
    using inv(1) unfolding v2_queues_ok_def by (metis v1_room_payloads_append v2_follows_extend)
qed

text \<open>However many workers run, a connection gets no message that its room did not post and none more
  often than it was posted.\<close>

theorem v2_delivers_at_most_once:
  assumes "v2_reachable cd n s"
  shows "mset (h2_written s a) \<subseteq># mset (v1_room_payloads cd (c1_room (h2_client s a)) (h2_posted s))"
  using v2_posted_follows [OF assms, of a] by (auto simp: v2_follows_def subseq_mset split: if_splits)

lemma v2_single_worker_order: "v2_keeps_order cd 1"
proof -
  have "length (h2_workers s) = 1" if "v2_reachable cd 1 s" for s
    using v2_reachable_inv [OF that] by (simp add: v2_new_manager_def Let_def)
  then show ?thesis using v2_posted_follows unfolding v2_keeps_order_def v2_follows_def by metis
qed

text \<open>A run with several workers in which one client posts two messages and gets them the other way round.\<close>

definition v2_example ::
  "nat \<Rightarrow> string list \<Rightarrow> string list \<Rightarrow> v1_phase \<Rightarrow> packet list \<Rightarrow> v2_job list \<Rightarrow> v2_job option list \<Rightarrow> u64 \<Rightarrow> u64 \<Rightarrow>
   packet list \<Rightarrow> v2_job list \<Rightarrow> v2_hub" where
  "v2_example n written buffered ph queue jobs ws enqueued delivered posted accepted =
     \<lparr>h2_client = (\<lambda>_. v2_new_client [] [] [])
        (0 := \<lparr>c1_user = ''u'', c1_name = ''n'', c1_room = ''r'', c1_send = \<lparr>chan_buf = buffered, chan_cap = 64\<rparr>,
           c1_done = False\<rparr>),
      h2_phase = (\<lambda>_. V1_absent)(0 := ph), h2_writing = (\<lambda>_. False)(0 := True), h2_rooms = [(''r'', [0])],
      h2_broadcast = \<lparr>chan_buf = queue, chan_cap = 256\<rparr>, h2_jobs = \<lparr>chan_buf = jobs, chan_cap = 512\<rparr>,
      h2_workers = ws @ replicate n None, h2_broadcast_packets = enqueued, h2_enqueued_jobs = enqueued,
      h2_dropped_jobs = 0, h2_delivered_messages = delivered, h2_dropped_messages = 0, h2_posted = posted,
      h2_accepted = accepted, h2_written = (\<lambda>_. [])(0 := written)\<rparr>"

abbreviation v2_note :: "nat list \<Rightarrow> string \<Rightarrow> v2_job" where
  "v2_note clients text \<equiv> \<lparr>j2_room = ''r'', j2_clients = clients, j2_payload = text\<rparr>"

lemma v2_example_joins:
  "v2_workers = (if n \<le> 0 then 8 else n) \<Longrightarrow> v2_workers = 2 + int k \<Longrightarrow>
   v2_reachable v1_plain n (v2_example k [] [] V1_reading [] [] [None, None] 0 0 [] [])"
proof -
  assume k: "v2_workers = (if n \<le> 0 then 8 else n)" "v2_workers = 2 + int k"
  define c where "c = v2_new_client ''u'' ''n'' ''r''"
  define s where "s = v2_to 0 V1_joining ((v2_new_manager n)\<lparr>h2_client := (h2_client (v2_new_manager n))(0 := c)\<rparr>)"
  have "nat v2_workers = Suc (Suc k)" using k(2) by simp
  then have "replicate (nat (if n \<le> 0 then 8 else n)) None = [None, None] @ replicate k (None :: v2_job option)"
    unfolding k(1) by simp
  then have "v2_to 0 V1_reading ((v2_handle_register 0 s)\<lparr>h2_writing := (h2_writing s)(0 := True)\<rparr>) =
      v2_example k [] [] V1_reading [] [] [None, None] 0 0 [] []"
    by (cases "n \<le> 0")
      (simp_all add: v2_example_def s_def v2_handle_register_def join_room_def v2_new_manager_def make_chan_def c_def
        v2_new_client_def v2_broadcast_buffer_size_def v2_job_buffer_size_def v2_send_buffer_size_def
        v2_default_worker_count_def Let_def fun_eq_iff)
  moreover have "v2_step v1_plain (v2_new_manager n) s"
    unfolding s_def c_def by (intro v2_step.connects) (simp add: v2_new_manager_def Let_def)
  moreover have "v2_step v1_plain s
      (v2_to 0 V1_reading ((v2_handle_register 0 s)\<lparr>h2_writing := (h2_writing s)(0 := True)\<rparr>))"
    by (rule v2_step.registers) (simp add: s_def)
  ultimately show ?thesis by (metis converse_rtranclp_into_rtranclp rtranclp.rtrancl_refl)
qed

lemma v2_example_posts:
  assumes "trim_space t = t" "t \<noteq> []" "length q < 256"
  shows "(v2_step v1_plain)\<^sup>*\<^sup>* (v2_example k w b V1_reading q js ws e d ps acc)
    (v2_example k w b V1_reading (q @ [v1_note t]) js ws e d (ps @ [v1_note t]) acc)"
proof -
  have "v2_step v1_plain (v2_example k w b V1_reading q js ws e d ps acc)
      (v2_to 0 (V1_posting (v1_note t)) (v2_example k w b V1_reading q js ws e d ps acc))"
    by (rule v2_step.reads [where raw = t])
      (use assms in \<open>simp_all add: v2_example_def v1_read_def v1_handle_danmaku_def v1_plain_def Let_def type_danmaku_def\<close>)
  moreover have "v2_to 0 (V1_posting (v1_note t)) (v2_example k w b V1_reading q js ws e d ps acc) =
      v2_example k w b (V1_posting (v1_note t)) q js ws e d ps acc"
    by (simp add: v2_example_def)
  moreover have "v2_step v1_plain (v2_example k w b (V1_posting (v1_note t)) q js ws e d ps acc)
      (v2_example k w b V1_reading (q @ [v1_note t]) js ws e d (ps @ [v1_note t]) acc)"
    using v2_step.posts [of "v2_example k w b (V1_posting (v1_note t)) q js ws e d ps acc" 0 "v1_note t" _ v1_plain] assms(3)
    by (simp add: v2_example_def try_send_def)
  ultimately show ?thesis by (metis converse_rtranclp_into_rtranclp rtranclp.rtrancl_refl)
qed

lemma v2_example_broadcasts:
  assumes "length js < 512"
  shows "v2_step v1_plain (v2_example k w b ph (v1_note t # q) js ws e d ps acc)
    (v2_example k w b ph q (js @ [v2_note [0] t]) ws (e + 1) d ps (acc @ [v2_note [0] t]))"
  using assms v2_step.broadcasts [of "v2_example k w b ph (v1_note t # q) js ws e d ps acc" "v1_note t" _ "[0]" v1_plain]
  by (simp add: v2_example_def v2_snapshot_def gm_get_def v2_handle_broadcast_def v1_plain_def try_send_def Let_def)

lemma v2_example_takes:
  assumes "i < length ws" "ws ! i = None"
  shows "v2_step v1_plain (v2_example k w b ph q (j # js) ws e d ps acc) (v2_example k w b ph q js (ws[i := Some j]) e d ps acc)"
  by (rule v2_step.takes_job [where w = i])
    (use assms in \<open>simp_all add: v2_example_def v2_take_job_def nth_append list_update_append\<close>)

lemma v2_example_sends:
  assumes "i < length ws" "ws ! i = Some (v2_note [0] t)" "length b < 64"
  shows "v2_step v1_plain (v2_example k w b ph q js ws e d ps acc)
    (v2_example k w (b @ [t]) ph q js (ws[i := Some (v2_note [] t)]) e (d + 1) ps acc)"
  by (rule v2_step.works [where w = i])
    (use assms in \<open>simp_all add: v2_example_def v2_work_def v2_safe_send_def try_send_def nth_append list_update_append\<close>)

lemma v2_example_writes:
  "v2_step v1_plain (v2_example k w (t # b) ph q js ws e d ps acc) (v2_example k (w @ [t]) b ph q js ws e d ps acc)"
  by (rule v2_step.writes [where a = 0 and ok = True]) (simp_all add: v2_example_def v2_write_def Let_def)

lemma v2_example_run:
  assumes "n \<noteq> 1"
  obtains s where "v2_reachable v1_plain n s" "h2_written s 0 = [''yo'', ''hi'']" "c1_room (h2_client s 0) = ''r''"
    "h2_posted s = [v1_note ''hi'', v1_note ''yo'']" "h2_accepted s \<noteq> []" "h2_delivered_messages s = 2"
proof -
  define v2_workers where "v2_workers = (if n \<le> 0 then 8 else n)"
  define k where "k = nat (v2_workers - 2)"
  have k: "v2_workers = 2 + int k" using assms by (auto simp: k_def v2_workers_def)
  have trimmed: "trim_space ''hi'' = ''hi''" "trim_space ''yo'' = ''yo''"
    by (simp_all add: trim_space_ascii ascii_def byte_def is_space_def)
  let ?ps = "[v1_note ''hi'', v1_note ''yo'']"
  let ?acc = "[v2_note [0] ''hi'', v2_note [0] ''yo'']"
  have posted: "v2_reachable v1_plain n (v2_example k [] [] V1_reading ?ps [] [None, None] 0 0 ?ps [])"
    using rtranclp_trans [OF v2_example_joins [OF v2_workers_def k]
        rtranclp_trans [OF v2_example_posts [of "''hi''" "[]" k "[]" "[]" "[]" "[None, None]" 0 0 "[]" "[]", unfolded append_Nil]
          v2_example_posts [of "''yo''" "[v1_note ''hi'']" k "[]" "[]" "[]" "[None, None]" 0 0 "[v1_note ''hi'']" "[]",
            unfolded append_Cons append_Nil]]]
      trimmed by simp
  have steps:
    "v2_step v1_plain (v2_example k [] [] V1_reading ?ps [] [None, None] 0 0 ?ps [])
       (v2_example k [] [] V1_reading [v1_note ''yo''] [v2_note [0] ''hi''] [None, None] 1 0 ?ps [v2_note [0] ''hi''])"
    "v2_step v1_plain (v2_example k [] [] V1_reading [v1_note ''yo''] [v2_note [0] ''hi''] [None, None] 1 0 ?ps [v2_note [0] ''hi''])
       (v2_example k [] [] V1_reading [] ?acc [None, None] 2 0 ?ps ?acc)"
    "v2_step v1_plain (v2_example k [] [] V1_reading [] ?acc [None, None] 2 0 ?ps ?acc)
       (v2_example k [] [] V1_reading [] [v2_note [0] ''yo''] [Some (v2_note [0] ''hi''), None] 2 0 ?ps ?acc)"
    "v2_step v1_plain (v2_example k [] [] V1_reading [] [v2_note [0] ''yo''] [Some (v2_note [0] ''hi''), None] 2 0 ?ps ?acc)
       (v2_example k [] [] V1_reading [] [] [Some (v2_note [0] ''hi''), Some (v2_note [0] ''yo'')] 2 0 ?ps ?acc)"
    "v2_step v1_plain (v2_example k [] [] V1_reading [] [] [Some (v2_note [0] ''hi''), Some (v2_note [0] ''yo'')] 2 0 ?ps ?acc)
       (v2_example k [] [''yo''] V1_reading [] [] [Some (v2_note [0] ''hi''), Some (v2_note [] ''yo'')] 2 1 ?ps ?acc)"
    "v2_step v1_plain (v2_example k [] [''yo''] V1_reading [] [] [Some (v2_note [0] ''hi''), Some (v2_note [] ''yo'')] 2 1 ?ps ?acc)
       (v2_example k [] [''yo'', ''hi''] V1_reading [] [] [Some (v2_note [] ''hi''), Some (v2_note [] ''yo'')] 2 2 ?ps ?acc)"
    "v2_step v1_plain (v2_example k [] [''yo'', ''hi''] V1_reading [] [] [Some (v2_note [] ''hi''), Some (v2_note [] ''yo'')] 2 2 ?ps ?acc)
       (v2_example k [''yo''] [''hi''] V1_reading [] [] [Some (v2_note [] ''hi''), Some (v2_note [] ''yo'')] 2 2 ?ps ?acc)"
    "v2_step v1_plain (v2_example k [''yo''] [''hi''] V1_reading [] [] [Some (v2_note [] ''hi''), Some (v2_note [] ''yo'')] 2 2 ?ps ?acc)
       (v2_example k [''yo'', ''hi''] [] V1_reading [] [] [Some (v2_note [] ''hi''), Some (v2_note [] ''yo'')] 2 2 ?ps ?acc)"
    using v2_example_broadcasts [of "[]" k "[]" "[]" V1_reading "''hi''" "[v1_note ''yo'']" "[None, None]" 0 0 ?ps "[]"]
      v2_example_broadcasts [of "[v2_note [0] ''hi'']" k "[]" "[]" V1_reading "''yo''" "[]" "[None, None]" 1 0 ?ps "[v2_note [0] ''hi'']"]
      v2_example_takes [of 0 "[None, None]" k "[]" "[]" V1_reading "[]" "v2_note [0] ''hi''" "[v2_note [0] ''yo'']" 2 0 ?ps ?acc]
      v2_example_takes [of 1 "[Some (v2_note [0] ''hi''), None]" k "[]" "[]" V1_reading "[]" "v2_note [0] ''yo''" "[]" 2 0 ?ps ?acc]
      v2_example_sends [of 1 "[Some (v2_note [0] ''hi''), Some (v2_note [0] ''yo'')]" "''yo''" "[]" k "[]" V1_reading "[]" "[]" 2 0 ?ps ?acc]
      v2_example_sends [of 0 "[Some (v2_note [0] ''hi''), Some (v2_note [] ''yo'')]" "''hi''" "[''yo'']" k "[]" V1_reading "[]" "[]" 2 1 ?ps ?acc]
      v2_example_writes [of k "[]" "''yo''" "[''hi'']"] v2_example_writes [of k "[''yo'']" "''hi''" "[]"]
    by simp_all
  note step = converse_rtranclp_into_rtranclp [of "v2_step v1_plain"]
  have "(v2_step v1_plain)\<^sup>*\<^sup>* (v2_example k [] [] V1_reading ?ps [] [None, None] 0 0 ?ps [])
      (v2_example k [''yo'', ''hi''] [] V1_reading [] [] [Some (v2_note [] ''hi''), Some (v2_note [] ''yo'')] 2 2 ?ps ?acc)"
    by (intro step [OF steps(1)] step [OF steps(2)] step [OF steps(3)] step [OF steps(4)] step [OF steps(5)] step [OF steps(6)] step [OF steps(7)] step [OF steps(8)]
        rtranclp.rtrancl_refl)
  then have "v2_reachable v1_plain n
      (v2_example k [''yo'', ''hi''] [] V1_reading [] [] [Some (v2_note [] ''hi''), Some (v2_note [] ''yo'')] 2 2 ?ps ?acc)"
    by (rule rtranclp_trans [OF posted])
  then show thesis by (rule that) (simp_all add: v2_example_def)
qed


theorem v2_counters_account_witness:
  "\<exists>s. v2_reachable v1_plain 0 s \<and> h2_delivered_messages s = 2 \<and> h2_accepted s \<noteq> [] \<and>
     m2_broadcast_packets (v2_metrics_of s) = m2_enqueued_jobs (v2_metrics_of s) + m2_dropped_jobs (v2_metrics_of s)"
proof (rule v2_example_run [of 0])
  fix s
  assume s: "v2_reachable v1_plain 0 s" "h2_accepted s \<noteq> []" "h2_delivered_messages s = 2"
  show ?thesis using v2_counters_account [OF s(1)] s by blast
qed simp

theorem v2_delivers_at_most_once_witness:
  "\<exists>s. v2_reachable v1_plain 0 s \<and> h2_written s 0 = [''yo'', ''hi''] \<and>
     mset (h2_written s 0) \<subseteq># mset (v1_room_payloads v1_plain ''r'' (h2_posted s))"
proof (rule v2_example_run [of 0])
  fix s
  assume s: "v2_reachable v1_plain 0 s" "h2_written s 0 = [''yo'', ''hi'']" "c1_room (h2_client s 0) = ''r''"
  show ?thesis using v2_delivers_at_most_once [OF s(1), of 0] s by metis
qed simp

end
