(* ===== verification/V4_Writer.thy ===== *)
theory V4_Writer
  imports Http "HOL-Library.Sublist"
begin

text \<open>
  Persistence in the fourth stage of the course: the writer that collects danmaku in batches for MySQL
  (\<open>v4/internal/store/db_writer.go\<close>), the repository it writes to (\<open>v4/internal/repo\<close>) and the query of
  the history (\<open>v4/cmd/server/main.go\<close>). The read pumps offer messages while the loop runs; its states
  are \<open>writer_step\<close>s. GORM, MySQL and the clock are the functions of \<open>writer_io\<close>, the environment may
  change at any time. Every accepted message is settled once and in order, and the drain after the
  cancellation ends; but a batch that the cancellation meets is dropped, and so is what comes later.
\<close>

section \<open>The writer\<close>

definition w_default_queue_size :: int where "w_default_queue_size = 4096"
definition w_default_batch_size :: int where "w_default_batch_size = 100"
definition w_default_max_retries :: int where "w_default_max_retries = 3"

datatype writer_ctx = Run_ctx | Background

record ('m, 'e, 'x) writer_io =
  io_insert :: "writer_ctx \<Rightarrow> 'm list \<Rightarrow> 'e \<Rightarrow> 'e \<times> 'x option"
    \<comment> \<open>GORM's \<open>CreateInBatches\<close>\<close>
  io_backoff :: "duration \<Rightarrow> 'e \<Rightarrow> 'e \<times> bool"
    \<comment> \<open>waits for the timer or the end of the server's context; true when that comes first\<close>

datatype writer_mode = Collecting | Draining | Stopped

record writer_config =
  wc_queue_size :: int
  wc_batch_size :: int
  wc_flush_interval :: duration
  wc_max_retries :: int
  wc_retry_backoff :: duration

record ('m, 'e) writer =
  w_input :: "'m chan"
  w_batch_size :: int
  w_flush_interval :: duration
  w_max_retries :: int
  w_retry_backoff :: duration
  w_enqueued :: u64
  w_dropped :: u64
  w_saved :: u64
  w_flushes :: u64
  w_failed_flushes :: u64
  w_buffer :: "'m list"
  w_mode :: writer_mode
  w_env :: 'e
  w_accepted :: "'m list"
    \<comment> \<open>trace: what \<open>Enqueue\<close> took\<close>
  w_settled :: "('m list \<times> bool) list"
    \<comment> \<open>trace: the flushed batches, and whether they were saved\<close>

record writer_metrics =
  wm_queue_len :: nat
  wm_queue_cap :: nat
  wm_enqueued :: u64
  wm_dropped :: u64
  wm_saved :: u64
  wm_flushes :: u64
  wm_failed_flushes :: u64

definition positive_or :: "int \<Rightarrow> int \<Rightarrow> int" where
  "positive_or d x = (if x \<le> 0 then d else x)"

definition new_db_writer :: "writer_config \<Rightarrow> 'e \<Rightarrow> ('m, 'e) writer" where
  "new_db_writer c e =
     \<lparr>w_input = make_chan (nat (positive_or w_default_queue_size (wc_queue_size c))),
      w_batch_size = positive_or w_default_batch_size (wc_batch_size c),
      w_flush_interval = positive_or second (wc_flush_interval c),
      w_max_retries = positive_or w_default_max_retries (wc_max_retries c),
      w_retry_backoff = positive_or (200 * millisecond) (wc_retry_backoff c),
      w_enqueued = 0, w_dropped = 0, w_saved = 0, w_flushes = 0, w_failed_flushes = 0,
      w_buffer = [], w_mode = Collecting, w_env = e, w_accepted = [], w_settled = []\<rparr>"

definition writer_enqueue :: "'m \<Rightarrow> ('m, 'e) writer \<Rightarrow> ('m, 'e) writer \<times> bool" where
  "writer_enqueue m w =
     (case try_send (w_input w) m of
        Some ch \<Rightarrow> (w\<lparr>w_input := ch, w_enqueued := w_enqueued w + 1, w_accepted := w_accepted w @ [m]\<rparr>, True)
      | None \<Rightarrow> (w\<lparr>w_dropped := w_dropped w + 1\<rparr>, False))"

definition writer_metrics_of :: "('m, 'e) writer \<Rightarrow> writer_metrics" where
  "writer_metrics_of w =
     \<lparr>wm_queue_len = length (chan_buf (w_input w)), wm_queue_cap = chan_cap (w_input w),
      wm_enqueued = w_enqueued w, wm_dropped = w_dropped w, wm_saved = w_saved w, wm_flushes = w_flushes w,
      wm_failed_flushes = w_failed_flushes w\<rparr>"

definition create_in_batches ::
  "(writer_ctx \<Rightarrow> 'm list \<Rightarrow> 'e \<Rightarrow> 'e \<times> 'x option) \<Rightarrow> writer_ctx \<Rightarrow> 'm list \<Rightarrow> 'e \<Rightarrow> 'e \<times> 'x option" where
  "create_in_batches ins ctx messages e = (if messages = [] then (e, None) else ins ctx messages e)"

definition batch_saved :: "'m list \<Rightarrow> ('m, 'e) writer \<Rightarrow> ('m, 'e) writer" where
  "batch_saved batch w =
     w\<lparr>w_saved := w_saved w + of_nat (length batch), w_flushes := w_flushes w + 1,
       w_settled := w_settled w @ [(batch, True)]\<rparr>"

definition batch_failed :: "'m list \<Rightarrow> ('m, 'e) writer \<Rightarrow> ('m, 'e) writer" where
  "batch_failed batch w =
     w\<lparr>w_failed_flushes := w_failed_flushes w + 1, w_settled := w_settled w @ [(batch, False)]\<rparr>"

function writer_attempts ::
  "('m, 'e, 'x) writer_io \<Rightarrow> writer_ctx \<Rightarrow> 'm list \<Rightarrow> int \<Rightarrow> ('m, 'e) writer \<Rightarrow> ('m, 'e) writer" where
  "writer_attempts io ctx batch attempt w =
     (if attempt > w_max_retries w then batch_failed batch w
      else
        (case create_in_batches (io_insert io) ctx batch (w_env w) of
           (e, None) \<Rightarrow> batch_saved batch (w\<lparr>w_env := e\<rparr>)
         | (e, Some x) \<Rightarrow>
             (case io_backoff io (w_retry_backoff w) e of
                (e, ended) \<Rightarrow>
                  if ended \<and> ctx = Run_ctx then batch_failed batch (w\<lparr>w_env := e\<rparr>)
                  else writer_attempts io ctx batch (attempt + 1) (w\<lparr>w_env := e\<rparr>))))"
  by pat_completeness auto
termination
  by (relation "measure (\<lambda>(io, ctx, batch, attempt, w). nat (w_max_retries w + 1 - attempt))") auto

declare writer_attempts.simps [simp del]

definition writer_flush ::
  "('m, 'e, 'x) writer_io \<Rightarrow> writer_ctx \<Rightarrow> 'm list \<Rightarrow> ('m, 'e) writer \<Rightarrow> ('m, 'e) writer" where
  "writer_flush io ctx batch w = (if batch = [] then w else writer_attempts io ctx batch 1 w)"

definition flush_buffer :: "('m, 'e, 'x) writer_io \<Rightarrow> writer_ctx \<Rightarrow> ('m, 'e) writer \<Rightarrow> ('m, 'e) writer" where
  \<comment> \<open>\<open>flush\<close>, \<open>clearDanmakuBatch\<close> and \<open>buffer[:0]\<close>\<close>
  "flush_buffer io ctx w = (writer_flush io ctx (w_buffer w) w)\<lparr>w_buffer := []\<rparr>"

definition writer_receive ::
  "('m, 'e, 'x) writer_io \<Rightarrow> writer_ctx \<Rightarrow> 'm \<Rightarrow> ('m, 'e) writer \<Rightarrow> ('m, 'e) writer" where
  \<comment> \<open>the case of a message in the loop and, with the background context, in the drain\<close>
  "writer_receive io ctx m w =
     (let w = w\<lparr>w_buffer := w_buffer w @ [m]\<rparr>
      in if int (length (w_buffer w)) \<ge> w_batch_size w then flush_buffer io ctx w else w)"

definition writer_tick :: "('m, 'e, 'x) writer_io \<Rightarrow> ('m, 'e) writer \<Rightarrow> ('m, 'e) writer" where
  "writer_tick io w = (if w_buffer w = [] then w else flush_buffer io Run_ctx w)"

definition writer_stop :: "('m, 'e, 'x) writer_io \<Rightarrow> ('m, 'e) writer \<Rightarrow> ('m, 'e) writer" where
  \<comment> \<open>the default case of the drain\<close>
  "writer_stop io w =
     (let w = (if w_buffer w = [] then w else flush_buffer io Background w) in w\<lparr>w_mode := Stopped\<rparr>)"

inductive writer_step :: "('m, 'e, 'x) writer_io \<Rightarrow> ('m, 'e) writer \<Rightarrow> ('m, 'e) writer \<Rightarrow> bool" for io where
  offers: "writer_step io w (fst (writer_enqueue m w))"
| receives: "w_mode w = Collecting \<Longrightarrow> chan_recv (w_input w) = Some (m, ch) \<Longrightarrow>
    writer_step io w (writer_receive io Run_ctx m (w\<lparr>w_input := ch\<rparr>))"
| ticks: "w_mode w = Collecting \<Longrightarrow> writer_step io w (writer_tick io w)"
| ends: "w_mode w = Collecting \<Longrightarrow> writer_step io w (w\<lparr>w_mode := Draining\<rparr>)"
| drains: "w_mode w = Draining \<Longrightarrow> chan_recv (w_input w) = Some (m, ch) \<Longrightarrow>
    writer_step io w (writer_receive io Background m (w\<lparr>w_input := ch\<rparr>))"
| stops: "w_mode w = Draining \<Longrightarrow> chan_recv (w_input w) = None \<Longrightarrow> writer_step io w (writer_stop io w)"
| world: "writer_step io w (w\<lparr>w_env := e\<rparr>)"

abbreviation writer_reachable :: "('m, 'e, 'x) writer_io \<Rightarrow> writer_config \<Rightarrow> 'e \<Rightarrow> ('m, 'e) writer \<Rightarrow> bool" where
  "writer_reachable io c e w \<equiv> (writer_step io)\<^sup>*\<^sup>* (new_db_writer c e) w"

section \<open>What a flush leaves\<close>

definition flush_frame :: "('m, 'e) writer \<Rightarrow> ('m, 'e) writer \<Rightarrow> bool" where
  \<comment> \<open>what a flush does not touch\<close>
  "flush_frame w w' \<longleftrightarrow> w_input w' = w_input w \<and> w_buffer w' = w_buffer w \<and> w_mode w' = w_mode w \<and>
     w_accepted w' = w_accepted w \<and> w_enqueued w' = w_enqueued w \<and> w_batch_size w' = w_batch_size w \<and>
     w_dropped w' = w_dropped w \<and> w_max_retries w' = w_max_retries w"

definition counted :: "('m, 'e) writer \<Rightarrow> bool" where
  "counted w \<longleftrightarrow>
     w_saved w = of_nat (sum_list (map (\<lambda>(batch, saved). if saved then length batch else 0) (w_settled w))) \<and>
     w_flushes w = of_nat (length (filter snd (w_settled w))) \<and>
     w_failed_flushes w = of_nat (length (filter (\<lambda>b. \<not> snd b) (w_settled w)))"

lemma writer_attempts_settles:
  "\<exists>ok. w_settled (writer_attempts io ctx batch attempt w) = w_settled w @ [(batch, ok)] \<and>
     flush_frame w (writer_attempts io ctx batch attempt w) \<and>
     (counted w \<longrightarrow> counted (writer_attempts io ctx batch attempt w))"
proof (induction io ctx batch attempt w rule: writer_attempts.induct)
  case (1 io ctx batch attempt w)
  show ?case
  proof (cases "attempt > w_max_retries w")
    case True
    then show ?thesis
      by (intro exI [of _ False])
        (simp add: writer_attempts.simps [of io ctx batch attempt w] batch_failed_def flush_frame_def counted_def)
  next
    case False
    obtain e x where created: "create_in_batches (io_insert io) ctx batch (w_env w) = (e, x)" by fastforce
    show ?thesis
    proof (cases x)
      case None
      then show ?thesis using False created
        by (intro exI [of _ True])
          (simp add: writer_attempts.simps [of io ctx batch attempt w] batch_saved_def flush_frame_def counted_def)
    next
      case (Some y)
      obtain e' ended where waited: "io_backoff io (w_retry_backoff w) e = (e', ended)" by fastforce
      show ?thesis
      proof (cases "ended \<and> ctx = Run_ctx")
        case True
        then have "writer_attempts io ctx batch attempt w = batch_failed batch (w\<lparr>w_env := e'\<rparr>)"
          using False created Some waited by (subst writer_attempts.simps) simp
        then show ?thesis
          by (intro exI [of _ False]) (simp add: batch_failed_def flush_frame_def counted_def)
      next
        case again: False
        have "flush_frame w u \<longleftrightarrow> flush_frame (w\<lparr>w_env := e'\<rparr>) u" "counted (w\<lparr>w_env := e'\<rparr>) \<longleftrightarrow> counted w"
          "w_settled (w\<lparr>w_env := e'\<rparr>) = w_settled w" for u
          by (simp_all add: flush_frame_def counted_def)
        then show ?thesis using 1 [OF False created [symmetric] Some waited [symmetric] again] False created Some waited again
          by (simp add: writer_attempts.simps [of io ctx batch attempt w] if_not_P [OF again])
      qed
    qed
  qed
qed

lemma flush_buffer_settles:
  assumes "w_buffer w \<noteq> []"
  obtains ok where "w_settled (flush_buffer io ctx w) = w_settled w @ [(w_buffer w, ok)]"
    "w_buffer (flush_buffer io ctx w) = []" "w_input (flush_buffer io ctx w) = w_input w"
    "w_mode (flush_buffer io ctx w) = w_mode w" "w_accepted (flush_buffer io ctx w) = w_accepted w"
    "w_enqueued (flush_buffer io ctx w) = w_enqueued w" "w_batch_size (flush_buffer io ctx w) = w_batch_size w"
    "w_max_retries (flush_buffer io ctx w) = w_max_retries w"
    "counted w \<Longrightarrow> counted (flush_buffer io ctx w)"
proof -
  obtain ok where ok: "w_settled (writer_attempts io ctx (w_buffer w) 1 w) = w_settled w @ [(w_buffer w, ok)]"
    "flush_frame w (writer_attempts io ctx (w_buffer w) 1 w)"
    "counted w \<longrightarrow> counted (writer_attempts io ctx (w_buffer w) 1 w)"
    using writer_attempts_settles by blast
  show thesis
    by (rule that [of ok])
      (use ok assms in \<open>simp_all add: flush_buffer_def writer_flush_def flush_frame_def counted_def\<close>)
qed

section \<open>Books\<close>

definition settled_messages :: "('m, 'e) writer \<Rightarrow> 'm list" where
  "settled_messages w = concat (map fst (w_settled w))"

definition writer_inv :: "int \<Rightarrow> nat \<Rightarrow> int \<Rightarrow> ('m, 'e) writer \<Rightarrow> bool" where
  "writer_inv bs cap retries w \<longleftrightarrow> w_batch_size w = bs \<and> chan_cap (w_input w) = cap \<and> w_max_retries w = retries \<and>
     w_accepted w = settled_messages w @ w_buffer w @ chan_buf (w_input w) \<and>
     w_enqueued w = of_nat (length (w_accepted w)) \<and> counted w \<and>
     length (chan_buf (w_input w)) \<le> cap \<and> int (length (w_buffer w)) < bs \<and>
     list_all (\<lambda>(batch, ok). batch \<noteq> [] \<and> int (length batch) \<le> bs) (w_settled w) \<and>
     (w_mode w = Stopped \<longrightarrow> w_buffer w = [])"

lemma flush_buffer_inv:
  assumes "w_batch_size w = bs" "chan_cap (w_input w) = cap" "w_max_retries w = retries" "0 < bs"
    and "w_accepted w = settled_messages w @ w_buffer w @ chan_buf (w_input w)"
    and "w_enqueued w = of_nat (length (w_accepted w))" "counted w" "length (chan_buf (w_input w)) \<le> cap"
    and "w_buffer w \<noteq> []" "int (length (w_buffer w)) \<le> bs"
    and "list_all (\<lambda>(batch, ok). batch \<noteq> [] \<and> int (length batch) \<le> bs) (w_settled w)"
  shows "writer_inv bs cap retries (flush_buffer io ctx w) \<and> w_mode (flush_buffer io ctx w) = w_mode w \<and>
    w_buffer (flush_buffer io ctx w) = [] \<and> w_input (flush_buffer io ctx w) = w_input w \<and>
    w_accepted (flush_buffer io ctx w) = w_accepted w"
  by (rule flush_buffer_settles [OF assms(9), of io ctx])
    (use assms in \<open>simp add: writer_inv_def settled_messages_def\<close>)

lemma writer_receive_inv:
  assumes "writer_inv bs cap retries w" "chan_buf (w_input w) = m # ms" "w_mode w \<noteq> Stopped" "0 < bs"
  shows "writer_inv bs cap retries (writer_receive io ctx m (w\<lparr>w_input := (w_input w)\<lparr>chan_buf := ms\<rparr>\<rparr>)) \<and>
    w_mode (writer_receive io ctx m (w\<lparr>w_input := (w_input w)\<lparr>chan_buf := ms\<rparr>\<rparr>)) = w_mode w \<and>
    chan_buf (w_input (writer_receive io ctx m (w\<lparr>w_input := (w_input w)\<lparr>chan_buf := ms\<rparr>\<rparr>))) = ms \<and>
    w_accepted (writer_receive io ctx m (w\<lparr>w_input := (w_input w)\<lparr>chan_buf := ms\<rparr>\<rparr>)) = w_accepted w"
proof -
  define v where "v = w\<lparr>w_input := (w_input w)\<lparr>chan_buf := ms\<rparr>, w_buffer := w_buffer w @ [m]\<rparr>"
  have inv: "w_batch_size v = bs" "chan_cap (w_input v) = cap" "w_max_retries v = retries"
    "w_accepted v = settled_messages v @ w_buffer v @ chan_buf (w_input v)" "w_buffer v \<noteq> []"
    "w_enqueued v = of_nat (length (w_accepted v))" "counted v" "length (chan_buf (w_input v)) \<le> cap"
    "int (length (w_buffer v)) \<le> bs"
    "list_all (\<lambda>(batch, ok). batch \<noteq> [] \<and> int (length batch) \<le> bs) (w_settled v)"
    using assms(1,2) by (auto simp: writer_inv_def settled_messages_def counted_def v_def)
  have receive: "writer_receive io ctx m (w\<lparr>w_input := (w_input w)\<lparr>chan_buf := ms\<rparr>\<rparr>) =
      (if int (length (w_buffer v)) \<ge> w_batch_size v then flush_buffer io ctx v else v)"
    by (simp add: writer_receive_def Let_def v_def)
  show ?thesis
  proof (cases "int (length (w_buffer v)) \<ge> w_batch_size v")
    case True
    then show ?thesis unfolding receive using flush_buffer_inv [OF inv(1-3) assms(4) inv(4,6,7,8,5,9,10), of io ctx]
      by (simp add: v_def)
  next
    case False
    then have "writer_inv bs cap retries v" unfolding writer_inv_def using inv assms(3) by (simp add: v_def)
    then show ?thesis unfolding receive using False by (simp add: v_def)
  qed
qed

lemma writer_inv_flush:
  assumes "writer_inv bs cap retries w" "0 < bs" "w_buffer w \<noteq> []"
  shows "writer_inv bs cap retries (flush_buffer io ctx w) \<and> w_mode (flush_buffer io ctx w) = w_mode w \<and>
    w_buffer (flush_buffer io ctx w) = [] \<and> w_input (flush_buffer io ctx w) = w_input w \<and>
    w_accepted (flush_buffer io ctx w) = w_accepted w"
  using assms by (intro flush_buffer_inv) (simp_all add: writer_inv_def)

lemma writer_inv_mode:
  "writer_inv bs cap retries w \<Longrightarrow> w_buffer w = [] \<Longrightarrow> writer_inv bs cap retries (w\<lparr>w_mode := md\<rparr>)"
  by (simp add: writer_inv_def settled_messages_def counted_def)

lemma writer_stop_inv:
  assumes "writer_inv bs cap retries w" "0 < bs"
  shows "writer_inv bs cap retries (writer_stop io w) \<and> w_mode (writer_stop io w) = Stopped \<and>
    w_buffer (writer_stop io w) = [] \<and> w_input (writer_stop io w) = w_input w \<and> w_accepted (writer_stop io w) = w_accepted w"
proof (cases "w_buffer w = []")
  case True
  then show ?thesis using assms
    by (simp add: writer_stop_def writer_inv_def settled_messages_def counted_def)
next
  case False
  note flushed = writer_inv_flush [OF assms False, of io Background]
  have "writer_stop io w = (flush_buffer io Background w)\<lparr>w_mode := Stopped\<rparr>"
    using False by (simp add: writer_stop_def)
  then show ?thesis using flushed writer_inv_mode [of bs cap retries "flush_buffer io Background w" Stopped] by simp
qed

lemma writer_step_inv:
  assumes "writer_step io w w'" "writer_inv bs cap retries w" "0 < bs"
  shows "writer_inv bs cap retries w'"
  using assms
proof (induction rule: writer_step.induct)
  case (offers w m)
  then show ?case
    by (auto simp: writer_enqueue_def writer_inv_def settled_messages_def counted_def try_send_Some split: option.split)
next
  case (receives w m ch)
  then obtain ms where "chan_buf (w_input w) = m # ms" "ch = (w_input w)\<lparr>chan_buf := ms\<rparr>"
    by (auto split: list.splits)
  then show ?case using receives writer_receive_inv [of bs cap retries w m ms io Run_ctx] by simp
next
  case (ticks w)
  then show ?case using writer_inv_flush [of bs cap retries w io Run_ctx] by (simp add: writer_tick_def)
next
  case (drains w m ch)
  then obtain ms where "chan_buf (w_input w) = m # ms" "ch = (w_input w)\<lparr>chan_buf := ms\<rparr>"
    by (auto split: list.splits)
  then show ?case using drains writer_receive_inv [of bs cap retries w m ms io Background] by simp
next
  case (stops w)
  then show ?case using writer_stop_inv by blast
qed (auto simp: writer_inv_def settled_messages_def counted_def)

definition writer_size :: "writer_config \<Rightarrow> int" where
  "writer_size c = positive_or w_default_batch_size (wc_batch_size c)"

lemma writer_size_pos: "0 < writer_size c"
  by (simp add: writer_size_def positive_or_def w_default_batch_size_def)

lemma writer_reachable_inv:
  assumes "writer_reachable io c e w"
  shows "writer_inv (writer_size c) (nat (positive_or w_default_queue_size (wc_queue_size c)))
    (positive_or w_default_max_retries (wc_max_retries c)) w"
  using assms
proof (induction rule: rtranclp_induct)
  case base
  then show ?case using writer_size_pos [of c]
    by (simp add: new_db_writer_def writer_inv_def settled_messages_def counted_def make_chan_def writer_size_def)
next
  case (step w w')
  then show ?case using writer_step_inv writer_size_pos by blast
qed

section \<open>The drain\<close>

lemma flush_background_saves:
  assumes "\<And>b e. snd (io_insert io Background b e) = None" "w_buffer w \<noteq> []" "1 \<le> w_max_retries w"
  shows "w_settled (flush_buffer io Background w) = w_settled w @ [(w_buffer w, True)]"
proof -
  obtain e where "io_insert io Background (w_buffer w) (w_env w) = (e, None)"
    using assms(1) [of "w_buffer w" "w_env w"] by (metis prod.collapse)
  then have "writer_attempts io Background (w_buffer w) 1 w = batch_saved (w_buffer w) (w\<lparr>w_env := e\<rparr>)"
    using assms(2,3) by (subst writer_attempts.simps) (simp add: create_in_batches_def)
  then show ?thesis using assms(2) by (simp add: flush_buffer_def writer_flush_def batch_saved_def)
qed

definition newly_saved :: "('m, 'e) writer \<Rightarrow> ('m, 'e) writer \<Rightarrow> bool" where
  \<comment> \<open>what was settled between two states was saved\<close>
  "newly_saved w w' \<longleftrightarrow> (\<exists>bs. w_settled w' = w_settled w @ map (\<lambda>b. (b, True)) bs)"

lemma newly_saved_refl: "newly_saved w w"
  by (simp add: newly_saved_def exI [of _ "[]"])

lemma newly_saved_trans: "newly_saved u v \<Longrightarrow> newly_saved v w \<Longrightarrow> newly_saved u w"
  unfolding newly_saved_def by (metis append.assoc map_append)

lemma newly_saved_flush:
  assumes "\<And>b e. snd (io_insert io Background b e) = None" "w_buffer w \<noteq> []" "1 \<le> w_max_retries w"
  shows "newly_saved w (flush_buffer io Background w)"
  using flush_background_saves [OF assms] unfolding newly_saved_def by (intro exI [of _ "[w_buffer w]"]) simp

lemma newly_saved_receive:
  assumes "\<And>b e. snd (io_insert io Background b e) = None" "1 \<le> w_max_retries w"
  shows "newly_saved w (writer_receive io Background m (w\<lparr>w_input := ch\<rparr>))"
proof -
  define v where "v = w\<lparr>w_input := ch, w_buffer := w_buffer w @ [m]\<rparr>"
  have "newly_saved w v" by (simp add: v_def newly_saved_def exI [of _ "[]"])
  moreover have "newly_saved v (flush_buffer io Background v)"
    by (rule newly_saved_flush) (use assms in \<open>simp_all add: v_def\<close>)
  moreover have "writer_receive io Background m (w\<lparr>w_input := ch\<rparr>) =
      (if int (length (w_buffer v)) \<ge> w_batch_size v then flush_buffer io Background v else v)"
    by (simp add: writer_receive_def Let_def v_def)
  ultimately show ?thesis using newly_saved_trans by auto
qed

lemma newly_saved_stop:
  assumes "\<And>b e. snd (io_insert io Background b e) = None" "1 \<le> w_max_retries w"
  shows "newly_saved w (writer_stop io w)"
proof (cases "w_buffer w = []")
  case True
  then show ?thesis by (simp add: writer_stop_def newly_saved_def exI [of _ "[]"])
next
  case False
  then show ?thesis using newly_saved_flush [OF assms(1) False assms(2)]
    by (simp add: writer_stop_def newly_saved_def)
qed

lemma drain_run:
  fixes w :: "('m, 'e) writer"
  assumes "writer_inv bs cap retries w" "0 < bs" "1 \<le> retries" "w_mode w = Draining"
  shows "\<exists>w'. (writer_step io)\<^sup>*\<^sup>* w w' \<and> w_mode w' = Stopped \<and> chan_buf (w_input w') = [] \<and> w_accepted w' = w_accepted w \<and>
    writer_inv bs cap retries w' \<and>
    ((\<forall>b e. snd (io_insert io Background b e) = None) \<longrightarrow> newly_saved w w')"
  using assms
proof (induction "chan_buf (w_input w)" arbitrary: w)
  case Nil
  have "writer_step io w (writer_stop io w)" using Nil by (intro writer_step.stops) simp_all
  then have run: "(writer_step io)\<^sup>*\<^sup>* w (writer_stop io w)" by blast
  note stop = writer_stop_inv [OF Nil(2,3), of io]
  have "(\<forall>b e. snd (io_insert io Background b e) = None) \<longrightarrow> newly_saved w (writer_stop io w)"
    using newly_saved_stop [of io w] Nil by (auto simp: writer_inv_def)
  then show ?case using run stop Nil by (intro exI [of _ "writer_stop io w"]) simp
next
  case (Cons m ms)
  define v where "v = writer_receive io Background m (w\<lparr>w_input := (w_input w)\<lparr>chan_buf := ms\<rparr>\<rparr>)"
  have received: "writer_inv bs cap retries v" "w_mode v = Draining" "chan_buf (w_input v) = ms" "w_accepted v = w_accepted w"
    using writer_receive_inv [OF Cons(3), of m ms io Background] Cons unfolding v_def by simp_all
  have "writer_step io w v" unfolding v_def
    using Cons(2,6) by (intro writer_step.drains) (simp_all flip: Cons(2))
  moreover obtain w' where w': "(writer_step io)\<^sup>*\<^sup>* v w'" "w_mode w' = Stopped" "chan_buf (w_input w') = []"
      "w_accepted w' = w_accepted v" "writer_inv bs cap retries w'"
      "(\<forall>b e. snd (io_insert io Background b e) = None) \<longrightarrow> newly_saved v w'"
    using Cons(1) [OF received(3) [symmetric] received(1) Cons(4,5) received(2)] by blast
  moreover have "(\<forall>b e. snd (io_insert io Background b e) = None) \<longrightarrow> newly_saved w v"
    using newly_saved_receive [of io w m] Cons(3,5) by (auto simp: writer_inv_def v_def)
  ultimately show ?case using received(4) newly_saved_trans
    by (intro exI [of _ w']) (auto intro: converse_rtranclp_into_rtranclp)
qed

section \<open>Properties\<close>

text \<open>Whatever the database and the context do, the writer of the fourth stage keeps every message it
  accepted, once and in order: first the batches it settled, none empty or above the batch size, then its
  buffer, then its queue; and the counters are those of the settled batches.\<close>

theorem writer_accounts:
  assumes "writer_reachable io c e w"
  shows "w_accepted w = settled_messages w @ w_buffer w @ chan_buf (w_input w) \<and>
    w_enqueued w = of_nat (length (w_accepted w)) \<and> counted w \<and>
    list_all (\<lambda>(batch, ok). batch \<noteq> [] \<and> int (length batch) \<le> writer_size c) (w_settled w) \<and>
    int (length (w_buffer w)) < writer_size c \<and>
    length (chan_buf (w_input w)) \<le> nat (positive_or w_default_queue_size (wc_queue_size c))"
  using writer_reachable_inv [OF assms] by (simp add: writer_inv_def)


text \<open>A database that works, as long as the context it is given is not cancelled.\<close>

definition healthy_mysql :: "('m, bool \<times> 'm list, unit) writer_io" where
  \<comment> \<open>the environment: whether the server's context is cancelled, and the rows\<close>
  "healthy_mysql =
     \<lparr>io_insert = (\<lambda>ctx batch (cancelled, rows).
        if ctx = Run_ctx \<and> cancelled then ((cancelled, rows), Some ()) else ((cancelled, rows @ batch), None)),
      io_backoff = (\<lambda>d (cancelled, rows). ((cancelled, rows), cancelled))\<rparr>"

definition single_config :: writer_config where
  "single_config = \<lparr>wc_queue_size = 2, wc_batch_size = 1, wc_flush_interval = 0, wc_max_retries = 0, wc_retry_backoff = 0\<rparr>"

definition writer_example ::
  "'m list \<Rightarrow> writer_mode \<Rightarrow> bool \<times> 'm list \<Rightarrow> 'm list \<Rightarrow> ('m list \<times> bool) list \<Rightarrow> u64 \<Rightarrow> u64 \<Rightarrow> u64 \<Rightarrow> ('m, bool \<times> 'm list) writer" where
  "writer_example queue md env accepted settled saved flushes failed =
     \<lparr>w_input = \<lparr>chan_buf = queue, chan_cap = 2\<rparr>, w_batch_size = 1, w_flush_interval = second, w_max_retries = 3,
      w_retry_backoff = 200 * millisecond, w_enqueued = of_nat (length accepted), w_dropped = 0, w_saved = saved,
      w_flushes = flushes, w_failed_flushes = failed, w_buffer = [], w_mode = md, w_env = env,
      w_accepted = accepted, w_settled = settled\<rparr>"

lemma writer_example_start: "new_db_writer single_config (False, []) = writer_example [] Collecting (False, []) [] [] 0 0 0"
  by (simp add: new_db_writer_def single_config_def writer_example_def positive_or_def make_chan_def
      w_default_max_retries_def)

lemma writer_example_offer:
  "length q < 2 \<Longrightarrow>
   writer_step healthy_mysql (writer_example q md d acc st a b c) (writer_example (q @ [m]) md d (acc @ [m]) st a b c)"
  using writer_step.offers [of healthy_mysql "writer_example q md d acc st a b c" m]
  by (simp add: writer_example_def writer_enqueue_def try_send_def add.commute)

lemma writer_example_fail:
  "writer_step healthy_mysql (writer_example [m] Collecting (True, rows) acc st a b c)
     (writer_example [] Collecting (True, rows) acc (st @ [([m], False)]) a b (c + 1))"
  using writer_step.receives [of "writer_example [m] Collecting (True, rows) acc st a b c" m _ healthy_mysql]
  by (simp add: writer_example_def writer_receive_def Let_def flush_buffer_def writer_flush_def
      writer_attempts.simps create_in_batches_def healthy_mysql_def batch_failed_def)

text \<open>C30: A shutdown can lose messages although the database works: the loop may still pick a message after
  the server's context is cancelled, its insert fails with that context and the batch is dropped without a
  retry; and a message that a connection sends after the writer has stopped is accepted and counted, but
  stays in the queue.\<close>

theorem shutdown_loses_accepted:
  fixes lost late :: 'm
  shows "\<exists>w. writer_reachable healthy_mysql single_config (False, []) w \<and> w_mode w = Stopped \<and>
    w_accepted w = [lost, late] \<and> w_enqueued w = 2 \<and> snd (w_env w) = [] \<and>
    w_settled w = [([lost], False)] \<and> chan_buf (w_input w) = [late]"
proof -
  let ?io = "healthy_mysql :: ('m, bool \<times> 'm list, unit) writer_io"
  have offered: "writer_step ?io (writer_example [] Collecting (False, []) [] [] 0 0 0)
      (writer_example [lost] Collecting (False, []) [lost] [] 0 0 0)"
    using writer_example_offer [of "[]" Collecting "(False, [])" "[]" "[]" 0 0 0 lost] by simp
  have cancelled: "writer_step ?io (writer_example [lost] Collecting (False, []) [lost] [] 0 0 0)
      (writer_example [lost] Collecting (True, []) [lost] [] 0 0 0)"
    using writer_step.world [of ?io "writer_example [lost] Collecting (False, []) [lost] [] 0 0 0" "(True, [])"]
    by (simp add: writer_example_def)
  have failed: "writer_step ?io (writer_example [lost] Collecting (True, []) [lost] [] 0 0 0)
      (writer_example [] Collecting (True, []) [lost] [([lost], False)] 0 0 1)"
    using writer_example_fail [of lost "[]" "[lost]" "[]" 0 0 0] by simp
  have ended: "writer_step ?io (writer_example [] Collecting (True, []) [lost] [([lost], False)] 0 0 1)
      (writer_example [] Draining (True, []) [lost] [([lost], False)] 0 0 1)"
    using writer_step.ends [of "writer_example [] Collecting (True, []) [lost] [([lost], False)] 0 0 1" ?io]
    by (simp add: writer_example_def)
  have stopped: "writer_step ?io (writer_example [] Draining (True, []) [lost] [([lost], False)] 0 0 1)
      (writer_example [] Stopped (True, []) [lost] [([lost], False)] 0 0 1)"
    using writer_step.stops [of "writer_example [] Draining (True, []) [lost] [([lost], False)] 0 0 1" ?io]
    by (simp add: writer_example_def writer_stop_def)
  have late: "writer_step ?io (writer_example [] Stopped (True, []) [lost] [([lost], False)] 0 0 1)
      (writer_example [late] Stopped (True, []) [lost, late] [([lost], False)] 0 0 1)"
    using writer_example_offer [of "[]" Stopped "(True, [])" "[lost]" "[([lost], False)]" 0 0 1 late] by simp
  note step = converse_rtranclp_into_rtranclp [of "writer_step ?io"]
  have "writer_reachable ?io single_config (False, []) (writer_example [late] Stopped (True, []) [lost, late] [([lost], False)] 0 0 1)"
    unfolding writer_example_start
    by (intro step [OF offered] step [OF cancelled] step [OF failed] step [OF ended] step [OF stopped] step [OF late]
        rtranclp.rtrancl_refl)
  then show ?thesis by (rule exI [where x = "writer_example [late] Stopped (True, []) [lost, late] [([lost], False)] 0 0 1",
        OF conjI]) (simp add: writer_example_def)
qed

lemma writer_example_draining:
  "writer_reachable healthy_mysql single_config (False, [])
     (writer_example [m] Draining (False, []) [m] [] 0 0 0)"
proof -
  have offered: "writer_step healthy_mysql (writer_example [] Collecting (False, []) [] [] 0 0 0)
      (writer_example [m] Collecting (False, []) [m] [] 0 0 0)"
    using writer_example_offer [of "[]" Collecting "(False, [])" "[]" "[]" 0 0 0 m] by simp
  have ended: "writer_step healthy_mysql (writer_example [m] Collecting (False, []) [m] [] 0 0 0)
      (writer_example [m] Draining (False, []) [m] [] 0 0 0)"
    using writer_step.ends [of "writer_example [m] Collecting (False, []) [m] [] 0 0 0" healthy_mysql]
    by (simp add: writer_example_def)
  show ?thesis unfolding writer_example_start
    using converse_rtranclp_into_rtranclp [of "writer_step healthy_mysql", OF offered] ended by blast
qed

theorem writer_accounts_witness:
  "\<exists>w. writer_reachable healthy_mysql single_config (False, []) w \<and> w_accepted w = [7 :: nat] \<and>
     w_accepted w = settled_messages w @ w_buffer w @ chan_buf (w_input w) \<and> counted w"
  using writer_accounts [OF writer_example_draining [of "7 :: nat"]] writer_example_draining [of "7 :: nat"]
  by (intro exI [of _ "writer_example [7] Draining (False, []) [7] [] 0 0 0"]) (simp add: writer_example_def)


end
