(* ===== verification/V5_Consumer.thy ===== *)
theory V5_Consumer
  imports Delivery
begin

text \<open>
  The fifth stage of the course, where Kafka replaces the writer in the server: the publisher
  (\<open>v5/internal/queue/kafka_publisher.go\<close>) and the consumer (\<open>v5/internal/consumer/handler.go\<close>). The
  danmaku is a type \<open>'m\<close>; GORM, Kafka, JSON and the clock are the functions of \<open>v5_io\<close>. Valid messages
  are stored before they are marked and marked in order; but a message that is no danmaku is marked at
  once, ahead of the batch received before it.
\<close>

section \<open>The publisher\<close>

record 'm v5_publisher =
  v5p_input :: "(string \<times> string \<times> string) chan"
    \<comment> \<open>the producer's input: topic, key and value\<close>
  v5p_topic :: string
  v5p_enqueued :: u64
  v5p_dropped :: u64
  v5p_errors :: u64
  v5p_calls :: "'m list"
    \<comment> \<open>trace: what was enqueued\<close>

record 'm v5_codec =
  v5_enc_danmaku :: "'m \<Rightarrow> string option"
  v5_enc_packet :: "packet \<Rightarrow> string option"
  v5_dec_packet :: "string \<Rightarrow> packet option"
  v5_dec_danmaku :: "string \<Rightarrow> 'm option"
  v5_room_of :: "'m \<Rightarrow> string"

definition v5_enqueue :: "'m v5_codec \<Rightarrow> 'm \<Rightarrow> 'm v5_publisher \<Rightarrow> 'm v5_publisher \<times> bool" where
  "v5_enqueue cd d p =
     (case v5_enc_danmaku cd d of
        None \<Rightarrow> (p\<lparr>v5p_errors := v5p_errors p + 1\<rparr>, False)
      | Some data \<Rightarrow>
          (case v5_enc_packet cd \<lparr>packet_type = type_danmaku, packet_room_id = v5_room_of cd d, packet_data = data\<rparr> of
             None \<Rightarrow> (p\<lparr>v5p_errors := v5p_errors p + 1\<rparr>, False)
           | Some payload \<Rightarrow>
               (case try_send (v5p_input p) (v5p_topic p, v5_room_of cd d, payload) of
                  Some ch \<Rightarrow> (p\<lparr>v5p_input := ch, v5p_enqueued := v5p_enqueued p + 1, v5p_calls := v5p_calls p @ [d]\<rparr>, True)
                | None \<Rightarrow> (p\<lparr>v5p_dropped := v5p_dropped p + 1\<rparr>, False))))"

definition v5_drain_error :: "'m v5_publisher \<Rightarrow> 'm v5_publisher" where
  \<comment> \<open>one round of \<open>drainErrors\<close>\<close>
  "v5_drain_error p = p\<lparr>v5p_errors := v5p_errors p + 1\<rparr>"

section \<open>The handler\<close>

datatype v5_ctx = V5_session | V5_background

record ('m, 'e, 'x) v5_io =
  v5_create :: "v5_ctx \<Rightarrow> 'm list \<Rightarrow> 'e \<Rightarrow> 'e \<times> 'x option"
    \<comment> \<open>the repository's \<open>CreateInBatches\<close>\<close>
  v5_wait :: "v5_ctx \<Rightarrow> duration \<Rightarrow> 'e \<Rightarrow> 'e \<times> bool"
    \<comment> \<open>waits for the timer or the context; true when the context is done first\<close>

record v5_config =
  v5c_batch_size :: int
  v5c_flush_interval :: duration
  v5c_max_retries :: int
  v5c_retry_backoff :: duration

record v5_handler =
  v5h_batch_size :: int
  v5h_flush_interval :: duration
  v5h_max_retries :: int
  v5h_retry_backoff :: duration
  v5h_parsed :: u64
  v5h_saved :: u64
  v5h_batches :: u64
  v5h_skipped :: u64
  v5h_failed_batches :: u64

definition v5_new_handler :: "v5_config \<Rightarrow> v5_handler" where
  "v5_new_handler c =
     \<lparr>v5h_batch_size = or_default 100 (v5c_batch_size c),
      v5h_flush_interval = or_default second (v5c_flush_interval c),
      v5h_max_retries = or_default 3 (v5c_max_retries c),
      v5h_retry_backoff = or_default (300 * millisecond) (v5c_retry_backoff c),
      v5h_parsed = 0, v5h_saved = 0, v5h_batches = 0, v5h_skipped = 0, v5h_failed_batches = 0\<rparr>"

record ('m, 'e) v5_claim =
  v5_hd :: v5_handler
  v5_pending :: "('m \<times> consumer_message) list"
  v5_marks :: "consumer_message list"
  v5_env :: 'e
  v5_stored :: "'m list"
    \<comment> \<open>trace: what was inserted without an error\<close>

datatype v5_error = V5_context_error | V5_batch_failed nat

datatype v5_outcome = V5_running | V5_returned "v5_error option"

definition v5_parse_message :: "'m v5_codec \<Rightarrow> consumer_message \<Rightarrow> 'm option" where
  \<comment> \<open>\<open>None\<close>: any of the errors, which are treated alike\<close>
  "v5_parse_message cd msg =
     (case v5_dec_packet cd (msg_value msg) of
        None \<Rightarrow> None
      | Some p \<Rightarrow> if packet_type p \<noteq> type_danmaku then None else v5_dec_danmaku cd (packet_data p))"

section \<open>Flushing\<close>

definition v5_saved_batch :: "('m \<times> consumer_message) list \<Rightarrow> ('m, 'e) v5_claim \<Rightarrow> ('m, 'e) v5_claim" where
  "v5_saved_batch items c =
     c\<lparr>v5_marks := v5_marks c @ map snd items, v5_stored := v5_stored c @ map fst items,
       v5_hd := (v5_hd c)\<lparr>v5h_saved := v5h_saved (v5_hd c) + of_nat (length items),
                         v5h_batches := v5h_batches (v5_hd c) + 1\<rparr>\<rparr>"

definition v5_failed_batch :: "('m, 'e) v5_claim \<Rightarrow> ('m, 'e) v5_claim" where
  "v5_failed_batch c = c\<lparr>v5_hd := (v5_hd c)\<lparr>v5h_failed_batches := v5h_failed_batches (v5_hd c) + 1\<rparr>\<rparr>"

function v5_attempts ::
  "('m, 'e, 'x) v5_io \<Rightarrow> v5_ctx \<Rightarrow> ('m \<times> consumer_message) list \<Rightarrow> int \<Rightarrow> ('m, 'e) v5_claim \<Rightarrow>
   ('m, 'e) v5_claim \<times> v5_error option" where
  "v5_attempts io ctx items attempt c =
     (if attempt > v5h_max_retries (v5_hd c)
      then (v5_failed_batch c, Some (V5_batch_failed (length items)))
      else
        (case v5_create io ctx (map fst items) (v5_env c) of
           (e, None) \<Rightarrow> (v5_saved_batch items (c\<lparr>v5_env := e\<rparr>), None)
         | (e, Some x) \<Rightarrow>
             (case v5_wait io ctx (v5h_retry_backoff (v5_hd c)) e of
                (e, ended) \<Rightarrow>
                  if ended then (v5_failed_batch (c\<lparr>v5_env := e\<rparr>), Some V5_context_error)
                  else v5_attempts io ctx items (attempt + 1) (c\<lparr>v5_env := e\<rparr>))))"
  by pat_completeness auto
termination
  by (relation "measure (\<lambda>(io, ctx, items, attempt, c). nat (v5h_max_retries (v5_hd c) + 1 - attempt))") auto

declare v5_attempts.simps [simp del]

definition v5_flush_pending ::
  "('m, 'e, 'x) v5_io \<Rightarrow> v5_ctx \<Rightarrow> ('m, 'e) v5_claim \<Rightarrow> ('m, 'e) v5_claim \<times> v5_error option" where
  "v5_flush_pending io ctx c =
     (if v5_pending c = [] then (c, None) else v5_attempts io ctx (v5_pending c) 1 c)"

definition v5_flush_and_clear ::
  "('m, 'e, 'x) v5_io \<Rightarrow> ('m, 'e) v5_claim \<Rightarrow> ('m, 'e) v5_claim \<times> v5_outcome" where
  "v5_flush_and_clear io c =
     (case v5_flush_pending io V5_session c of
        (c, Some err) \<Rightarrow> (c, V5_returned (Some err))
      | (c, None) \<Rightarrow> (c\<lparr>v5_pending := []\<rparr>, V5_running))"

section \<open>The claim loop\<close>

definition v5_message ::
  "('m, 'e, 'x) v5_io \<Rightarrow> 'm v5_codec \<Rightarrow> consumer_message \<Rightarrow> ('m, 'e) v5_claim \<Rightarrow> ('m, 'e) v5_claim \<times> v5_outcome" where
  "v5_message io cd msg c =
     (case v5_parse_message cd msg of
        None \<Rightarrow>
          (c\<lparr>v5_hd := (v5_hd c)\<lparr>v5h_skipped := v5h_skipped (v5_hd c) + 1\<rparr>, v5_marks := v5_marks c @ [msg]\<rparr>, V5_running)
      | Some d \<Rightarrow>
          (let c = c\<lparr>v5_pending := v5_pending c @ [(d, msg)],
                     v5_hd := (v5_hd c)\<lparr>v5h_parsed := v5h_parsed (v5_hd c) + 1\<rparr>\<rparr>
           in if int (length (v5_pending c)) \<ge> v5h_batch_size (v5_hd c) then v5_flush_and_clear io c
              else (c, V5_running)))"

fun v5_step ::
  "('m, 'e, 'x) v5_io \<Rightarrow> 'm v5_codec \<Rightarrow> claim_event \<Rightarrow> ('m, 'e) v5_claim \<Rightarrow> ('m, 'e) v5_claim \<times> v5_outcome" where
  "v5_step io cd (Message msg) c = v5_message io cd msg c"
| "v5_step io cd Tick c = (if v5_pending c = [] then (c, V5_running) else v5_flush_and_clear io c)"
| "v5_step io cd Channel_closed c =
     (case v5_flush_pending io V5_background c of (c, err) \<Rightarrow> (c, V5_returned err))"
| "v5_step io cd Context_done c =
     (if v5_pending c = [] then (c, V5_returned None)
      else (case v5_flush_pending io V5_background c of
              (c, err) \<Rightarrow> (c\<lparr>v5_pending := []\<rparr>, V5_returned None)))"

fun v5_consume_claim ::
  "('m, 'e, 'x) v5_io \<Rightarrow> 'm v5_codec \<Rightarrow> claim_event list \<Rightarrow> ('m, 'e) v5_claim \<Rightarrow> ('m, 'e) v5_claim \<times> v5_outcome" where
  "v5_consume_claim io cd [] c = (c, V5_running)"
| "v5_consume_claim io cd (ev # evs) c =
     (case v5_step io cd ev c of
        (c, V5_running) \<Rightarrow> v5_consume_claim io cd evs c
      | (c, V5_returned err) \<Rightarrow> (c, V5_returned err))"

definition v5_new_claim :: "v5_handler \<Rightarrow> 'e \<Rightarrow> ('m, 'e) v5_claim" where
  "v5_new_claim h e = \<lparr>v5_hd = h, v5_pending = [], v5_marks = [], v5_env = e, v5_stored = []\<rparr>"

section \<open>Valid messages\<close>

definition v5_valid :: "'m v5_codec \<Rightarrow> consumer_message \<Rightarrow> bool" where
  "v5_valid cd msg \<longleftrightarrow> v5_parse_message cd msg \<noteq> None"

definition v5_read :: "'m v5_codec \<Rightarrow> consumer_message list \<Rightarrow> 'm list" where
  \<comment> \<open>the danmaku of the valid messages\<close>
  "v5_read cd ms = List.map_filter (v5_parse_message cd) ms"

definition v5_inv :: "'m v5_codec \<Rightarrow> consumer_message list \<Rightarrow> ('m, 'e) v5_claim \<Rightarrow> bool" where
  "v5_inv cd rs c \<longleftrightarrow>
     filter (v5_valid cd) (v5_marks c) @ map snd (v5_pending c) = filter (v5_valid cd) rs \<and>
     filter (\<lambda>m. \<not> v5_valid cd m) (v5_marks c) = filter (\<lambda>m. \<not> v5_valid cd m) rs \<and>
     list_all (\<lambda>(d, m). v5_parse_message cd m = Some d) (v5_pending c) \<and>
     v5_stored c = v5_read cd (v5_marks c)"

lemma v5_read_append: "v5_read cd (xs @ ys) = v5_read cd xs @ v5_read cd ys"
  by (simp add: v5_read_def map_filter_def)

lemma v5_read_pending: "list_all (\<lambda>(d, m). v5_parse_message cd m = Some d) items \<Longrightarrow> v5_read cd (map snd items) = map fst items"
  by (induction items) (auto simp: v5_read_def map_filter_def)

lemma v5_pending_valid:
  "list_all (\<lambda>(d, m). v5_parse_message cd m = Some d) items \<Longrightarrow> filter (v5_valid cd) (map snd items) = map snd items \<and>
     filter (\<lambda>m. \<not> v5_valid cd m) (map snd items) = []"
  by (induction items) (auto simp: v5_valid_def)

definition v5_flushed :: "('m \<times> consumer_message) list \<Rightarrow> ('m, 'e) v5_claim \<Rightarrow> ('m, 'e) v5_claim \<times> v5_error option \<Rightarrow> bool" where
  \<comment> \<open>what a flush does to the claim: everything is stored and marked, or nothing\<close>
  "v5_flushed items c r \<longleftrightarrow>
     v5_pending (fst r) = v5_pending c \<and> v5h_batch_size (v5_hd (fst r)) = v5h_batch_size (v5_hd c) \<and>
     (if snd r = None
      then v5_marks (fst r) = v5_marks c @ map snd items \<and> v5_stored (fst r) = v5_stored c @ map fst items
      else v5_marks (fst r) = v5_marks c \<and> v5_stored (fst r) = v5_stored c)"

lemma v5_attempts_flushed: "v5_flushed items c (v5_attempts io ctx items attempt c)"
proof (induction io ctx items attempt c rule: v5_attempts.induct)
  case (1 io ctx items attempt c)
  obtain e x where created: "v5_create io ctx (map fst items) (v5_env c) = (e, x)" by fastforce
  show ?case
  proof (cases "attempt > v5h_max_retries (v5_hd c)")
    case True
    then show ?thesis
      by (simp add: v5_attempts.simps [of io ctx items attempt c] v5_failed_batch_def v5_flushed_def)
  next
    case False
    show ?thesis
    proof (cases x)
      case None
      then show ?thesis using False created
        by (simp add: v5_attempts.simps [of io ctx items attempt c] v5_saved_batch_def v5_flushed_def)
    next
      case (Some y)
      obtain e' ended where waited: "v5_wait io ctx (v5h_retry_backoff (v5_hd c)) e = (e', ended)" by fastforce
      show ?thesis
      proof (cases ended)
        case True
        then show ?thesis using False created Some waited
          by (simp add: v5_attempts.simps [of io ctx items attempt c] v5_failed_batch_def v5_flushed_def)
      next
        case again: False
        have "v5_attempts io ctx items attempt c = v5_attempts io ctx items (attempt + 1) (c\<lparr>v5_env := e'\<rparr>)"
          using False created Some waited again by (simp add: v5_attempts.simps [of io ctx items attempt c])
        then show ?thesis using 1 [OF False created [symmetric] Some waited [symmetric] again]
          by (simp add: v5_flushed_def)
      qed
    qed
  qed
qed

lemma v5_flush_pending_flushed: "v5_flushed (v5_pending c) c (v5_flush_pending io ctx c)"
proof (cases "v5_pending c = []")
  case True
  then show ?thesis by (simp add: v5_flush_pending_def v5_flushed_def)
next
  case False
  then show ?thesis using v5_attempts_flushed [of "v5_pending c" c io ctx 1] by (simp add: v5_flush_pending_def)
qed

lemma v5_flush_inv:
  assumes "v5_inv cd rs c" "v5_flushed (v5_pending c) c (c', None)"
  shows "v5_inv cd rs (c'\<lparr>v5_pending := []\<rparr>)" "filter (v5_valid cd) (v5_marks c') = filter (v5_valid cd) rs"
    "v5_stored c' = v5_read cd (v5_marks c')"
  using assms v5_pending_valid [of cd "v5_pending c"] v5_read_pending [of cd "v5_pending c"]
  by (auto simp: v5_inv_def v5_flushed_def v5_read_append)

lemma v5_flush_error_inv:
  assumes "v5_inv cd rs c" "v5_flushed (v5_pending c) c (c', Some err)"
  shows "v5_inv cd rs c'"
  using assms by (simp add: v5_inv_def v5_flushed_def)

definition v5_result :: "'m v5_codec \<Rightarrow> consumer_message list \<Rightarrow> ('m, 'e) v5_claim \<Rightarrow> v5_outcome \<Rightarrow> bool" where
  "v5_result cd rs c out \<longleftrightarrow>
     (if out = V5_running then v5_inv cd rs c
      else prefix (filter (v5_valid cd) (v5_marks c)) (filter (v5_valid cd) rs) \<and> v5_stored c = v5_read cd (v5_marks c))"

lemma v5_inv_prefix: "v5_inv cd rs c \<Longrightarrow> prefix (filter (v5_valid cd) (v5_marks c)) (filter (v5_valid cd) rs)"
  unfolding v5_inv_def by (metis prefixI)

lemma v5_inv_result: "v5_inv cd rs c \<Longrightarrow> v5_result cd rs c out"
  using v5_inv_prefix [of cd rs c] by (auto simp: v5_result_def v5_inv_def)

lemma v5_flush_and_clear_result:
  assumes "v5_inv cd rs c"
  shows "v5_result cd rs (fst (v5_flush_and_clear io c)) (snd (v5_flush_and_clear io c))"
proof -
  obtain c' err where f: "v5_flush_pending io V5_session c = (c', err)" by fastforce
  note flushed = v5_flush_pending_flushed [of c io V5_session, unfolded f]
  show ?thesis
  proof (cases err)
    case None
    then show ?thesis using v5_flush_inv(1) [OF assms] flushed f
      by (simp add: v5_flush_and_clear_def v5_inv_result)
  next
    case (Some y)
    then show ?thesis using v5_flush_error_inv [OF assms] flushed f
      by (simp add: v5_flush_and_clear_def v5_inv_result)
  qed
qed

lemma v5_background_result:
  assumes "v5_inv cd rs c" "v5_flush_pending io V5_background c = (c', err)"
  shows "v5_result cd rs c' (V5_returned z)" "v5_result cd rs (c'\<lparr>v5_pending := []\<rparr>) (V5_returned z)"
proof -
  note flushed = v5_flush_pending_flushed [of c io V5_background, unfolded assms(2)]
  show "v5_result cd rs c' (V5_returned z)"
  proof (cases err)
    case None
    then show ?thesis using v5_flush_inv(2,3) [OF assms(1)] flushed by (simp add: v5_result_def)
  next
    case (Some y)
    then show ?thesis using v5_flush_error_inv [OF assms(1)] flushed by (simp add: v5_inv_result)
  qed
  then show "v5_result cd rs (c'\<lparr>v5_pending := []\<rparr>) (V5_returned z)" by (simp add: v5_result_def)
qed

lemma v5_step_result:
  assumes "v5_inv cd rs c"
  shows "v5_result cd (rs @ received [ev]) (fst (v5_step io cd ev c)) (snd (v5_step io cd ev c))"
proof (cases ev)
  case (Message msg)
  show ?thesis
  proof (cases "v5_parse_message cd msg")
    case None
    then show ?thesis using assms Message
      by (simp add: v5_message_def v5_result_def v5_inv_def v5_valid_def v5_read_append) (simp add: v5_read_def map_filter_def)
  next
    case (Some d)
    define b where "b = c\<lparr>v5_pending := v5_pending c @ [(d, msg)],
        v5_hd := (v5_hd c)\<lparr>v5h_parsed := v5h_parsed (v5_hd c) + 1\<rparr>\<rparr>"
    have "v5_inv cd (rs @ [msg]) b" using assms Some by (simp add: v5_inv_def v5_valid_def b_def)
    then show ?thesis using v5_flush_and_clear_result [of cd "rs @ [msg]" b io] v5_inv_result [of cd "rs @ [msg]" b V5_running] Message Some
      by (simp add: v5_message_def Let_def b_def [symmetric])
  qed
next
  case Tick
  then show ?thesis using assms v5_flush_and_clear_result [OF assms, of io] v5_inv_result [OF assms, of V5_running] by simp
next
  case Channel_closed
  then show ?thesis using v5_background_result(1) [OF assms] by (auto split: prod.split)
next
  case Context_done
  then show ?thesis using v5_background_result(2) [OF assms] v5_inv_result [OF assms] by (auto split: prod.split)
qed

lemma v5_claim_result:
  assumes "v5_consume_claim io cd evs c = (c', out)" "v5_inv cd rs c"
  shows "\<exists>used. prefix used evs \<and> v5_result cd (rs @ received used) c' out \<and> (out = V5_running \<longrightarrow> used = evs)"
  using assms
proof (induction evs arbitrary: c rs)
  case Nil
  then show ?case by (auto simp: v5_inv_result)
next
  case (Cons ev evs)
  obtain d y where d: "v5_step io cd ev c = (d, y)" by fastforce
  have step: "v5_result cd (rs @ received [ev]) d y" using v5_step_result [OF Cons.prems(2), of ev io] d by simp
  show ?case
  proof (cases y)
    case V5_running
    then obtain used where "prefix used evs" "v5_result cd ((rs @ received [ev]) @ received used) c' out"
      "out = V5_running \<longrightarrow> used = evs"
      using Cons.IH [of d "rs @ received [ev]"] Cons.prems(1) d step by (auto simp: v5_result_def)
    then show ?thesis by (intro exI [of _ "ev # used"]) (simp add: received_Cons [of ev used])
  next
    case (V5_returned err)
    then show ?thesis using Cons.prems(1) d step by (intro exI [of _ "[ev]"]) auto
  qed
qed

section \<open>Properties\<close>

text \<open>The consumer of the fifth stage stores a valid message before it marks it, and marks valid
  messages in the order of reception without leaving one out: what is stored is, in order, what is marked.\<close>

theorem v5_valid_in_order:
  assumes "v5_consume_claim io cd evs (v5_new_claim h e) = (c, out)"
  shows "v5_stored c = v5_read cd (v5_marks c) \<and>
    (\<exists>used. prefix used evs \<and> prefix (filter (v5_valid cd) (v5_marks c)) (filter (v5_valid cd) (received used)) \<and>
       (out = V5_running \<longrightarrow>
          filter (v5_valid cd) (v5_marks c) @ map snd (v5_pending c) = filter (v5_valid cd) (received evs)))"
proof -
  have "v5_inv cd [] (v5_new_claim h e)" by (simp add: v5_inv_def v5_new_claim_def v5_read_def map_filter_def)
  from v5_claim_result [OF assms this]
  obtain used where used: "prefix used evs" "v5_result cd (received used) c out" "out = V5_running \<longrightarrow> used = evs" by auto
  then have "prefix (filter (v5_valid cd) (v5_marks c)) (filter (v5_valid cd) (received used))"
      "v5_stored c = v5_read cd (v5_marks c)"
    using v5_inv_prefix by (auto simp: v5_result_def v5_inv_def split: if_splits)
  then show ?thesis using used by (intro conjI exI [of _ used]) (auto simp: v5_result_def v5_inv_def)
qed

text \<open>What a consumer group resumes from after marks: one past the highest marked offset.\<close>

definition resume_offset :: "consumer_message list \<Rightarrow> int" where
  "resume_offset ms = foldl (\<lambda>k m. max k (msg_offset m + 1)) 0 ms"

lemma v5_attempts_fail:
  assumes "\<And>ctx b e. snd (v5_create io ctx b e) \<noteq> None"
  shows "\<exists>err. snd (v5_attempts io ctx items attempt c) = Some err"
proof (induction io\<equiv>io ctx items attempt c rule: v5_attempts.induct)
  case (1 ctx items attempt c)
  obtain e x where created: "v5_create io ctx (map fst items) (v5_env c) = (e, Some x)"
    using assms [of ctx "map fst items" "v5_env c"] by (metis option.exhaust prod.collapse)
  obtain e' ended where waited: "v5_wait io ctx (v5h_retry_backoff (v5_hd c)) e = (e', ended)" by fastforce
  show ?case
  proof (cases "attempt > v5h_max_retries (v5_hd c) \<or> ended")
    case True
    then show ?thesis using created waited by (subst v5_attempts.simps) auto
  next
    case False
    then show ?thesis using 1 [OF _ created [symmetric] refl waited [symmetric]] created waited
      by (subst v5_attempts.simps) simp
  qed
qed

text \<open>C31: In the fifth stage an outage loses danmaku: a message that is no danmaku is marked while the
  valid one received before it waits in the batch; when that batch fails the claim ends with an error, but
  the group resumes behind both, and the danmaku is never stored.\<close>

theorem v5_bad_message_loses_pending:
  assumes "v5_parse_message cd good = Some d" "v5_parse_message cd bad = None"
    and "0 \<le> msg_offset good" "msg_offset good < msg_offset bad" "1 < v5h_batch_size h"
    and "\<And>ctx b e. snd (v5_create io ctx b e) \<noteq> None"
  shows "\<exists>c err. v5_consume_claim io cd [Message good, Message bad, Tick] (v5_new_claim h e) = (c, V5_returned (Some err)) \<and>
    v5_marks c = [bad] \<and> v5_stored c = [] \<and> msg_offset good < resume_offset (v5_marks c)"
proof -
  define c where "c = (v5_new_claim h e)\<lparr>v5_pending := [(d, good)], v5_marks := [bad],
      v5_hd := h\<lparr>v5h_parsed := v5h_parsed h + 1, v5h_skipped := v5h_skipped h + 1\<rparr>\<rparr>"
  have waiting: "v5_pending c = [(d, good)]" by (simp add: c_def)
  obtain err where "snd (v5_attempts io V5_session [(d, good)] 1 c) = Some err"
    using v5_attempts_fail [OF assms(6)] by blast
  then have err: "snd (v5_flush_pending io V5_session c) = Some err"
    by (simp add: v5_flush_pending_def waiting)
  then have flush: "v5_flush_pending io V5_session c = (fst (v5_flush_pending io V5_session c), Some err)"
    by (metis prod.collapse)
  have kept: "v5_marks (fst (v5_flush_pending io V5_session c)) = [bad]" "v5_stored (fst (v5_flush_pending io V5_session c)) = []"
    using v5_flush_pending_flushed [of c io V5_session] err by (simp_all add: v5_flushed_def c_def v5_new_claim_def)
  have "v5_consume_claim io cd [Message good, Message bad, Tick] (v5_new_claim h e) =
      v5_consume_claim io cd [Tick] c"
    using assms(1,2,5) by (simp add: v5_message_def v5_new_claim_def c_def Let_def)
  also have "\<dots> = (fst (v5_flush_pending io V5_session c), V5_returned (Some err))"
    using flush by (auto simp: v5_flush_and_clear_def waiting split: prod.split)
  finally show ?thesis using kept assms(3,4) by (auto simp: resume_offset_def)
qed

text \<open>Texts that are their own danmaku, and \<open>x\<close>, which is no packet; a database that is up or down.\<close>

definition v5_demo_codec :: "string v5_codec" where
  "v5_demo_codec =
     \<lparr>v5_enc_danmaku = Some, v5_enc_packet = (\<lambda>p. Some (packet_data p)),
      v5_dec_packet = (\<lambda>s. if s = ''x'' then None
         else Some \<lparr>packet_type = type_danmaku, packet_room_id = [], packet_data = s\<rparr>),
      v5_dec_danmaku = Some, v5_room_of = (\<lambda>_. ''r'')\<rparr>"

definition v5_demo_io :: "bool \<Rightarrow> (string, unit, unit) v5_io" where
  "v5_demo_io up =
     \<lparr>v5_create = (\<lambda>ctx b e. (e, if up then None else Some ())), v5_wait = (\<lambda>ctx d e. (e, False))\<rparr>"

definition v5_demo_handler :: v5_handler where
  "v5_demo_handler =
     v5_new_handler \<lparr>v5c_batch_size = 2, v5c_flush_interval = 0, v5c_max_retries = 1, v5c_retry_backoff = 0\<rparr>"

lemma v5_demo_parse:
  "v5_parse_message v5_demo_codec (kafka_record i ''hi'') = Some ''hi''"
  "v5_parse_message v5_demo_codec (kafka_record i ''x'') = None"
  by (simp_all add: v5_parse_message_def v5_demo_codec_def kafka_record_def)

theorem v5_valid_in_order_witness:
  "\<exists>c. v5_consume_claim (v5_demo_io True) v5_demo_codec
         [Message (kafka_record 0 ''hi''), Message (kafka_record 1 ''x''), Tick] (v5_new_claim v5_demo_handler ()) =
         (c, V5_running) \<and> v5_marks c = [kafka_record 1 ''x'', kafka_record 0 ''hi''] \<and>
       v5_stored c = v5_read v5_demo_codec (v5_marks c)"
proof -
  obtain c where c: "v5_consume_claim (v5_demo_io True) v5_demo_codec
      [Message (kafka_record 0 ''hi''), Message (kafka_record 1 ''x''), Tick] (v5_new_claim v5_demo_handler ()) =
      (c, V5_running)" "v5_marks c = [kafka_record 1 ''x'', kafka_record 0 ''hi'']"
    by (simp add: v5_message_def v5_demo_parse v5_new_claim_def v5_demo_handler_def v5_new_handler_def or_default_def
        v5_flush_and_clear_def v5_flush_pending_def v5_attempts.simps v5_demo_io_def v5_saved_batch_def Let_def)
  then show ?thesis using v5_valid_in_order [OF c(1)] by blast
qed

theorem v5_bad_message_loses_pending_witness:
  "\<exists>c err. v5_consume_claim (v5_demo_io False) v5_demo_codec
         [Message (kafka_record 0 ''hi''), Message (kafka_record 1 ''x''), Tick] (v5_new_claim v5_demo_handler ()) =
         (c, V5_returned (Some err)) \<and>
       v5_marks c = [kafka_record 1 ''x''] \<and> v5_stored c = [] \<and>
       msg_offset (kafka_record 0 ''hi'') < resume_offset (v5_marks c)"
  by (rule v5_bad_message_loses_pending [OF v5_demo_parse])
    (simp_all add: kafka_record_def v5_demo_handler_def v5_new_handler_def or_default_def v5_demo_io_def)

section \<open>From the publisher to the consumer\<close>

lemma v5_enqueue_counts:
  "v5p_enqueued (fst (v5_enqueue cd d p)) + v5p_dropped (fst (v5_enqueue cd d p)) + v5p_errors (fst (v5_enqueue cd d p)) =
     v5p_enqueued p + v5p_dropped p + v5p_errors p + 1"
  by (auto simp: v5_enqueue_def split: option.split)

lemma v5_enqueued_is_parsed:
  assumes "\<And>q text. v5_enc_packet cd q = Some text \<Longrightarrow> v5_dec_packet cd text = Some q"
    and "\<And>q text. v5_enc_danmaku cd q = Some text \<Longrightarrow> v5_dec_danmaku cd text = Some q"
    and "v5_enqueue cd d p = (p', True)"
  shows "\<exists>value. chan_buf (v5p_input p') = chan_buf (v5p_input p) @ [(v5p_topic p, v5_room_of cd d, value)] \<and>
    (\<forall>msg. msg_value msg = value \<longrightarrow> v5_parse_message cd msg = Some d)"
proof -
  obtain data payload where sent: "v5_enc_danmaku cd d = Some data"
    "v5_enc_packet cd \<lparr>packet_type = type_danmaku, packet_room_id = v5_room_of cd d, packet_data = data\<rparr> = Some payload"
    "chan_buf (v5p_input p') = chan_buf (v5p_input p) @ [(v5p_topic p, v5_room_of cd d, payload)]"
    using assms(3) by (auto simp: v5_enqueue_def try_send_Some split: option.splits)
  then show ?thesis
    by (intro exI [of _ payload]) (simp add: v5_parse_message_def assms(1) [OF sent(2)] assms(2) [OF sent(1)])
qed

end
