(* ===== verification/Go_Slices.thy ===== *)
theory Go_Slices
  imports Main "HOL-Library.Multiset"
begin

text \<open>
  Slices of pointers as Go has them: a slice is an array with a length and a capacity, \<open>append\<close> writes
  into the array while there is room and moves to a new one otherwise, and two slices can share an array.
  \<open>owned\<close> says that a collection of slices shares none; the lemmas show what that is good for: an operation
  on one slice leaves what the others show.
\<close>

record slice =
  sl_array :: nat
  sl_len :: nat
  sl_cap :: nat

record 'a arrays =
  cells :: "nat \<Rightarrow> 'a option list"
    \<comment> \<open>\<open>None\<close> is nil\<close>
  next_array :: nat
    \<comment> \<open>arrays below are allocated\<close>

definition no_arrays :: "'a arrays" where
  "no_arrays = \<lparr>cells = (\<lambda>_. []), next_array = 0\<rparr>"

definition make_slice :: "nat \<Rightarrow> 'a arrays \<Rightarrow> slice \<times> 'a arrays" where
  \<comment> \<open>\<open>make([]*T, 0, n)\<close>\<close>
  "make_slice n h =
     (\<lparr>sl_array = next_array h, sl_len = 0, sl_cap = n\<rparr>,
      h\<lparr>cells := (cells h)(next_array h := replicate n None), next_array := next_array h + 1\<rparr>)"

definition append_slice :: "(nat \<Rightarrow> nat) \<Rightarrow> 'a \<Rightarrow> slice \<times> 'a arrays \<Rightarrow> slice \<times> 'a arrays" where
  \<comment> \<open>the new capacity is up to the runtime, as long as the element fits\<close>
  "append_slice grow x = (\<lambda>(sl, h).
     let old = cells h (sl_array sl)
     in if sl_len sl < sl_cap sl
        then (sl\<lparr>sl_len := sl_len sl + 1\<rparr>, h\<lparr>cells := (cells h)(sl_array sl := old[sl_len sl := Some x])\<rparr>)
        else
          (let n = max (sl_len sl + 1) (grow (sl_cap sl))
           in (\<lparr>sl_array = next_array h, sl_len = sl_len sl + 1, sl_cap = n\<rparr>,
               h\<lparr>cells := (cells h)(next_array h :=
                    take (sl_len sl) old @ Some x # replicate (n - (sl_len sl + 1)) None),
                  next_array := next_array h + 1\<rparr>)))"

definition append_all :: "(nat \<Rightarrow> nat) \<Rightarrow> 'a list \<Rightarrow> slice \<times> 'a arrays \<Rightarrow> slice \<times> 'a arrays" where
  "append_all grow xs = fold (append_slice grow) xs"

definition clear_slice :: "slice \<Rightarrow> 'a arrays \<Rightarrow> 'a arrays" where
  \<comment> \<open>\<open>for i := range s { s[i] = nil }\<close>\<close>
  "clear_slice sl h =
     h\<lparr>cells := (cells h)(sl_array sl := replicate (sl_len sl) None @ drop (sl_len sl) (cells h (sl_array sl)))\<rparr>"

definition slice_items :: "'a arrays \<Rightarrow> slice \<Rightarrow> 'a option list" where
  "slice_items h sl = take (sl_len sl) (cells h (sl_array sl))"

definition slice_ok :: "'a arrays \<Rightarrow> slice \<Rightarrow> bool" where
  \<comment> \<open>allocated, within its array, and nothing is kept behind its end\<close>
  "slice_ok h sl \<longleftrightarrow> sl_array sl < next_array h \<and> length (cells h (sl_array sl)) = sl_cap sl \<and>
     sl_len sl \<le> sl_cap sl \<and> drop (sl_len sl) (cells h (sl_array sl)) = replicate (sl_cap sl - sl_len sl) None"

definition owned :: "'a arrays \<Rightarrow> slice multiset \<Rightarrow> bool" where
  \<comment> \<open>no two of the slices share an array\<close>
  "owned h M \<longleftrightarrow> (\<forall>sl \<in># M. slice_ok h sl) \<and> (\<forall>p. count (image_mset sl_array M) p \<le> 1)"

definition only_changes :: "slice \<Rightarrow> 'a arrays \<Rightarrow> 'a arrays \<Rightarrow> bool" where
  \<comment> \<open>the arrays of other slices are left alone\<close>
  "only_changes sl h h' \<longleftrightarrow> next_array h \<le> next_array h' \<and>
     (\<forall>p. p < next_array h \<longrightarrow> p \<noteq> sl_array sl \<longrightarrow> cells h' p = cells h p)"

section \<open>One operation\<close>

lemma make_slice_ok:
  assumes "make_slice n h = (sl, h')"
  shows "slice_ok h' sl" "sl_array sl = next_array h" "next_array h' = next_array h + 1" "slice_items h' sl = []"
    "sl_len sl = 0" "sl_cap sl = n" "p < next_array h \<Longrightarrow> cells h' p = cells h p"
  using assms by (auto simp: make_slice_def slice_ok_def slice_items_def)

lemma append_slice_ok:
  assumes "slice_ok h sl" "append_slice grow x (sl, h) = (sl', h')"
  shows "slice_ok h' sl'" "slice_items h' sl' = slice_items h sl @ [Some x]" "only_changes sl h h'"
    "sl_array sl' = sl_array sl \<or> next_array h \<le> sl_array sl'" "sl_cap sl \<le> sl_cap sl'"
proof -
  let ?old = "cells h (sl_array sl)"
  have ok: "sl_array sl < next_array h" "length ?old = sl_cap sl" "sl_len sl \<le> sl_cap sl"
    "drop (sl_len sl) ?old = replicate (sl_cap sl - sl_len sl) None"
    using assms(1) by (auto simp: slice_ok_def)
  have "slice_ok h' sl' \<and> slice_items h' sl' = slice_items h sl @ [Some x] \<and> only_changes sl h h' \<and>
    (sl_array sl' = sl_array sl \<or> next_array h \<le> sl_array sl') \<and> sl_cap sl \<le> sl_cap sl'"
  proof (cases "sl_len sl < sl_cap sl")
    case True
    have "drop (Suc (sl_len sl)) ?old = tl (drop (sl_len sl) ?old)" by (simp add: drop_Suc drop_tl)
    also have "\<dots> = replicate (sl_cap sl - Suc (sl_len sl)) None" using True by (simp add: ok(4) flip: replicate_Suc)
    finally have "drop (Suc (sl_len sl)) ?old = replicate (sl_cap sl - Suc (sl_len sl)) None" .
    then show ?thesis using True assms(2) ok
      by (auto simp: append_slice_def Let_def slice_ok_def slice_items_def only_changes_def
          take_Suc_conv_app_nth list_update_beyond)
  next
    case False
    then have "sl_len sl = sl_cap sl" using ok(3) by simp
    then show ?thesis using assms(2) ok
      by (auto simp: append_slice_def Let_def slice_ok_def slice_items_def only_changes_def)
  qed
  then show "slice_ok h' sl'" "slice_items h' sl' = slice_items h sl @ [Some x]" "only_changes sl h h'"
    "sl_array sl' = sl_array sl \<or> next_array h \<le> sl_array sl'" "sl_cap sl \<le> sl_cap sl'" by auto
qed

lemma append_all_ok:
  assumes "slice_ok h sl" "append_all grow xs (sl, h) = (sl', h')"
  shows "slice_ok h' sl' \<and> slice_items h' sl' = slice_items h sl @ map Some xs \<and> only_changes sl h h' \<and>
    (sl_array sl' = sl_array sl \<or> next_array h \<le> sl_array sl') \<and> sl_cap sl \<le> sl_cap sl'"
  using assms
proof (induction xs arbitrary: sl h)
  case Nil
  then show ?case by (auto simp: append_all_def only_changes_def)
next
  case (Cons x xs)
  obtain sl1 h1 where one: "append_slice grow x (sl, h) = (sl1, h1)" by fastforce
  note ok = append_slice_ok [OF Cons.prems(1) one]
  have "append_all grow xs (sl1, h1) = (sl', h')" using Cons.prems(2) one by (simp add: append_all_def)
  note rest = Cons.IH [OF ok(1) this]
  have "only_changes sl h h'"
    using rest ok(3,4) unfolding only_changes_def by (metis le_trans less_le_trans linorder_not_le)
  then show ?case using rest ok by (auto simp: only_changes_def)
qed

lemma clear_slice_ok:
  assumes "slice_ok h sl"
  shows "slice_ok (clear_slice sl h) (sl\<lparr>sl_len := 0\<rparr>)" "only_changes sl h (clear_slice sl h)"
    "cells (clear_slice sl h) (sl_array sl) = replicate (sl_cap sl) None"
proof -
  have "replicate (sl_len sl) None @ drop (sl_len sl) (cells h (sl_array sl)) = replicate (sl_cap sl) None"
    using assms by (simp add: slice_ok_def flip: replicate_add)
  then show "slice_ok (clear_slice sl h) (sl\<lparr>sl_len := 0\<rparr>)" "only_changes sl h (clear_slice sl h)"
    "cells (clear_slice sl h) (sl_array sl) = replicate (sl_cap sl) None"
    using assms by (auto simp: clear_slice_def slice_ok_def only_changes_def)
qed

section \<open>One operation among many slices\<close>

lemma owned_empty [simp]: "owned h {#}"
  by (simp add: owned_def)

lemma owned_ok: "owned h M \<Longrightarrow> sl \<in># M \<Longrightarrow> slice_ok h sl"
  by (simp add: owned_def)

lemma owned_allocated: "owned h M \<Longrightarrow> sl \<in># M \<Longrightarrow> sl_array sl < next_array h"
  by (simp add: owned_def slice_ok_def)

lemma count_add_le_one:
  "(\<forall>p. count (add_mset x N) p \<le> 1) \<longleftrightarrow> (\<forall>p. count N p \<le> 1) \<and> x \<notin># N"
proof -
  have "count N x = 0 \<longleftrightarrow> x \<notin># N" by (rule count_eq_zero_iff)
  moreover have "(\<forall>p. count (add_mset x N) p \<le> 1) \<longleftrightarrow> (\<forall>p. p \<noteq> x \<longrightarrow> count N p \<le> 1) \<and> count N x = 0"
    by (metis Suc_le_mono count_add_mset le_zero_eq One_nat_def)
  ultimately show ?thesis by (metis le0)
qed

lemma owned_add:
  "owned h (add_mset sl M) \<longleftrightarrow> slice_ok h sl \<and> owned h M \<and> (\<forall>t. t \<in># M \<longrightarrow> sl_array t \<noteq> sl_array sl)"
  unfolding owned_def image_mset_add_mset count_add_le_one
  by (simp add: image_iff) (metis)

lemma owned_subset: "owned h M \<Longrightarrow> N \<subseteq># M \<Longrightarrow> owned h N"
  unfolding owned_def
  by (meson image_mset_subseteq_mono le_trans mset_subset_eqD mset_subset_eq_count)

lemma kept_slice:
  assumes "owned h (add_mset sl M)" "t \<in># M" "only_changes sl h h'"
  shows "slice_ok h' t" "slice_items h' t = slice_items h t" "cells h' (sl_array t) = cells h (sl_array t)"
proof -
  have t: "slice_ok h t" "sl_array t \<noteq> sl_array sl" using assms(1,2) owned_ok by (auto simp: owned_add)
  then show "cells h' (sl_array t) = cells h (sl_array t)" using assms(3) by (auto simp: only_changes_def slice_ok_def)
  then show "slice_ok h' t" "slice_items h' t = slice_items h t"
    using t assms(3) by (auto simp: slice_ok_def slice_items_def only_changes_def)
qed

lemma owned_replace:
  assumes "owned h (add_mset sl M)" "only_changes sl h h'" "slice_ok h' sl'"
    and "sl_array sl' = sl_array sl \<or> next_array h \<le> sl_array sl'"
  shows "owned h' (add_mset sl' M)"
proof -
  have M: "owned h M" "\<And>t. t \<in># M \<Longrightarrow> sl_array t \<noteq> sl_array sl \<and> sl_array t < next_array h"
    using assms(1) owned_allocated by (auto simp: owned_add)
  have "owned h' M"
    using M(1) kept_slice(1) [OF assms(1) _ assms(2)] by (simp add: owned_def)
  moreover have "\<forall>t. t \<in># M \<longrightarrow> sl_array t \<noteq> sl_array sl'" using M(2) assms(4) by fastforce
  ultimately show ?thesis using assms(3) by (simp add: owned_add)
qed

lemma owned_drop:
  assumes "owned h (add_mset sl M)" "only_changes sl h h'"
  shows "owned h' M"
proof -
  have "owned h M" using assms(1) by (simp add: owned_add)
  then show ?thesis using kept_slice(1) [OF assms(1) _ assms(2)] by (simp add: owned_def)
qed

lemma owned_make:
  assumes "owned h M" "make_slice n h = (sl, h')"
  shows "owned h' (add_mset sl M)" "t \<in># M \<Longrightarrow> slice_items h' t = slice_items h t"
    "t \<in># M \<Longrightarrow> cells h' (sl_array t) = cells h (sl_array t)"
proof -
  note new = make_slice_ok [OF assms(2)]
  have old: "slice_ok h t \<and> sl_array t < next_array h" if "t \<in># M" for t
    using owned_ok [OF assms(1) that] owned_allocated [OF assms(1) that] by simp
  have kept: "slice_ok h' t \<and> sl_array t \<noteq> sl_array sl" if "t \<in># M" for t
    using old [OF that] new(2,3,7) by (auto simp: slice_ok_def)
  then have "owned h' M" using assms(1) by (simp add: owned_def)
  then show "owned h' (add_mset sl M)" using new(1) kept by (simp add: owned_add)
  show "t \<in># M \<Longrightarrow> cells h' (sl_array t) = cells h (sl_array t)" using old new(7) by blast
  then show "t \<in># M \<Longrightarrow> slice_items h' t = slice_items h t" by (simp add: slice_items_def)
qed

end
