(* ===== verification/V6_Hub.thy ===== *)
theory V6_Hub
  imports V1_Hub Go_Slices
begin

text \<open>
  The sixth stage, \<open>v6/internal/ws\<close>: a hub that several servers share through Redis. The loop publishes a
  packet to the channel of its room, or broadcasts it locally when Redis is off or fails; a goroutine per
  room broadcasts what arrives on the channel. A broadcast copies the clients of the room into a slice from
  a pool, which a worker gives back after sending. Arrays are explicit (Go_Slices), because the code reuses
  them: a slice that two jobs shared would send to the wrong clients, or to nil.
\<close>

section \<open>Clients\<close>

definition v6_send_buffer_size :: nat where "v6_send_buffer_size = 128"
definition v6_max_message_bytes :: nat where "v6_max_message_bytes = 4 * 1024"

record v6_danmaku =
  d6_id :: u64
  d6_room_id :: string
  d6_user_id :: string
  d6_username :: string
  d6_content :: string
  d6_send_time :: zoned_time

record v6_codec =
  c6_dec_packet :: "string \<Rightarrow> packet option"
  c6_dec_danmaku :: "string \<Rightarrow> v6_danmaku option"
  c6_enc_packet :: "packet \<Rightarrow> string option"
  c6_enc_danmaku :: "v6_danmaku \<Rightarrow> string option"

definition v6_new_client :: "string \<Rightarrow> string \<Rightarrow> string \<Rightarrow> v1_client" where
  "v6_new_client u name room =
     \<lparr>c1_user = u, c1_name = name, c1_room = room, c1_send = make_chan v6_send_buffer_size, c1_done = False\<rparr>"

definition v6_serve_ws :: "string \<Rightarrow> string \<Rightarrow> string \<Rightarrow> bool \<Rightarrow> v1_answer" where
  \<comment> \<open>the query's uid, name and room, and whether the upgrade succeeds\<close>
  "v6_serve_ws uid_text name_text room_text upgraded =
     (let user = trim_space uid_text; name = trim_space name_text; room = trim_space room_text
      in if user = [] \<or> room = [] then V1_missing
         else if upgraded then V1_connected (v6_new_client user (if name = [] then user else name) room)
         else V1_not_upgraded)"

definition v6_handle_danmaku :: "v6_codec \<Rightarrow> v1_client \<Rightarrow> zoned_time \<Rightarrow> string \<Rightarrow> (v6_danmaku \<times> packet) option" where
  \<comment> \<open>what goes to \<open>EnqueuePersistence\<close> and then to \<open>Broadcast\<close>\<close>
  "v6_handle_danmaku cd c now data =
     (case c6_dec_danmaku cd data of
        None \<Rightarrow> None
      | Some input \<Rightarrow>
          (let text = trim_space (d6_content input);
               full = \<lparr>d6_id = 0, d6_room_id = c1_room c, d6_user_id = c1_user c, d6_username = c1_name c,
                       d6_content = text, d6_send_time = now\<rparr>
           in if text = [] then None
              else
                (case c6_enc_danmaku cd full of
                   None \<Rightarrow> None
                 | Some payload \<Rightarrow>
                     Some (full, \<lparr>packet_type = type_danmaku, packet_room_id = c1_room c, packet_data = payload\<rparr>))))"

definition v6_read :: "v6_codec \<Rightarrow> v1_client \<Rightarrow> zoned_time \<Rightarrow> string \<Rightarrow> (v6_danmaku \<times> packet) option" where
  \<comment> \<open>one message in \<open>ReadPump\<close>\<close>
  "v6_read cd c now raw =
     (case c6_dec_packet cd raw of
        None \<Rightarrow> None
      | Some p \<Rightarrow> if packet_type p = type_danmaku then v6_handle_danmaku cd c now (packet_data p) else None)"

section \<open>The manager\<close>

definition v6_broadcast_buffer_size :: nat where "v6_broadcast_buffer_size = 512"
definition v6_job_buffer_size :: nat where "v6_job_buffer_size = 1024"
definition v6_default_worker_count :: int where "v6_default_worker_count = 16"
definition v6_snapshot_initial_capacity :: nat where "v6_snapshot_initial_capacity = 256"
definition v6_max_snapshot_retain_cap :: nat where "v6_max_snapshot_retain_cap = 8192"

record v6_job =
  j6_room :: string
  j6_clients :: slice
  j6_payload :: string
  j6_members :: "nat list"
    \<comment> \<open>trace: the clients of the room when the job was made\<close>

datatype v6_hand =
    Free
  | Local string string \<comment> \<open>in \<open>enqueueLocalBroadcast\<close>, with the room and the payload\<close>
  | Holding v6_job \<comment> \<open>before its \<open>select\<close>\<close>

datatype v6_sub_phase = Sub_new | Sub_open | Sub_ended

record v6_sub =
  \<comment> \<open>a goroutine \<open>subscribeToRoom\<close> with its context\<close>
  s6_room :: string
  s6_cancelled :: bool
  s6_phase :: v6_sub_phase
  s6_hand :: v6_hand

record v6_counters =
  k6_fanout :: u64
  k6_enqueued_jobs :: u64
  k6_dropped_jobs :: u64
  k6_delivered :: u64
  k6_dropped :: u64
  k6_pool_gets :: u64
  k6_pool_puts :: u64
  k6_pool_news :: u64
  k6_pool_drops :: u64
  k6_persist_enqueued :: u64
  k6_persist_dropped :: u64
  k6_published :: u64
  k6_publish_errors :: u64
  k6_received :: u64
  k6_subscriptions :: u64
  k6_unsubscribes :: u64

definition v6_zero_counters :: v6_counters where
  "v6_zero_counters =
     \<lparr>k6_fanout = 0, k6_enqueued_jobs = 0, k6_dropped_jobs = 0, k6_delivered = 0, k6_dropped = 0,
      k6_pool_gets = 0, k6_pool_puts = 0, k6_pool_news = 0, k6_pool_drops = 0,
      k6_persist_enqueued = 0, k6_persist_dropped = 0, k6_published = 0, k6_publish_errors = 0,
      k6_received = 0, k6_subscriptions = 0, k6_unsubscribes = 0\<rparr>"

record ('p, 'r) v6_hub =
  h6_client :: "nat \<Rightarrow> v1_client"
  h6_phase :: "nat \<Rightarrow> v1_phase"
  h6_writing :: "nat \<Rightarrow> bool"
  h6_broadcast :: "packet chan"
  h6_run :: v6_hand
    \<comment> \<open>where the loop of \<open>Run\<close> is\<close>
  h6_jobs :: "v6_job chan"
  h6_workers :: "(v6_job \<times> nat) option list"
    \<comment> \<open>the job of each worker and the index it sends to next\<close>
  h6_persister :: "'p option"
  h6_redis :: "'r option"
  h6_rooms :: "(string, nat list) gomap"
  h6_cancel_sub :: "(string, nat) gomap"
  h6_subs :: "v6_sub list"
  h6_pool :: "slice list"
  h6_arrays :: "nat arrays"
  h6_count :: v6_counters
  h6_panic :: bool
    \<comment> \<open>a worker met a nil client\<close>
  h6_accepted :: "nat list list"
    \<comment> \<open>trace: the clients of the jobs that entered the queue\<close>
  h6_written :: "nat \<Rightarrow> string list"
    \<comment> \<open>trace: the frames handed to each connection\<close>

record ('p, 'r) v6_ports =
  p6_enqueue :: "v6_danmaku \<Rightarrow> 'p \<Rightarrow> 'p \<times> bool"
  p6_publish :: "string \<Rightarrow> string \<Rightarrow> 'r \<Rightarrow> 'r \<times> bool"
    \<comment> \<open>whether it fails\<close>
  p6_grow :: "nat \<Rightarrow> nat"
    \<comment> \<open>the capacity the runtime chooses when an array is full\<close>

abbreviation v6_bump :: "(v6_counters \<Rightarrow> v6_counters) \<Rightarrow> ('p, 'r) v6_hub \<Rightarrow> ('p, 'r) v6_hub" where
  "v6_bump f s \<equiv> s\<lparr>h6_count := f (h6_count s)\<rparr>"

definition v6_new_manager :: "int \<Rightarrow> 'p option \<Rightarrow> 'r option \<Rightarrow> ('p, 'r) v6_hub" where
  "v6_new_manager worker_count persister redis =
     (let n = (if worker_count \<le> 0 then v6_default_worker_count else worker_count)
      in \<lparr>h6_client = (\<lambda>_. v6_new_client [] [] []), h6_phase = (\<lambda>_. V1_absent), h6_writing = (\<lambda>_. False),
          h6_broadcast = make_chan v6_broadcast_buffer_size, h6_run = Free,
          h6_jobs = make_chan v6_job_buffer_size, h6_workers = replicate (nat n) None,
          h6_persister = persister, h6_redis = redis, h6_rooms = [], h6_cancel_sub = [], h6_subs = [],
          h6_pool = [], h6_arrays = no_arrays, h6_count = v6_zero_counters, h6_panic = False,
          h6_accepted = [], h6_written = (\<lambda>_. [])\<rparr>)"

definition v6_redis_enabled :: "('p, 'r) v6_hub \<Rightarrow> bool" where
  "v6_redis_enabled s \<longleftrightarrow> h6_redis s \<noteq> None"

definition v6_enqueue_persistence ::
  "('p, 'r) v6_ports \<Rightarrow> v6_danmaku \<Rightarrow> ('p, 'r) v6_hub \<Rightarrow> ('p, 'r) v6_hub" where
  "v6_enqueue_persistence pt m s =
     (case h6_persister s of
        None \<Rightarrow> s
      | Some p \<Rightarrow>
          (case p6_enqueue pt m p of
             (p, True) \<Rightarrow> v6_bump (\<lambda>k. k\<lparr>k6_persist_enqueued := k6_persist_enqueued k + 1\<rparr>) (s\<lparr>h6_persister := Some p\<rparr>)
           | (p, False) \<Rightarrow> v6_bump (\<lambda>k. k\<lparr>k6_persist_dropped := k6_persist_dropped k + 1\<rparr>) (s\<lparr>h6_persister := Some p\<rparr>)))"

section \<open>Rooms and subscriptions\<close>

definition v6_handle_register :: "nat \<Rightarrow> ('p, 'r) v6_hub \<Rightarrow> ('p, 'r) v6_hub" where
  \<comment> \<open>no goroutine is started for a room with an empty name\<close>
  "v6_handle_register a s =
     (let room = c1_room (h6_client s a);
          s = (if gm_has (h6_rooms s) room \<or> \<not> v6_redis_enabled s then s
               else s\<lparr>h6_cancel_sub := AList.update room (length (h6_subs s)) (h6_cancel_sub s),
                      h6_subs := h6_subs s @ [\<lparr>s6_room = room, s6_cancelled = False,
                        s6_phase = (if room = [] then Sub_ended else Sub_new), s6_hand = Free\<rparr>]\<rparr>)
      in s\<lparr>h6_rooms := join_room a room (h6_rooms s)\<rparr>)"

definition v6_cancel :: "string \<Rightarrow> ('p, 'r) v6_hub \<Rightarrow> ('p, 'r) v6_hub" where
  "v6_cancel room s =
     (case map_of (h6_cancel_sub s) room of
        None \<Rightarrow> s
      | Some i \<Rightarrow>
          v6_bump (\<lambda>k. k\<lparr>k6_unsubscribes := k6_unsubscribes k + 1\<rparr>)
            (s\<lparr>h6_cancel_sub := AList.delete room (h6_cancel_sub s),
               h6_subs := (h6_subs s)[i := (h6_subs s ! i)\<lparr>s6_cancelled := True\<rparr>]\<rparr>))"

definition v6_handle_unregister :: "nat \<Rightarrow> ('p, 'r) v6_hub \<Rightarrow> ('p, 'r) v6_hub" where
  "v6_handle_unregister a s =
     (let room = c1_room (h6_client s a)
      in (case map_of (h6_rooms s) room of
            None \<Rightarrow> s
          | Some clients \<Rightarrow>
              if a \<notin> set clients then s
              else
                (let s = s\<lparr>h6_client := (h6_client s)(a := v1_close (h6_client s a)),
                           h6_rooms := leave_room a room (h6_rooms s)\<rparr>
                 in if remove1 a clients = [] then v6_cancel room s else s)))"

section \<open>Broadcasting\<close>

definition v6_room_channel :: "string \<Rightarrow> string" where
  "v6_room_channel room = ''v6:room:'' @ room @ '':pubsub''"

definition v6_handle_broadcast ::
  "v6_codec \<Rightarrow> ('p, 'r) v6_ports \<Rightarrow> packet \<Rightarrow> ('p, 'r) v6_hub \<Rightarrow> ('p, 'r) v6_hub" where
  \<comment> \<open>up to the call of \<open>enqueueLocalBroadcast\<close>, if there is one\<close>
  "v6_handle_broadcast cd pt p s =
     (case c6_enc_packet cd p of
        None \<Rightarrow> s
      | Some payload \<Rightarrow>
          (case h6_redis s of
             None \<Rightarrow> s\<lparr>h6_run := Local (packet_room_id p) payload\<rparr>
           | Some r \<Rightarrow>
               (case p6_publish pt (v6_room_channel (packet_room_id p)) payload r of
                  (r, True) \<Rightarrow>
                    v6_bump (\<lambda>k. k\<lparr>k6_publish_errors := k6_publish_errors k + 1\<rparr>)
                      (s\<lparr>h6_redis := Some r, h6_run := Local (packet_room_id p) payload\<rparr>)
                | (r, False) \<Rightarrow>
                    v6_bump (\<lambda>k. k\<lparr>k6_published := k6_published k + 1\<rparr>) (s\<lparr>h6_redis := Some r\<rparr>))))"

definition v6_pool_get :: "nat option \<Rightarrow> ('p, 'r) v6_hub \<Rightarrow> ('p, 'r) v6_hub \<times> slice" where
  \<comment> \<open>\<open>Get\<close> gives any slice of the pool, or a new one, also while there are some\<close>
  "v6_pool_get pick s =
     (let (s, sl) =
        (case pick of
           Some k \<Rightarrow>
             if k < length (h6_pool s)
             then (s\<lparr>h6_pool := take k (h6_pool s) @ drop (k + 1) (h6_pool s)\<rparr>, h6_pool s ! k)
             else (case make_slice v6_snapshot_initial_capacity (h6_arrays s) of
                     (sl, h) \<Rightarrow> (v6_bump (\<lambda>k. k\<lparr>k6_pool_news := k6_pool_news k + 1\<rparr>) (s\<lparr>h6_arrays := h\<rparr>), sl))
         | None \<Rightarrow>
             (case make_slice v6_snapshot_initial_capacity (h6_arrays s) of
                (sl, h) \<Rightarrow> (v6_bump (\<lambda>k. k\<lparr>k6_pool_news := k6_pool_news k + 1\<rparr>) (s\<lparr>h6_arrays := h\<rparr>), sl)))
      in (v6_bump (\<lambda>k. k\<lparr>k6_pool_gets := k6_pool_gets k + 1\<rparr>) s, sl\<lparr>sl_len := 0\<rparr>))"

definition v6_members :: "string \<Rightarrow> ('p, 'r) v6_hub \<Rightarrow> nat list" where
  "v6_members room s = gm_get [] (h6_rooms s) room"

definition v6_snapshot_room_clients ::
  "('p, 'r) v6_ports \<Rightarrow> nat option \<Rightarrow> nat list \<Rightarrow> ('p, 'r) v6_hub \<Rightarrow> ('p, 'r) v6_hub \<times> slice option" where
  \<comment> \<open>with the clients of the room in the order the map gives them; \<open>None\<close> is the nil slice\<close>
  "v6_snapshot_room_clients pt pick order s =
     (if order = [] then (s, None)
      else
        (case v6_pool_get pick s of
           (s, sl) \<Rightarrow>
             (case append_all (p6_grow pt) order (sl, h6_arrays s) of
                (sl, h) \<Rightarrow> (s\<lparr>h6_arrays := h\<rparr>, Some sl))))"

definition v6_release_snapshot :: "slice option \<Rightarrow> ('p, 'r) v6_hub \<Rightarrow> ('p, 'r) v6_hub" where
  "v6_release_snapshot clients s =
     (case clients of
        None \<Rightarrow> s
      | Some sl \<Rightarrow>
          if sl_cap sl > v6_max_snapshot_retain_cap
          then v6_bump (\<lambda>k. k\<lparr>k6_pool_drops := k6_pool_drops k + 1\<rparr>) s
          else v6_bump (\<lambda>k. k\<lparr>k6_pool_puts := k6_pool_puts k + 1\<rparr>)
                 (s\<lparr>h6_arrays := clear_slice sl (h6_arrays s), h6_pool := h6_pool s @ [sl\<lparr>sl_len := 0\<rparr>]\<rparr>))"

definition v6_hand_of :: "nat option \<Rightarrow> ('p, 'r) v6_hub \<Rightarrow> v6_hand" where
  \<comment> \<open>the loop, or a subscription\<close>
  "v6_hand_of who s = (case who of None \<Rightarrow> h6_run s | Some i \<Rightarrow> s6_hand (h6_subs s ! i))"

definition v6_put :: "nat option \<Rightarrow> v6_hand \<Rightarrow> ('p, 'r) v6_hub \<Rightarrow> ('p, 'r) v6_hub" where
  "v6_put who hand s =
     (case who of
        None \<Rightarrow> s\<lparr>h6_run := hand\<rparr>
      | Some i \<Rightarrow> s\<lparr>h6_subs := (h6_subs s)[i := (h6_subs s ! i)\<lparr>s6_hand := hand\<rparr>]\<rparr>)"

definition v6_start_local_broadcast ::
  "('p, 'r) v6_ports \<Rightarrow> nat option \<Rightarrow> nat list \<Rightarrow> string \<Rightarrow> string \<Rightarrow> nat option \<Rightarrow> ('p, 'r) v6_hub \<Rightarrow> ('p, 'r) v6_hub" where
  \<comment> \<open>\<open>enqueueLocalBroadcast\<close> up to its \<open>select\<close>\<close>
  "v6_start_local_broadcast pt pick order room payload who s =
     (case v6_snapshot_room_clients pt pick order s of
        (s, None) \<Rightarrow> v6_put who Free (v6_release_snapshot None s)
      | (s, Some sl) \<Rightarrow>
          v6_put who (Holding \<lparr>j6_room = room, j6_clients = sl, j6_payload = payload, j6_members = order\<rparr>)
            (v6_bump (\<lambda>k. k\<lparr>k6_fanout := k6_fanout k + 1\<rparr>) s))"

definition v6_enqueue_job :: "v6_job \<Rightarrow> nat option \<Rightarrow> ('p, 'r) v6_hub \<Rightarrow> ('p, 'r) v6_hub" where
  \<comment> \<open>the \<open>select\<close> of \<open>enqueueLocalBroadcast\<close>\<close>
  "v6_enqueue_job job who s =
     (case try_send (h6_jobs s) job of
        Some ch \<Rightarrow>
          v6_put who Free (v6_bump (\<lambda>k. k\<lparr>k6_enqueued_jobs := k6_enqueued_jobs k + 1\<rparr>)
            (s\<lparr>h6_jobs := ch, h6_accepted := h6_accepted s @ [j6_members job]\<rparr>))
      | None \<Rightarrow>
          v6_put who Free (v6_release_snapshot (Some (j6_clients job))
            (v6_bump (\<lambda>k. k\<lparr>k6_dropped_jobs := k6_dropped_jobs k + 1\<rparr>) s)))"

definition v6_safe_send :: "nat \<Rightarrow> string \<Rightarrow> ('p, 'r) v6_hub \<Rightarrow> ('p, 'r) v6_hub" where
  "v6_safe_send a payload s =
     (case try_send (c1_send (h6_client s a)) payload of
        Some ch \<Rightarrow>
          v6_bump (\<lambda>k. k\<lparr>k6_delivered := k6_delivered k + 1\<rparr>)
            (s\<lparr>h6_client := (h6_client s)(a := (h6_client s a)\<lparr>c1_send := ch\<rparr>)\<rparr>)
      | None \<Rightarrow> v6_bump (\<lambda>k. k\<lparr>k6_dropped := k6_dropped k + 1\<rparr>) s)"

definition v6_take_job :: "nat \<Rightarrow> ('p, 'r) v6_hub \<Rightarrow> ('p, 'r) v6_hub option" where
  \<comment> \<open>worker \<open>w\<close> receives from \<open>broadcastJobs\<close>\<close>
  "v6_take_job w s =
     (case chan_recv (h6_jobs s) of
        None \<Rightarrow> None
      | Some (job, ch) \<Rightarrow> Some (s\<lparr>h6_jobs := ch, h6_workers := (h6_workers s)[w := Some (job, 0)]\<rparr>))"

definition v6_work :: "nat \<Rightarrow> ('p, 'r) v6_hub \<Rightarrow> ('p, 'r) v6_hub option" where
  \<comment> \<open>worker \<open>w\<close> reads the next element of its slice and sends, or gives the slice back\<close>
  "v6_work w s =
     (case h6_workers s ! w of
        None \<Rightarrow> None
      | Some (job, i) \<Rightarrow>
          if i < sl_len (j6_clients job)
          then
            (case cells (h6_arrays s) (sl_array (j6_clients job)) ! i of
               None \<Rightarrow> Some (s\<lparr>h6_panic := True\<rparr>)
             | Some a \<Rightarrow>
                 Some ((v6_safe_send a (j6_payload job) s)\<lparr>h6_workers := (h6_workers s)[w := Some (job, i + 1)]\<rparr>))
          else Some (v6_release_snapshot (Some (j6_clients job)) (s\<lparr>h6_workers := (h6_workers s)[w := None]\<rparr>)))"

definition v6_write :: "nat \<Rightarrow> bool \<Rightarrow> ('p, 'r) v6_hub \<Rightarrow> ('p, 'r) v6_hub option" where
  \<comment> \<open>one round of \<open>WritePump\<close> that takes a message; an error of the socket ends the pump\<close>
  "v6_write a ok s =
     (case chan_recv (c1_send (h6_client s a)) of
        None \<Rightarrow> None
      | Some (payload, ch) \<Rightarrow>
          (let c = (h6_client s a)\<lparr>c1_send := ch\<rparr>
           in Some (if ok
                then s\<lparr>h6_client := (h6_client s)(a := c),
                       h6_written := (h6_written s)(a := h6_written s a @ [payload])\<rparr>
                else s\<lparr>h6_client := (h6_client s)(a := v1_close c), h6_writing := (h6_writing s)(a := False)\<rparr>)))"

definition v6_subscribe :: "nat \<Rightarrow> ('p, 'r) v6_hub \<Rightarrow> ('p, 'r) v6_hub" where
  "v6_subscribe i s =
     v6_bump (\<lambda>k. k\<lparr>k6_subscriptions := k6_subscriptions k + 1\<rparr>)
       (s\<lparr>h6_subs := (h6_subs s)[i := (h6_subs s ! i)\<lparr>s6_phase := Sub_open\<rparr>]\<rparr>)"

definition v6_receive :: "nat \<Rightarrow> string \<Rightarrow> ('p, 'r) v6_hub \<Rightarrow> ('p, 'r) v6_hub" where
  "v6_receive i payload s =
     v6_put (Some i) (Local (s6_room (h6_subs s ! i)) payload)
       (v6_bump (\<lambda>k. k\<lparr>k6_received := k6_received k + 1\<rparr>) s)"

definition v6_end_sub :: "nat \<Rightarrow> ('p, 'r) v6_hub \<Rightarrow> ('p, 'r) v6_hub" where
  \<comment> \<open>the context is cancelled or the channel closed\<close>
  "v6_end_sub i s = s\<lparr>h6_subs := (h6_subs s)[i := (h6_subs s ! i)\<lparr>s6_phase := Sub_ended\<rparr>]\<rparr>"

section \<open>Metrics\<close>

record v6_memory =
  \<comment> \<open>what the runtime reports\<close>
  mem_goroutines :: nat
  mem_alloc :: u64
  mem_total_alloc :: u64
  mem_num_gc :: u32

record v6_metrics =
  m6_rooms :: nat
  m6_clients :: nat
  m6_worker_count :: nat
  m6_broadcast_queue_len :: nat
  m6_broadcast_queue_cap :: nat
  m6_job_queue_len :: nat
  m6_job_queue_cap :: nat
  m6_counters :: v6_counters
  m6_redis_enabled :: bool
  m6_memory :: v6_memory

definition v6_metrics_of :: "v6_memory \<Rightarrow> ('p, 'r) v6_hub \<Rightarrow> v6_metrics" where
  "v6_metrics_of mem s =
     \<lparr>m6_rooms = length (h6_rooms s), m6_clients = sum_list (map (\<lambda>(room, clients). length clients) (h6_rooms s)),
      m6_worker_count = length (h6_workers s),
      m6_broadcast_queue_len = length (chan_buf (h6_broadcast s)), m6_broadcast_queue_cap = chan_cap (h6_broadcast s),
      m6_job_queue_len = length (chan_buf (h6_jobs s)), m6_job_queue_cap = chan_cap (h6_jobs s),
      m6_counters = h6_count s, m6_redis_enabled = v6_redis_enabled s, m6_memory = mem\<rparr>"

section \<open>The system\<close>

abbreviation v6_to :: "nat \<Rightarrow> v1_phase \<Rightarrow> ('p, 'r) v6_hub \<Rightarrow> ('p, 'r) v6_hub" where
  "v6_to a ph s \<equiv> s\<lparr>h6_phase := (h6_phase s)(a := ph)\<rparr>"

definition v6_broadcaster :: "nat option \<Rightarrow> ('p, 'r) v6_hub \<Rightarrow> bool" where
  "v6_broadcaster who s \<longleftrightarrow> (case who of None \<Rightarrow> True | Some i \<Rightarrow> i < length (h6_subs s))"

definition v6_listening :: "nat \<Rightarrow> ('p, 'r) v6_hub \<Rightarrow> bool" where
  "v6_listening i s \<longleftrightarrow> i < length (h6_subs s) \<and> s6_phase (h6_subs s ! i) = Sub_open \<and> s6_hand (h6_subs s ! i) = Free"

inductive v6_step :: "v6_codec \<Rightarrow> ('p, 'r) v6_ports \<Rightarrow> ('p, 'r) v6_hub \<Rightarrow> ('p, 'r) v6_hub \<Rightarrow> bool" for cd pt where
  connects: "h6_phase s a = V1_absent \<Longrightarrow> v6_serve_ws u name room True = V1_connected c \<Longrightarrow>
    v6_step cd pt s (v6_to a V1_joining (s\<lparr>h6_client := (h6_client s)(a := c)\<rparr>))"
| registers: "h6_phase s a = V1_joining \<Longrightarrow> h6_run s = Free \<Longrightarrow>
    v6_step cd pt s (v6_to a V1_reading ((v6_handle_register a s)\<lparr>h6_writing := (h6_writing s)(a := True)\<rparr>))"
| reads: "h6_phase s a = V1_reading \<Longrightarrow> length raw \<le> v6_max_message_bytes \<Longrightarrow>
    v6_read cd (h6_client s a) now raw = Some (m, p) \<Longrightarrow>
    v6_step cd pt s (v6_to a (V1_posting p) (v6_enqueue_persistence pt m s))"
| posts: "h6_phase s a = V1_posting p \<Longrightarrow> try_send (h6_broadcast s) p = Some ch \<Longrightarrow>
    v6_step cd pt s (v6_to a V1_reading (s\<lparr>h6_broadcast := ch\<rparr>))"
| stops: "h6_phase s a = V1_reading \<Longrightarrow> v6_step cd pt s (v6_to a V1_leaving s)"
| unregisters: "h6_phase s a = V1_leaving \<Longrightarrow> h6_run s = Free \<Longrightarrow>
    v6_step cd pt s (v6_to a V1_closing (v6_handle_unregister a s))"
| closes: "h6_phase s a = V1_closing \<Longrightarrow>
    v6_step cd pt s (v6_to a V1_left (s\<lparr>h6_client := (h6_client s)(a := v1_close (h6_client s a))\<rparr>))"
| broadcasts: "h6_run s = Free \<Longrightarrow> chan_recv (h6_broadcast s) = Some (p, ch) \<Longrightarrow>
    v6_step cd pt s (v6_handle_broadcast cd pt p (s\<lparr>h6_broadcast := ch\<rparr>))"
| subscribes: "i < length (h6_subs s) \<Longrightarrow> s6_phase (h6_subs s ! i) = Sub_new \<Longrightarrow> v6_step cd pt s (v6_subscribe i s)"
| receives: "v6_listening i s \<Longrightarrow> v6_step cd pt s (v6_receive i payload s)"
| sub_ends: "v6_listening i s \<Longrightarrow> v6_step cd pt s (v6_end_sub i s)"
| snapshots: "v6_broadcaster who s \<Longrightarrow> v6_hand_of who s = Local room payload \<Longrightarrow>
    mset order = mset (v6_members room s) \<Longrightarrow>
    v6_step cd pt s (v6_start_local_broadcast pt pick order room payload who s)"
| enqueues: "v6_broadcaster who s \<Longrightarrow> v6_hand_of who s = Holding job \<Longrightarrow> v6_step cd pt s (v6_enqueue_job job who s)"
| takes_job: "w < length (h6_workers s) \<Longrightarrow> h6_workers s ! w = None \<Longrightarrow> v6_take_job w s = Some s' \<Longrightarrow> v6_step cd pt s s'"
| works: "w < length (h6_workers s) \<Longrightarrow> v6_work w s = Some s' \<Longrightarrow> v6_step cd pt s s'"
| writes: "h6_writing s a \<Longrightarrow> v6_write a ok s = Some s' \<Longrightarrow> v6_step cd pt s s'"
| pump_ends: "h6_writing s a \<Longrightarrow> c1_done (h6_client s a) \<Longrightarrow>
    v6_step cd pt s (s\<lparr>h6_writing := (h6_writing s)(a := False)\<rparr>)"
| collects: "mset kept \<subseteq># mset (h6_pool s) \<Longrightarrow> v6_step cd pt s (s\<lparr>h6_pool := kept\<rparr>)"
    \<comment> \<open>the garbage collector empties pools\<close>

abbreviation v6_reachable ::
  "v6_codec \<Rightarrow> ('p, 'r) v6_ports \<Rightarrow> int \<Rightarrow> 'p option \<Rightarrow> 'r option \<Rightarrow> ('p, 'r) v6_hub \<Rightarrow> bool" where
  "v6_reachable cd pt n p r s \<equiv> (v6_step cd pt)\<^sup>*\<^sup>* (v6_new_manager n p r) s"

section \<open>The slices in use\<close>

fun v6_hand_jobs :: "v6_hand \<Rightarrow> v6_job multiset" where
  "v6_hand_jobs (Holding job) = {#job#}"
| "v6_hand_jobs hand = {#}"

fun v6_worker_jobs :: "(v6_job \<times> nat) option \<Rightarrow> v6_job multiset" where
  "v6_worker_jobs (Some (job, i)) = {#job#}"
| "v6_worker_jobs None = {#}"

definition v6_flying :: "('p, 'r) v6_hub \<Rightarrow> v6_job multiset" where
  \<comment> \<open>the jobs in the hands of the loop and the subscriptions, in the queue and with the workers\<close>
  "v6_flying s = v6_hand_jobs (h6_run s) + sum_list (map (\<lambda>sub. v6_hand_jobs (s6_hand sub)) (h6_subs s)) +
     mset (chan_buf (h6_jobs s)) + sum_list (map v6_worker_jobs (h6_workers s))"

definition v6_slices :: "('p, 'r) v6_hub \<Rightarrow> slice multiset" where
  "v6_slices s = mset (h6_pool s) + image_mset j6_clients (v6_flying s)"

definition v6_job_ok :: "nat arrays \<Rightarrow> v6_job \<Rightarrow> bool" where
  "v6_job_ok h job \<longleftrightarrow> slice_items h (j6_clients job) = map Some (j6_members job) \<and>
     j6_members job \<noteq> [] \<and> v6_snapshot_initial_capacity \<le> sl_cap (j6_clients job)"

definition v6_pooled_ok :: "slice \<Rightarrow> bool" where
  "v6_pooled_ok sl \<longleftrightarrow> sl_len sl = 0 \<and> v6_snapshot_initial_capacity \<le> sl_cap sl \<and> sl_cap sl \<le> v6_max_snapshot_retain_cap"

definition v6_mem_ok :: "nat arrays \<Rightarrow> slice list \<Rightarrow> v6_job multiset \<Rightarrow> bool" where
  "v6_mem_ok h pool jobs \<longleftrightarrow> owned h (mset pool + image_mset j6_clients jobs) \<and>
     (\<forall>job. job \<in># jobs \<longrightarrow> v6_job_ok h job) \<and> (\<forall>sl \<in> set pool. v6_pooled_ok sl)"

definition v6_memory_ok :: "('p, 'r) v6_hub \<Rightarrow> bool" where
  "v6_memory_ok s \<longleftrightarrow> v6_mem_ok (h6_arrays s) (h6_pool s) (v6_flying s) \<and> \<not> h6_panic s \<and>
     (\<forall>w job i. w < length (h6_workers s) \<longrightarrow> h6_workers s ! w = Some (job, i) \<longrightarrow> i \<le> length (j6_members job))"

lemma sum_list_replace:
  fixes f :: "'b \<Rightarrow> 'c :: comm_monoid_add"
  assumes "i < length xs"
  shows "sum_list (map f (xs[i := x])) + f (xs ! i) = sum_list (map f xs) + f x"
proof -
  have xs: "xs = take i xs @ xs ! i # drop (Suc i) xs" using assms by (rule id_take_nth_drop)
  have "sum_list (map f xs) = sum_list (map f (take i xs)) + (f (xs ! i) + sum_list (map f (drop (Suc i) xs)))"
    by (subst xs) simp
  then show ?thesis using assms by (simp add: upd_conv_take_nth_drop ac_simps)
qed

lemma v6_job_len: "owned h (M + image_mset j6_clients jobs) \<Longrightarrow> job \<in># jobs \<Longrightarrow> v6_job_ok h job \<Longrightarrow>
    sl_len (j6_clients job) = length (j6_members job)"
proof -
  assume a: "owned h (M + image_mset j6_clients jobs)" "job \<in># jobs" "v6_job_ok h job"
  then have "slice_ok h (j6_clients job)" by (intro owned_ok [OF a(1)]) auto
  then have "length (slice_items h (j6_clients job)) = sl_len (j6_clients job)" by (simp add: slice_items_def slice_ok_def)
  then show ?thesis using a(3) by (simp add: v6_job_ok_def)
qed

lemma v6_mem_release:
  assumes "v6_mem_ok h pool (add_mset job jobs)"
  shows "v6_mem_ok h pool jobs"
    and "sl_cap (j6_clients job) \<le> v6_max_snapshot_retain_cap \<Longrightarrow>
      v6_mem_ok (clear_slice (j6_clients job) h) (pool @ [(j6_clients job)\<lparr>sl_len := 0\<rparr>]) jobs"
proof -
  let ?M = "mset pool + image_mset j6_clients jobs" and ?sl = "j6_clients job"
  have o: "owned h (add_mset ?sl ?M)" and j: "\<And>job'. job' \<in># add_mset job jobs \<Longrightarrow> v6_job_ok h job'"
    and p: "\<And>sl. sl \<in> set pool \<Longrightarrow> v6_pooled_ok sl"
    using assms by (auto simp: v6_mem_ok_def)
  show "v6_mem_ok h pool jobs" using o j p by (auto simp: v6_mem_ok_def owned_add)
  assume cap: "sl_cap ?sl \<le> v6_max_snapshot_retain_cap"
  note clear = clear_slice_ok [of h ?sl] and ok = o [unfolded owned_add, THEN conjunct1]
  have "owned (clear_slice ?sl h) (add_mset (?sl\<lparr>sl_len := 0\<rparr>) ?M)"
    using owned_replace [OF o clear(2) [OF ok] clear(1) [OF ok]] by simp
  moreover have "v6_job_ok (clear_slice ?sl h) job'" if "job' \<in># jobs" for job'
    using j [of job'] kept_slice(2) [OF o _ clear(2) [OF ok], of "j6_clients job'"] that by (simp add: v6_job_ok_def)
  moreover have "v6_pooled_ok (?sl\<lparr>sl_len := 0\<rparr>)"
    using cap j [of job] by (simp add: v6_pooled_ok_def v6_job_ok_def)
  ultimately show "v6_mem_ok (clear_slice ?sl h) (pool @ [?sl\<lparr>sl_len := 0\<rparr>]) jobs"
    using p by (auto simp: v6_mem_ok_def)
qed

lemma v6_mem_fill:
  assumes "owned h (add_mset sl (mset pool + image_mset j6_clients jobs))" "sl_len sl = 0"
    and "v6_snapshot_initial_capacity \<le> sl_cap sl" "\<And>job. job \<in># jobs \<Longrightarrow> v6_job_ok h job"
    and "\<And>sl. sl \<in> set pool \<Longrightarrow> v6_pooled_ok sl"
    and "append_all grow order (sl, h) = (sl', h')" "order \<noteq> []"
  shows "v6_mem_ok h' pool (add_mset \<lparr>j6_room = room, j6_clients = sl', j6_payload = payload, j6_members = order\<rparr> jobs)"
proof -
  have ok: "slice_ok h sl" using assms(1) by (simp add: owned_add)
  have "slice_items h sl = []" using assms(2) by (simp add: slice_items_def)
  note fill = append_all_ok [OF ok assms(6), unfolded this]
  have "owned h' (add_mset sl' (mset pool + image_mset j6_clients jobs))"
    using fill by (intro owned_replace [OF assms(1)]) auto
  moreover have "v6_job_ok h' job" if "job \<in># jobs" for job
    using assms(4) [OF that] kept_slice(2) [OF assms(1), of "j6_clients job" h'] fill that by (simp add: v6_job_ok_def)
  ultimately show ?thesis using fill assms(3,5,7) by (auto simp: v6_mem_ok_def v6_job_ok_def)
qed

section \<open>Slices stay apart\<close>

lemma v6_put_frames [frame_simps]:
  "h6_pool (v6_put who hand s) = h6_pool s" "h6_arrays (v6_put who hand s) = h6_arrays s"
  "h6_jobs (v6_put who hand s) = h6_jobs s" "h6_workers (v6_put who hand s) = h6_workers s"
  "h6_panic (v6_put who hand s) = h6_panic s" "h6_count (v6_put who hand s) = h6_count s"
  "h6_accepted (v6_put who hand s) = h6_accepted s" "h6_rooms (v6_put who hand s) = h6_rooms s"
  "h6_redis (v6_put who hand s) = h6_redis s" "h6_cancel_sub (v6_put who hand s) = h6_cancel_sub s"
  "h6_client (v6_put who hand s) = h6_client s" "h6_phase (v6_put who hand s) = h6_phase s"
  "h6_writing (v6_put who hand s) = h6_writing s" "length (h6_subs (v6_put who hand s)) = length (h6_subs s)"
  by (auto simp: v6_put_def split: option.split)

lemma v6_flying_put:
  assumes "v6_broadcaster who s"
  shows "v6_flying (v6_put who hand s) + v6_hand_jobs (v6_hand_of who s) = v6_flying s + v6_hand_jobs hand"
proof (cases who)
  case None
  then show ?thesis by (simp add: v6_put_def v6_hand_of_def v6_flying_def)
next
  case (Some i)
  then have "i < length (h6_subs s)" using assms by (simp add: v6_broadcaster_def)
  from sum_list_replace [OF this, of "\<lambda>sub. v6_hand_jobs (s6_hand sub)" "(h6_subs s ! i)\<lparr>s6_hand := hand\<rparr>"]
  show ?thesis using Some by (simp add: v6_put_def v6_hand_of_def v6_flying_def ac_simps)
qed

lemma v6_flying_same:
  assumes "h6_run s' = h6_run s" "h6_subs s' = h6_subs s" "h6_jobs s' = h6_jobs s" "h6_workers s' = h6_workers s"
  shows "v6_flying s' = v6_flying s"
  using assms by (simp add: v6_flying_def)

lemma v6_flying_updates [simp]:
  "v6_flying (s\<lparr>h6_phase := x1\<rparr>) = v6_flying s" "v6_flying (s\<lparr>h6_client := x2\<rparr>) = v6_flying s"
  "v6_flying (s\<lparr>h6_writing := x3\<rparr>) = v6_flying s" "v6_flying (s\<lparr>h6_broadcast := x4\<rparr>) = v6_flying s"
  "v6_flying (s\<lparr>h6_count := x5\<rparr>) = v6_flying s" "v6_flying (s\<lparr>h6_pool := x6\<rparr>) = v6_flying s"
  by (simp_all add: v6_flying_def)

lemma v6_pool_get_frames:
  assumes "v6_pool_get pick s = (s', sl)"
  shows "h6_run s' = h6_run s" "h6_subs s' = h6_subs s" "h6_jobs s' = h6_jobs s" "h6_workers s' = h6_workers s"
    "h6_panic s' = h6_panic s" "h6_accepted s' = h6_accepted s"
    "k6_pool_gets (h6_count s') = k6_pool_gets (h6_count s) + 1"
    "k6_pool_puts (h6_count s') = k6_pool_puts (h6_count s)" "k6_pool_drops (h6_count s') = k6_pool_drops (h6_count s)"
    "k6_fanout (h6_count s') = k6_fanout (h6_count s)" "k6_enqueued_jobs (h6_count s') = k6_enqueued_jobs (h6_count s)"
    "k6_dropped_jobs (h6_count s') = k6_dropped_jobs (h6_count s)"
    "k6_delivered (h6_count s') = k6_delivered (h6_count s)" "k6_dropped (h6_count s') = k6_dropped (h6_count s)"
    "k6_unsubscribes (h6_count s') = k6_unsubscribes (h6_count s)"
    "k6_subscriptions (h6_count s') = k6_subscriptions (h6_count s)"
    "h6_rooms s' = h6_rooms s" "h6_redis s' = h6_redis s" "h6_cancel_sub s' = h6_cancel_sub s"
    "h6_client s' = h6_client s" "h6_phase s' = h6_phase s" "h6_writing s' = h6_writing s"
  using assms by (auto simp: v6_pool_get_def Let_def split: option.splits if_splits prod.splits)

lemma mset_take_nth: "k < length xs \<Longrightarrow> mset xs = add_mset (xs ! k) (mset (take k xs @ drop (Suc k) xs))"
  using arg_cong [OF id_take_nth_drop [of k xs], of mset] by simp

lemma v6_pool_get_mem:
  assumes "v6_mem_ok (h6_arrays s) (h6_pool s) F" "v6_pool_get pick s = (s', sl)"
  shows "owned (h6_arrays s') (add_mset sl (mset (h6_pool s') + image_mset j6_clients F))" "sl_len sl = 0"
    "v6_snapshot_initial_capacity \<le> sl_cap sl" "\<And>job. job \<in># F \<Longrightarrow> v6_job_ok (h6_arrays s') job"
    "\<And>sl. sl \<in> set (h6_pool s') \<Longrightarrow> v6_pooled_ok sl"
proof -
  have o: "owned (h6_arrays s) (mset (h6_pool s) + image_mset j6_clients F)"
    and j: "\<And>job. job \<in># F \<Longrightarrow> v6_job_ok (h6_arrays s) job" and p: "\<And>sl. sl \<in> set (h6_pool s) \<Longrightarrow> v6_pooled_ok sl"
    using assms(1) by (auto simp: v6_mem_ok_def)
  have "owned (h6_arrays s') (add_mset sl (mset (h6_pool s') + image_mset j6_clients F)) \<and> sl_len sl = 0 \<and>
    v6_snapshot_initial_capacity \<le> sl_cap sl \<and> (\<forall>job. job \<in># F \<longrightarrow> v6_job_ok (h6_arrays s') job) \<and>
    (\<forall>sl. sl \<in> set (h6_pool s') \<longrightarrow> v6_pooled_ok sl)"
  proof (cases "\<exists>k. pick = Some k \<and> k < length (h6_pool s)")
    case True
    then obtain k where k: "pick = Some k" "k < length (h6_pool s)" by blast
    have s': "h6_pool s' = take k (h6_pool s) @ drop (Suc k) (h6_pool s)" "h6_arrays s' = h6_arrays s"
      "sl = (h6_pool s ! k)\<lparr>sl_len := 0\<rparr>" using assms(2) k by (auto simp: v6_pool_get_def Let_def)
    have sl: "v6_pooled_ok (h6_pool s ! k)" using p k(2) by simp
    then have "sl = h6_pool s ! k" by (simp add: s'(3) v6_pooled_ok_def)
    then show ?thesis using o j p sl s' mset_take_nth [OF k(2)]
      by (auto simp: v6_pooled_ok_def dest: in_set_takeD in_set_dropD)
  next
    case False
    obtain h t where new: "make_slice v6_snapshot_initial_capacity (h6_arrays s) = (t, h)" by fastforce
    note ok = make_slice_ok [OF new] and others = owned_make [OF o new]
    have s': "h6_pool s' = h6_pool s" "h6_arrays s' = h" "sl = t\<lparr>sl_len := 0\<rparr>"
      using assms(2) False new by (auto simp: v6_pool_get_def Let_def split: option.splits if_splits)
    then have "sl = t" using ok(5) by simp
    moreover have "v6_job_ok h job" if "job \<in># F" for job
      using j [OF that] others(2) [of "j6_clients job"] that by (simp add: v6_job_ok_def)
    ultimately show ?thesis using others(1) ok p s'(1,2) by simp
  qed
  then show "owned (h6_arrays s') (add_mset sl (mset (h6_pool s') + image_mset j6_clients F))" "sl_len sl = 0"
    "v6_snapshot_initial_capacity \<le> sl_cap sl" "\<And>job. job \<in># F \<Longrightarrow> v6_job_ok (h6_arrays s') job"
    "\<And>sl. sl \<in> set (h6_pool s') \<Longrightarrow> v6_pooled_ok sl" by auto
qed

lemma v6_release_frames [frame_simps]:
  "h6_run (v6_release_snapshot c s) = h6_run s" "h6_subs (v6_release_snapshot c s) = h6_subs s"
  "h6_jobs (v6_release_snapshot c s) = h6_jobs s" "h6_workers (v6_release_snapshot c s) = h6_workers s"
  "h6_panic (v6_release_snapshot c s) = h6_panic s" "h6_accepted (v6_release_snapshot c s) = h6_accepted s"
  "h6_rooms (v6_release_snapshot c s) = h6_rooms s" "h6_redis (v6_release_snapshot c s) = h6_redis s"
  "h6_cancel_sub (v6_release_snapshot c s) = h6_cancel_sub s" "h6_client (v6_release_snapshot c s) = h6_client s"
  "h6_phase (v6_release_snapshot c s) = h6_phase s" "h6_writing (v6_release_snapshot c s) = h6_writing s"
  "v6_release_snapshot None s = s"
  by (auto simp: v6_release_snapshot_def split: option.split)

lemma v6_release_mem:
  assumes "v6_mem_ok (h6_arrays s) (h6_pool s) (add_mset job jobs)"
  shows "v6_mem_ok (h6_arrays (v6_release_snapshot (Some (j6_clients job)) s))
    (h6_pool (v6_release_snapshot (Some (j6_clients job)) s)) jobs"
  using v6_mem_release [OF assms] by (simp add: v6_release_snapshot_def)

lemma v6_safe_send_frames [frame_simps]:
  "h6_run (v6_safe_send a payload s) = h6_run s" "h6_subs (v6_safe_send a payload s) = h6_subs s"
  "h6_jobs (v6_safe_send a payload s) = h6_jobs s" "h6_workers (v6_safe_send a payload s) = h6_workers s"
  "h6_pool (v6_safe_send a payload s) = h6_pool s" "h6_arrays (v6_safe_send a payload s) = h6_arrays s"
  "h6_panic (v6_safe_send a payload s) = h6_panic s" "h6_accepted (v6_safe_send a payload s) = h6_accepted s"
  "h6_rooms (v6_safe_send a payload s) = h6_rooms s" "h6_redis (v6_safe_send a payload s) = h6_redis s"
  "h6_cancel_sub (v6_safe_send a payload s) = h6_cancel_sub s"
  "h6_phase (v6_safe_send a payload s) = h6_phase s" "h6_writing (v6_safe_send a payload s) = h6_writing s"
  "c1_room (h6_client (v6_safe_send a payload s) b) = c1_room (h6_client s b)"
  by (auto simp: v6_safe_send_def split: option.split)

lemma v6_start_memory:
  assumes ok: "v6_memory_ok s" and who: "v6_broadcaster who s" "v6_hand_of who s = Local room payload"
  shows "v6_memory_ok (v6_start_local_broadcast pt pick order room payload who s)"
proof (cases "order = []")
  case True
  then show ?thesis using ok who v6_flying_put [OF who(1), of Free]
    by (simp add: v6_start_local_broadcast_def v6_snapshot_room_clients_def v6_memory_ok_def frame_simps)
next
  case False
  obtain s1 sl where get: "v6_pool_get pick s = (s1, sl)" by fastforce
  obtain sl' h where fill: "append_all (p6_grow pt) order (sl, h6_arrays s1) = (sl', h)" by fastforce
  let ?job = "\<lparr>j6_room = room, j6_clients = sl', j6_payload = payload, j6_members = order\<rparr>"
  let ?s = "v6_start_local_broadcast pt pick order room payload who s"
  have m: "v6_mem_ok (h6_arrays s) (h6_pool s) (v6_flying s)" using ok by (simp add: v6_memory_ok_def)
  note frames = v6_pool_get_frames [OF get]
  have mem: "v6_mem_ok h (h6_pool s1) (add_mset ?job (v6_flying s))"
    using v6_mem_fill [OF v6_pool_get_mem [OF m get] fill False] .
  have s: "?s = v6_put who (Holding ?job) (v6_bump (\<lambda>k. k\<lparr>k6_fanout := k6_fanout k + 1\<rparr>) (s1\<lparr>h6_arrays := h\<rparr>))"
    using False get fill by (simp add: v6_start_local_broadcast_def v6_snapshot_room_clients_def)
  have "v6_flying ?s = add_mset ?job (v6_flying s)"
    using who v6_flying_put [of who "v6_bump (\<lambda>k. k\<lparr>k6_fanout := k6_fanout k + 1\<rparr>) (s1\<lparr>h6_arrays := h\<rparr>)" "Holding ?job"] frames
    by (simp add: s v6_broadcaster_def v6_hand_of_def v6_flying_def split: option.splits)
  then show ?thesis using mem ok frames by (simp add: v6_memory_ok_def s frame_simps)
qed

lemma v6_enqueue_memory:
  assumes ok: "v6_memory_ok s" and who: "v6_broadcaster who s" "v6_hand_of who s = Holding job"
  shows "v6_memory_ok (v6_enqueue_job job who s)"
proof -
  have fly: "v6_flying s = add_mset job (v6_flying (v6_put who Free s))"
    using v6_flying_put [OF who(1), of Free] who(2) by simp
  show ?thesis
  proof (cases "try_send (h6_jobs s) job")
    case None
    let ?s1 = "v6_release_snapshot (Some (j6_clients job)) (v6_bump (\<lambda>k. k\<lparr>k6_dropped_jobs := k6_dropped_jobs k + 1\<rparr>) s)"
    have "v6_flying (v6_put who Free ?s1) = v6_flying (v6_put who Free s)"
      by (auto simp: v6_flying_def v6_put_def frame_simps split: option.split)
    moreover have "v6_mem_ok (h6_arrays ?s1) (h6_pool ?s1) (v6_flying (v6_put who Free s))"
      using ok by (intro v6_release_mem) (simp add: v6_memory_ok_def fly)
    ultimately show ?thesis using ok None by (simp add: v6_enqueue_job_def v6_memory_ok_def frame_simps)
  next
    case (Some ch)
    then have "chan_buf ch = chan_buf (h6_jobs s) @ [job]" by (auto simp: try_send_Some)
    then have "v6_flying (v6_enqueue_job job who s) = v6_flying s"
      using fly by (auto simp: v6_enqueue_job_def Some v6_flying_def v6_put_def split: option.splits)
    then show ?thesis using ok Some by (simp add: v6_enqueue_job_def v6_memory_ok_def frame_simps)
  qed
qed

lemma map_update_same: "g y = g (xs ! i) \<Longrightarrow> map g (xs[i := y]) = map g xs"
  by (cases "i < length xs") (auto simp: map_update list_update_same_conv list_update_beyond)

lemma v6_memory_frame:
  assumes "v6_memory_ok s" "h6_pool s' = h6_pool s" "h6_arrays s' = h6_arrays s" "v6_flying s' = v6_flying s"
    "h6_panic s' = h6_panic s" "h6_workers s' = h6_workers s"
  shows "v6_memory_ok s'"
  using assms by (simp add: v6_memory_ok_def)

lemma v6_cancel_frames [frame_simps]:
  "h6_run (v6_cancel room s) = h6_run s" "h6_jobs (v6_cancel room s) = h6_jobs s"
  "h6_workers (v6_cancel room s) = h6_workers s" "h6_pool (v6_cancel room s) = h6_pool s"
  "h6_arrays (v6_cancel room s) = h6_arrays s" "h6_panic (v6_cancel room s) = h6_panic s"
  "h6_accepted (v6_cancel room s) = h6_accepted s" "h6_rooms (v6_cancel room s) = h6_rooms s"
  "h6_client (v6_cancel room s) = h6_client s" "h6_phase (v6_cancel room s) = h6_phase s"
  "h6_redis (v6_cancel room s) = h6_redis s" "h6_writing (v6_cancel room s) = h6_writing s"
  "map s6_hand (h6_subs (v6_cancel room s)) = map s6_hand (h6_subs s)"
  by (auto simp: v6_cancel_def map_update_same split: option.split)

lemma v6_flying_hands:
  "v6_flying s = v6_hand_jobs (h6_run s) + sum_list (map v6_hand_jobs (map s6_hand (h6_subs s))) +
     mset (chan_buf (h6_jobs s)) + sum_list (map v6_worker_jobs (h6_workers s))"
  by (simp add: v6_flying_def comp_def)

lemma v6_register_frames [frame_simps]:
  "h6_run (v6_handle_register a s) = h6_run s" "h6_jobs (v6_handle_register a s) = h6_jobs s"
  "h6_workers (v6_handle_register a s) = h6_workers s" "h6_pool (v6_handle_register a s) = h6_pool s"
  "h6_arrays (v6_handle_register a s) = h6_arrays s" "h6_panic (v6_handle_register a s) = h6_panic s"
  "h6_accepted (v6_handle_register a s) = h6_accepted s" "h6_count (v6_handle_register a s) = h6_count s"
  "h6_redis (v6_handle_register a s) = h6_redis s" "h6_client (v6_handle_register a s) = h6_client s"
  "h6_phase (v6_handle_register a s) = h6_phase s" "v6_flying (v6_handle_register a s) = v6_flying s"
  by (auto simp: v6_handle_register_def Let_def v6_flying_def)

lemma v6_unregister_frames [frame_simps]:
  "h6_run (v6_handle_unregister a s) = h6_run s" "h6_jobs (v6_handle_unregister a s) = h6_jobs s"
  "h6_workers (v6_handle_unregister a s) = h6_workers s" "h6_pool (v6_handle_unregister a s) = h6_pool s"
  "h6_arrays (v6_handle_unregister a s) = h6_arrays s" "h6_panic (v6_handle_unregister a s) = h6_panic s"
  "h6_accepted (v6_handle_unregister a s) = h6_accepted s" "h6_redis (v6_handle_unregister a s) = h6_redis s"
  "h6_phase (v6_handle_unregister a s) = h6_phase s" "h6_writing (v6_handle_unregister a s) = h6_writing s"
  "map s6_hand (h6_subs (v6_handle_unregister a s)) = map s6_hand (h6_subs s)"
  "c1_room (h6_client (v6_handle_unregister a s) b) = c1_room (h6_client s b)"
  by (auto simp: v6_handle_unregister_def Let_def frame_simps v1_close_def split: option.split)

lemma v6_flying_unregister [frame_simps]: "v6_flying (v6_handle_unregister a s) = v6_flying s"
  unfolding v6_flying_hands by (simp add: frame_simps)

lemma v6_broadcast_frames [frame_simps]:
  "h6_jobs (v6_handle_broadcast cd pt p s) = h6_jobs s" "h6_subs (v6_handle_broadcast cd pt p s) = h6_subs s"
  "h6_workers (v6_handle_broadcast cd pt p s) = h6_workers s" "h6_pool (v6_handle_broadcast cd pt p s) = h6_pool s"
  "h6_arrays (v6_handle_broadcast cd pt p s) = h6_arrays s" "h6_panic (v6_handle_broadcast cd pt p s) = h6_panic s"
  "h6_accepted (v6_handle_broadcast cd pt p s) = h6_accepted s" "h6_rooms (v6_handle_broadcast cd pt p s) = h6_rooms s"
  "h6_cancel_sub (v6_handle_broadcast cd pt p s) = h6_cancel_sub s" "h6_client (v6_handle_broadcast cd pt p s) = h6_client s"
  "h6_phase (v6_handle_broadcast cd pt p s) = h6_phase s" "h6_writing (v6_handle_broadcast cd pt p s) = h6_writing s"
  "h6_redis (v6_handle_broadcast cd pt p s) = None \<longleftrightarrow> h6_redis s = None"
  "v6_hand_jobs (h6_run s) = {#} \<Longrightarrow> v6_flying (v6_handle_broadcast cd pt p s) = v6_flying s"
  by (auto simp: v6_handle_broadcast_def v6_flying_def split: option.split prod.split bool.split)

lemma v6_persist_frames [frame_simps]:
  "h6_run (v6_enqueue_persistence pt m s) = h6_run s" "h6_subs (v6_enqueue_persistence pt m s) = h6_subs s"
  "h6_jobs (v6_enqueue_persistence pt m s) = h6_jobs s" "h6_workers (v6_enqueue_persistence pt m s) = h6_workers s"
  "h6_pool (v6_enqueue_persistence pt m s) = h6_pool s" "h6_arrays (v6_enqueue_persistence pt m s) = h6_arrays s"
  "h6_panic (v6_enqueue_persistence pt m s) = h6_panic s" "h6_accepted (v6_enqueue_persistence pt m s) = h6_accepted s"
  "h6_rooms (v6_enqueue_persistence pt m s) = h6_rooms s" "h6_redis (v6_enqueue_persistence pt m s) = h6_redis s"
  "h6_cancel_sub (v6_enqueue_persistence pt m s) = h6_cancel_sub s" "h6_client (v6_enqueue_persistence pt m s) = h6_client s"
  "h6_phase (v6_enqueue_persistence pt m s) = h6_phase s" "h6_writing (v6_enqueue_persistence pt m s) = h6_writing s"
  by (auto simp: v6_enqueue_persistence_def split: option.split prod.split bool.split)

lemma v6_flying_persist [frame_simps]: "v6_flying (v6_enqueue_persistence pt m s) = v6_flying s"
  by (rule v6_flying_same) (simp_all add: frame_simps)

lemma v6_write_frames:
  assumes "v6_write a ok s = Some s'"
  shows "h6_run s' = h6_run s" "h6_subs s' = h6_subs s" "h6_jobs s' = h6_jobs s" "h6_workers s' = h6_workers s"
    "h6_pool s' = h6_pool s" "h6_arrays s' = h6_arrays s" "h6_panic s' = h6_panic s" "h6_accepted s' = h6_accepted s"
    "h6_rooms s' = h6_rooms s" "h6_redis s' = h6_redis s" "h6_cancel_sub s' = h6_cancel_sub s" "h6_phase s' = h6_phase s"
    "h6_count s' = h6_count s" "c1_room (h6_client s' b) = c1_room (h6_client s b)"
  using assms by (auto simp: v6_write_def Let_def v1_close_def split: list.splits if_splits)

lemma v6_take_memory:
  assumes ok: "v6_memory_ok s" and w: "w < length (h6_workers s)" "h6_workers s ! w = None" "v6_take_job w s = Some s'"
  shows "v6_memory_ok s'" "v6_flying s' = v6_flying s"
proof -
  obtain job jobs where buf: "chan_buf (h6_jobs s) = job # jobs"
    and s': "s' = s\<lparr>h6_jobs := (h6_jobs s)\<lparr>chan_buf := jobs\<rparr>, h6_workers := (h6_workers s)[w := Some (job, 0)]\<rparr>"
    using w(3) by (auto simp: v6_take_job_def split: list.splits)
  show fly: "v6_flying s' = v6_flying s"
    using sum_list_replace [OF w(1), of v6_worker_jobs "Some (job, 0)"] w(2) by (simp add: v6_flying_def s' buf)
  have "i \<le> length (j6_members j)" if "u < length (h6_workers s')" "h6_workers s' ! u = Some (j, i)" for u j i
    using ok that w(1) by (cases "u = w") (auto simp: s' v6_memory_ok_def)
  then show "v6_memory_ok s'" using ok fly unfolding v6_memory_ok_def by (simp add: s')
qed

lemma v6_work_cases:
  assumes ok: "v6_memory_ok s" and w: "w < length (h6_workers s)" "v6_work w s = Some s'"
  obtains (finishes) job i where "h6_workers s ! w = Some (job, i)" "i = length (j6_members job)"
      "s' = v6_release_snapshot (Some (j6_clients job)) (s\<lparr>h6_workers := (h6_workers s)[w := None]\<rparr>)"
    | (sends) job i where "h6_workers s ! w = Some (job, i)" "i < length (j6_members job)"
      "s' = (v6_safe_send (j6_members job ! i) (j6_payload job) s)\<lparr>h6_workers := (h6_workers s)[w := Some (job, i + 1)]\<rparr>"
proof -
  obtain job i where job: "h6_workers s ! w = Some (job, i)" using w(2) by (auto simp: v6_work_def split: option.splits)
  have fly: "job \<in># v6_flying s"
    using nth_mem [OF w(1)] job by (force simp: v6_flying_def)
  have mem: "owned (h6_arrays s) (mset (h6_pool s) + image_mset j6_clients (v6_flying s))" "v6_job_ok (h6_arrays s) job"
    and i: "i \<le> length (j6_members job)" using ok fly w(1) job by (auto simp: v6_memory_ok_def v6_mem_ok_def)
  note len = v6_job_len [OF mem(1) fly mem(2)]
  show thesis
  proof (cases "i < length (j6_members job)")
    case True
    have "slice_items (h6_arrays s) (j6_clients job) ! i = Some (j6_members job ! i)"
      using mem(2) True by (simp add: v6_job_ok_def)
    then have "cells (h6_arrays s) (sl_array (j6_clients job)) ! i = Some (j6_members job ! i)"
      using True len by (simp add: slice_items_def)
    then show thesis using sends job True w(2) len by (simp add: v6_work_def)
  next
    case False
    then show thesis using finishes job i w(2) len by (simp add: v6_work_def)
  qed
qed

lemma v6_work_memory:
  assumes ok: "v6_memory_ok s" and w: "w < length (h6_workers s)" "v6_work w s = Some s'"
  shows "v6_memory_ok s'"
proof (cases rule: v6_work_cases [OF assms, case_names finishes sends])
  case (finishes job i)
  let ?s = "s\<lparr>h6_workers := (h6_workers s)[w := None]\<rparr>"
  have fly: "v6_flying s = add_mset job (v6_flying ?s)"
    using sum_list_replace [OF w(1), of v6_worker_jobs None] finishes(1) by (simp add: v6_flying_def)
  have "v6_flying s' = v6_flying ?s" unfolding finishes(3) by (rule v6_flying_same) (simp_all add: frame_simps)
  moreover have "v6_mem_ok (h6_arrays s') (h6_pool s') (v6_flying ?s)"
    unfolding finishes(3) using ok by (intro v6_release_mem) (simp add: v6_memory_ok_def fly)
  moreover have "k \<le> length (j6_members j)" if "u < length (h6_workers s')" "h6_workers s' ! u = Some (j, k)" for u j k
    using ok that w(1) by (cases "u = w") (auto simp: finishes(3) frame_simps v6_memory_ok_def)
  ultimately show ?thesis using ok unfolding v6_memory_ok_def by (simp add: finishes(3) frame_simps)
next
  case (sends job i)
  have "v6_flying s' = v6_flying s"
    using sum_list_replace [OF w(1), of v6_worker_jobs "Some (job, i + 1)"] sends(1)
    by (simp add: v6_flying_def sends(3) frame_simps)
  moreover have "k \<le> length (j6_members j)" if "u < length (h6_workers s')" "h6_workers s' ! u = Some (j, k)" for u j k
    using ok that w(1) sends(2) by (cases "u = w") (auto simp: sends(3) frame_simps v6_memory_ok_def)
  ultimately show ?thesis using ok unfolding v6_memory_ok_def by (simp add: sends(3) frame_simps)
qed

lemma v6_write_memory:
  assumes "v6_memory_ok s" "v6_write a ok s = Some s'"
  shows "v6_memory_ok s'"
  by (rule v6_memory_frame [OF assms(1)])
    (simp_all add: v6_write_frames(1-7) [OF assms(2)] v6_flying_same [OF v6_write_frames(1-4) [OF assms(2)]])

lemma v6_memory_step:
  assumes "v6_step cd pt s s'" "v6_memory_ok s"
  shows "v6_memory_ok s'"
  using assms
proof (induction rule: v6_step.cases)
  case (snapshots who s room payload order pick)
  then show ?case using v6_start_memory by blast
next
  case (enqueues who s job)
  then show ?case using v6_enqueue_memory by blast
next
  case (takes_job w s s')
  then show ?case using v6_take_memory(1) by blast
next
  case (works w s s')
  then show ?case using v6_work_memory by blast
next
  case (collects kept s)
  then have "v6_mem_ok (h6_arrays s) kept (v6_flying s)"
    using owned_subset [of "h6_arrays s" "mset (h6_pool s) + image_mset j6_clients (v6_flying s)"
        "mset kept + image_mset j6_clients (v6_flying s)"] set_mset_mono [of "mset kept" "mset (h6_pool s)"]
    by (auto simp: v6_memory_ok_def v6_mem_ok_def)
  then show ?case using collects by (simp add: v6_memory_ok_def)
next
  case (writes s a ok s')
  then show ?case using v6_write_memory by blast
next
  case (subscribes i s)
  then show ?case
    by - (rule v6_memory_frame [of s], simp_all add: v6_subscribe_def v6_flying_hands map_update_same)
next
  case (receives i s payload)
  then have "v6_flying (v6_receive i payload s) = v6_flying s"
    by (simp add: v6_receive_def v6_put_def v6_listening_def v6_flying_def map_update_same)
  then show ?case using receives
    by - (rule v6_memory_frame [of s], simp_all add: v6_receive_def frame_simps)
next
  case (sub_ends i s)
  then show ?case
    by - (rule v6_memory_frame [of s], simp_all add: v6_end_sub_def v6_flying_hands map_update_same)
next
  case (broadcasts s p ch)
  have "v6_flying (v6_handle_broadcast cd pt p (s\<lparr>h6_broadcast := ch\<rparr>)) = v6_flying s"
    using broadcasts(3) by (simp add: frame_simps)
  then show ?case using broadcasts by - (rule v6_memory_frame [of s], simp_all add: frame_simps)
next
  case (registers s a)
  then show ?case by - (rule v6_memory_frame [of s], simp_all add: frame_simps)
next
  case (reads s a raw now m p)
  then show ?case
    by - (rule v6_memory_frame [of s], simp_all add: frame_simps)
qed (simp_all add: v6_memory_ok_def frame_simps)

section \<open>The counters\<close>

definition v6_hands :: "('p, 'r) v6_hub \<Rightarrow> v6_job multiset" where
  "v6_hands s = v6_hand_jobs (h6_run s) + sum_list (map (\<lambda>sub. v6_hand_jobs (s6_hand sub)) (h6_subs s))"

fun v6_left :: "(v6_job \<times> nat) option \<Rightarrow> nat" where
  "v6_left (Some (job, i)) = length (j6_members job) - i"
| "v6_left None = 0"

definition v6_remaining :: "('p, 'r) v6_hub \<Rightarrow> nat" where
  \<comment> \<open>the sends that the queue and the workers still have to make\<close>
  "v6_remaining s = sum_list (map (\<lambda>job. length (j6_members job)) (chan_buf (h6_jobs s))) +
     sum_list (map v6_left (h6_workers s))"

definition v6_pool_books :: "('p, 'r) v6_hub \<Rightarrow> bool" where
  "v6_pool_books s \<longleftrightarrow> k6_pool_gets (h6_count s) =
     k6_pool_puts (h6_count s) + k6_pool_drops (h6_count s) + of_nat (size (v6_flying s))"

definition v6_job_books :: "('p, 'r) v6_hub \<Rightarrow> bool" where
  "v6_job_books s \<longleftrightarrow>
     k6_fanout (h6_count s) = k6_enqueued_jobs (h6_count s) + k6_dropped_jobs (h6_count s) + of_nat (size (v6_hands s)) \<and>
     k6_enqueued_jobs (h6_count s) = of_nat (length (h6_accepted s)) \<and>
     k6_delivered (h6_count s) + k6_dropped (h6_count s) + of_nat (v6_remaining s) =
       of_nat (sum_list (map length (h6_accepted s)))"

definition v6_books_ok :: "('p, 'r) v6_hub \<Rightarrow> bool" where
  "v6_books_ok s \<longleftrightarrow> v6_pool_books s \<and> v6_job_books s"

definition v6_same_books :: "('p, 'r) v6_hub \<Rightarrow> ('p, 'r) v6_hub \<Rightarrow> bool" where
  "v6_same_books s s' \<longleftrightarrow> v6_hands s' = v6_hands s \<and> h6_jobs s' = h6_jobs s \<and> h6_workers s' = h6_workers s \<and>
     h6_accepted s' = h6_accepted s \<and>
     (k6_pool_gets (h6_count s'), k6_pool_puts (h6_count s'), k6_pool_drops (h6_count s')) =
       (k6_pool_gets (h6_count s), k6_pool_puts (h6_count s), k6_pool_drops (h6_count s)) \<and>
     (k6_fanout (h6_count s'), k6_enqueued_jobs (h6_count s'), k6_dropped_jobs (h6_count s')) =
       (k6_fanout (h6_count s), k6_enqueued_jobs (h6_count s), k6_dropped_jobs (h6_count s)) \<and>
     (k6_delivered (h6_count s'), k6_dropped (h6_count s')) = (k6_delivered (h6_count s), k6_dropped (h6_count s))"

lemma v6_flying_split:
  "v6_flying s = v6_hands s + mset (chan_buf (h6_jobs s)) + sum_list (map v6_worker_jobs (h6_workers s))"
  by (simp add: v6_flying_def v6_hands_def)

lemma v6_same_books: "v6_books_ok s \<Longrightarrow> v6_same_books s s' \<Longrightarrow> v6_books_ok s'"
  by (simp add: v6_books_ok_def v6_pool_books_def v6_job_books_def v6_same_books_def v6_flying_split v6_remaining_def)

lemma v6_hands_put:
  assumes "v6_broadcaster who s"
  shows "v6_hands (v6_put who hand s) + v6_hand_jobs (v6_hand_of who s) = v6_hands s + v6_hand_jobs hand"
  using v6_flying_put [OF assms, of hand] by (simp add: v6_flying_split frame_simps ac_simps)

lemma v6_hands_same: "h6_run s' = h6_run s \<Longrightarrow> h6_subs s' = h6_subs s \<Longrightarrow> v6_hands s' = v6_hands s"
  by (simp add: v6_hands_def)

lemma v6_release_counts:
  "k6_pool_gets (h6_count (v6_release_snapshot c s)) = k6_pool_gets (h6_count s)"
  "k6_fanout (h6_count (v6_release_snapshot c s)) = k6_fanout (h6_count s)"
  "k6_enqueued_jobs (h6_count (v6_release_snapshot c s)) = k6_enqueued_jobs (h6_count s)"
  "k6_dropped_jobs (h6_count (v6_release_snapshot c s)) = k6_dropped_jobs (h6_count s)"
  "k6_delivered (h6_count (v6_release_snapshot c s)) = k6_delivered (h6_count s)"
  "k6_dropped (h6_count (v6_release_snapshot c s)) = k6_dropped (h6_count s)"
  "k6_pool_puts (h6_count (v6_release_snapshot (Some sl) s)) + k6_pool_drops (h6_count (v6_release_snapshot (Some sl) s)) =
     k6_pool_puts (h6_count s) + k6_pool_drops (h6_count s) + 1"
  by (auto simp: v6_release_snapshot_def split: option.split)

lemma v6_start_books:
  assumes ok: "v6_books_ok s" and who: "v6_broadcaster who s" "v6_hand_of who s = Local room payload"
  shows "v6_books_ok (v6_start_local_broadcast pt pick order room payload who s)"
proof (cases "order = []")
  case True
  then have "v6_same_books s (v6_start_local_broadcast pt pick order room payload who s)"
    using v6_hands_put [OF who(1), of Free] who(2)
    by (simp add: v6_start_local_broadcast_def v6_snapshot_room_clients_def v6_same_books_def frame_simps)
  then show ?thesis using ok v6_same_books by blast
next
  case False
  obtain s1 sl where get: "v6_pool_get pick s = (s1, sl)" by fastforce
  obtain sl' h where fill: "append_all (p6_grow pt) order (sl, h6_arrays s1) = (sl', h)" by fastforce
  let ?job = "\<lparr>j6_room = room, j6_clients = sl', j6_payload = payload, j6_members = order\<rparr>"
  let ?t = "v6_bump (\<lambda>k. k\<lparr>k6_fanout := k6_fanout k + 1\<rparr>) (s1\<lparr>h6_arrays := h\<rparr>)"
  note frames = v6_pool_get_frames [OF get]
  have s: "v6_start_local_broadcast pt pick order room payload who s = v6_put who (Holding ?job) ?t"
    using False get fill by (simp add: v6_start_local_broadcast_def v6_snapshot_room_clients_def)
  have t: "v6_broadcaster who ?t" "v6_hand_of who ?t = Local room payload" "v6_hands ?t = v6_hands s"
    using who frames by (auto simp: v6_broadcaster_def v6_hand_of_def v6_hands_def split: option.splits)
  have "v6_hands (v6_put who (Holding ?job) ?t) = add_mset ?job (v6_hands s)"
    using v6_hands_put [OF t(1), of "Holding ?job"] t(2,3) by simp
  then show ?thesis using ok frames
    by (simp add: s v6_books_ok_def v6_pool_books_def v6_job_books_def v6_flying_split v6_remaining_def frame_simps)
qed

lemma v6_enqueue_books:
  assumes ok: "v6_books_ok s" and who: "v6_broadcaster who s" "v6_hand_of who s = Holding job"
  shows "v6_books_ok (v6_enqueue_job job who s)"
proof (cases "try_send (h6_jobs s) job")
  case None
  let ?t = "v6_release_snapshot (Some (j6_clients job)) (v6_bump (\<lambda>k. k\<lparr>k6_dropped_jobs := k6_dropped_jobs k + 1\<rparr>) s)"
  have t: "v6_broadcaster who ?t" "v6_hand_of who ?t = Holding job" "v6_hands ?t = v6_hands s"
    using who by (auto simp: v6_broadcaster_def v6_hand_of_def v6_hands_def frame_simps split: option.splits)
  have "v6_hands s = add_mset job (v6_hands (v6_put who Free ?t))"
    using v6_hands_put [OF t(1), of Free] t(2,3) by simp
  then show ?thesis using ok None
    v6_release_counts(7) [of "j6_clients job" "v6_bump (\<lambda>k. k\<lparr>k6_dropped_jobs := k6_dropped_jobs k + 1\<rparr>) s"]
    by (simp add: v6_enqueue_job_def v6_books_ok_def v6_pool_books_def v6_job_books_def v6_flying_split v6_remaining_def
        frame_simps v6_release_counts(1-6) ac_simps)
next
  case (Some ch)
  let ?t = "v6_bump (\<lambda>k. k\<lparr>k6_enqueued_jobs := k6_enqueued_jobs k + 1\<rparr>)
    (s\<lparr>h6_jobs := ch, h6_accepted := h6_accepted s @ [j6_members job]\<rparr>)"
  have t: "v6_broadcaster who ?t" "v6_hand_of who ?t = Holding job" "v6_hands ?t = v6_hands s"
    using who by (auto simp: v6_broadcaster_def v6_hand_of_def v6_hands_def split: option.splits)
  have "v6_hands s = add_mset job (v6_hands (v6_put who Free ?t))"
    using v6_hands_put [OF t(1), of Free] t(2,3) by simp
  moreover have "chan_buf ch = chan_buf (h6_jobs s) @ [job]" using Some by (auto simp: try_send_Some)
  ultimately show ?thesis using ok
    by (simp add: v6_enqueue_job_def Some v6_books_ok_def v6_pool_books_def v6_job_books_def v6_flying_split v6_remaining_def
        frame_simps ac_simps)
qed

lemma v6_books_moved:
  assumes "v6_books_ok s" "v6_hands s' = v6_hands s" "v6_remaining s' = v6_remaining s" "v6_flying s' = v6_flying s"
    "h6_count s' = h6_count s" "h6_accepted s' = h6_accepted s"
  shows "v6_books_ok s'"
  using assms by (simp add: v6_books_ok_def v6_pool_books_def v6_job_books_def)

lemma v6_take_books:
  assumes mem: "v6_memory_ok s" and ok: "v6_books_ok s"
    and w: "w < length (h6_workers s)" "h6_workers s ! w = None" "v6_take_job w s = Some s'"
  shows "v6_books_ok s'"
proof -
  obtain job jobs where buf: "chan_buf (h6_jobs s) = job # jobs"
    and s': "s' = s\<lparr>h6_jobs := (h6_jobs s)\<lparr>chan_buf := jobs\<rparr>, h6_workers := (h6_workers s)[w := Some (job, 0)]\<rparr>"
    using w(3) by (auto simp: v6_take_job_def split: list.splits)
  have "v6_hands s' = v6_hands s" by (simp add: s' v6_hands_def)
  moreover have "v6_remaining s' = v6_remaining s"
    using sum_list_replace [OF w(1), of v6_left "Some (job, 0)"] by (simp add: s' w(2) buf v6_remaining_def)
  ultimately show ?thesis
    by (rule v6_books_moved [OF ok _ _ v6_take_memory(2) [OF mem w]]) (simp_all add: s')
qed

lemma v6_safe_send_counts:
  "k6_pool_gets (h6_count (v6_safe_send a p s)) = k6_pool_gets (h6_count s)"
  "k6_pool_puts (h6_count (v6_safe_send a p s)) = k6_pool_puts (h6_count s)"
  "k6_pool_drops (h6_count (v6_safe_send a p s)) = k6_pool_drops (h6_count s)"
  "k6_fanout (h6_count (v6_safe_send a p s)) = k6_fanout (h6_count s)"
  "k6_enqueued_jobs (h6_count (v6_safe_send a p s)) = k6_enqueued_jobs (h6_count s)"
  "k6_dropped_jobs (h6_count (v6_safe_send a p s)) = k6_dropped_jobs (h6_count s)"
  "k6_delivered (h6_count (v6_safe_send a p s)) + k6_dropped (h6_count (v6_safe_send a p s)) =
     k6_delivered (h6_count s) + k6_dropped (h6_count s) + 1"
  by (auto simp: v6_safe_send_def split: option.split)

lemma v6_work_books:
  assumes mem: "v6_memory_ok s" and ok: "v6_books_ok s" and w: "w < length (h6_workers s)" "v6_work w s = Some s'"
  shows "v6_books_ok s'"
proof (cases rule: v6_work_cases [OF mem w, case_names finishes sends])
  case (finishes job i)
  let ?s = "s\<lparr>h6_workers := (h6_workers s)[w := None]\<rparr>"
  have hands: "v6_hands s' = v6_hands s" unfolding finishes(3) by (simp add: v6_hands_def frame_simps)
  have left: "v6_remaining s' = v6_remaining s"
    using sum_list_replace [OF w(1), of v6_left None] finishes(1,2)
    by (simp add: v6_remaining_def finishes(3) frame_simps)
  have "v6_flying s' = v6_flying ?s" unfolding finishes(3) by (rule v6_flying_same) (simp_all add: frame_simps)
  then have fly: "v6_flying s = add_mset job (v6_flying s')"
    using sum_list_replace [OF w(1), of v6_worker_jobs None] finishes(1) by (simp add: v6_flying_def)
  have "v6_pool_books s'" using ok v6_release_counts(7) [of "j6_clients job" ?s] fly
    by (simp add: v6_books_ok_def v6_pool_books_def) (simp add: finishes(3) v6_release_counts(1-6) ac_simps)
  moreover have "v6_job_books s'" using ok hands left
    by (simp add: v6_books_ok_def v6_job_books_def) (simp add: finishes(3) frame_simps v6_release_counts(1-6))
  ultimately show ?thesis by (simp add: v6_books_ok_def)
next
  case (sends job i)
  have hands: "v6_hands s' = v6_hands s" unfolding sends(3) by (simp add: v6_hands_def frame_simps)
  have left: "v6_remaining s = v6_remaining s' + 1"
    using sum_list_replace [OF w(1), of v6_left "Some (job, i + 1)"] sends(1,2)
    by (simp add: v6_remaining_def sends(3) frame_simps)
  have "v6_pool_books s'" using ok sum_list_replace [OF w(1), of v6_worker_jobs "Some (job, i + 1)"] hands sends(1)
    by (simp add: v6_books_ok_def v6_pool_books_def v6_flying_split) (simp add: sends frame_simps v6_safe_send_counts)
  moreover have "v6_job_books s'"
    using ok v6_safe_send_counts(7) [of "j6_members job ! i" "j6_payload job" s] hands left
    by (simp add: v6_books_ok_def v6_job_books_def) (simp add: sends(3) frame_simps v6_safe_send_counts(1-6) ac_simps)
  ultimately show ?thesis by (simp add: v6_books_ok_def)
qed

lemma v6_hands_of_list:
  fixes s s' :: "('p, 'r) v6_hub"
  assumes "map s6_hand (h6_subs s') = map s6_hand (h6_subs s)" "h6_run s' = h6_run s"
  shows "v6_hands s' = v6_hands s"
proof -
  have "v6_hands t = v6_hand_jobs (h6_run t) + sum_list (map v6_hand_jobs (map s6_hand (h6_subs t)))"
    for t :: "('p, 'r) v6_hub" by (simp add: v6_hands_def comp_def)
  then show ?thesis using assms by metis
qed

lemma v6_write_books:
  assumes "v6_books_ok s" "v6_write a ok s = Some s'"
  shows "v6_books_ok s'"
proof -
  note frames = v6_write_frames [OF assms(2)]
  have "v6_same_books s s'" using v6_hands_same [OF frames(1,2)] frames by (simp add: v6_same_books_def)
  then show ?thesis using assms(1) v6_same_books by blast
qed

lemma v6_unregister_counts:
  "h6_count (v6_handle_unregister a s) = h6_count s \<or>
   h6_count (v6_handle_unregister a s) = (h6_count s)\<lparr>k6_unsubscribes := k6_unsubscribes (h6_count s) + 1\<rparr>"
  by (auto simp: v6_handle_unregister_def v6_cancel_def Let_def split: option.split)

lemma v6_quiet_steps:
  "v6_same_books s (v6_handle_unregister a s)" "v6_same_books s (v6_handle_register a s)"
  "v6_same_books s (v6_enqueue_persistence pt m s)"
  "v6_hand_jobs (h6_run s) = {#} \<Longrightarrow> v6_same_books s (v6_handle_broadcast cd pt p s)"
proof -
  have "v6_hands (v6_handle_unregister a s) = v6_hands s" by (rule v6_hands_of_list) (simp_all add: frame_simps)
  then show "v6_same_books s (v6_handle_unregister a s)"
    using v6_unregister_counts [of a s] by (auto simp: v6_same_books_def frame_simps)
  have "v6_hands (v6_handle_register a s) = v6_hands s" by (auto simp: v6_handle_register_def Let_def v6_hands_def)
  then show "v6_same_books s (v6_handle_register a s)" by (simp add: v6_same_books_def frame_simps)
  show "v6_same_books s (v6_enqueue_persistence pt m s)"
    by (auto simp: v6_enqueue_persistence_def v6_same_books_def v6_hands_def split: option.split prod.split bool.split)
  show "v6_hand_jobs (h6_run s) = {#} \<Longrightarrow> v6_same_books s (v6_handle_broadcast cd pt p s)"
    by (auto simp: v6_handle_broadcast_def v6_same_books_def v6_hands_def split: option.split prod.split bool.split)
qed

lemma v6_same_books_trans: "v6_same_books s t \<Longrightarrow> v6_same_books t u \<Longrightarrow> v6_same_books s u"
  by (simp add: v6_same_books_def)

lemma v6_same_books_updates [simp]:
  "v6_same_books s (t\<lparr>h6_phase := x1\<rparr>) = v6_same_books s t" "v6_same_books s (t\<lparr>h6_client := x2\<rparr>) = v6_same_books s t"
  "v6_same_books s (t\<lparr>h6_writing := x3\<rparr>) = v6_same_books s t" "v6_same_books s (t\<lparr>h6_broadcast := x4\<rparr>) = v6_same_books s t"
  "v6_same_books s (t\<lparr>h6_pool := x5\<rparr>) = v6_same_books s t" "v6_same_books (s\<lparr>h6_broadcast := x4\<rparr>) t = v6_same_books s t"
  "v6_same_books s s"
  by (simp_all add: v6_same_books_def v6_hands_def)

lemma v6_books_step:
  assumes "v6_step cd pt s s'" "v6_memory_ok s" "v6_books_ok s"
  shows "v6_books_ok s'"
  using assms
proof (induction rule: v6_step.cases)
  case (snapshots who s room payload order pick)
  then show ?case using v6_start_books by blast
next
  case (enqueues who s job)
  then show ?case using v6_enqueue_books by blast
next
  case (takes_job w s s')
  then show ?case using v6_take_books by blast
next
  case (works w s s')
  then show ?case using v6_work_books by blast
next
  case (writes s a ok s')
  then show ?case using v6_write_books by blast
next
  case (subscribes i s)
  then have "v6_same_books s (v6_subscribe i s)"
    by (simp add: v6_subscribe_def v6_same_books_def v6_hands_def map_update_same)
  then show ?case using subscribes v6_same_books by blast
next
  case (receives i s payload)
  then have "v6_same_books s (v6_receive i payload s)"
    by (simp add: v6_receive_def v6_put_def v6_listening_def v6_same_books_def v6_hands_def map_update_same)
  then show ?case using receives v6_same_books by blast
next
  case (sub_ends i s)
  then have "v6_same_books s (v6_end_sub i s)"
    by (simp add: v6_end_sub_def v6_same_books_def v6_hands_def map_update_same)
  then show ?case using sub_ends v6_same_books by blast
next
  case (broadcasts s p ch)
  then have "v6_same_books s (v6_handle_broadcast cd pt p (s\<lparr>h6_broadcast := ch\<rparr>))"
    using v6_quiet_steps(4) [of "s\<lparr>h6_broadcast := ch\<rparr>"] by simp
  then show ?case using broadcasts v6_same_books by blast
qed (use v6_quiet_steps(1-3) in \<open>auto elim!: v6_same_books\<close>)

section \<open>Rooms and their subscriptions\<close>

definition v6_sub_keys :: "('p, 'r) v6_hub \<Rightarrow> (string \<times> bool) list" where
  "v6_sub_keys s = map (\<lambda>sub. (s6_room sub, s6_cancelled sub)) (h6_subs s)"

definition v6_rooms_ok :: "('p, 'r) v6_hub \<Rightarrow> bool" where
  "v6_rooms_ok s \<longleftrightarrow> rooms_wf (h6_rooms s) \<and>
     (\<forall>room a. a \<in> set (v6_members room s) \<longleftrightarrow> v1_joined (h6_phase s a) \<and> c1_room (h6_client s a) = room)"

definition v6_subs_ok :: "('p, 'r) v6_hub \<Rightarrow> bool" where
  "v6_subs_ok s \<longleftrightarrow> (h6_redis s = None \<longrightarrow> h6_cancel_sub s = []) \<and>
     (h6_redis s \<noteq> None \<longrightarrow> (\<forall>room. gm_has (h6_cancel_sub s) room \<longleftrightarrow> gm_has (h6_rooms s) room)) \<and>
     (\<forall>room i. map_of (h6_cancel_sub s) room = Some i \<longleftrightarrow>
        i < length (v6_sub_keys s) \<and> v6_sub_keys s ! i = (room, False))"

lemma gm_has_join: "gm_has (join_room a room rs) r \<longleftrightarrow> r = room \<or> gm_has rs r"
  by (simp add: join_room_def go_map_simps)

lemma gm_has_leave:
  "gm_has rs room \<Longrightarrow>
   gm_has (leave_room a room rs) r \<longleftrightarrow> (if r = room then remove1 a (gm_get [] rs room) \<noteq> [] else gm_has rs r)"
  by (auto simp: leave_room_def Let_def go_map_simps)

lemma v6_subs_register:
  assumes "v6_subs_ok s"
  shows "v6_subs_ok (v6_handle_register a s)"
proof (cases "gm_has (h6_rooms s) (c1_room (h6_client s a)) \<or> \<not> v6_redis_enabled s")
  case True
  then show ?thesis using assms
    by (auto simp: v6_handle_register_def Let_def v6_subs_ok_def v6_sub_keys_def gm_has_join v6_redis_enabled_def)
next
  case False
  let ?room = "c1_room (h6_client s a)" and ?n = "length (h6_subs s)"
  let ?s = "v6_handle_register a s"
  have keys: "v6_sub_keys ?s = v6_sub_keys s @ [(?room, False)]" "length (v6_sub_keys s) = ?n"
    "h6_cancel_sub ?s = AList.update ?room ?n (h6_cancel_sub s)" "h6_rooms ?s = join_room a ?room (h6_rooms s)"
    using False by (auto simp: v6_handle_register_def Let_def v6_sub_keys_def)
  have ok: "\<And>room. gm_has (h6_cancel_sub s) room \<longleftrightarrow> gm_has (h6_rooms s) room"
    "\<And>room i. map_of (h6_cancel_sub s) room = Some i \<longleftrightarrow> i < ?n \<and> v6_sub_keys s ! i = (room, False)"
    using assms False keys(2) by (auto simp: v6_subs_ok_def v6_redis_enabled_def)
  have none: "\<not> (i < ?n \<and> v6_sub_keys s ! i = (?room, False))" for i
    using False ok(1) [of ?room] ok(2) [of ?room i] by (auto simp: gm_has_def)
  have "map_of (h6_cancel_sub ?s) room = Some i \<longleftrightarrow> i < length (v6_sub_keys ?s) \<and> v6_sub_keys ?s ! i = (room, False)" for room i
    using ok(2) [of room i] none [of i] keys by (auto simp: update_conv' nth_append less_Suc_eq)
  moreover have "gm_has (h6_cancel_sub ?s) room \<longleftrightarrow> gm_has (h6_rooms ?s) room" for room
    using ok(1) [of room] keys by (simp add: go_map_simps gm_has_join)
  ultimately show ?thesis using False by (auto simp: v6_subs_ok_def frame_simps v6_redis_enabled_def)
qed

lemma v6_subs_cancel:
  assumes ok: "v6_subs_ok s" and room: "gm_has (h6_rooms s) room"
    and t: "h6_cancel_sub t = h6_cancel_sub s" "h6_subs t = h6_subs s" "h6_redis t = h6_redis s"
    and left: "\<And>r. gm_has (h6_rooms t) r \<longleftrightarrow> r \<noteq> room \<and> gm_has (h6_rooms s) r"
  shows "v6_subs_ok (v6_cancel room t)"
proof (cases "map_of (h6_cancel_sub s) room")
  case None
  then have "\<not> gm_has (h6_cancel_sub s) room" by (simp add: gm_has_def)
  then have "h6_redis s = None" using ok room unfolding v6_subs_ok_def by blast
  moreover have "v6_sub_keys t = v6_sub_keys s" by (simp add: v6_sub_keys_def t)
  ultimately show ?thesis using ok None t by (auto simp: v6_cancel_def v6_subs_ok_def)
next
  case (Some i)
  let ?u = "v6_cancel room t"
  have keys: "\<And>r i. map_of (h6_cancel_sub s) r = Some i \<longleftrightarrow> i < length (v6_sub_keys s) \<and> v6_sub_keys s ! i = (r, False)"
    and redis: "h6_redis s \<noteq> None" using ok Some by (auto simp: v6_subs_ok_def)
  have i: "i < length (h6_subs s)" "v6_sub_keys s ! i = (room, False)"
    using keys [of room i] Some by (simp_all add: v6_sub_keys_def)
  have u: "h6_cancel_sub ?u = AList.delete room (h6_cancel_sub s)" "h6_rooms ?u = h6_rooms t" "h6_redis ?u = h6_redis s"
    "v6_sub_keys ?u = (v6_sub_keys s)[i := (room, True)]"
    using Some t i by (auto simp: v6_cancel_def v6_sub_keys_def map_update)
  have "map_of (h6_cancel_sub ?u) r = Some j \<longleftrightarrow> j < length (v6_sub_keys ?u) \<and> v6_sub_keys ?u ! j = (r, False)" for r j
    using keys [of r j] Some i(2) keys [of room j] keys [of room i] by (cases "j = i") (auto simp: u delete_conv')
  moreover have "gm_has (h6_cancel_sub ?u) r \<longleftrightarrow> gm_has (h6_rooms ?u) r" for r
    using ok redis by (auto simp: u(1,2) left go_map_simps v6_subs_ok_def)
  ultimately show ?thesis using redis unfolding v6_subs_ok_def by (auto simp: u(3))
qed

lemma v6_subs_unregister:
  assumes "v6_subs_ok s"
  shows "v6_subs_ok (v6_handle_unregister a s)"
proof (cases "map_of (h6_rooms s) (c1_room (h6_client s a))")
  case None
  then show ?thesis using assms by (simp add: v6_handle_unregister_def)
next
  case (Some clients)
  let ?room = "c1_room (h6_client s a)"
  let ?t = "s\<lparr>h6_client := (h6_client s)(a := v1_close (h6_client s a)), h6_rooms := leave_room a ?room (h6_rooms s)\<rparr>"
  have get: "gm_get [] (h6_rooms s) ?room = clients" "gm_has (h6_rooms s) ?room"
    using Some by (simp_all add: gm_get_def gm_has_def)
  consider "a \<notin> set clients" | "a \<in> set clients" "remove1 a clients \<noteq> []" | "a \<in> set clients" "remove1 a clients = []"
    by blast
  then show ?thesis
  proof cases
    case 1
    then show ?thesis using assms Some by (simp add: v6_handle_unregister_def)
  next
    case 2
    then have "v6_handle_unregister a s = ?t" using Some by (simp add: v6_handle_unregister_def Let_def)
    moreover have "gm_has (h6_rooms ?t) room \<longleftrightarrow> gm_has (h6_rooms s) room" for room
      using 2(2) get by (simp add: gm_has_leave)
    ultimately show ?thesis using assms by (simp add: v6_subs_ok_def v6_sub_keys_def)
  next
    case 3
    then have s': "v6_handle_unregister a s = v6_cancel ?room ?t" using Some by (simp add: v6_handle_unregister_def Let_def)
    show ?thesis unfolding s' using 3(2) get by (intro v6_subs_cancel [OF assms get(2)]) (simp_all add: gm_has_leave)
  qed
qed

lemma v6_rooms_register:
  assumes "v6_rooms_ok s" "h6_phase s a = V1_joining"
  shows "v6_rooms_ok (v6_to a V1_reading ((v6_handle_register a s)\<lparr>h6_writing := x\<rparr>))"
proof -
  have rooms: "h6_rooms (v6_handle_register a s) = join_room a (c1_room (h6_client s a)) (h6_rooms s)"
    by (simp add: v6_handle_register_def Let_def)
  show ?thesis using assms
    by (auto simp: v6_rooms_ok_def v6_members_def rooms members_join rooms_wf_join frame_simps v1_joined_def)
qed

lemma v6_rooms_unregister:
  assumes ok: "v6_rooms_ok s" and "h6_phase s a = V1_leaving"
  shows "v6_rooms_ok (v6_to a V1_closing (v6_handle_unregister a s))"
proof -
  let ?room = "c1_room (h6_client s a)"
  have "a \<in> set (v6_members ?room s)" using assms by (simp add: v6_rooms_ok_def v1_joined_def)
  then obtain clients where "map_of (h6_rooms s) ?room = Some clients" "a \<in> set clients"
    by (cases "map_of (h6_rooms s) ?room") (simp_all add: v6_members_def gm_get_def)
  then have rooms: "h6_rooms (v6_handle_unregister a s) = leave_room a ?room (h6_rooms s)"
    by (simp add: v6_handle_unregister_def Let_def frame_simps)
  then show ?thesis using assms
    by (auto simp: v6_rooms_ok_def v6_members_def members_leave rooms_wf_leave frame_simps v1_joined_def)
qed

lemma v6_same_subs:
  assumes "v6_subs_ok s" "v6_sub_keys s' = v6_sub_keys s" "h6_cancel_sub s' = h6_cancel_sub s" "h6_rooms s' = h6_rooms s"
    "h6_redis s' = None \<longleftrightarrow> h6_redis s = None"
  shows "v6_subs_ok s'"
  using assms by (simp add: v6_subs_ok_def)

lemma v6_same_rooms:
  assumes "v6_rooms_ok s" "h6_rooms s' = h6_rooms s" "h6_phase s' = h6_phase s"
    "\<And>a. c1_room (h6_client s' a) = c1_room (h6_client s a)"
  shows "v6_rooms_ok s'"
  using assms by (simp add: v6_rooms_ok_def v6_members_def)

definition v6_topology :: "('p, 'r) v6_hub \<Rightarrow> (string \<times> bool) list \<times> (string, nat) gomap \<times> (string, nat list) gomap \<times> bool" where
  "v6_topology s = (v6_sub_keys s, h6_cancel_sub s, h6_rooms s, h6_redis s = None)"

definition v6_people :: "('p, 'r) v6_hub \<Rightarrow> (nat \<Rightarrow> v1_phase) \<times> (nat \<Rightarrow> string)" where
  "v6_people s = (h6_phase s, \<lambda>a. c1_room (h6_client s a))"

lemma v6_topology_put: "v6_topology (v6_put who hand s) = v6_topology s" "v6_people (v6_put who hand s) = v6_people s"
  by (auto simp: v6_topology_def v6_people_def v6_sub_keys_def v6_put_def map_update_same split: option.split)

lemma v6_topology_release:
  "v6_topology (v6_release_snapshot c s) = v6_topology s" "v6_people (v6_release_snapshot c s) = v6_people s"
  by (simp_all add: v6_topology_def v6_people_def v6_sub_keys_def frame_simps)

lemma v6_topology_updates [simp]:
  "v6_topology (s\<lparr>h6_count := x1\<rparr>) = v6_topology s" "v6_people (s\<lparr>h6_count := x1\<rparr>) = v6_people s"
  "v6_topology (s\<lparr>h6_arrays := x2\<rparr>) = v6_topology s" "v6_people (s\<lparr>h6_arrays := x2\<rparr>) = v6_people s"
  "v6_topology (s\<lparr>h6_jobs := x3\<rparr>) = v6_topology s" "v6_people (s\<lparr>h6_jobs := x3\<rparr>) = v6_people s"
  "v6_topology (s\<lparr>h6_accepted := x4\<rparr>) = v6_topology s" "v6_people (s\<lparr>h6_accepted := x4\<rparr>) = v6_people s"
  "v6_topology (s\<lparr>h6_workers := x5\<rparr>) = v6_topology s" "v6_people (s\<lparr>h6_workers := x5\<rparr>) = v6_people s"
  "v6_topology (s\<lparr>h6_panic := x6\<rparr>) = v6_topology s" "v6_people (s\<lparr>h6_panic := x6\<rparr>) = v6_people s"
  "v6_topology (s\<lparr>h6_pool := x7\<rparr>) = v6_topology s" "v6_people (s\<lparr>h6_pool := x7\<rparr>) = v6_people s"
  "v6_topology (s\<lparr>h6_broadcast := x8\<rparr>) = v6_topology s" "v6_people (s\<lparr>h6_broadcast := x8\<rparr>) = v6_people s"
  "v6_topology (s\<lparr>h6_writing := x9\<rparr>) = v6_topology s" "v6_people (s\<lparr>h6_writing := x9\<rparr>) = v6_people s"
  "v6_topology (s\<lparr>h6_phase := x10\<rparr>) = v6_topology s" "v6_topology (s\<lparr>h6_client := x11\<rparr>) = v6_topology s"
  by (simp_all add: v6_topology_def v6_people_def v6_sub_keys_def)

lemma v6_topology_ok:
  assumes "v6_topology s' = v6_topology s" "v6_subs_ok s"
  shows "v6_subs_ok s'"
  using assms v6_same_subs [of s s'] by (auto simp: v6_topology_def)

lemma v6_people_ok:
  assumes "v6_topology s' = v6_topology s" "v6_people s' = v6_people s" "v6_rooms_ok s"
  shows "v6_rooms_ok s'"
  using assms v6_same_rooms [of s s'] by (auto simp: v6_topology_def v6_people_def fun_eq_iff)

lemma v6_topology_broadcast:
  "v6_topology (v6_start_local_broadcast pt pick order room payload who s) = v6_topology s"
  "v6_people (v6_start_local_broadcast pt pick order room payload who s) = v6_people s"
  "v6_topology (v6_enqueue_job job who s) = v6_topology s" "v6_people (v6_enqueue_job job who s) = v6_people s"
proof -
  obtain s1 sl where get: "v6_pool_get pick s = (s1, sl)" by fastforce
  have "v6_topology s1 = v6_topology s" "v6_people s1 = v6_people s"
    using v6_pool_get_frames [OF get] by (simp_all add: v6_topology_def v6_people_def v6_sub_keys_def)
  then show "v6_topology (v6_start_local_broadcast pt pick order room payload who s) = v6_topology s"
    "v6_people (v6_start_local_broadcast pt pick order room payload who s) = v6_people s"
    using get by (auto simp: v6_start_local_broadcast_def v6_snapshot_room_clients_def v6_topology_put v6_topology_release
        split: prod.split option.split)
  show "v6_topology (v6_enqueue_job job who s) = v6_topology s" "v6_people (v6_enqueue_job job who s) = v6_people s"
    by (auto simp: v6_enqueue_job_def v6_topology_put v6_topology_release split: option.split)
qed

lemma v6_topology_steps:
  "v6_topology (v6_enqueue_persistence pt m s) = v6_topology s" "v6_people (v6_enqueue_persistence pt m s) = v6_people s"
  "v6_topology (v6_handle_broadcast cd pt p s) = v6_topology s" "v6_people (v6_handle_broadcast cd pt p s) = v6_people s"
  "v6_topology (v6_subscribe i s) = v6_topology s" "v6_people (v6_subscribe i s) = v6_people s"
  "v6_topology (v6_receive i payload s) = v6_topology s" "v6_people (v6_receive i payload s) = v6_people s"
  "v6_topology (v6_end_sub i s) = v6_topology s" "v6_people (v6_end_sub i s) = v6_people s"
  "v6_topology (v6_safe_send a payload s) = v6_topology s" "v6_people (v6_safe_send a payload s) = v6_people s"
  "v6_take_job w s = Some s' \<Longrightarrow> v6_topology s' = v6_topology s \<and> v6_people s' = v6_people s"
  "v6_write a ok s = Some s' \<Longrightarrow> v6_topology s' = v6_topology s \<and> v6_people s' = v6_people s"
  by (simp_all add: v6_topology_def v6_people_def v6_sub_keys_def frame_simps v6_subscribe_def v6_end_sub_def map_update_same)
    (auto simp: v6_receive_def v6_put_def map_update_same v6_take_job_def v6_write_def Let_def v1_close_def fun_eq_iff
      split: list.splits if_splits)

lemma v6_topology_work:
  "v6_work w s = Some s' \<Longrightarrow> v6_topology s' = v6_topology s \<and> v6_people s' = v6_people s"
  by (auto simp: v6_work_def v6_topology_release v6_topology_steps split: option.splits if_splits)

lemma v6_serve_connected: "v6_serve_ws u name room ok = V1_connected c \<Longrightarrow> c1_room c \<noteq> []"
  by (auto simp: v6_serve_ws_def Let_def v6_new_client_def split: if_splits)

lemma v6_same_topology:
  assumes "v6_subs_ok s" "v6_rooms_ok s" "v6_topology s' = v6_topology s" "v6_people s' = v6_people s"
  shows "v6_subs_ok s' \<and> v6_rooms_ok s'"
  using assms v6_topology_ok v6_people_ok by blast

lemma v6_topology_step:
  assumes "v6_step cd pt s s'" "v6_subs_ok s" "v6_rooms_ok s"
  shows "v6_subs_ok s' \<and> v6_rooms_ok s'"
  using assms
proof (induction rule: v6_step.cases)
  case (registers s a)
  have "v6_subs_ok (v6_to a V1_reading ((v6_handle_register a s)\<lparr>h6_writing := (h6_writing s)(a := True)\<rparr>))"
    by (rule v6_topology_ok [OF _ v6_subs_register]) (use registers in simp_all)
  then show ?case using registers v6_rooms_register by blast
next
  case (unregisters s a)
  have "v6_subs_ok (v6_to a V1_closing (v6_handle_unregister a s))"
    by (rule v6_topology_ok [OF _ v6_subs_unregister]) (use unregisters in simp_all)
  then show ?case using unregisters v6_rooms_unregister by blast
next
  case (connects s a u name room c)
  then have "v6_subs_ok (v6_to a V1_joining (s\<lparr>h6_client := (h6_client s)(a := c)\<rparr>))"
    by - (rule v6_topology_ok [of _ s], simp_all)
  then show ?case using connects by (auto simp: v6_rooms_ok_def v6_members_def)
next
  case (closes s a)
  then have "v6_subs_ok (v6_to a V1_left (s\<lparr>h6_client := (h6_client s)(a := v1_close (h6_client s a))\<rparr>))"
    by - (rule v6_topology_ok [of _ s], simp_all)
  then show ?case using closes by (auto simp: v6_rooms_ok_def v6_members_def v1_close_def)
next
  case (reads s a raw now m p)
  let ?t = "v6_enqueue_persistence pt m s"
  have "v6_topology (v6_to a (V1_posting p) ?t) = v6_topology s" by (simp add: v6_topology_steps)
  then have "v6_subs_ok (v6_to a (V1_posting p) ?t)" using reads v6_topology_ok by blast
  moreover have "v6_rooms_ok ?t" using reads v6_people_ok [of ?t s] by (simp add: v6_topology_steps)
  ultimately show ?case using reads(2,3) by (auto simp: v6_rooms_ok_def v6_members_def frame_simps)
next
  case (posts s a p ch)
  then have "v6_subs_ok (v6_to a V1_reading (s\<lparr>h6_broadcast := ch\<rparr>))"
    by - (rule v6_topology_ok [of _ s], simp_all)
  then show ?case using posts by (auto simp: v6_rooms_ok_def v6_members_def)
next
  case (stops s a)
  then have "v6_subs_ok (v6_to a V1_leaving s)" by - (rule v6_topology_ok [of _ s], simp_all)
  then show ?case using stops by (auto simp: v6_rooms_ok_def v6_members_def)
next
  case (takes_job w s s')
  then show ?case using v6_topology_steps(13) v6_topology_ok v6_people_ok by blast
next
  case (works w s s')
  then show ?case using v6_topology_work v6_topology_ok v6_people_ok by blast
next
  case (writes s a ok s')
  then show ?case using v6_topology_steps(14) v6_topology_ok v6_people_ok by blast
next
  case (broadcasts s p ch)
  let ?t = "v6_handle_broadcast cd pt p (s\<lparr>h6_broadcast := ch\<rparr>)"
  have "v6_topology ?t = v6_topology s" "v6_people ?t = v6_people s" by (simp_all add: v6_topology_steps)
  then show ?case using broadcasts v6_topology_ok v6_people_ok by blast
next
  case (pump_ends s a)
  then show ?case using v6_topology_ok [of s' s] v6_people_ok [of s' s] by simp
next
  case (collects kept s)
  then show ?case using v6_topology_ok [of s' s] v6_people_ok [of s' s] by simp
qed (rule v6_same_topology, assumption, assumption, simp add: v6_topology_steps v6_topology_broadcast,
    simp add: v6_topology_steps v6_topology_broadcast)+

lemma v6_topology_redis: "v6_topology s' = v6_topology s \<Longrightarrow> h6_redis s' = None \<longleftrightarrow> h6_redis s = None"
  by (simp add: v6_topology_def)

lemma v6_redis_step:
  assumes "v6_step cd pt s s'"
  shows "h6_redis s' = None \<longleftrightarrow> h6_redis s = None"
  using assms
proof (induction rule: v6_step.cases)
  case (takes_job w s s')
  then show ?case using v6_topology_redis [OF conjunct1 [OF v6_topology_steps(13) [OF takes_job(5)]]] by simp
next
  case (works w s s')
  then show ?case using v6_topology_redis [OF conjunct1 [OF v6_topology_work [OF works(4)]]] by simp
next
  case (writes s a ok s')
  then show ?case using v6_topology_redis [OF conjunct1 [OF v6_topology_steps(14) [OF writes(4)]]] by simp
next
  case (snapshots who s room payload order pick)
  then show ?case using v6_topology_redis [OF v6_topology_broadcast(1)] by simp
next
  case (enqueues who s job)
  then show ?case using v6_topology_redis [OF v6_topology_broadcast(3)] by simp
qed (simp_all add: frame_simps v6_subscribe_def v6_end_sub_def v6_receive_def)

lemma v6_reachable_inv:
  assumes "v6_reachable cd pt n p r s"
  shows "v6_memory_ok s \<and> v6_books_ok s \<and> v6_subs_ok s \<and> v6_rooms_ok s \<and> (h6_redis s = None \<longleftrightarrow> r = None)"
  using assms
proof (induction rule: rtranclp_induct)
  case base
  have workers: "sum_list (replicate k (0 :: 'x :: comm_monoid_add)) = 0" for k by (induction k) simp_all
  show ?case
    by (auto simp: v6_new_manager_def Let_def v6_memory_ok_def v6_mem_ok_def v6_books_ok_def v6_pool_books_def v6_job_books_def
        v6_flying_def v6_hands_def v6_remaining_def workers v6_zero_counters_def make_chan_def v6_subs_ok_def v6_rooms_ok_def
        v6_members_def v6_sub_keys_def)
next
  case (step s s')
  note v6_redis_step [OF step.hyps(2)]
  then show ?case using step.IH v6_memory_step [OF step.hyps(2)] v6_books_step [OF step.hyps(2)] v6_topology_step [OF step.hyps(2)]
    by blast
qed

section \<open>An example\<close>

definition v6_demo_codec :: v6_codec where
  "v6_demo_codec =
     \<lparr>c6_dec_packet = (\<lambda>raw. Some \<lparr>packet_type = type_danmaku, packet_room_id = [], packet_data = raw\<rparr>),
      c6_dec_danmaku = (\<lambda>data. Some \<lparr>d6_id = 0, d6_room_id = [], d6_user_id = [], d6_username = [],
         d6_content = data, d6_send_time = \<lparr>instant = 1, utc_offset = 0\<rparr>\<rparr>),
      c6_enc_packet = (\<lambda>p. Some (packet_data p)), c6_enc_danmaku = (\<lambda>d. Some (d6_content d))\<rparr>"

definition v6_demo_ports :: "(unit, unit) v6_ports" where
  "v6_demo_ports = \<lparr>p6_enqueue = (\<lambda>m p. (p, True)), p6_publish = (\<lambda>channel payload r. (r, False)), p6_grow = (\<lambda>n. 2 * n)\<rparr>"

definition v6_demo_packet :: packet where
  "v6_demo_packet = \<lparr>packet_type = type_danmaku, packet_room_id = ''r'', packet_data = ''hi''\<rparr>"

definition v6_demo_job :: "nat \<Rightarrow> v6_job" where
  "v6_demo_job p = \<lparr>j6_room = ''r'', j6_clients = \<lparr>sl_array = p, sl_len = 1, sl_cap = 256\<rparr>,
     j6_payload = ''hi'', j6_members = [1]\<rparr>"

definition v6_demo_message :: v6_danmaku where
  "v6_demo_message = \<lparr>d6_id = 0, d6_room_id = ''r'', d6_user_id = ''u'', d6_username = ''n'', d6_content = ''hi'',
     d6_send_time = \<lparr>instant = 1, utc_offset = 0\<rparr>\<rparr>"

type_synonym v6_demo_hub = "(unit, unit) v6_hub"

datatype v6_command =
    Joins nat | Registers nat | Subscribes nat | Leaves nat | Unregisters nat | Reads nat | Posts nat | Broadcasts
  | Receives nat | Snapshots nat | Enqueues nat nat | Takes | Works

fun v6_needs :: "v6_command \<Rightarrow> v6_demo_hub \<Rightarrow> bool" where
  "v6_needs (Joins a) s \<longleftrightarrow> h6_phase s a = V1_absent"
| "v6_needs (Registers a) s \<longleftrightarrow> h6_phase s a = V1_joining \<and> h6_run s = Free"
| "v6_needs (Subscribes i) s \<longleftrightarrow> i < length (h6_subs s) \<and> s6_phase (h6_subs s ! i) = Sub_new"
| "v6_needs (Leaves a) s \<longleftrightarrow> h6_phase s a = V1_reading"
| "v6_needs (Unregisters a) s \<longleftrightarrow> h6_phase s a = V1_leaving \<and> h6_run s = Free"
| "v6_needs (Reads a) s \<longleftrightarrow> h6_phase s a = V1_reading \<and> h6_client s a = v6_new_client ''u'' ''n'' ''r''"
| "v6_needs (Posts a) s \<longleftrightarrow> h6_phase s a = V1_posting v6_demo_packet \<and> h6_broadcast s = make_chan 512"
| "v6_needs Broadcasts s \<longleftrightarrow> h6_run s = Free \<and> chan_buf (h6_broadcast s) = [v6_demo_packet]"
| "v6_needs (Receives i) s \<longleftrightarrow> v6_listening i s"
| "v6_needs (Snapshots i) s \<longleftrightarrow>
     v6_broadcaster (Some i) s \<and> v6_hand_of (Some i) s = Local ''r'' ''hi'' \<and> v6_members ''r'' s = [1]"
| "v6_needs (Enqueues i p) s \<longleftrightarrow> v6_broadcaster (Some i) s \<and> v6_hand_of (Some i) s = Holding (v6_demo_job p)"
| "v6_needs Takes s \<longleftrightarrow>
     0 < length (h6_workers s) \<and> Option.is_none (h6_workers s ! 0) \<and> \<not> Option.is_none (v6_take_job 0 s)"
| "v6_needs Works s \<longleftrightarrow> 0 < length (h6_workers s) \<and> \<not> Option.is_none (v6_work 0 s)"

fun v6_does :: "v6_command \<Rightarrow> v6_demo_hub \<Rightarrow> v6_demo_hub" where
  "v6_does (Joins a) s = v6_to a V1_joining (s\<lparr>h6_client := (h6_client s)(a := v6_new_client ''u'' ''n'' ''r'')\<rparr>)"
| "v6_does (Registers a) s = v6_to a V1_reading ((v6_handle_register a s)\<lparr>h6_writing := (h6_writing s)(a := True)\<rparr>)"
| "v6_does (Subscribes i) s = v6_subscribe i s"
| "v6_does (Leaves a) s = v6_to a V1_leaving s"
| "v6_does (Unregisters a) s = v6_to a V1_closing (v6_handle_unregister a s)"
| "v6_does (Reads a) s = v6_to a (V1_posting v6_demo_packet) (v6_enqueue_persistence v6_demo_ports v6_demo_message s)"
| "v6_does (Posts a) s = v6_to a V1_reading (s\<lparr>h6_broadcast := \<lparr>chan_buf = [v6_demo_packet], chan_cap = 512\<rparr>\<rparr>)"
| "v6_does Broadcasts s = v6_handle_broadcast v6_demo_codec v6_demo_ports v6_demo_packet
     (s\<lparr>h6_broadcast := (h6_broadcast s)\<lparr>chan_buf := []\<rparr>\<rparr>)"
| "v6_does (Receives i) s = v6_receive i ''hi'' s"
| "v6_does (Snapshots i) s = v6_start_local_broadcast v6_demo_ports None [1] ''r'' ''hi'' (Some i) s"
| "v6_does (Enqueues i p) s = v6_enqueue_job (v6_demo_job p) (Some i) s"
| "v6_does Takes s = the (v6_take_job 0 s)"
| "v6_does Works s = the (v6_work 0 s)"

fun v6_checked :: "v6_command list \<Rightarrow> (v6_demo_hub \<Rightarrow> bool) \<Rightarrow> v6_demo_hub \<Rightarrow> bool" where
  "v6_checked [] result s \<longleftrightarrow> result s"
| "v6_checked (f # fs) result s \<longleftrightarrow> v6_needs f s \<and> v6_checked fs result (v6_does f s)"

definition v6_demo_commands :: "v6_command list" where
  \<comment> \<open>the last client of a room leaves and another comes, before the first subscription has ended\<close>
  "v6_demo_commands =
     [Joins 0, Registers 0, Subscribes 0, Leaves 0, Unregisters 0, Joins 1, Registers 1, Subscribes 1,
      Reads 1, Posts 1, Broadcasts, Receives 0, Snapshots 0, Enqueues 0 0, Receives 1, Snapshots 1, Enqueues 1 1]"

definition v6_demo_twice :: "(unit, unit) v6_hub \<Rightarrow> bool" where
  "v6_demo_twice s \<longleftrightarrow> k6_published (h6_count s) = 1 \<and> k6_received (h6_count s) = 2 \<and>
     chan_buf (c1_send (h6_client s 1)) = [''hi'', ''hi'']"

definition v6_demo_waiting :: "v6_demo_hub \<Rightarrow> bool" where
  "v6_demo_waiting s \<longleftrightarrow> chan_buf (h6_jobs s) = [v6_demo_job 0, v6_demo_job 1]"

lemma v6_demo_checked:
  "v6_checked v6_demo_commands v6_demo_waiting (v6_new_manager 1 None (Some ()))"
  "v6_checked (v6_demo_commands @ [Takes, Works, Works, Takes, Works]) v6_demo_twice (v6_new_manager 1 None (Some ()))"
  by code_simp+

lemma v6_demo_texts:
  "trim_space ''hi'' = ''hi''" "trim_space ''u'' = ''u''" "trim_space ''n'' = ''n''" "trim_space ''r'' = ''r''"
  by (simp_all add: trim_space_ascii ascii_def byte_def is_space_def)

lemma v6_demo_reads:
  "v6_read v6_demo_codec (v6_new_client ''u'' ''n'' ''r'') \<lparr>instant = 1, utc_offset = 0\<rparr> ''hi'' =
     Some (v6_demo_message, v6_demo_packet)"
  by (simp add: v6_read_def v6_handle_danmaku_def v6_demo_codec_def v6_new_client_def v6_demo_message_def v6_demo_packet_def
      v6_demo_texts Let_def)

lemma v6_demo_serves: "v6_serve_ws ''u'' ''n'' ''r'' True = V1_connected (v6_new_client ''u'' ''n'' ''r'')"
  by (simp add: v6_serve_ws_def v6_demo_texts Let_def)

lemma v6_does_step:
  assumes "v6_needs f s"
  shows "v6_step v6_demo_codec v6_demo_ports s (v6_does f s)"
proof (cases f)
  case (Reads a)
  have "v6_step v6_demo_codec v6_demo_ports s
      (v6_to a (V1_posting v6_demo_packet) (v6_enqueue_persistence v6_demo_ports v6_demo_message s))"
    by (rule v6_step.reads [where raw = "''hi''" and now = "\<lparr>instant = 1, utc_offset = 0\<rparr>"])
      (use assms in \<open>simp_all add: Reads v6_demo_reads v6_max_message_bytes_def\<close>)
  then show ?thesis by (simp add: Reads)
next
  case (Joins a)
  then show ?thesis using assms v6_step.connects [OF _ v6_demo_serves] by simp
next
  case (Registers a)
  then show ?thesis using assms v6_step.registers [of s a] by simp
next
  case (Posts a)
  have "v6_step v6_demo_codec v6_demo_ports s
      (v6_to a V1_reading (s\<lparr>h6_broadcast := \<lparr>chan_buf = [v6_demo_packet], chan_cap = 512\<rparr>\<rparr>))"
    by (rule v6_step.posts [where p = v6_demo_packet]) (use assms in \<open>simp_all add: Posts make_chan_def try_send_def\<close>)
  then show ?thesis by (simp add: Posts)
next
  case Broadcasts
  have "v6_step v6_demo_codec v6_demo_ports s (v6_handle_broadcast v6_demo_codec v6_demo_ports v6_demo_packet
      (s\<lparr>h6_broadcast := (h6_broadcast s)\<lparr>chan_buf := []\<rparr>\<rparr>))"
    by (rule v6_step.broadcasts) (use assms in \<open>simp_all add: Broadcasts\<close>)
  then show ?thesis by (simp add: Broadcasts)
next
  case Takes
  then show ?thesis using assms by (auto simp: Option.is_none_def intro: v6_step.takes_job)
next
  case Works
  then show ?thesis using assms by (auto simp: Option.is_none_def intro: v6_step.works)
qed (use assms in \<open>auto intro: v6_step.intros\<close>)

lemma v6_checked_run:
  assumes "v6_checked fs result s"
  shows "\<exists>s'. (v6_step v6_demo_codec v6_demo_ports)\<^sup>*\<^sup>* s s' \<and> result s'"
  using assms
proof (induction fs arbitrary: s)
  case Nil
  then show ?case by auto
next
  case (Cons f fs)
  then have "v6_step v6_demo_codec v6_demo_ports s (v6_does f s)" using v6_does_step by simp
  moreover have "\<exists>s'. (v6_step v6_demo_codec v6_demo_ports)\<^sup>*\<^sup>* (v6_does f s) s' \<and> result s'"
    using Cons by simp
  ultimately show ?case by (meson converse_rtranclp_into_rtranclp)
qed

section \<open>Properties\<close>

text \<open>C21: The sixth stage reuses slices without ever sharing one: in every reachable state no two of the
  slices that are pooled or belong to a job have the same array, the slice of every job still shows exactly
  the clients that were in the room when the job was made, so that no worker meets nil, and a pooled array
  keeps no client alive.\<close>

theorem v6_snapshots_are_never_shared:
  assumes "v6_reachable cd pt n p r s"
  shows "\<not> h6_panic s \<and> (\<forall>array. count (image_mset sl_array (v6_slices s)) array \<le> 1) \<and>
    (\<forall>job. job \<in># v6_flying s \<longrightarrow> slice_items (h6_arrays s) (j6_clients job) = map Some (j6_members job)) \<and>
    list_all (\<lambda>sl. cells (h6_arrays s) (sl_array sl) = replicate (sl_cap sl) None \<and> sl_cap sl \<le> 8192) (h6_pool s)"
proof -
  have mem: "owned (h6_arrays s) (v6_slices s)" "\<And>job. job \<in># v6_flying s \<Longrightarrow> v6_job_ok (h6_arrays s) job"
    "\<And>sl. sl \<in> set (h6_pool s) \<Longrightarrow> v6_pooled_ok sl" "\<not> h6_panic s"
    using v6_reachable_inv [OF assms] by (auto simp: v6_memory_ok_def v6_mem_ok_def v6_slices_def)
  have "cells (h6_arrays s) (sl_array sl) = replicate (sl_cap sl) None \<and> sl_cap sl \<le> 8192" if "sl \<in> set (h6_pool s)" for sl
    using owned_ok [OF mem(1), of sl] mem(3) [OF that] that
    by (auto simp: v6_slices_def slice_ok_def v6_pooled_ok_def v6_max_snapshot_retain_cap_def)
  then show ?thesis using mem by (auto simp: owned_def v6_job_ok_def list_all_iff)
qed

text \<open>The counters of the sixth stage account for everything: a slice taken from the pool is back, dropped or
  with a job under way; a broadcast to a room with clients is an enqueued or a dropped job or about to be
  one; and each client of each enqueued job is a delivered or a dropped message or still to come.\<close>

theorem v6_counters_account:
  assumes "v6_reachable cd pt n p r s"
  shows "let k = m6_counters (v6_metrics_of mem s)
    in k6_pool_gets k = k6_pool_puts k + k6_pool_drops k + of_nat (size (v6_flying s)) \<and>
       k6_fanout k = k6_enqueued_jobs k + k6_dropped_jobs k + of_nat (size (v6_hands s)) \<and>
       k6_enqueued_jobs k = of_nat (length (h6_accepted s)) \<and>
       k6_delivered k + k6_dropped k + of_nat (v6_remaining s) = of_nat (sum_list (map length (h6_accepted s)))"
  using v6_reachable_inv [OF assms]
  by (simp add: v6_metrics_of_def v6_books_ok_def v6_pool_books_def v6_job_books_def)

text \<open>In every reachable state of the sixth stage a room has the clients that joined it and have not left, and
  with Redis exactly the rooms with clients have a subscription that is not cancelled, and only one.\<close>

theorem v6_rooms_and_subscriptions:
  assumes "v6_reachable cd pt n p r s"
  shows "rooms_wf (h6_rooms s) \<and>
    (a \<in> set (v6_members room s) \<longleftrightarrow> v1_joined (h6_phase s a) \<and> c1_room (h6_client s a) = room) \<and>
    (r \<noteq> None \<longrightarrow> (if v6_members room s = [] then \<not> (\<exists>i < length (h6_subs s). v6_sub_keys s ! i = (room, False))
       else \<exists>!i. i < length (h6_subs s) \<and> v6_sub_keys s ! i = (room, False)))"
proof -
  note inv = v6_reachable_inv [OF assms]
  have rooms: "v6_members room s = [] \<longleftrightarrow> \<not> gm_has (h6_rooms s) room"
    using inv by (fastforce simp: v6_rooms_ok_def rooms_wf_def list_all_iff v6_members_def gm_get_def gm_has_def
        split: option.split dest: map_of_SomeD)
  have "if v6_members room s = [] then \<not> (\<exists>i < length (h6_subs s). v6_sub_keys s ! i = (room, False))
      else \<exists>!i. i < length (h6_subs s) \<and> v6_sub_keys s ! i = (room, False)" if "r \<noteq> None"
  proof -
    have keys: "map_of (h6_cancel_sub s) room = Some i \<longleftrightarrow> i < length (h6_subs s) \<and> v6_sub_keys s ! i = (room, False)" for i
      using inv by (simp add: v6_subs_ok_def v6_sub_keys_def)
    have "gm_has (h6_cancel_sub s) room \<longleftrightarrow> v6_members room s \<noteq> []"
      using inv that rooms by (simp add: v6_subs_ok_def)
    then show ?thesis unfolding keys [symmetric] by (auto simp: gm_has_def)
  qed
  then show ?thesis using inv by (auto simp: v6_rooms_ok_def)
qed


section \<open>Witnesses\<close>

lemma v6_waiting_flies: "v6_demo_waiting s \<Longrightarrow> v6_demo_job 1 \<in># v6_flying s"
  by (simp add: v6_demo_waiting_def v6_flying_def)

theorem v6_snapshots_are_never_shared_witness:
  "\<exists>s. v6_reachable v6_demo_codec v6_demo_ports 1 None (Some ()) s \<and> v6_demo_waiting s \<and> \<not> h6_panic s \<and>
     slice_items (h6_arrays s) (j6_clients (v6_demo_job 1)) = [Some 1]"
proof -
  obtain s where s: "v6_reachable v6_demo_codec v6_demo_ports 1 None (Some ()) s" "v6_demo_waiting s"
    using v6_checked_run [OF v6_demo_checked(1)] by blast
  then show ?thesis using v6_snapshots_are_never_shared [OF s(1)] v6_waiting_flies [OF s(2)]
    by (auto simp: v6_demo_job_def intro!: exI [of _ s])
qed

end
