(* ===== verification/V8_Consumer.thy ===== *)
theory V8_Consumer
  imports Delivery
begin

text \<open>
  The consumer of the eighth stage of the course, \<open>v8/internal/consumer/handler.go\<close>: the loop of v10
  without recovery, without the storage limits and without removing duplicates from a batch. A batch that
  still fails after the retries ends the claim. The handler is v10's record, whose fields of the recovery
  stay unused; retries, dead letters and marking are the same code as in v10 (\<open>Consumer\<close>).
\<close>

section \<open>The handler\<close>

record v8_consumer_config =
  v8c_batch_size :: int
  v8c_flush_interval :: duration
  v8c_flush_timeout :: duration
  v8c_max_retries :: int
  v8c_retry_backoff :: duration

record v8_consumer_metrics =
  v8m_parsed :: u64
  v8m_saved :: u64
  v8m_inserted :: u64
  v8m_duplicates :: u64
  v8m_batches :: u64
  v8m_skipped :: u64
  v8m_dead_letters :: u64
  v8m_dead_letter_failures :: u64
  v8m_retry_attempts :: u64
  v8m_failed_batches :: u64
  v8m_last_batch_millis :: int

definition v8_new_handler :: "v8_consumer_config \<Rightarrow> handler" where
  "v8_new_handler c =
     \<lparr>batch_size = or_default 500 (v8c_batch_size c),
      flush_interval = or_default (200 * millisecond) (v8c_flush_interval c),
      flush_timeout = or_default (5 * second) (v8c_flush_timeout c),
      max_retries = or_default 3 (v8c_max_retries c),
      retry_backoff = or_default (300 * millisecond) (v8c_retry_backoff c),
      recovery_min = 0, recovery_max = 0,
      parsed = 0, saved = 0, inserted = 0, duplicates = 0, batches = 0, skipped = 0,
      dead_letter_count = 0, dead_letter_failures = 0, retry_attempts = 0,
      failed_batches = 0, last_batch_millis = 0, paused_partitions = 0,
      pause_events = 0, recoveries = 0, recovery_wait_millis = 0\<rparr>"

definition v8_metrics_of :: "handler \<Rightarrow> v8_consumer_metrics" where
  "v8_metrics_of h =
     \<lparr>v8m_parsed = parsed h, v8m_saved = saved h, v8m_inserted = inserted h, v8m_duplicates = duplicates h,
      v8m_batches = batches h, v8m_skipped = skipped h, v8m_dead_letters = dead_letter_count h,
      v8m_dead_letter_failures = dead_letter_failures h, v8m_retry_attempts = retry_attempts h,
      v8m_failed_batches = failed_batches h, v8m_last_batch_millis = last_batch_millis h\<rparr>"

definition v8_parse_message :: "codec \<Rightarrow> consumer_message \<Rightarrow> parse_error + danmaku" where
  "v8_parse_message cd msg =
     (case dec_packet cd (msg_value msg) of
        None \<Rightarrow> Inl (Bad_packet (msg_value msg))
      | Some p \<Rightarrow>
          if packet_type p \<noteq> type_danmaku then Inl (Unsupported (packet_type p))
          else
            (case dec_danmaku cd (packet_data p) of
               None \<Rightarrow> Inl (Bad_danmaku (packet_data p))
             | Some d \<Rightarrow>
                 if trim_space (message_id d) = [] then Inl Missing_message_id
                 else if trim_space (room_id d) = [] then Inl Missing_room_id
                 else if trim_space (user_id d) = [] then Inl Missing_user_id
                 else if is_zero (instant (send_time d)) then Inl Missing_send_time
                 else Inr d))"

section \<open>The claim loop\<close>

definition v8_flush_pending ::
  "('e, 'x, 'y) consumer_io \<Rightarrow> flush_ctx \<Rightarrow> pending_message list \<Rightarrow> 'e claim \<Rightarrow> 'e claim \<times> 'y consume_error option" where
  \<comment> \<open>the batch has every pending danmaku; the attempts are those of v10\<close>
  "v8_flush_pending io ctx items c =
     (if items = [] then (c, None)
      else
        (let batch = map pm_danmaku items;
             (c, started) = read_clock io c
         in flush_attempts io ctx items batch started 1 c))"

definition v8_flush_before_claim_ends ::
  "('e, 'x, 'y) consumer_io \<Rightarrow> 'e claim \<Rightarrow> 'e claim \<times> 'y consume_error option" where
  "v8_flush_before_claim_ends io c =
     (if pending c = [] then (c, None)
      else v8_flush_pending io (Timeout_ctx (flush_timeout (handler c))) (pending c) c)"

definition v8_flush_and_clear ::
  "('e, 'x, 'y) consumer_io \<Rightarrow> 'e claim \<Rightarrow> 'e claim \<times> 'y consume_error option" where
  "v8_flush_and_clear io c =
     (case v8_flush_pending io Session_ctx (pending c) c of
        (c, Some y) \<Rightarrow> (c, Some y)
      | (c, None) \<Rightarrow> (clear_pending c, None))"

definition v8_consume_message ::
  "('e, 'x, 'y) consumer_io \<Rightarrow> codec \<Rightarrow> consumer_message \<Rightarrow> 'e claim \<Rightarrow> 'e claim \<times> 'y outcome" where
  "v8_consume_message io cd msg c =
     (case v8_parse_message cd msg of
        Inl err \<Rightarrow>
          if pending c \<noteq> []
          then
            (case v8_flush_and_clear io c of
               (c, Some y) \<Rightarrow> (c, Returned (Some y))
             | (c, None) \<Rightarrow> dispose_invalid io msg err c)
          else dispose_invalid io msg err c
      | Inr d \<Rightarrow>
          (let c = add_pending d msg c
           in if int (length (pending c)) \<ge> batch_size (handler c)
              then
                (case v8_flush_and_clear io c of
                   (c, Some y) \<Rightarrow> (c, Returned (Some y))
                 | (c, None) \<Rightarrow> (c, Running))
              else (c, Running)))"

fun v8_consume_step ::
  "('e, 'x, 'y) consumer_io \<Rightarrow> codec \<Rightarrow> claim_event \<Rightarrow> 'e claim \<Rightarrow> 'e claim \<times> 'y outcome" where
  "v8_consume_step io cd (Message msg) c = v8_consume_message io cd msg c"
| "v8_consume_step io cd Tick c =
     (if pending c = [] then (c, Running)
      else
        (case v8_flush_and_clear io c of
           (c, Some y) \<Rightarrow> (c, Returned (Some y))
         | (c, None) \<Rightarrow> (c, Running)))"
| "v8_consume_step io cd Channel_closed c =
     (case v8_flush_before_claim_ends io c of (c, err) \<Rightarrow> (c, Returned err))"
| "v8_consume_step io cd Context_done c =
     (case v8_flush_before_claim_ends io c of (c, err) \<Rightarrow> (c, Returned err))"

fun v8_consume_claim ::
  "('e, 'x, 'y) consumer_io \<Rightarrow> codec \<Rightarrow> claim_event list \<Rightarrow> 'e claim \<Rightarrow> 'e claim \<times> 'y outcome" where
  "v8_consume_claim io cd [] c = (c, Running)"
| "v8_consume_claim io cd (ev # evs) c =
     (case v8_consume_step io cd ev c of
        (c, Running) \<Rightarrow> v8_consume_claim io cd evs c
      | (c, Returned err) \<Rightarrow> (c, Returned err))"

section \<open>An instance of the loop\<close>

lemma v8_flush_pending_flushed:
  assumes "v8_flush_pending io ctx items c = (c', err)"
  shows "flushed items err c c'"
proof (cases "items = []")
  case True
  then show ?thesis using assms quiet_refl by (auto simp: v8_flush_pending_def quiet_def flushed_def)
next
  case False
  then have "flush_attempts io ctx items (map pm_danmaku items) (snd (read_clock io c)) 1
      (fst (read_clock io c)) = (c', err)"
    using assms by (simp add: v8_flush_pending_def Let_def split: prod.splits)
  then show ?thesis by (rule quiet_flushed [OF quiet_clock flush_attempts_flushed])
qed

lemma v8_flush_and_clear_flushed:
  assumes "v8_flush_and_clear io c = (c', err)"
  obtains d where "v8_flush_pending io Session_ctx (pending c) c = (d, err)" "flushed (pending c) err c d"
    "c' = (if err = None then clear_pending d else d)"
proof -
  obtain d y where d: "v8_flush_pending io Session_ctx (pending c) c = (d, y)" by fastforce
  then have "y = err" "c' = (if err = None then clear_pending d else d)"
    using assms by (auto simp: v8_flush_and_clear_def split: option.splits)
  then show thesis using that d v8_flush_pending_flushed [OF d] by blast
qed

interpretation v8_loop: claim_loop "v8_parse_message cd" "\<lambda>c. Some (v8_flush_and_clear io c)"
    "v8_flush_before_claim_ends io" io for cd io
proof unfold_locales
  fix c c' err
  show "\<exists>d. flushed (pending c) err c d \<and> c' = (if err = None then clear_pending d else d)"
    if "Some (v8_flush_and_clear io c) = Some (c', err)"
    using that by (auto elim!: v8_flush_and_clear_flushed)
  show "if pending c = [] then c' = c \<and> err = None else flushed (pending c) err c c'"
    if "v8_flush_before_claim_ends io c = (c', err)"
    using that v8_flush_pending_flushed by (auto simp: v8_flush_before_claim_ends_def)
qed

lemma v8_consume_message_loop:
  "loop_message (v8_parse_message cd) (\<lambda>c. Some (v8_flush_and_clear io c)) io msg c = Some (v8_consume_message io cd msg c)"
  by (simp add: v8_consume_message_def loop_message_def Let_def split: sum.split prod.split option.split)

lemma v8_consume_step_loop:
  "loop_step (v8_parse_message cd) (\<lambda>c. Some (v8_flush_and_clear io c)) (v8_flush_before_claim_ends io) io ev c =
     Some (v8_consume_step io cd ev c)"
  by (cases ev) (simp_all add: v8_consume_message_loop split: prod.split option.split)

lemma v8_consume_claim_loop:
  "loop_claim (v8_parse_message cd) (\<lambda>c. Some (v8_flush_and_clear io c)) (v8_flush_before_claim_ends io) io evs c =
     Some (v8_consume_claim io cd evs c)"
  by (induction evs arbitrary: c) (simp_all add: v8_consume_step_loop split: prod.split outcome.split)

lemma v8_new_claim: "claim_inv (v8_parse_message cd) [] (new_claim (v8_new_handler cfg) e)"
  "room_left (new_claim (v8_new_handler cfg) e)" "0 < batch_size (handler (new_claim (v8_new_handler cfg) e))"
  by (simp_all add: claim_inv_def new_claim_def books_balance_def v8_new_handler_def or_default_def room_left_def Let_def)

section \<open>What v10 changed\<close>

definition ids_of :: "codec \<Rightarrow> consumer_message list \<Rightarrow> string list" where
  \<comment> \<open>the message ids of the danmaku among messages\<close>
  "ids_of cd ms = concat (map (\<lambda>m. case v8_parse_message cd m of Inl e \<Rightarrow> [] | Inr d \<Rightarrow> [message_id d]) ms)"

lemma parse_storable:
  "v8_parse_message cd m = Inl e \<Longrightarrow> parse_message cd m = Inl e"
  "v8_parse_message cd m = Inr d \<Longrightarrow> storable d \<Longrightarrow> parse_message cd m = Inr d"
  using validate_storage_None [of d]
  by (auto simp: v8_parse_message_def parse_message_def split: option.splits if_splits)

lemma unique_batch_from_distinct:
  "distinct (map (\<lambda>i. message_id (pm_danmaku i)) items) \<Longrightarrow>
   (\<lambda>i. message_id (pm_danmaku i)) ` set items \<inter> set seen = {} \<Longrightarrow>
   unique_batch_from seen items = map pm_danmaku items"
  by (induction items arbitrary: seen) auto

lemma v8_flush_pending_v10:
  "distinct (map (\<lambda>i. message_id (pm_danmaku i)) items) \<Longrightarrow> flush_pending io ctx items c = v8_flush_pending io ctx items c"
  using unique_batch_from_distinct [of items "[]"]
  by (simp add: flush_pending_def v8_flush_pending_def unique_batch_def)

abbreviation pending_ids :: "'e claim \<Rightarrow> string list" where
  "pending_ids c \<equiv> map (\<lambda>i. message_id (pm_danmaku i)) (pending c)"

lemma v8_flush_and_clear_v10:
  assumes "distinct (pending_ids c)" "v8_flush_and_clear io c = (c', None)"
  shows "flush_and_clear io c = Some (c', None)"
  using assms
  by (auto simp: flush_and_clear_def flush_with_recovery_def v8_flush_and_clear_def v8_flush_pending_v10
      split: prod.splits option.splits)

lemma v8_last_flush_v10:
  "distinct (pending_ids c) \<Longrightarrow> flush_before_claim_ends io c = v8_flush_before_claim_ends io c"
  by (simp add: flush_before_claim_ends_def v8_flush_before_claim_ends_def v8_flush_pending_v10)

definition goes_on :: "'y outcome \<Rightarrow> bool" where
  \<comment> \<open>the claim still runs or has ended without an error\<close>
  "goes_on out \<longleftrightarrow> out = Running \<or> out = Returned None"

definition all_storable :: "codec \<Rightarrow> consumer_message list \<Rightarrow> bool" where
  "all_storable cd ms \<longleftrightarrow> list_all (\<lambda>m. case v8_parse_message cd m of Inl e \<Rightarrow> True | Inr d \<Rightarrow> storable d) ms"

lemma v8_flush_done:
  assumes "v8_flush_and_clear io c = (d, None)" "distinct (pending_ids c)"
  shows "flush_and_clear io c = Some (d, None)" "pending d = []"
  using assms v8_flush_and_clear_v10 [of c io d]
  by (auto simp: v8_flush_and_clear_def clear_pending_def split: prod.splits option.splits)

lemma v8_invalid_v10:
  assumes "v8_consume_message io cd msg c = (c', out)" "goes_on out" "v8_parse_message cd msg = Inl err" "distinct (pending_ids c)"
  shows "consume_message io cd msg c = Some (c', out) \<and> (out = Running \<longrightarrow> pending c' = [])"
proof -
  have parse: "parse_message cd msg = Inl err" using assms(3) by (rule parse_storable)
  have kept: "pending (fst (dispose_invalid io msg err c)) = pending c" for c :: "'a claim"
    by (auto simp: dispose_invalid_def publish_dead_letter_def claim_defs Let_def
        split: parse_error.split option.split prod.split)
  show ?thesis
  proof (cases "pending c = []")
    case True
    then show ?thesis using assms(1,3) parse kept [of c] by (simp add: v8_consume_message_def consume_message_def)
  next
    case False
    obtain d y where d: "v8_flush_and_clear io c = (d, y)" by fastforce
    then have "y = None" using assms(1-3) False by (cases y) (auto simp: v8_consume_message_def goes_on_def)
    then show ?thesis using assms(1,3) d v8_flush_done [of io c d] assms(4) False parse kept [of d]
      by (simp add: v8_consume_message_def consume_message_def)
  qed
qed

lemma v8_valid_v10:
  assumes "v8_consume_message io cd msg c = (c', out)" "goes_on out" "v8_parse_message cd msg = Inr x"
    and "all_storable cd [msg]" "distinct (pending_ids c @ ids_of cd [msg])"
  shows "consume_message io cd msg c = Some (c', out) \<and>
    (out = Running \<longrightarrow> pending c' = [] \<or> pending_ids c' = pending_ids c @ ids_of cd [msg])"
proof -
  have parse: "parse_message cd msg = Inr x" using assms(3,4) by (intro parse_storable) (simp_all add: all_storable_def)
  define b where "b = add_pending x msg c"
  have ids: "pending_ids b = pending_ids c @ [message_id x]" "ids_of cd [msg] = [message_id x]"
    using assms(3) by (simp_all add: b_def add_pending_def claim_defs ids_of_def)
  show ?thesis
  proof (cases "int (length (pending b)) \<ge> batch_size (handler b)")
    case True
    obtain d y where d: "v8_flush_and_clear io b = (d, y)" by fastforce
    have "(c', out) = (case y of None \<Rightarrow> (d, Running) | Some z \<Rightarrow> (d, Returned (Some z)))"
      using assms(1,3) True d by (simp add: v8_consume_message_def b_def [symmetric] split: option.splits)
    then have y: "y = None" "c' = d" "out = Running" using assms(2) by (auto simp: goes_on_def split: option.splits)
    have "distinct (pending_ids b)" using assms(5) ids by simp
    then show ?thesis using d y v8_flush_done [of io b d] parse True by (simp add: consume_message_def b_def [symmetric])
  next
    case False
    then show ?thesis using assms(1,3) parse ids by (simp add: v8_consume_message_def consume_message_def b_def [symmetric])
  qed
qed

lemma v8_step_v10:
  assumes "v8_consume_step io cd ev c = (c', out)" "goes_on out" "all_storable cd (received [ev])"
    and "distinct (pending_ids c @ ids_of cd (received [ev]))"
  shows "consume_step io cd ev c = Some (c', out) \<and>
    (out = Running \<longrightarrow> pending c' = [] \<or> pending_ids c' = pending_ids c @ ids_of cd (received [ev]))"
proof (cases ev)
  case (Message msg)
  then show ?thesis using assms v8_invalid_v10 [of io cd msg c c' out] v8_valid_v10 [of io cd msg c c' out]
    by (cases "v8_parse_message cd msg") auto
next
  case Tick
  show ?thesis
  proof (cases "pending c = []")
    case False
    obtain d y where d: "v8_flush_and_clear io c = (d, y)" by fastforce
    have "y = None" "c' = d" "out = Running" using assms(1,2) d Tick False
      by (cases y; auto simp: goes_on_def)+
    then show ?thesis using d v8_flush_done [of io c d] assms(4) Tick False by simp
  qed (use assms(1) Tick in simp)
next
  case Channel_closed
  then show ?thesis using assms(1,4) v8_last_flush_v10 [of c io] by (auto split: prod.splits)
next
  case Context_done
  then show ?thesis using assms(1,4) v8_last_flush_v10 [of c io] by (auto split: prod.splits)
qed

lemma ids_of_append: "ids_of cd (xs @ ys) = ids_of cd xs @ ids_of cd ys"
  by (simp add: ids_of_def)

lemma all_storable_append: "all_storable cd (xs @ ys) \<longleftrightarrow> all_storable cd xs \<and> all_storable cd ys"
  by (simp add: all_storable_def)

lemma v8_claim_v10:
  assumes "v8_consume_claim io cd evs c = (c', out)" "goes_on out" "all_storable cd (received evs)"
    and "distinct (pending_ids c @ ids_of cd (received evs))"
  shows "consume_claim io cd evs c = Some (c', out)"
  using assms
proof (induction evs arbitrary: c)
  case (Cons ev evs)
  obtain d y where d: "v8_consume_step io cd ev c = (d, y)" by fastforce
  have parts: "all_storable cd (received [ev])" "all_storable cd (received evs)"
    "distinct ((pending_ids c @ ids_of cd (received [ev])) @ ids_of cd (received evs))"
    using Cons.prems(3,4) received_Cons [of ev evs] by (simp_all add: all_storable_append ids_of_append)
  have goes: "goes_on y" using Cons.prems(1,2) d by (cases y) (auto simp: goes_on_def)
  have step: "consume_step io cd ev c = Some (d, y)"
    "y = Running \<longrightarrow> pending d = [] \<or> pending_ids d = pending_ids c @ ids_of cd (received [ev])"
    using v8_step_v10 [OF d goes parts(1) parts(3) [THEN distinct_append [THEN iffD1], THEN conjunct1]] by simp_all
  show ?case
  proof (cases y)
    case Running
    then have "distinct (pending_ids d @ ids_of cd (received evs))" using step(2) parts(3) by (metis append_Nil distinct_append list.map(1))
    then have "consume_claim io cd evs d = Some (c', out)"
      using Cons.IH [OF _ Cons.prems(2) parts(2)] Cons.prems(1) d Running by simp
    then show ?thesis using step(1) Running by simp
  next
    case (Returned err)
    then have "c' = d" "out = Returned err" using Cons.prems(1) d by simp_all
    then show ?thesis using step(1) Returned by simp
  qed
qed simp

section \<open>Properties\<close>

text \<open>The claims of the eighth stage mark what they receive in order and without a gap: marked and
  pending messages are the received ones, a claim that ends without error has marked everything, and one
  that gives up has marked a prefix.\<close>

theorem v8_marks_in_order:
  assumes "v8_consume_claim io cd evs (new_claim (v8_new_handler cfg) e) = (c, out)"
  shows "case out of
      Running \<Rightarrow> map fst (marks c) @ map pm_message (pending c) = received evs
    | Returned err \<Rightarrow> (\<exists>used. prefix used evs \<and> prefix (map fst (marks c)) (received used) \<and>
        (err = None \<longrightarrow> map fst (marks c) = received used))"
proof -
  have "loop_claim (v8_parse_message cd) (\<lambda>c. Some (v8_flush_and_clear io c)) (v8_flush_before_claim_ends io) io evs
      (new_claim (v8_new_handler cfg) e) = Some (c, out)"
    unfolding v8_consume_claim_loop assms ..
  from v8_loop.claim_outcome [OF this v8_new_claim]
  obtain used where "prefix used evs" "claim_result (v8_parse_message cd) ([] @ received used) c out"
    "out = Running \<longrightarrow> used = evs" by blast
  then show ?thesis by (cases out) (auto simp: claim_result_def claim_inv_def)
qed


lemma v8_parse_tagged:
  "v8_parse_message tagged_codec (kafka_record i ''dm1'') = Inr (sample_danmaku\<lparr>message_id := ''m1''\<rparr>)"
  "v8_parse_message tagged_codec (kafka_record i ''s'') = Inl (Unsupported 102)"
  by (simp_all add: v8_parse_message_def tagged_codec_def kafka_record_def type_danmaku_def
      sample_danmaku_def plain_codec_def trim_space_ascii ascii_def byte_def is_space_def is_zero_def)

lemmas v8_evaluation = v8_consume_message_def v8_flush_and_clear_def v8_flush_pending_def v8_new_handler_def
  v8_parse_tagged

definition v8_demo_config :: v8_consumer_config where
  "v8_demo_config =
     \<lparr>v8c_batch_size = 2, v8c_flush_interval = 0, v8c_flush_timeout = 0, v8c_max_retries = 2, v8c_retry_backoff = 0\<rparr>"

definition v8_demo_events :: "claim_event list" where
  "v8_demo_events = [Message (kafka_record 0 ''dm1''), Message (kafka_record 1 ''s''), Tick]"

text \<open>A run without failures, and the same run in an outage of three inserts, which v8 gives up after two.\<close>

lemma v8_demo_run:
  "\<exists>c. v8_consume_claim demo_io tagged_codec v8_demo_events
         (new_claim (v8_new_handler v8_demo_config) (demo_world\<lparr>database := ([], [])\<rparr>)) = (c, Running) \<and>
     marks c = [(kafka_record 0 ''dm1'', Mysql_committed), (kafka_record 1 ''s'', Unsupported_packet)]"
  by (simp add: demo_io_def demo_world_def v8_demo_events_def v8_demo_config_def v8_evaluation demo_evaluation
      claim_evaluation)

lemma v8_gives_up_in_outage:
  "\<exists>c. v8_consume_claim demo_io tagged_codec v8_demo_events
         (new_claim (v8_new_handler v8_demo_config) demo_world) = (c, Returned (Some (Batch_failed 1))) \<and> marks c = []"
  by (simp add: demo_io_def demo_world_def v8_demo_events_def v8_demo_config_def v8_evaluation demo_evaluation
      claim_evaluation)

theorem v8_marks_in_order_witness:
  "\<exists>c. v8_consume_claim demo_io tagged_codec v8_demo_events
         (new_claim (v8_new_handler v8_demo_config) (demo_world\<lparr>database := ([], [])\<rparr>)) = (c, Running) \<and>
     map fst (marks c) @ map pm_message (pending c) = [kafka_record 0 ''dm1'', kafka_record 1 ''s'']"
proof -
  obtain c where c: "v8_consume_claim demo_io tagged_codec v8_demo_events
      (new_claim (v8_new_handler v8_demo_config) (demo_world\<lparr>database := ([], [])\<rparr>)) = (c, Running)"
    using v8_demo_run by blast
  then show ?thesis using v8_marks_in_order [OF c] by (simp add: v8_demo_events_def)
qed


end
