(* ===== verification/V9_Consumer.thy ===== *)
theory V9_Consumer
  imports V8_Consumer
begin

text \<open>
  The consumer of the ninth stage of the course, \<open>v9/internal/consumer/handler.go\<close>, which waits for
  MySQL to recover instead of failing the claim. Handler, parser, retries and dead letters are v10's; the
  one difference is that v10 removes repeated message ids from a batch before the insert.
\<close>

section \<open>The claim loop\<close>

definition v9_flush_pending ::
  "('e, 'x, 'y) consumer_io \<Rightarrow> flush_ctx \<Rightarrow> pending_message list \<Rightarrow> 'e claim \<Rightarrow> 'e claim \<times> 'y consume_error option" where
  \<comment> \<open>the batch has every pending danmaku; the attempts are those of v10\<close>
  "v9_flush_pending io ctx items c =
     (if items = [] then (c, None)
      else
        (let batch = map pm_danmaku items;
             (c, started) = read_clock io c
         in flush_attempts io ctx items batch started 1 c))"

definition v9_flush_before_claim_ends ::
  "('e, 'x, 'y) consumer_io \<Rightarrow> 'e claim \<Rightarrow> 'e claim \<times> 'y consume_error option" where
  "v9_flush_before_claim_ends io c =
     (if pending c = [] then (c, None)
      else v9_flush_pending io (Timeout_ctx (flush_timeout (handler c))) (pending c) c)"

partial_function (option) v9_recovery_loop ::
  "('e, 'x, 'y) consumer_io \<Rightarrow> pending_message list \<Rightarrow> duration \<Rightarrow> 'e claim \<Rightarrow>
   ('e claim \<times> 'y consume_error option) option" where
  "v9_recovery_loop io items backoff c =
     (let (e, cancelled) = io_timer io Session_ctx backoff (env c);
          c' = c\<lparr>env := e\<rparr>
      in if cancelled then Some (c', Some Recovery_interrupted)
         else
           (let (c'', err) = v9_flush_pending io Session_ctx items c'
            in if err = None
               then Some (count (\<lambda>h. h\<lparr>recoveries := recoveries h + 1\<rparr>) c'', None)
               else v9_recovery_loop io items (grow_backoff backoff (recovery_max (handler c''))) c''))"

declare v9_recovery_loop.simps [code]

definition v9_flush_with_recovery ::
  "('e, 'x, 'y) consumer_io \<Rightarrow> pending_message list \<Rightarrow> 'e claim \<Rightarrow>
   ('e claim \<times> 'y consume_error option) option" where
  "v9_flush_with_recovery io items c =
     (let (c, err) = v9_flush_pending io Session_ctx items c
      in if err = None then Some (c, None)
         else
           (let c = count (\<lambda>h. h\<lparr>pause_events := pause_events h + 1,
                                  paused_partitions := paused_partitions h + 1\<rparr>) c;
                (c, started) = read_clock io c
            in map_option (\<lambda>(c, err). (resume_partition io started c, err))
                 (v9_recovery_loop io items (recovery_min (handler c)) c)))"

definition v9_flush_and_clear ::
  "('e, 'x, 'y) consumer_io \<Rightarrow> 'e claim \<Rightarrow> ('e claim \<times> 'y consume_error option) option" where
  "v9_flush_and_clear io c =
     map_option (\<lambda>(c, err). (if err = None then clear_pending c else c, err))
       (v9_flush_with_recovery io (pending c) c)"

definition v9_consume_message ::
  "('e, 'x, 'y) consumer_io \<Rightarrow> codec \<Rightarrow> consumer_message \<Rightarrow> 'e claim \<Rightarrow> ('e claim \<times> 'y outcome) option" where
  "v9_consume_message io cd msg c =
     (case parse_message cd msg of
        Inl err \<Rightarrow>
          if pending c \<noteq> []
          then
            (case v9_flush_and_clear io c of
               None \<Rightarrow> None
             | Some (c, Some y) \<Rightarrow> Some (c, Returned (Some y))
             | Some (c, None) \<Rightarrow> Some (dispose_invalid io msg err c))
          else Some (dispose_invalid io msg err c)
      | Inr d \<Rightarrow>
          (let c = add_pending d msg c
           in if int (length (pending c)) \<ge> batch_size (handler c)
              then
                (case v9_flush_and_clear io c of
                   None \<Rightarrow> None
                 | Some (c, Some y) \<Rightarrow> Some (c, Returned (Some y))
                 | Some (c, None) \<Rightarrow> Some (c, Running))
              else Some (c, Running)))"

fun v9_consume_step ::
  "('e, 'x, 'y) consumer_io \<Rightarrow> codec \<Rightarrow> claim_event \<Rightarrow> 'e claim \<Rightarrow> ('e claim \<times> 'y outcome) option" where
  "v9_consume_step io cd (Message msg) c = v9_consume_message io cd msg c"
| "v9_consume_step io cd Tick c =
     (if pending c = [] then Some (c, Running)
      else
        (case v9_flush_and_clear io c of
           None \<Rightarrow> None
         | Some (c, Some y) \<Rightarrow> Some (c, Returned (Some y))
         | Some (c, None) \<Rightarrow> Some (c, Running)))"
| "v9_consume_step io cd Channel_closed c =
     (case v9_flush_before_claim_ends io c of (c, err) \<Rightarrow> Some (c, Returned err))"
| "v9_consume_step io cd Context_done c =
     (case v9_flush_before_claim_ends io c of (c, err) \<Rightarrow> Some (c, Returned err))"

fun v9_consume_claim ::
  "('e, 'x, 'y) consumer_io \<Rightarrow> codec \<Rightarrow> claim_event list \<Rightarrow> 'e claim \<Rightarrow> ('e claim \<times> 'y outcome) option" where
  "v9_consume_claim io cd [] c = Some (c, Running)"
| "v9_consume_claim io cd (ev # evs) c =
     (case v9_consume_step io cd ev c of
        None \<Rightarrow> None
      | Some (c, Running) \<Rightarrow> v9_consume_claim io cd evs c
      | Some (c, Returned err) \<Rightarrow> Some (c, Returned err))"

section \<open>An instance of the loop\<close>

lemma v9_flush_pending_v8: "v9_flush_pending io ctx items c = v8_flush_pending io ctx items c"
  by (simp add: v9_flush_pending_def v8_flush_pending_def)

lemma v9_recovery_loop_flushed:
  assumes "v9_recovery_loop io items backoff c = Some r"
  shows "flushed items (snd r) c (fst r)"
  using assms
proof (induction io\<equiv>io items\<equiv>items backoff c r
    rule: v9_recovery_loop.raw_induct [rotated 1, consumes 1, case_names step])
  case (step loop backoff c r)
  obtain e b where waited: "io_timer io Session_ctx backoff (env c) = (e, b)" by fastforce
  obtain d y where flush: "v9_flush_pending io Session_ctx items (c\<lparr>env := e\<rparr>) = (d, y)" by fastforce
  then have d: "flushed items y (c\<lparr>env := e\<rparr>) d" unfolding v9_flush_pending_v8 by (rule v8_flush_pending_flushed)
  have "flushed items (snd r) (c\<lparr>env := e\<rparr>) (fst r)"
  proof (cases b)
    case True
    then have "r = (c\<lparr>env := e\<rparr>, Some Recovery_interrupted)" using step waited by auto
    then show ?thesis by (simp add: flushed_quiet_error quiet_refl)
  next
    case False
    show ?thesis
    proof (cases y)
      case None
      then have "r = (count (\<lambda>h. h\<lparr>recoveries := recoveries h + 1\<rparr>) d, None)" using step waited flush False by auto
      then show ?thesis using d None flushed_quiet [OF _ quiet_counters(4)] by simp
    next
      case (Some z)
      then have "flushed items (snd r) d (fst r)" using step waited flush False by auto
      moreover have "quiet (c\<lparr>env := e\<rparr>) d" using d Some flushed_error [of items z "c\<lparr>env := e\<rparr>" d] by simp
      ultimately show ?thesis by (rule quiet_flushed [rotated])
    qed
  qed
  then show ?case by (rule quiet_flushed [OF quiet_env])
qed

lemma v9_flush_with_recovery_flushed:
  assumes "v9_flush_with_recovery io items c = Some (c', err)"
  shows "flushed items err c c'"
proof -
  obtain d y where flush: "v9_flush_pending io Session_ctx items c = (d, y)" by fastforce
  then have d: "flushed items y c d" unfolding v9_flush_pending_v8 by (rule v8_flush_pending_flushed)
  show ?thesis
  proof (cases y)
    case None
    then show ?thesis using assms flush d by (simp add: v9_flush_with_recovery_def)
  next
    case (Some z)
    define d' where "d' = count (\<lambda>h. h\<lparr>pause_events := pause_events h + 1,
        paused_partitions := paused_partitions h + 1\<rparr>) d"
    obtain e started where clock: "io_now io (env d') = (e, started)" by fastforce
    obtain f where loop: "v9_recovery_loop io items (recovery_min (handler d')) (d'\<lparr>env := e\<rparr>) = Some (f, err)"
      "c' = resume_partition io started f"
      using assms flush Some clock
      by (auto simp: v9_flush_with_recovery_def read_clock_def Let_def d'_def [symmetric])
    have "quiet d (d'\<lparr>env := e\<rparr>)" unfolding d'_def by (rule quiet_trans [OF quiet_counters(5) quiet_env])
    moreover have "quiet c d" using d Some flushed_error [of items z c d] by simp
    ultimately have "quiet c (d'\<lparr>env := e\<rparr>)" by (rule quiet_trans [rotated])
    moreover have "flushed items err (d'\<lparr>env := e\<rparr>) f" using v9_recovery_loop_flushed [OF loop(1)] by simp
    ultimately have "flushed items err c f" by (rule quiet_flushed)
    then show ?thesis unfolding loop(2) by (rule flushed_quiet [OF _ resume_quiet])
  qed
qed

interpretation v9_loop: claim_loop "parse_message cd" "v9_flush_and_clear io" "v9_flush_before_claim_ends io" io for cd io
proof unfold_locales
  fix c c' err
  show "\<exists>d. flushed (pending c) err c d \<and> c' = (if err = None then clear_pending d else d)"
    if flush: "v9_flush_and_clear io c = Some (c', err)"
  proof -
    obtain d where "v9_flush_with_recovery io (pending c) c = Some (d, err)" "c' = (if err = None then clear_pending d else d)"
      using flush by (auto simp: v9_flush_and_clear_def)
    then show ?thesis using v9_flush_with_recovery_flushed by blast
  qed
  show "if pending c = [] then c' = c \<and> err = None else flushed (pending c) err c c'"
    if "v9_flush_before_claim_ends io c = (c', err)"
    using that v8_flush_pending_flushed by (auto simp: v9_flush_before_claim_ends_def v9_flush_pending_v8)
qed

lemma v9_consume_claim_loop:
  "v9_consume_claim io cd evs c = loop_claim (parse_message cd) (v9_flush_and_clear io) (v9_flush_before_claim_ends io) io evs c"
proof -
  have "v9_consume_step io cd ev c =
      loop_step (parse_message cd) (v9_flush_and_clear io) (v9_flush_before_claim_ends io) io ev c" for ev c
    by (cases ev) (simp_all add: v9_consume_message_def loop_message_def)
  then show ?thesis
    by (induction evs arbitrary: c) (simp_all split: option.split prod.split outcome.split)
qed

section \<open>What v10 changed\<close>

lemma v9_recovery_loop_v10:
  assumes "\<And>c. v9_flush_pending io Session_ctx items c = flush_pending io Session_ctx items c"
  shows "v9_recovery_loop io items backoff c = recovery_loop io items backoff c"
proof -
  have to_v10: "recovery_loop io items backoff c = Some r" if "v9_recovery_loop io items backoff c = Some r" for r
    using that
  proof (induction io\<equiv>io items\<equiv>items backoff c r
      rule: v9_recovery_loop.raw_induct [rotated 1, consumes 1, case_names step])
    case (step loop backoff c r)
    then show ?case
      by (cases r, subst recovery_loop.simps) (auto simp: Let_def assms split: prod.splits if_splits)
  qed
  have from_v10: "v9_recovery_loop io items backoff c = Some r" if "recovery_loop io items backoff c = Some r" for r
    using that
  proof (induction io\<equiv>io items\<equiv>items backoff c r
      rule: recovery_loop.raw_induct [rotated 1, consumes 1, case_names step])
    case (step loop backoff c r)
    then show ?case
      by (cases r, subst v9_recovery_loop.simps) (auto simp: Let_def assms split: prod.splits if_splits)
  qed
  show ?thesis
  proof (cases "v9_recovery_loop io items backoff c")
    case None
    then show ?thesis using from_v10 by (cases "recovery_loop io items backoff c") auto
  next
    case (Some r)
    then show ?thesis using to_v10 by simp
  qed
qed

lemma v9_flush_and_clear_v10:
  assumes "distinct (pending_ids c)"
  shows "v9_flush_and_clear io c = flush_and_clear io c"
proof -
  have same: "v9_flush_pending io Session_ctx (pending c) d = flush_pending io Session_ctx (pending c) d" for d
    by (simp add: v9_flush_pending_v8 v8_flush_pending_v10 [OF assms])
  show ?thesis
    unfolding v9_flush_and_clear_def flush_and_clear_def v9_flush_with_recovery_def flush_with_recovery_def
      same v9_recovery_loop_v10 [OF same] ..
qed

lemma v9_last_flush_v10:
  "distinct (pending_ids c) \<Longrightarrow> v9_flush_before_claim_ends io c = flush_before_claim_ends io c"
  by (simp add: flush_before_claim_ends_def v9_flush_before_claim_ends_def v9_flush_pending_v8 v8_flush_pending_v10)

text \<open>The ids of the danmaku among messages, by v10's parser.\<close>

definition valid_ids :: "codec \<Rightarrow> consumer_message list \<Rightarrow> string list" where
  "valid_ids cd ms = concat (map (\<lambda>m. case parse_message cd m of Inl e \<Rightarrow> [] | Inr d \<Rightarrow> [message_id d]) ms)"

lemma v9_step_v10:
  assumes "distinct (pending_ids c @ valid_ids cd (received [ev]))"
  shows "v9_consume_step io cd ev c = consume_step io cd ev c"
proof (cases ev)
  case (Message msg)
  show ?thesis
  proof (cases "parse_message cd msg")
    case (Inl err)
    have "distinct (pending_ids c)" using assms by simp
    then show ?thesis unfolding Message v9_consume_step.simps consume_step.simps v9_consume_message_def consume_message_def Inl
      by (simp add: v9_flush_and_clear_v10)
  next
    case (Inr d)
    have "pending_ids (add_pending d msg c) = pending_ids c @ valid_ids cd (received [ev])"
      using Inr Message by (simp add: add_pending_def claim_defs valid_ids_def)
    then have "distinct (pending_ids (add_pending d msg c))" using assms by simp
    note same = v9_flush_and_clear_v10 [OF this]
    show ?thesis
      unfolding Message v9_consume_step.simps consume_step.simps v9_consume_message_def consume_message_def Inr sum.case
        Let_def same ..
  qed
next
  case Tick
  then show ?thesis using assms v9_flush_and_clear_v10 [of c io] by simp
qed (use assms v9_last_flush_v10 [of c io] in simp_all)

lemma step_pending:
  assumes "consume_step io cd ev c = Some (d, Running)"
  shows "pending d = [] \<or> pending_ids d = pending_ids c @ valid_ids cd (received [ev])"
proof (cases ev)
  case (Message msg)
  show ?thesis
  proof (cases "parse_message cd msg")
    case (Inl err)
    have kept: "pending (fst (dispose_invalid io msg err c)) = pending c" for c :: "'a claim"
      by (auto simp: dispose_invalid_def publish_dead_letter_def claim_defs Let_def
          split: parse_error.split option.split prod.split)
    have "pending d = []"
    proof (cases "pending c = []")
      case True
      then have "d = fst (dispose_invalid io msg err c)" using assms Message Inl by (simp add: consume_message_def)
      then show ?thesis using True kept by simp
    next
      case False
      then obtain f where f: "flush_and_clear io c = Some (f, None)" "d = fst (dispose_invalid io msg err f)"
        using assms Message Inl by (auto simp: consume_message_def split: option.splits)
      then have "pending f = []" by (auto simp: flush_and_clear_def clear_pending_def split: if_splits)
      then show ?thesis using f(2) kept by simp
    qed
    then show ?thesis ..
  next
    case (Inr x)
    then have "d = add_pending x msg c \<or> (\<exists>f. flush_and_clear io (add_pending x msg c) = Some (d, None))"
      using assms Message by (auto simp: consume_message_def Let_def split: if_splits option.splits)
    then show ?thesis using Inr Message
      by (auto simp: add_pending_def claim_defs valid_ids_def flush_and_clear_def clear_pending_def split: if_splits)
  qed
next
  case Tick
  then have "pending c = [] \<and> d = c \<or> flush_and_clear io c = Some (d, None)"
    using assms by (auto split: if_splits option.splits)
  then show ?thesis by (auto simp: flush_and_clear_def clear_pending_def split: if_splits)
qed (use assms in \<open>auto split: prod.splits\<close>)

lemma valid_ids_Cons: "valid_ids cd (received (ev # evs)) = valid_ids cd (received [ev]) @ valid_ids cd (received evs)"
  using received_Cons [of ev evs] by (simp add: valid_ids_def)

lemma v9_claim_v10:
  "distinct (pending_ids c @ valid_ids cd (received evs)) \<Longrightarrow> v9_consume_claim io cd evs c = consume_claim io cd evs c"
proof (induction evs arbitrary: c)
  case (Cons ev evs)
  have parts: "distinct ((pending_ids c @ valid_ids cd (received [ev])) @ valid_ids cd (received evs))"
    using Cons.prems unfolding valid_ids_Cons [of cd ev evs] by simp
  then have "v9_consume_step io cd ev c = consume_step io cd ev c"
    by (intro v9_step_v10) (metis distinct_append)
  moreover have "v9_consume_claim io cd evs d = consume_claim io cd evs d"
    if step: "consume_step io cd ev c = Some (d, Running)" for d
    using step_pending [OF step] parts by (intro Cons.IH) (metis append_Nil distinct_append list.map(1))
  ultimately show ?case by (auto split: option.split prod.split outcome.split)
qed simp

section \<open>Properties\<close>



lemma v9_marks_in_order:
  assumes "v9_consume_claim io cd evs (new_claim (new_handler cfg) e) = Some (c, out)"
  shows "\<exists>used. prefix used evs \<and> claim_result (parse_message cd) (received used) c out \<and> (out = Running \<longrightarrow> used = evs)"
  using v9_loop.claim_outcome [OF assms [unfolded v9_consume_claim_loop] new_claim_inv new_handler_room(1)]
    new_handler_room(2) by simp

end
