(* ===== verification/Spec2Isabelle.thy ===== *)
theory Spec2Isabelle
  imports Breaker RateLimit IdGen Client Prompt Service Benchmark Dataset Proto_Hub Server Load_Bench
    V2_Hub V4_Writer V5_Consumer V6_Hub V9_Consumer
begin

text \<open>
  A verification library for the danmaku (live comment) system of this repository: the newest
  realtime service, \<open>src/v10\<close>, the newest insight service, \<open>src/v11/insight\<close>, and the original
  service at the root, \<open>src/internal\<close>, that v10 grew from.

  \<^bold>\<open>The program.\<close> Browsers connect by WebSocket to the v10 server. Its hub
  (\<open>internal/ws/manager.go\<close>) keeps the rooms, takes danmaku and likes from the clients' read pumps,
  fans them out through Redis or locally, and hands danmaku to a Kafka publisher
  (\<open>internal/queue\<close>). A second process (\<open>internal/consumer\<close>) reads them back and stores them in
  MySQL (\<open>internal/repo\<close>), with retries and a dead-letter topic. Rate limits, a circuit breaker,
  login and message ids are libraries of the server. The v11 insight service replays message events
  into time windows, analyzes every window with a language model behind a guard or with rules, and
  answers queries for the insights over HTTP; a benchmark drives it with a simulated model, and a
  cleaner makes its input from public comments. The original service has the same hub and consumer
  without limits, acknowledgements and recovery.

  \<^bold>\<open>What is modelled where.\<close> A theory per component; the names of the definitions are those of the
  code in lower case.

  \<^item> \<open>Prelude\<close>: 64-bit counters, instants, Go maps, channels, runs and simulations. \<open>Float64\<close>: IEEE
    double arithmetic as rounding of reals. \<open>Go_Strings\<close>, \<open>Go_Time\<close>, \<open>Http\<close>: UTF-8 runes,
    \<open>strings.TrimSpace\<close>, \<open>strings.Fields\<close>, RFC 3339 times, requests and responses.
  \<^item> \<open>Breaker\<close> (\<open>resilience/breaker.go\<close>): \<open>cb_allow\<close>, \<open>cb_complete\<close>; \<open>breaker_step\<close> interleaves
    any calls.
  \<^item> \<open>RateLimit\<close> (\<open>ratelimit/controller.go\<close>): token buckets in shards, evicted when idle; the
    connection slots; \<open>IdGen\<close> (\<open>idgen/generator.go\<close>): the ids.
  \<^item> \<open>Model\<close>, \<open>Publisher\<close>, \<open>Repo\<close>, \<open>Redis\<close>: \<open>model/\<close>, \<open>queue/\<close>, \<open>repo/\<close>, \<open>infra/redis.go\<close>.
  \<^item> \<open>Consumer\<close>, \<open>Delivery\<close> (\<open>consumer/handler.go\<close>, \<open>cmd/consumer/main.go\<close>): a claim as a run over
    messages, ticks, pauses and the end of the session; the delivery guarantees.
  \<^item> \<open>Manager\<close>, \<open>Hub\<close>, \<open>Realtime\<close>, \<open>Client\<close> (\<open>ws/manager.go\<close>, \<open>ws/client.go\<close>, \<open>ws/handler.go\<close>): the
    state of the hub with its clients by address, every handler, the events of a run, the pumps and
    the upgrade. \<open>Auth\<close> (\<open>auth/service.go\<close>): login, tokens, the middleware.
  \<^item> \<open>Commands\<close> (\<open>cmd/migrate\<close>, \<open>cmd/query\<close>, \<open>infra/db.go\<close>): the migration with its seed account, the
    query. \<open>Server\<close> (\<open>cmd/server/main.go\<close>, \<open>webapp/handler.go\<close>): the start from the flags, the
    routes, the metrics page, the files of the web application. \<open>Load_Bench\<close> (\<open>cmd/benchmark\<close>): the
    latency histogram, the bots and their counters.
  \<^item> \<open>Insight\<close>, \<open>Window_Store\<close>, \<open>Insight_Repo\<close> (v11 \<open>domain/\<close>, \<open>adapters/window/memory\<close>,
    \<open>adapters/repository/memory\<close>): events, windows, insights and the two stores.
  \<^item> \<open>Rule_Analyzer\<close>, \<open>Model_Analyzer\<close>, \<open>Prompt\<close> (\<open>adapters/analyzer\<close>): the statistics, the
    prompt, the validation of answers, the guard, the fake and the DeepSeek model.
  \<^item> \<open>Processor\<close>, \<open>Service\<close> (\<open>app/\<close>, \<open>benchmark/run.go\<close>): ingestion, the workers under every
    interleaving of their calls, rounds until nothing is due.
  \<^item> \<open>Insight_Api\<close> (\<open>httpapi/\<close>): routing of escaped paths, limits, answers, static files over a file
    system with symbolic links. \<open>Replay\<close> (\<open>adapters/source/jsonl\<close>, \<open>cmd/insightd\<close>): reading the lines,
    the checks of the flags, the start of the service down to the handler it serves.
  \<^item> \<open>Benchmark\<close> (\<open>benchmark/run.go\<close>, \<open>cmd/insightbench\<close>): the run, its scenarios, its check over HTTP
    and its report. \<open>Dataset\<close> (\<open>cmd/datasetclean\<close>): selection, scaling, anonymous events.
  \<^item> \<open>Proto_Consumer\<close> (root \<open>internal/consumer\<close>, \<open>repo\<close>, \<open>service\<close>): the claims, the channel and the
    database worker as interleaved steps over sessions. \<open>Proto_Hub\<close> (root \<open>internal/ws\<close>, \<open>api\<close>,
    \<open>infra/redis.go\<close>): the manager with its workers, subscriptions, statistics and clients.
  \<^item> The stages between: \<open>V1_Hub\<close> (\<open>src/v1/internal/ws\<close>), the first hub with one loop and its pumps;
    \<open>V2_Hub\<close> (\<open>src/v2/internal/ws\<close>), the hub with broadcast workers and counters; \<open>V4_Writer\<close>
    (\<open>src/v4/internal/store\<close>), the database writer in the server; \<open>V5_Consumer\<close>
    (\<open>src/v5/internal/consumer\<close>, \<open>queue\<close>), the first consumer; \<open>V6_Hub\<close> (\<open>src/v6/internal/ws\<close>), the hub
    that servers share through Redis, over the arrays of \<open>Go_Slices\<close>; \<open>V8_Consumer\<close> and \<open>V9_Consumer\<close>
    (\<open>src/v8\<close>, \<open>src/v9/internal/consumer\<close>), the consumers with dead letters and with recovery.

  \<^bold>\<open>What the lemmas show.\<close> Delivery: an offset is marked only when its message is durable, in order,
  without gap, and an outage of any finite length is survived. Breaker and limits: one probe at a
  time, stale results are ignored, eviction of buckets is unobservable, slots are conserved. Hub:
  rooms, subscriptions and queues stay consistent, slow clients are cut, likes are conserved, Redis
  failures fall back. Access: tokens round-trip, foreign ones are refused, a connection acts with the
  identity of its token, and what it sends is storable; a server that requires login lets nobody in
  without a token, and a seeded account logs in. Insight: the window store implements its log,
  claims are exclusive, every claimed window ends with a valid insight that cites only messages of
  its window, the workers and the rounds terminate, reading agrees with itself, every room is read
  over HTTP whatever its name, the start of the service serves what it replayed, and the benchmark
  always ends with every room verified. Original service: rooms, subscriptions and queues stay
  consistent, what the server records the consumer reads, marks are in order; and what it does wrong:
  no second session, likes that subtract, marked danmaku that are lost. Stages between: messages
  arrive in order with one loop or one worker and only then, the writer's drain settles everything
  though a shutdown may lose messages before it, the first consumer loses what waits behind a bad
  message, the hub shared through Redis reuses its slices without sharing one but may repeat a message
  in a room that is rejoined, and the later ones refine to v10's consumer where no flush fails and no id is repeated.

  \<^bold>\<open>Interfaces.\<close> \<open>simulation\<close> (Prelude) is the contract between a component and its specification,
  interpreted for the rate limiter; \<open>insight_repository\<close> is what the processor needs of the
  repository, interpreted on the memory repository; \<open>claim_loop\<close> (Consumer) is the loop of a claim over
  any way to parse and to flush, interpreted for the consumers of v8, v9 and v10; the consumer's and publisher's contracts are
  interpreted on the code's models in their theories.

  \<^bold>\<open>Parameters.\<close> Code that is not in the repository is an argument: the JSON texts (\<open>codec\<close>,
  \<open>semantic_json\<close>), GORM and MySQL, Sarama, the Redis client, bcrypt and JWT signatures, HTTP
  exchanges, clocks and timers. Their laws are named hypotheses, and the witnesses instantiate them.

  \<^bold>\<open>Bounds.\<close> Loops without a bound in the code (the recovery of a partition, the benchmark's rounds)
  are \<open>partial_function\<close>s into options, and that they return is proved. Counters and the breaker's
  generation are 64-bit words that wrap. Doubles are reals rounded to 53 bits without overflow.

  \<^bold>\<open>Not modelled.\<close> Logging, signals, flags and wiring of the commands; the set-up of MySQL and Kafka;
  the demo clients and the tools of the original service; the browser front ends. The other parts of
  the stages \<open>v1\<close> to \<open>v9\<close> (their other managers, servers and commands) are earlier forms of what
  is modelled as v10 has it.
\<close>

end
